(* ===== verification/Prelude.thy ===== *)
theory Prelude
  imports Main "HOL-Library.Word" "HOL-Library.Monad_Syntax"
begin

text \<open>
  Shared vocabulary of the development.

  \<^item> Type names for the machine integers of the Go sources: \<open>u8\<close>, \<open>u16\<close>, \<open>u32\<close> and \<open>u64\<close>
    are \<open>uint8\<close> .. \<open>uint64\<close>; a Go conversion \<open>int64(x)\<close> of a \<open>uint64\<close> is \<^term>\<open>sint\<close>.
  \<^item> A run-time panic (an index out of range, a nil dereference) is the value \<^term>\<open>None\<close> of an
    \<open>option\<close>, threaded with the \<open>do\<close> notation; an \<open>error\<close> result is an \<open>Inl\<close> of a sum.
  \<^item> Generic lemmas on words, lists and options, and the theorem collections the component
    proofs use: \<open>word_order\<close> (comparison and subtraction of words read through \<^term>\<open>unat\<close>).
\<close>

type_synonym u8 = "8 word"
type_synonym u16 = "16 word"
type_synonym u32 = "32 word"
type_synonym u64 = "64 word"

unbundle bit_operations_syntax

named_theorems word_order \<open>word comparisons and wrapping subtraction over unat\<close>

section \<open>Words\<close>

lemma unat_minus_wrap:
  "unat (a - b) = (if b \<le> a then unat a - unat b else 2 ^ LENGTH('a) + unat a - unat b)"
  for a b :: "'a::len word"
  by (auto simp: unat_sub_if' word_le_nat_alt)

text \<open>The half range \<open>1 << (bits - 1)\<close> that separates \<open>before\<close> from \<open>after\<close> on a ring.\<close>

definition half_range :: "'a::len word" where
  "half_range = 2 ^ (LENGTH('a) - 1)"

lemma unat_half_range: "unat (half_range :: 'a::len word) = 2 ^ (LENGTH('a) - 1)"
proof -
  have "(2::nat) ^ (LENGTH('a) - 1) < 2 ^ LENGTH('a)" by simp
  moreover have "(half_range :: 'a word) = of_nat (2 ^ (LENGTH('a) - 1))"
    by (simp add: half_range_def)
  ultimately show ?thesis by (metis unat_of_nat mod_less)
qed

lemma two_half_range: "2 ^ LENGTH('a::len) = 2 * (2 ^ (LENGTH('a) - 1) :: nat)"
  by (metis One_nat_def Suc_pred len_gt_0 power_Suc)

lemma unat_lt_two_half: "unat (x :: 'a::len word) < 2 * 2 ^ (LENGTH('a) - 1)"
  by (metis two_half_range unsigned_less)

lemmas [word_order] =
  word_le_nat_alt word_less_nat_alt unat_minus_wrap unat_half_range two_half_range

text \<open>On the half ring behind \<open>a\<close>, the wrapping distance is below the half range exactly when
  the point lies at or after \<open>a\<close>.\<close>

lemma ring_dist_forward:
  assumes "a \<le> k" and "unat k - unat a < 2 ^ (LENGTH('a) - 1)"
  shows "k - a < (half_range :: 'a::len word)"
  using assms by (simp add: word_order)

lemma ring_dist_backward:
  assumes "(k :: 'a::len word) < a" and "unat a - unat k \<le> 2 ^ (LENGTH('a) - 1)"
  shows "\<not> k - a < half_range"
  using assms unat_lt_two_half [of a] unat_lt_two_half [of k]
  by (simp add: word_order)

lemma ring_dist_iff:
  assumes "unat k - unat a < 2 ^ (LENGTH('a) - 1)" and "unat a - unat k \<le> 2 ^ (LENGTH('a) - 1)"
  shows "k - a < (half_range :: 'a::len word) \<longleftrightarrow> a \<le> k"
  using assms ring_dist_forward [of a k] ring_dist_backward [of k a]
  by (metis linorder_not_less)

lemma word_succ_no_wrap:
  "(a :: 'a::len word) < b \<Longrightarrow> unat (a + 1) = unat a + 1"
  using unat_lt_two_half [of b] by (simp add: word_less_nat_alt unat_plus_if' two_half_range)

lemma word_pred_no_wrap:
  "(a :: 'a::len word) < b \<Longrightarrow> unat (b - 1) = unat b - 1"
  by (rule unat_minus_one) auto

text \<open>Go's conversion \<open>int64(a - b)\<close> on numbers below the half range is the true difference.\<close>

lemma sint_word_of_int_u64:
  "- (2 ^ 63) \<le> k \<Longrightarrow> k < 2 ^ 63 \<Longrightarrow> sint (word_of_int k :: u64) = k"
  by (simp add: sint_sbintrunc' signed_take_bit_int_eq_self)

lemma sint_diff_below_half:
  assumes "(a :: u64) < half_range" "b < half_range"
  shows "sint (a - b) = int (unat a) - int (unat b)"
proof -
  have "unat a < 2 ^ 63" "unat b < 2 ^ 63"
    using assms by (simp_all only: word_less_nat_alt unat_half_range) simp_all
  moreover have "sint (word_of_int (int k - int l) :: u64) = int k - int l"
    if "k < 2 ^ 63" "l < 2 ^ 63" for k l
    using that by (intro sint_word_of_int_u64) auto
  ultimately have "sint (word_of_int (int (unat a) - int (unat b)) :: u64) = int (unat a) - int (unat b)"
    by blast
  then show ?thesis by simp
qed

lemma below_half_succ:
  "(a :: u64) < half_range \<Longrightarrow> unat (a + 1) = unat a + 1 \<and> a + 1 \<noteq> 0 \<and> a + 1 \<le> half_range"
  using word_succ_no_wrap [of a half_range] unat_0_iff [of "a + 1"]
  by (auto simp: word_less_nat_alt word_le_nat_alt)

text \<open>Extending a truncated counter against the highest full value seen: \<open>extend_word\<close> is the
  value with those low bits among the last ones up to the highest.\<close>

lemma unat_of_nat_u64: "n < 2 ^ 64 \<Longrightarrow> unat (of_nat n :: u64) = n"
  by (simp add: unat_of_nat)

lemma and_high_mask: "unat ((x :: u64) AND NOT (mask n)) = unat x - unat x mod 2 ^ n"
proof -
  have "x AND NOT (mask n) = push_bit n (drop_bit n x)"
    by (rule bit_word_eqI) (auto simp: bit_simps)
  then have "x AND NOT (mask n) = x - take_bit n x" by (metis add_diff_cancel_right' bits_ident)
  moreover have "take_bit n x \<le> x" by (simp add: take_bit_eq_mask word_and_le2)
  moreover have "unat (take_bit n x) = unat x mod 2 ^ n"
    by (metis take_bit_eq_mod unsigned_take_bit_eq)
  ultimately show ?thesis by (simp only: unat_sub)
qed

text \<open>The one number among the \<open>m\<close> numbers up to \<open>h\<close> with the given residue.\<close>

lemma extend_nat:
  fixes h s m :: nat
  assumes "s < m" "m \<le> h"
  defines "e \<equiv> s + (h - h mod m) - (if s > h mod m then m else 0)"
  shows "e mod m = s" and "e \<le> h" and "h < e + m"
proof -
  define q r where "q = h div m" and "r = h mod m"
  have hr: "h = m * q + r" "r < m" using assms by (auto simp: q_def r_def)
  have "q \<noteq> 0" using hr assms(2) by (cases q) auto
  then obtain q' where q': "q = Suc q'" by (cases q) auto
  have e: "e = s + m * (if s > r then q' else q)"
  proof -
    have "h - h mod m = m * q" by (simp add: q_def minus_mod_eq_mult_div)
    then show ?thesis using q' by (simp add: e_def r_def)
  qed
  show "e mod m = s" using assms(1) by (simp add: e)
  show "e \<le> h" "h < e + m" using hr q' assms(1) by (auto simp: e)
qed

definition extend_word :: "u64 \<Rightarrow> 'a::len word \<Rightarrow> u64" where
  "extend_word highest low =
     (let ext = ucast low + (highest AND NOT (mask LENGTH('a)))
      in if low > ucast highest then ext - 2 ^ LENGTH('a) else ext)"

lemma extend_word_spec:
  fixes low :: "'a::len word"
  assumes h: "2 ^ LENGTH('a) \<le> unat highest" and len: "LENGTH('a) \<le> 64"
  shows "ucast (extend_word highest low) = low"
    and "unat (extend_word highest low) \<le> unat highest"
    and "unat highest < unat (extend_word highest low) + 2 ^ LENGTH('a)"
proof -
  let ?n = "LENGTH('a)" and ?m = "unat highest mod 2 ^ LENGTH('a)"
  have base: "unat (highest AND NOT (mask ?n)) = unat highest - ?m" by (rule and_high_mask)
  have lt: "unat low < 2 ^ ?n" "unat highest < 2 ^ 64"
    using unsigned_less [of highest, where ?'a = nat] by simp_all
  have "(2 :: nat) ^ ?n \<le> 2 ^ 64" by (rule power_increasing [OF len]) simp
  then have "unat low < 2 ^ 64" using lt(1) by linarith
  then have u: "unat (ucast low :: u64) = unat low" "unat (ucast highest :: 'a word) = ?m"
    by (simp_all add: unsigned_ucast_eq take_bit_eq_mod)
  note ext = extend_nat [OF lt(1) h]
  let ?x = "unat low + (unat highest - ?m)"
  let ?e = "?x - (if unat low > ?m then 2 ^ ?n else 0)"
  have e: "unat (extend_word highest low) = ?e"
  proof -
    have x: "word_of_nat ?x = ucast low + (highest AND NOT (mask ?n))"
    proof -
      have "word_of_nat (unat highest - ?m) = highest AND NOT (mask ?n)"
        by (subst base [symmetric]) (simp only: of_nat_unat ucast_id)
      then show ?thesis by (simp only: of_nat_add of_nat_unat)
    qed
    have "2 ^ ?n \<le> unat highest - ?m"
      using h by (metis dvd_minus_mod dvd_imp_le mod_less_divisor zero_less_diff less_le_trans
          zero_less_numeral zero_less_power)
    then have le: "2 ^ ?n \<le> ?x" by linarith
    have "(word_of_nat (x - 2 ^ ?n) :: u64) = word_of_nat x - 2 ^ ?n" if "2 ^ ?n \<le> x" for x
      using that by (simp add: of_nat_diff)
    from this [OF le] have sub: "(word_of_nat (?x - 2 ^ ?n) :: u64) = word_of_nat ?x - 2 ^ ?n" .
    have "word_of_nat ?e = extend_word highest low"
    proof (cases "?m < unat low")
      case True
      show ?thesis
        unfolding extend_word_def Let_def word_less_nat_alt u if_P [OF True] x [symmetric] by (rule sub)
    next
      case False
      show ?thesis
        unfolding extend_word_def Let_def word_less_nat_alt u if_not_P [OF False] x [symmetric] by simp
    qed
    moreover have "?e < 2 ^ 64" using ext lt by linarith
    ultimately show ?thesis by (metis unat_of_nat_u64)
  qed
  show "ucast (extend_word highest low) = low"
    using ext(1) by (simp add: word_eq_iff_unsigned [where ?'a = nat] e unsigned_ucast_eq take_bit_eq_mod)
  show "unat (extend_word highest low) \<le> unat highest"
    "unat highest < unat (extend_word highest low) + 2 ^ ?n"
    using ext e by simp_all
qed
section \<open>Lists and options\<close>

lemma last_eq_nth: "xs \<noteq> [] \<Longrightarrow> last xs = xs ! (length xs - 1)"
  by (rule last_conv_nth)

lemma bind_Some_iff: "Option.bind x f = Some y \<longleftrightarrow> (\<exists>a. x = Some a \<and> f a = Some y)"
  by (cases x) auto

end
