(* ===== verification/Layers.thy ===== *)
theory Layers
  imports Prelude
begin

text \<open>
  Spatial and temporal layers of a video stream: \<open>VideoLayer\<close> of \<open>pkg/sfu/buffer/videolayer.go\<close>. The two
  numbers are \<open>int32\<close> in the source and never computed with beyond \<open>+ 1\<close>: they are integers here.
\<close>

record VideoLayer =
  Spatial :: int
  Temporal :: int

definition InvalidLayerSpatial :: int where
  "InvalidLayerSpatial = -1"

definition InvalidLayerTemporal :: int where
  "InvalidLayerTemporal = -1"

definition InvalidLayer :: VideoLayer where
  "InvalidLayer = \<lparr>Spatial = InvalidLayerSpatial, Temporal = InvalidLayerTemporal\<rparr>"

definition DefaultMaxLayer :: VideoLayer where
  "DefaultMaxLayer = \<lparr>Spatial = 2, Temporal = 3\<rparr>"

definition GreaterThan :: "VideoLayer \<Rightarrow> VideoLayer \<Rightarrow> bool" where
  "GreaterThan v v2 \<longleftrightarrow>
     Spatial v > Spatial v2 \<or> (Spatial v = Spatial v2 \<and> Temporal v > Temporal v2)"

definition SpatialGreaterThanOrEqual :: "VideoLayer \<Rightarrow> VideoLayer \<Rightarrow> bool" where
  "SpatialGreaterThanOrEqual v v2 \<longleftrightarrow> Spatial v \<ge> Spatial v2"

definition IsValid :: "VideoLayer \<Rightarrow> bool" where
  "IsValid v \<longleftrightarrow> Spatial v \<noteq> InvalidLayerSpatial \<and> Temporal v \<noteq> InvalidLayerTemporal"

text \<open>The order on layers is a strict linear order.\<close>

lemma GreaterThan_trans: "GreaterThan a b \<Longrightarrow> GreaterThan b c \<Longrightarrow> GreaterThan a c"
  by (auto simp: GreaterThan_def)

lemma GreaterThan_total: "a \<noteq> b \<Longrightarrow> GreaterThan a b \<or> GreaterThan b a" for a b :: VideoLayer
  by (cases a; cases b) (auto simp: GreaterThan_def)

end
