(* ===== verification/BitStream.thy ===== *)
theory BitStream
  imports Prelude
begin

text \<open>
  Bit streams over byte buffers: \<open>bitstreamreader.go\<close> and \<open>bitstreamwriter.go\<close> of
  \<open>pkg/sfu/rtpextension/dependencydescriptor\<close>.

  A reader counts down the bits that remain, a writer keeps a byte position and a bit offset in
  that byte. Reads return the new reader and an error or a value, writes an error or the new writer;
  an index out of range is the error \<open>GoPanic\<close>. Sizes are Go \<open>int\<close>s: \<^typ>\<open>int\<close> where
  the code compares them with zero, \<^typ>\<open>nat\<close> where they are never negative.

  Lemmas: read through \<open>bytes_bits\<close>, the bits of a buffer from the most significant one, a read
  takes bits from the front of what remains and a write replaces bits at its position. The locale
  \<open>bit_codec\<close> states what a pair of a writer and a reader for one kind of value promises, and
  its laws give the round trip; it is interpreted for plain bits, flags and non-symmetric values.
\<close>

section \<open>Model\<close>

datatype dd_error =
    GoPanic
  | ErrInvalidNumBits
  | ErrEOF
  | ErrInvalidNumValues
  | ErrInsufficientSpace
  | ErrInvalidArgument
  | ErrBufferTooSmall
  | ErrNoTemplateFound
  | ErrInvalidTemplates
  | ErrInvalidNextLayerIdc
  | ErrNoChainDiff
  | ErrDDReaderNoStructure
  | ErrDDReaderTemplateWithoutStructure
  | ErrDDReaderTooManyTemplates
  | ErrDDReaderTooManyTemporalLayers
  | ErrDDReaderTooManySpatialLayers
  | ErrDDReaderInvalidTemplateIndex
  | ErrDDReaderInvalidSpatialLayer
  | ErrDDReaderNumDTIMismatch
  | ErrDDReaderNumChainDiffsMismatch

record BitStreamReader =
  br_buf :: "u8 list"
  br_pos :: nat
  remainingBits :: int

type_synonym 'a reading = "BitStreamReader \<Rightarrow> BitStreamReader \<times> (dd_error + 'a)"

definition NewBitStreamReader :: "u8 list \<Rightarrow> BitStreamReader" where
  "NewBitStreamReader buf = \<lparr>br_buf = buf, br_pos = 0, remainingBits = int (length buf * 8)\<rparr>"

text \<open>The loop over full bytes; it returns the result, the position and the bits left to read.\<close>

fun readBytes :: "u8 list \<Rightarrow> nat \<Rightarrow> nat \<Rightarrow> u64 \<Rightarrow> (u64 \<times> nat \<times> nat) option" where
  "readBytes buf pos bits result =
     (if bits \<ge> 8
      then if pos < length buf
           then readBytes buf (pos + 1) (bits - 8) (result OR push_bit (bits - 8) (ucast (buf ! pos)))
           else None
      else Some (result, pos, bits))"

declare readBytes.simps [simp del]

definition ReadBits :: "int \<Rightarrow> u64 reading" where
  "ReadBits bits b =
     (if bits < 0 \<or> bits > 64 then (b, Inl ErrInvalidNumBits)
      else if remainingBits b < bits
      then (b\<lparr>remainingBits := remainingBits b - bits\<rparr>, Inl ErrEOF)
      else
        let first = nat (remainingBits b mod 8);
            b = b\<lparr>remainingBits := remainingBits b - bits\<rparr>;
            n = nat bits
        in
          if n < first
          then if br_pos b < length (br_buf b)
               then (b, Inr (ucast (drop_bit (first - n) (br_buf b ! br_pos b) AND (2 ^ n - 1))))
               else (b, Inl GoPanic)
          else if first > 0 \<and> \<not> br_pos b < length (br_buf b) then (b, Inl GoPanic)
          else
            let (n, result, pos) =
                  (if first > 0
                   then (n - first, push_bit (n - first) (ucast (br_buf b ! br_pos b AND (2 ^ first - 1))),
                         br_pos b + 1)
                   else (n, 0, br_pos b))
            in case readBytes (br_buf b) pos n result of
                 None \<Rightarrow> (b, Inl GoPanic)
               | Some (result, pos, n) \<Rightarrow>
                   let b = b\<lparr>br_pos := pos\<rparr> in
                   if n > 0
                   then if pos < length (br_buf b)
                        then (b, Inr (result OR ucast (drop_bit (8 - n) (br_buf b ! pos))))
                        else (b, Inl GoPanic)
                   else (b, Inr result))"

text \<open>Sequencing: the rest is run on the value read, an error ends the reading.\<close>

definition bindR :: "'a reading \<Rightarrow> ('a \<Rightarrow> 'b reading) \<Rightarrow> 'b reading" where
  "bindR m f b = (case m b of (b, Inl err) \<Rightarrow> (b, Inl err) | (b, Inr x) \<Rightarrow> f x b)"

definition returnR :: "'a \<Rightarrow> 'a reading" where
  "returnR x b = (b, Inr x)"

definition failR :: "dd_error \<Rightarrow> 'a reading" where
  "failR err b = (b, Inl err)"

definition ReadBool :: "bool reading" where
  "ReadBool = bindR (ReadBits 1) (\<lambda>val. returnR (val \<noteq> 0))"

definition Ok :: "BitStreamReader \<Rightarrow> bool" where
  "Ok b \<longleftrightarrow> remainingBits b \<ge> 0"

definition Invalidate :: "BitStreamReader \<Rightarrow> BitStreamReader" where
  "Invalidate b = b\<lparr>remainingBits := -1\<rparr>"

function bitwidth :: "u32 \<Rightarrow> nat" where
  "bitwidth n = (if n = 0 then 0 else bitwidth (drop_bit 1 n) + 1)"
  by auto
termination
proof (relation "measure unat")
  fix n :: u32 assume "n \<noteq> 0"
  then have "unat (drop_bit 1 n) < unat n"
    by (simp add: drop_bit_Suc unat_div unat_gt_0)
  then show "(drop_bit 1 n, n) \<in> measure unat" by simp
qed simp

declare bitwidth.simps [simp del]

text \<open>\<open>1 << width\<close> on a \<open>uint32\<close>: zero from a width of 32 on.\<close>

definition numMinBits :: "u32 \<Rightarrow> u32" where
  "numMinBits numValues = push_bit (bitwidth numValues) 1 - numValues"

definition ReadNonSymmetric :: "u32 \<Rightarrow> u32 reading" where
  "ReadNonSymmetric numValues =
     (if numValues \<ge> 2 ^ 31 then failR ErrInvalidNumValues
      else
        let width = bitwidth numValues; numMinBitsValues = numMinBits numValues in
        bindR (ReadBits (int width - 1)) (\<lambda>val.
          if val < ucast numMinBitsValues then returnR (ucast val)
          else bindR (ReadBits 1) (\<lambda>bit.
            returnR (ucast (push_bit 1 val + bit - ucast numMinBitsValues)))))"

definition BytesRead :: "BitStreamReader \<Rightarrow> nat" where
  "BytesRead b = (if remainingBits b mod 8 > 0 then br_pos b + 1 else br_pos b)"

record BitStreamWriter =
  bw_buf :: "u8 list"
  bw_pos :: nat
  bitOffset :: nat

type_synonym writing = "BitStreamWriter \<Rightarrow> dd_error + BitStreamWriter"

definition NewBitStreamWriter :: "u8 list \<Rightarrow> BitStreamWriter" where
  "NewBitStreamWriter buf = \<lparr>bw_buf = buf, bw_pos = 0, bitOffset = 0\<rparr>"

definition w_RemainingBits :: "BitStreamWriter \<Rightarrow> int" where
  "w_RemainingBits w = (int (length (bw_buf w)) - int (bw_pos w)) * 8 - int (bitOffset w)"

definition writePartialByte :: "u8 \<Rightarrow> nat \<Rightarrow> u8 \<Rightarrow> nat \<Rightarrow> u8" where
  "writePartialByte source sourceBitCount target targetBitOffset =
     (let m = drop_bit targetBitOffset (push_bit (8 - sourceBitCount) 0xff)
      in (target AND NOT m) OR drop_bit targetBitOffset source)"

definition consumeBits :: "nat \<Rightarrow> writing" where
  "consumeBits bitCount w =
     (if int bitCount > w_RemainingBits w then Inl ErrInsufficientSpace
      else Inr (w\<lparr>bw_pos := bw_pos w + (bitOffset w + bitCount) div 8,
                  bitOffset := (bitOffset w + bitCount) mod 8\<rparr>))"

text \<open>The loop over full bytes; the top byte of \<open>val\<close> goes to the byte at \<open>i\<close>.\<close>

fun writeBytes :: "u8 list \<Rightarrow> nat \<Rightarrow> u64 \<Rightarrow> nat \<Rightarrow> (u8 list \<times> nat \<times> u64 \<times> nat) option" where
  "writeBytes buf i val bitCount =
     (if bitCount \<ge> 8
      then if i < length buf
           then writeBytes (buf[i := ucast (drop_bit 56 val)]) (i + 1) (push_bit 8 val) (bitCount - 8)
           else None
      else Some (buf, i, val, bitCount))"

declare writeBytes.simps [simp del]

text \<open>A shift by a negative count panics, so \<open>bitCount\<close> may not exceed 64.\<close>

definition WriteBits :: "u64 \<Rightarrow> nat \<Rightarrow> writing" where
  "WriteBits val bitCount w =
     (if int bitCount > w_RemainingBits w then Inl ErrInsufficientSpace
      else if bitCount > 64 \<or> \<not> bw_pos w < length (bw_buf w) then Inl GoPanic
      else
        let val = push_bit (64 - bitCount) val;
            i = bw_pos w;
            remaining = 8 - bitOffset w;
            first = min bitCount remaining;
            buf = (bw_buf w)[i := writePartialByte (ucast (drop_bit 56 val)) first (bw_buf w ! i) (bitOffset w)]
        in
          if bitCount \<le> remaining then consumeBits bitCount (w\<lparr>bw_buf := buf\<rparr>)
          else
            (case writeBytes buf (i + 1) (push_bit first val) (bitCount - first) of
               None \<Rightarrow> Inl GoPanic
             | Some (buf, i, val, left) \<Rightarrow>
                 if left > 0
                 then if i < length buf
                      then consumeBits bitCount
                             (w\<lparr>bw_buf := buf[i := writePartialByte (ucast (drop_bit 56 val)) left (buf ! i) 0]\<rparr>)
                      else Inl GoPanic
                 else consumeBits bitCount (w\<lparr>bw_buf := buf\<rparr>)))"

text \<open>Sequencing of writes.\<close>

definition thenW :: "writing \<Rightarrow> writing \<Rightarrow> writing" where
  "thenW f g w = (case f w of Inl err \<Rightarrow> Inl err | Inr w \<Rightarrow> g w)"

definition skipW :: writing where
  "skipW w = Inr w"

definition failW :: "dd_error \<Rightarrow> writing" where
  "failW err w = Inl err"

fun seqW :: "writing list \<Rightarrow> writing" where
  "seqW [] = skipW"
| "seqW (f # fs) = thenW f (seqW fs)"

definition WriteNonSymmetric :: "u32 \<Rightarrow> u32 \<Rightarrow> writing" where
  "WriteNonSymmetric val numValues =
     (if val \<ge> numValues \<or> numValues > 2 ^ 31 then failW ErrInvalidArgument
      else if numValues = 1 then skipW
      else
        let countBits = bitwidth numValues; numMinBitsValues = numMinBits numValues in
        if val < numMinBitsValues then WriteBits (ucast val) (countBits - 1)
        else WriteBits (ucast (val + numMinBitsValues)) countBits)"

definition SizeNonSymmetricBits :: "u32 \<Rightarrow> u32 \<Rightarrow> int" where
  "SizeNonSymmetricBits val numValues =
     (let countBits = bitwidth numValues; numMinBitsValues = numMinBits numValues in
      if val < numMinBitsValues then int countBits - 1 else int countBits)"

section \<open>Bits of a buffer\<close>

definition byte_bits :: "u8 \<Rightarrow> bool list" where
  "byte_bits b = map (\<lambda>i. bit b (7 - i)) [0..<8]"

definition bytes_bits :: "u8 list \<Rightarrow> bool list" where
  "bytes_bits buf = concat (map byte_bits buf)"

text \<open>The last \<open>n\<close> bits of a value, most significant first, and back.\<close>

definition val_bits :: "u64 \<Rightarrow> nat \<Rightarrow> bool list" where
  "val_bits v n = rev (map (bit v) [0..<n])"

definition bits_val :: "bool list \<Rightarrow> u64" where
  "bits_val bs = horner_sum of_bool 2 (rev bs)"

lemma length_bytes_bits [simp]: "length (bytes_bits buf) = 8 * length buf"
  by (induction buf) (auto simp: bytes_bits_def byte_bits_def)

lemma bytes_bits_nth:
  "j < 8 * length buf \<Longrightarrow> bytes_bits buf ! j = bit (buf ! (j div 8)) (7 - j mod 8)"
proof (induction buf arbitrary: j)
  case (Cons b buf)
  show ?case
  proof (cases "j < 8")
    case True
    then show ?thesis by (simp add: bytes_bits_def byte_bits_def nth_append)
  next
    case False
    define k where "k = j - 8"
    have j: "j = k + 8" using False by (simp add: k_def)
    have "bytes_bits (b # buf) ! j = bytes_bits buf ! k"
      by (simp add: j bytes_bits_def byte_bits_def nth_append)
    moreover have "j div 8 = Suc (k div 8)" by (simp add: j)
    ultimately show ?thesis using Cons by (simp add: j)
  qed
qed simp

text \<open>The same, read from a bit inside a byte.\<close>

lemma bytes_bits_at:
  "i < length buf \<Longrightarrow> k < 8 \<Longrightarrow> bytes_bits buf ! (8 * i + k) = bit (buf ! i) (7 - k)"
  by (simp add: bytes_bits_nth)

lemma length_val_bits [simp]: "length (val_bits v n) = n"
  by (simp add: val_bits_def)

lemma val_bits_nth: "k < n \<Longrightarrow> val_bits v n ! k = bit v (n - 1 - k)"
  by (simp add: val_bits_def rev_nth)

lemma val_bits_append: "val_bits v (m + n) = val_bits (drop_bit n v) m @ val_bits v n"
  by (rule nth_equalityI) (auto simp: val_bits_nth nth_append bit_simps intro!: arg_cong [of _ _ "bit v"])

lemma bits_val_val_bits: "bits_val (val_bits v n) = take_bit n v"
  by (simp add: bits_val_def val_bits_def horner_sum_bit_eq_take_bit)

lemma bit_bits_val: "length bs \<le> 64 \<Longrightarrow> bit (bits_val bs) i \<longleftrightarrow> i < length bs \<and> bs ! (length bs - 1 - i)"
  by (auto simp: bits_val_def bit_horner_sum_bit_word_iff rev_nth)

section \<open>Reading\<close>

definition consumed :: "BitStreamReader \<Rightarrow> nat" where
  "consumed b = nat (int (8 * length (br_buf b)) - remainingBits b)"

definition rest :: "BitStreamReader \<Rightarrow> bool list" where
  "rest b = drop (consumed b) (bytes_bits (br_buf b))"

definition reader_wf :: "BitStreamReader \<Rightarrow> bool" where
  "reader_wf b \<longleftrightarrow> 0 \<le> remainingBits b \<and> remainingBits b \<le> int (8 * length (br_buf b)) \<and>
     br_pos b = consumed b div 8"

lemma readBytes_spec:
  assumes "8 * pos + bits \<le> 8 * length buf" "bits \<le> 64"
  shows "\<exists>res. readBytes buf pos bits result = Some (res, pos + bits div 8, bits mod 8) \<and>
    (\<forall>i < 64. bit res i \<longleftrightarrow> bit result i \<or>
       bits mod 8 \<le> i \<and> i < bits \<and> bytes_bits buf ! (8 * pos + (bits - 1 - i)))"
  using assms
proof (induction buf pos bits result rule: readBytes.induct)
  case (1 buf pos bits result)
  show ?case
  proof (cases "bits \<ge> 8")
    case False
    then show ?thesis by (subst readBytes.simps) auto
  next
    case True
    have pos: "pos < length buf" using True 1(2) by simp
    let ?r = "result OR push_bit (bits - 8) (ucast (buf ! pos))"
    obtain res where res: "readBytes buf (pos + 1) (bits - 8) ?r =
        Some (res, pos + 1 + (bits - 8) div 8, (bits - 8) mod 8)"
      "\<And>i. i < 64 \<Longrightarrow> bit res i \<longleftrightarrow> bit ?r i \<or>
         (bits - 8) mod 8 \<le> i \<and> i < bits - 8 \<and> bytes_bits buf ! (8 * (pos + 1) + (bits - 8 - 1 - i))"
      using "1.IH" [OF True pos] 1(2,3) True by force
    have m: "(bits - 8) mod 8 = bits mod 8" "pos + 1 + (bits - 8) div 8 = pos + bits div 8"
      using True by (auto simp: le_mod_geq le_div_geq)
    have "bit res i \<longleftrightarrow> bit result i \<or>
        bits mod 8 \<le> i \<and> i < bits \<and> bytes_bits buf ! (8 * pos + (bits - 1 - i))" if i: "i < 64" for i
    proof (cases "bits - 8 \<le> i \<and> i < bits")
      case True
      define k where "k = bits - 1 - i"
      have k: "k < 8" "i - (bits - 8) = 7 - k" using True \<open>8 \<le> bits\<close> by (auto simp: k_def)
      have "bits mod 8 \<le> i" using True \<open>8 \<le> bits\<close> m(1)
        by (metis (no_types, lifting) dual_order.trans mod_less_eq_dividend)
      moreover have "bit ?r i \<longleftrightarrow> bit result i \<or> bytes_bits buf ! (8 * pos + k)"
        using bytes_bits_at [OF pos k(1)] True i k(2) by (auto simp: bit_simps)
      ultimately show ?thesis using res(2) [OF i] True by (auto simp: k_def)
    next
      case False
      have e: "8 * (pos + 1) + (bits - 8 - 1 - i) = 8 * pos + (bits - 1 - i)" if "i < bits - 8"
        using that \<open>8 \<le> bits\<close> by simp
      have "bit ?r i \<longleftrightarrow> bit result i"
        using False i bit_imp_le_length [of "buf ! pos" "i - (bits - 8)"] \<open>8 \<le> bits\<close>
        by (auto simp: bit_simps)
      then show ?thesis using res(2) [OF i] False e m(1) by auto
    qed
    then show ?thesis using res(1) True pos m by (subst readBytes.simps) auto
  qed
qed
lemma bits_left_in_byte:
  fixes c L :: nat
  assumes "c \<le> 8 * L"
  shows "(8 * L - c) mod 8 = (if c mod 8 = 0 then 0 else 8 - c mod 8)"
proof -
  define q k where "q = c div 8" and "k = c mod 8"
  have c: "c = 8 * q + k" "k < 8" by (simp_all add: q_def k_def)
  show ?thesis
  proof (cases "k = 0")
    case True
    have "8 * L - c = 8 * (L - q)" using c True by (simp add: diff_mult_distrib2)
    then show ?thesis using True by (simp add: k_def)
  next
    case False
    then have "q < L" using assms c by linarith
    then obtain d where "L = Suc (q + d)" using less_imp_Suc_add by blast
    then have "8 * L - c = 8 * d + (8 - k)" using c False by simp
    then have "(8 * L - c) mod 8 = (8 - k) mod 8" by (simp only: mod_mult_self4)
    then have "(8 * L - c) mod 8 = 8 - k" using False by simp
    then show ?thesis using False by (simp add: k_def)
  qed
qed

text \<open>The two halves of a read that reaches the end of the current byte: the bits left in that byte,
  then full bytes and a last partial one.\<close>

lemma first_bits:
  assumes "q < length buf" "f = 8 - k" "0 < k" "k < 8" "f \<le> n" "n \<le> 64" "i < 64"
  shows "bit (push_bit (n - f) (ucast (buf ! q AND (2 ^ f - 1))) :: u64) i \<longleftrightarrow>
    n - f \<le> i \<and> i < n \<and> bytes_bits buf ! (8 * q + k + n - 1 - i)"
proof (cases "n - f \<le> i \<and> i < n")
  case True
  define j where "j = k + (n - 1 - i)"
  have j: "j < 8" "8 * q + k + n - 1 - i = 8 * q + j" "i - (n - f) = 7 - j" "7 - j < f"
    using True assms by (auto simp: j_def)
  then show ?thesis
    using bytes_bits_at [OF assms(1), of j] True assms(7)
    by (auto simp: bit_simps mask_eq_exp_minus_1 [symmetric])
next
  case False
  then show ?thesis using assms by (auto simp: bit_simps mask_eq_exp_minus_1 [symmetric])
qed

lemma last_bits:
  assumes "pos < length buf" "0 < m" "m < 8" "i < 64"
  shows "bit (ucast (drop_bit (8 - m) (buf ! pos)) :: u64) i \<longleftrightarrow> i < m \<and> bytes_bits buf ! (8 * pos + (m - 1 - i))"
proof (cases "i < m")
  case True
  then show ?thesis using assms bytes_bits_at [of pos buf "m - 1 - i"]
    by (simp add: bit_simps Suc_diff_Suc numeral_eq_Suc)
next
  case False
  then show ?thesis using assms bit_imp_le_length [of "buf ! pos" "8 - m + i"] by (auto simp: bit_simps)
qed

lemma reader_next:
  assumes "reader_wf b" "int n \<le> remainingBits b" "b' = b\<lparr>remainingBits := remainingBits b - int n, br_pos := (consumed b + n) div 8\<rparr>"
  shows "reader_wf b'" "rest b' = drop n (rest b)" "br_buf b' = br_buf b" "remainingBits b' = remainingBits b - int n"
proof -
  have "consumed b' = consumed b + n" using assms by (auto simp: consumed_def reader_wf_def)
  then show "reader_wf b'" "rest b' = drop n (rest b)" "br_buf b' = br_buf b" "remainingBits b' = remainingBits b - int n"
    using assms by (auto simp: reader_wf_def rest_def add.commute)
qed

lemma bits_val_eqI:
  assumes "n \<le> 64" "c + n \<le> length bs" "\<And>i. i < 64 \<Longrightarrow> bit v i \<longleftrightarrow> i < n \<and> bs ! (c + n - 1 - i)"
  shows "v = bits_val (take n (drop c bs))"
proof (rule bit_word_eqI)
  fix i assume "i < LENGTH(64)"
  then show "bit v i \<longleftrightarrow> bit (bits_val (take n (drop c bs))) i"
    using assms by (auto simp: bit_bits_val)
qed

lemma ReadBits_spec:
  assumes wf: "reader_wf b" and n: "n \<le> 64" "int n \<le> remainingBits b"
  shows "\<exists>b'. ReadBits (int n) b = (b', Inr (bits_val (take n (rest b)))) \<and> reader_wf b' \<and>
    rest b' = drop n (rest b) \<and> br_buf b' = br_buf b \<and> remainingBits b' = remainingBits b - int n"
proof -
  define c L where "c = consumed b" and "L = length (br_buf b)"
  let ?buf = "br_buf b" and ?S = "bytes_bits (br_buf b)"
  let ?b = "b\<lparr>remainingBits := remainingBits b - int n, br_pos := (c + n) div 8\<rparr>"
  have rem: "remainingBits b = int (8 * L) - int c" "c \<le> 8 * L" "br_pos b = c div 8"
    using wf by (auto simp: reader_wf_def c_def L_def consumed_def)
  have cn: "c + n \<le> 8 * L" using n rem by simp
  define f where "f = nat (remainingBits b mod 8)"
  have "remainingBits b = int (8 * L - c)" using rem by (simp add: of_nat_diff)
  then have "f = nat (int (8 * L - c) mod int 8)" by (simp add: f_def)
  then have "f = (8 * L - c) mod 8" by (simp only: zmod_int [symmetric] nat_int)
  then have f: "f = (if c mod 8 = 0 then 0 else 8 - c mod 8)"
    using bits_left_in_byte [OF rem(2)] by simp
  note next_b = reader_next [OF wf n(2), of ?b, folded c_def, OF refl]
  have "ReadBits (int n) b = (?b, Inr (bits_val (take n (rest b))))"
  proof (cases "n < f")
    case True
    let ?v = "ucast (drop_bit (f - n) (?buf ! (c div 8)) AND (2 ^ n - 1)) :: u64"
    have k: "f = 8 - c mod 8" "c mod 8 + n < 8" using True f by (auto split: if_splits)
    have "c \<noteq> 8 * L" using True f by auto
    then have k3: "c < 8 * L" using rem(2) by simp
    have q: "c div 8 < length ?buf" using k3 by (auto simp: L_def)
    have "(c + n) div 8 = c div 8" using k(2) by (simp add: div_add1_eq [of c n 8])
    moreover have "?v = bits_val (take n (drop c ?S))"
    proof (rule bits_val_eqI)
      fix i :: nat assume "i < 64"
      moreover have "c + n - 1 - i = 8 * (c div 8) + (c mod 8 + n - 1 - i)" if "i < n" using that by simp
      moreover have "7 - (c mod 8 + n - 1 - i) = f - n + i" if "i < n" using that k by simp
      ultimately show "bit ?v i \<longleftrightarrow> i < n \<and> ?S ! (c + n - 1 - i)"
        using bytes_bits_at [OF q, of "c mod 8 + n - 1 - i"] k(2)
        by (auto simp: bit_simps mask_eq_exp_minus_1 [symmetric])
    qed (use n cn L_def in auto)
    ultimately show ?thesis
      using True n rem q by (simp add: ReadBits_def Let_def f_def rest_def c_def)
  next
    case False
    define n' r0 pos where "n' = n - f"
      and "r0 = (if f > 0 then push_bit (n - f) (ucast (?buf ! (c div 8) AND (2 ^ f - 1))) else 0 :: u64)"
      and "pos = (if f > 0 then c div 8 + 1 else c div 8)"
    have "8 * pos = c + f"
    proof -
      obtain q k where "c = 8 * q + k" "k < 8" "c div 8 = q" "c mod 8 = k"
        by (metis mod_less_divisor mult_div_mod_eq zero_less_numeral)
      then show ?thesis using f by (auto simp: pos_def)
    qed
    then have pos: "8 * pos = c + f" "c + n = 8 * pos + n'" using False by (auto simp: n'_def)
    have r0: "bit r0 i \<longleftrightarrow> n' \<le> i \<and> i < n \<and> ?S ! (c + n - 1 - i)" if "i < 64" for i
    proof (cases "c mod 8 = 0")
      case True
      then show ?thesis using f by (auto simp: r0_def n'_def)
    next
      case k: False
      have "c \<noteq> 8 * L" using k by auto
      then have "c div 8 < length ?buf" using rem(2) by (auto simp: L_def)
      from first_bits [OF this _ _ _ _ n(1) that, of f "c mod 8"] k False f show ?thesis
        by (simp add: r0_def n'_def)
    qed
    have bd: "8 * pos + n' \<le> 8 * length ?buf" "n' \<le> 64" using pos cn n by (auto simp: L_def n'_def)
    obtain d m where dm: "n' = 8 * d + m" "m < 8" "n' div 8 = d" "n' mod 8 = m"
      by (metis mod_less_divisor mult_div_mod_eq zero_less_numeral)
    obtain res where res: "readBytes ?buf pos n' r0 = Some (res, pos + d, m)"
      "\<And>i. i < 64 \<Longrightarrow> bit res i \<longleftrightarrow> bit r0 i \<or> m \<le> i \<and> i < n' \<and> ?S ! (8 * pos + (n' - 1 - i))"
      using readBytes_spec [OF bd, of r0, unfolded dm(3,4)] by blast
    define v where "v = (if m > 0 then res OR ucast (drop_bit (8 - m) (?buf ! (pos + d))) else res)"
    have q: "m > 0 \<Longrightarrow> pos + d < length ?buf" using bd(1) dm(1) by simp
    have "v = bits_val (take n (drop c ?S))"
    proof (rule bits_val_eqI)
      fix i :: nat assume i: "i < 64"
      have e: "i < n' \<Longrightarrow> c + n - 1 - i = 8 * pos + (n' - 1 - i)"
        "i < m \<Longrightarrow> 8 * (pos + d) + (m - 1 - i) = 8 * pos + (n' - 1 - i)" using pos dm(1) by auto
      show "bit v i \<longleftrightarrow> i < n \<and> ?S ! (c + n - 1 - i)"
      proof (cases "i < m")
        case True
        then have "i < n'" "i < n" "\<not> bit r0 i" using r0 [OF i] dm(1) n'_def by auto
        then show ?thesis
          using True res(2) [OF i] e last_bits [OF q _ dm(2) i] i by (simp add: v_def bit_or_iff)
      next
        case False
        then have "bit v i \<longleftrightarrow> bit res i"
          using last_bits [OF q _ dm(2) i] i by (simp add: v_def bit_or_iff)
        then show ?thesis using False res(2) [OF i] r0 [OF i] e(1) n'_def by auto
      qed
    qed (use n cn L_def in auto)
    moreover have "(c + n) div 8 = pos + d" using pos dm by simp
    moreover have "f > 0 \<Longrightarrow> c div 8 < length ?buf" using pos bd(1) unfolding pos_def by auto
    ultimately show ?thesis
      using False n rem(3) res(1) q
      unfolding ReadBits_def Let_def f_def [symmetric] rest_def c_def [symmetric] v_def n'_def r0_def pos_def
      by (cases "f = 0"; cases "m = 0") auto
  qed
  with next_b show ?thesis by blast
qed

section \<open>Writing\<close>

text \<open>\<open>written S p n V S'\<close>: the bits \<open>S'\<close> are \<open>S\<close> with \<open>n\<close> bits from position \<open>p\<close> on
  replaced by the top bits of \<open>V\<close>.\<close>

definition written :: "bool list \<Rightarrow> nat \<Rightarrow> nat \<Rightarrow> u64 \<Rightarrow> bool list \<Rightarrow> bool" where
  "written S p n V S' \<longleftrightarrow> length S' = length S \<and>
     (\<forall>j < length S. S' ! j = (if p \<le> j \<and> j < p + n then bit V (63 - (j - p)) else S ! j))"

lemma written_none: "written S p 0 V S"
  by (auto simp: written_def)

lemma written_trans:
  assumes "written S p a V S1" "written S1 (p + a) b (push_bit a V) S2" "a + b \<le> 64"
  shows "written S p (a + b) V S2"
  using assms by (auto simp: written_def bit_simps)

lemma bytes_bits_update:
  assumes "q < length buf" "j < 8 * length buf"
  shows "bytes_bits (buf[q := x]) ! j = (if j div 8 = q then bit x (7 - j mod 8) else bytes_bits buf ! j)"
  using assms by (simp add: bytes_bits_nth nth_list_update)

lemma byte_ones: "(0xff :: u8) = - 1"
  by simp

lemma bit_writePartialByte:
  assumes "k < 8" "off + c \<le> 8" "\<And>j. off \<le> j \<Longrightarrow> j < 8 - c \<Longrightarrow> \<not> bit s j"
  shows "bit (writePartialByte s c t off) k \<longleftrightarrow>
    (if 8 - off - c \<le> k \<and> k < 8 - off then bit s (k + off) else bit t k)"
proof -
  have "bit (drop_bit off (push_bit (8 - c) (0xff :: u8))) k \<longleftrightarrow> 8 - off - c \<le> k \<and> k < 8 - off"
    unfolding byte_ones using assms(1,2) by (auto simp: bit_simps)
  then show ?thesis
    using assms bit_imp_le_length [of s "k + off"]
    by (auto simp: writePartialByte_def Let_def bit_simps add.commute)
qed

lemma writePartialByte_written:
  assumes "q < length buf" "off + c \<le> 8" "c > 0" "\<And>j. off \<le> j \<Longrightarrow> j < 8 - c \<Longrightarrow> \<not> bit V (56 + j)"
  shows "written (bytes_bits buf) (8 * q + off) c V
    (bytes_bits (buf[q := writePartialByte (ucast (drop_bit 56 V)) c (buf ! q) off]))"
  unfolding written_def
proof (intro conjI allI impI)
  fix j assume j: "j < length (bytes_bits buf)"
  obtain i x where ix: "j = 8 * i + x" "x < 8" "j div 8 = i" "j mod 8 = x"
    by (metis mod_less_divisor mult_div_mod_eq zero_less_numeral)
  let ?w = "writePartialByte (ucast (drop_bit 56 V)) c (buf ! q) off"
  have w: "bit ?w (7 - x) \<longleftrightarrow>
      (if off \<le> x \<and> x < off + c then bit V (63 - (x - off)) else bit (buf ! q) (7 - x))"
    using assms ix(2)
    by (subst bit_writePartialByte) (auto simp: bit_simps add.commute intro!: arg_cong [of _ _ "bit V"])
  show "bytes_bits (buf[q := ?w]) ! j =
      (if 8 * q + off \<le> j \<and> j < 8 * q + off + c then bit V (63 - (j - (8 * q + off))) else bytes_bits buf ! j)"
  proof (cases "i = q")
    case True
    then show ?thesis
      using j ix w assms(1) bytes_bits_at [of q buf x] by (simp add: bytes_bits_update)
  next
    case False
    then have "\<not> (8 * q + off \<le> j \<and> j < 8 * q + off + c)" using ix assms(2) by auto
    then show ?thesis using False j ix(3) assms(1) by (simp only: bytes_bits_update length_bytes_bits if_False)
  qed
qed simp

lemma writePartialByte_full: "writePartialByte s 8 t 0 = s"
  unfolding writePartialByte_def byte_ones by simp

lemma writeBytes_spec:
  assumes "8 * i + m \<le> 8 * length buf" "m \<le> 64"
  shows "\<exists>buf'. writeBytes buf i V m = Some (buf', i + m div 8, push_bit (8 * (m div 8)) V, m mod 8) \<and>
    length buf' = length buf \<and> written (bytes_bits buf) (8 * i) (8 * (m div 8)) V (bytes_bits buf')"
  using assms
proof (induction buf i V m rule: writeBytes.induct)
  case (1 buf i V m)
  show ?case
  proof (cases "m \<ge> 8")
    case False
    then show ?thesis by (subst writeBytes.simps) (auto simp: written_none)
  next
    case True
    have i: "i < length buf" using True 1(2) by simp
    let ?buf = "buf[i := ucast (drop_bit 56 V)]"
    obtain buf' where b: "writeBytes ?buf (i + 1) (push_bit 8 V) (m - 8) =
        Some (buf', i + 1 + (m - 8) div 8, push_bit (8 * ((m - 8) div 8)) (push_bit 8 V), (m - 8) mod 8)"
      "length buf' = length buf"
      "written (bytes_bits ?buf) (8 * (i + 1)) (8 * ((m - 8) div 8)) (push_bit 8 V) (bytes_bits buf')"
      using "1.IH" [OF True i] 1(2,3) True by force
    have m: "m div 8 = 1 + (m - 8) div 8" "m mod 8 = (m - 8) mod 8"
      using True by (auto simp: le_div_geq le_mod_geq)
    have "written (bytes_bits buf) (8 * i) 8 V (bytes_bits ?buf)"
      using writePartialByte_written [OF i, of 0 8 V] by (simp add: writePartialByte_full)
    then have "written (bytes_bits buf) (8 * i) (8 * (m div 8)) V (bytes_bits buf')"
      using written_trans [of _ "8 * i" 8 V _ "8 * ((m - 8) div 8)"] b(3) 1(3) True m(1)
      by (simp add: algebra_simps)
    then show ?thesis using b True i m by (subst writeBytes.simps) (auto simp: ac_simps)
  qed
qed

definition position :: "BitStreamWriter \<Rightarrow> nat" where
  "position w = 8 * bw_pos w + bitOffset w"

definition writer_wf :: "BitStreamWriter \<Rightarrow> bool" where
  "writer_wf w \<longleftrightarrow> bitOffset w < 8 \<and> position w \<le> 8 * length (bw_buf w)"

text \<open>\<open>appended w bs w'\<close>: the writer has put \<open>bs\<close> at its position and moved behind it.\<close>

definition appended :: "BitStreamWriter \<Rightarrow> bool list \<Rightarrow> BitStreamWriter \<Rightarrow> bool" where
  "appended w bs w' \<longleftrightarrow> writer_wf w' \<and> length (bw_buf w') = length (bw_buf w) \<and>
     position w' = position w + length bs \<and>
     bytes_bits (bw_buf w') =
       take (position w) (bytes_bits (bw_buf w)) @ bs @ drop (position w + length bs) (bytes_bits (bw_buf w))"

lemma appended_none: "writer_wf w \<Longrightarrow> appended w [] w"
  by (simp add: appended_def)

lemma appended_trans:
  assumes "appended w a w1" "appended w1 b w2"
  shows "appended w (a @ b) w2"
proof -
  have "position w + length a \<le> 8 * length (bw_buf w)" using assms(1) by (auto simp: appended_def writer_wf_def)
  then show ?thesis using assms by (auto simp: appended_def ac_simps)
qed

lemma written_appended:
  assumes "written S p n (push_bit (64 - n) v) S'" "p + n \<le> length S" "n \<le> 64"
  shows "S' = take p S @ val_bits v n @ drop (p + n) S"
proof (rule nth_equalityI)
  show "length S' = length (take p S @ val_bits v n @ drop (p + n) S)"
    using assms by (simp add: written_def)
  fix j assume "j < length S'"
  then show "S' ! j = (take p S @ val_bits v n @ drop (p + n) S) ! j"
    using assms by (auto simp: written_def nth_append val_bits_nth bit_simps ac_simps)
qed

lemma remaining_position: "w_RemainingBits w = int (8 * length (bw_buf w)) - int (position w)"
  by (simp add: w_RemainingBits_def position_def)

lemma consumeBits_appended:
  assumes "writer_wf w" "length bs = n" "position w + n \<le> 8 * length (bw_buf w)"
    and "length buf = length (bw_buf w)"
    and "bytes_bits buf = take (position w) (bytes_bits (bw_buf w)) @ bs @ drop (position w + n) (bytes_bits (bw_buf w))"
  shows "\<exists>w'. consumeBits n (w\<lparr>bw_buf := buf\<rparr>) = Inr w' \<and> appended w bs w'"
proof -
  have "8 * ((bitOffset w + n) div 8) + (bitOffset w + n) mod 8 = bitOffset w + n" by simp
  then show ?thesis
    using assms by (auto simp: consumeBits_def remaining_position appended_def writer_wf_def position_def)
qed

lemma WriteBits_appends:
  assumes wf: "writer_wf w" and n: "0 < n" "n \<le> 64" "position w + n \<le> 8 * length (bw_buf w)"
  shows "\<exists>w'. WriteBits v n w = Inr w' \<and> appended w (val_bits v n) w'"
proof -
  define V where "V = push_bit (64 - n) v"
  let ?S = "bytes_bits (bw_buf w)" and ?i = "bw_pos w" and ?off = "bitOffset w"
  let ?f = "min n (8 - ?off)"
  let ?b1 = "(bw_buf w)[?i := writePartialByte (ucast (drop_bit 56 V)) ?f (bw_buf w ! ?i) ?off]"
  have off: "?off < 8" "position w = 8 * ?i + ?off" using wf by (auto simp: writer_wf_def position_def)
  have i: "?i < length (bw_buf w)" using n off by auto
  have low: "\<not> bit V j" if "j < 64 - n" for j using that by (simp add: V_def bit_simps)
  have first: "written ?S (position w) ?f V (bytes_bits ?b1)"
    unfolding off(2) using i off n
  proof (intro writePartialByte_written)
    show "\<not> bit V (56 + j)" if "?off \<le> j" "j < 8 - ?f" for j
      using that low [of "56 + j"] n by (auto simp: min_def split: if_splits)
  qed auto
  have guard: "\<not> int n > w_RemainingBits w" "\<not> (n > 64 \<or> \<not> ?i < length (bw_buf w))"
    using n i by (auto simp: remaining_position)
  have fin: "\<exists>w'. consumeBits n (w\<lparr>bw_buf := buf\<rparr>) = Inr w' \<and> appended w (val_bits v n) w'"
    if "written ?S (position w) n V (bytes_bits buf)" "length buf = length (bw_buf w)" for buf
    using consumeBits_appended [OF wf length_val_bits n(3) that(2)] written_appended [of ?S "position w" n v] that n
    by (simp add: V_def)
  show ?thesis
  proof (cases "n \<le> 8 - ?off")
    case True
    then have "written ?S (position w) n V (bytes_bits ?b1)" using first by simp
    from fin [OF this] show ?thesis using True guard by (simp add: WriteBits_def Let_def V_def)
  next
    case False
    define f m where "f = 8 - ?off" and "m = n - f"
    have f: "?f = f" "n = f + m" using False by (auto simp: f_def m_def)
    obtain d l where dl: "m = 8 * d + l" "l < 8" "m div 8 = d" "m mod 8 = l"
      by (metis mod_less_divisor mult_div_mod_eq zero_less_numeral)
    have p: "8 * (?i + 1) = position w + f" using off by (simp add: f_def)
    have bd: "8 * (?i + 1) + m \<le> 8 * length ?b1" "m \<le> 64" using p n f by auto
    obtain b2 where b2: "writeBytes ?b1 (?i + 1) (push_bit f V) m = Some (b2, ?i + 1 + d, push_bit (8 * d) (push_bit f V), l)"
      "length b2 = length (bw_buf w)" "written (bytes_bits ?b1) (8 * (?i + 1)) (8 * d) (push_bit f V) (bytes_bits b2)"
      using writeBytes_spec [OF bd, of "push_bit f V", unfolded dl(3,4)] by auto
    have w2: "written ?S (position w) (f + 8 * d) V (bytes_bits b2)"
      using written_trans [of ?S "position w" f V "bytes_bits ?b1" "8 * d"] first b2(3) p f n dl by simp
    let ?V = "push_bit (8 * d) (push_bit f V)"
    note unf = WriteBits_def [of v n w, unfolded Let_def, folded V_def, unfolded f(1), folded m_def,
        unfolded if_not_P [OF guard(1)] if_not_P [OF guard(2)] if_not_P [OF False] b2(1) [unfolded f(1)] option.case prod.case]
    show ?thesis
    proof (cases "l = 0")
      case True
      then have "written ?S (position w) n V (bytes_bits b2)" using w2 dl f by simp
      from fin [OF this b2(2)] show ?thesis
        using True by (simp add: unf)
    next
      case l: False
      let ?b3 = "b2[?i + 1 + d := writePartialByte (ucast (drop_bit 56 ?V)) l (b2 ! (?i + 1 + d)) 0]"
      have "8 * (?i + 1 + d) + l \<le> 8 * length b2" using p n(3) f(2) dl(1) b2(2) by simp
      then have q: "?i + 1 + d < length b2" using l by simp
      have "written (bytes_bits b2) (8 * (?i + 1 + d)) l ?V (bytes_bits ?b3)"
      proof -
        have "\<not> bit ?V (56 + j)" if "j < 8 - l" for j
          using that low [of "56 + j - 8 * d - f"] f(2) dl(1) n by (simp add: bit_push_bit_iff)
        then show ?thesis using writePartialByte_written [OF q, of 0 l ?V] dl(2) l by simp
      qed
      moreover have e: "8 * (?i + 1 + d) = position w + (f + 8 * d)" "n = f + 8 * d + l" using p f(2) dl(1) by simp_all
      moreover have V: "push_bit (f + 8 * d) V = ?V" by (simp add: add.commute)
      ultimately have "written ?S (position w) (f + 8 * d + l) V (bytes_bits ?b3)"
        using n(2) by (intro written_trans [OF w2, unfolded V]) (simp_all only: e)
      then have "written ?S (position w) n V (bytes_bits ?b3)" by (simp only: e)
      from fin [OF this] show ?thesis
        using l b2(2) q by (simp add: unf)
    qed
  qed
qed

section \<open>Encoders and decoders\<close>

text \<open>\<open>writes f bs\<close>: given room, \<open>f\<close> appends exactly \<open>bs\<close>. \<open>reads r bs x\<close>: where \<open>bs\<close> comes
  next, \<open>r\<close> takes it and gives \<open>x\<close>.\<close>

definition writes :: "writing \<Rightarrow> bool list \<Rightarrow> bool" where
  "writes f bs \<longleftrightarrow> (\<forall>w. writer_wf w \<and> position w + length bs \<le> 8 * length (bw_buf w) \<longrightarrow>
     (\<exists>w'. f w = Inr w' \<and> appended w bs w'))"

definition reads :: "'a reading \<Rightarrow> bool list \<Rightarrow> 'a \<Rightarrow> bool" where
  "reads r bs x \<longleftrightarrow> (\<forall>b ts. reader_wf b \<and> rest b = bs @ ts \<longrightarrow>
     (\<exists>b'. r b = (b', Inr x) \<and> reader_wf b' \<and> rest b' = ts \<and> br_buf b' = br_buf b))"

lemma writes_skip: "writes skipW []"
  by (auto simp: writes_def skipW_def appended_none)

lemma writes_then: "writes f as \<Longrightarrow> writes g bs \<Longrightarrow> writes (thenW f g) (as @ bs)"
  unfolding writes_def
proof (intro allI impI)
  fix w
  assume f: "\<forall>w. writer_wf w \<and> position w + length as \<le> 8 * length (bw_buf w) \<longrightarrow> (\<exists>w'. f w = Inr w' \<and> appended w as w')"
    and g: "\<forall>w. writer_wf w \<and> position w + length bs \<le> 8 * length (bw_buf w) \<longrightarrow> (\<exists>w'. g w = Inr w' \<and> appended w bs w')"
    and w: "writer_wf w \<and> position w + length (as @ bs) \<le> 8 * length (bw_buf w)"
  then obtain w1 where w1: "f w = Inr w1" "appended w as w1" by fastforce
  then obtain w2 where "g w1 = Inr w2" "appended w1 bs w2" using g w by (fastforce simp: appended_def)
  with w1 show "\<exists>w'. thenW f g w = Inr w' \<and> appended w (as @ bs) w'"
    by (auto simp: thenW_def intro: appended_trans)
qed

lemma writes_seq:
  assumes "\<And>x. x \<in> set xs \<Longrightarrow> writes (f x) (enc x)"
  shows "writes (seqW (map f xs)) (concat (map enc xs))"
  using assms by (induction xs) (auto intro: writes_then writes_skip)

lemma reads_return: "reads (returnR x) [] x"
  by (auto simp: reads_def returnR_def)

lemma reads_bind:
  assumes "reads r as x" "reads (f x) bs y"
  shows "reads (bindR r f) (as @ bs) y"
  unfolding reads_def
proof (intro allI impI, elim conjE)
  fix b ts assume b: "reader_wf b" "rest b = (as @ bs) @ ts"
  then obtain b1 where b1: "r b = (b1, Inr x)" "reader_wf b1" "rest b1 = bs @ ts" "br_buf b1 = br_buf b"
    using assms(1) by (fastforce simp: reads_def)
  then show "\<exists>b'. bindR r f b = (b', Inr y) \<and> reader_wf b' \<and> rest b' = ts \<and> br_buf b' = br_buf b"
    using assms(2) b1 by (fastforce simp: reads_def bindR_def)
qed

lemma length_rest: "reader_wf b \<Longrightarrow> int (length (rest b)) = remainingBits b"
  by (auto simp: rest_def reader_wf_def consumed_def)

lemma reads_ReadBits:
  assumes "n \<le> 64"
  shows "reads (ReadBits (int n)) (val_bits v n) (take_bit n v)"
  unfolding reads_def
proof (intro allI impI, elim conjE)
  fix b ts assume b: "reader_wf b" "rest b = val_bits v n @ ts"
  then have "int n \<le> remainingBits b" using length_rest [OF b(1)] by simp
  from ReadBits_spec [OF b(1) assms this] b(2)
  show "\<exists>b'. ReadBits (int n) b = (b', Inr (take_bit n v)) \<and> reader_wf b' \<and> rest b' = ts \<and> br_buf b' = br_buf b"
    by (auto simp: bits_val_val_bits)
qed

lemma writes_WriteBits: "0 < n \<Longrightarrow> n \<le> 64 \<Longrightarrow> writes (WriteBits v n) (val_bits v n)"
  using WriteBits_appends by (simp add: writes_def)

text \<open>What a writer and a reader for the same kind of value promise: on acceptable values the writer
  appends the encoding, and the reader takes the encoding and gives the value back.\<close>

locale bit_codec =
  fixes enc :: "'a \<Rightarrow> bool list" and ok :: "'a \<Rightarrow> bool" and wr :: "'a \<Rightarrow> writing" and rd :: "'a reading"
  assumes wr_ok: "ok x \<Longrightarrow> writes (wr x) (enc x)"
    and rd_ok: "ok x \<Longrightarrow> reads rd (enc x) x"
begin

text \<open>Writing at any place of any large enough buffer and reading from that place gives the value
  back, and leaves the bits around it alone.\<close>

lemma codec_roundtrip:
  assumes "ok x" "writer_wf w" "position w + length (enc x) \<le> 8 * length (bw_buf w)"
  shows "\<exists>w'. wr x w = Inr w' \<and> appended w (enc x) w' \<and>
    (\<forall>b. reader_wf b \<and> br_buf b = bw_buf w' \<and> consumed b = position w \<longrightarrow>
       (\<exists>b'. rd b = (b', Inr x) \<and> reader_wf b' \<and> consumed b' = position w'))"
proof -
  obtain w' where w': "wr x w = Inr w'" "appended w (enc x) w'"
    using wr_ok [OF assms(1)] assms(2,3) by (auto simp: writes_def)
  have "\<exists>b'. rd b = (b', Inr x) \<and> reader_wf b' \<and> consumed b' = position w'"
    if b: "reader_wf b" "br_buf b = bw_buf w'" "consumed b = position w" for b
  proof -
    have "rest b = enc x @ drop (position w + length (enc x)) (bytes_bits (bw_buf w))"
      using b w'(2) assms(3) by (simp add: rest_def appended_def)
    then obtain b' where b': "rd b = (b', Inr x)" "reader_wf b'" "br_buf b' = br_buf b"
      "rest b' = drop (position w + length (enc x)) (bytes_bits (bw_buf w))"
      using rd_ok [OF assms(1)] b(1) unfolding reads_def by blast
    have "length (rest b') = 8 * length (bw_buf w) - (position w + length (enc x))" by (simp add: b'(4))
    moreover have "length (rest b') = 8 * length (br_buf b') - consumed b'" by (simp add: rest_def)
    moreover have "consumed b' \<le> 8 * length (br_buf b')" using b'(2) by (auto simp: reader_wf_def consumed_def)
    ultimately have "consumed b' = position w'"
      using b(2) b'(3) w'(2) assms(3) by (auto simp: appended_def)
    with b' show ?thesis by blast
  qed
  with w' show ?thesis by blast
qed

lemma codec_list_writes: "(\<And>x. x \<in> set xs \<Longrightarrow> ok x) \<Longrightarrow> writes (seqW (map wr xs)) (concat (map enc xs))"
  by (rule writes_seq) (auto intro: wr_ok)

end

section \<open>Flags and non-symmetric values\<close>

definition writeBool :: "bool \<Rightarrow> writing" where
  "writeBool val = WriteBits (if val then 1 else 0) 1"

interpretation bits_codec: bit_codec "\<lambda>v. val_bits v n" "\<lambda>v. take_bit n v = v \<and> 0 < n \<and> n \<le> 64"
  "\<lambda>v. WriteBits v n" "ReadBits (int n)" for n
  by unfold_locales (use writes_WriteBits reads_ReadBits in \<open>auto, metis\<close>)

lemma reads_ReadBool: "reads ReadBool [x] x"
proof -
  have "reads (ReadBits 1) [x] (of_bool x)"
    using reads_ReadBits [of 1 "of_bool x"] by (cases x) (simp_all add: val_bits_def)
  from reads_bind [OF this reads_return, of "\<lambda>val. val \<noteq> 0"] show ?thesis by (simp add: ReadBool_def)
qed

lemma writes_writeBool: "writes (writeBool x) [x]"
  using writes_WriteBits [of 1 "if x then 1 else 0"] by (simp add: writeBool_def val_bits_def split: if_splits)

interpretation bool_codec: bit_codec "\<lambda>x. [x]" "\<lambda>_. True" writeBool ReadBool
  by unfold_locales (simp_all add: reads_ReadBool writes_writeBool)

lemma bitwidth_bounds:
  "n \<noteq> 0 \<Longrightarrow> unat n < 2 ^ bitwidth n \<and> 2 ^ (bitwidth n - 1) \<le> unat n \<and> 0 < bitwidth n"
proof (induction n rule: bitwidth.induct)
  case (1 n)
  let ?h = "drop_bit 1 n"
  have h: "unat ?h = unat n div 2" by (simp add: drop_bit_Suc unat_div)
  show ?case
  proof (cases "?h = 0")
    case True
    then have "unat n div 2 = 0" using h by (metis unat_0)
    then have "unat n = 1" using 1(2) by (metis One_nat_def div_eq_0_iff less_2_cases unat_eq_zero zero_neq_numeral)
    then show ?thesis using 1(2) True bitwidth.simps [of n] bitwidth.simps [of ?h] by simp
  next
    case False
    with 1 have IH: "unat n div 2 < 2 ^ bitwidth ?h" "2 ^ (bitwidth ?h - 1) \<le> unat n div 2" "0 < bitwidth ?h"
      using h by auto
    have w: "bitwidth n = Suc (bitwidth ?h)" using 1(2) bitwidth.simps [of n] by simp
    obtain k where k: "bitwidth ?h = Suc k" using IH(3) by (cases "bitwidth ?h") auto
    have "unat n < 2 * 2 ^ Suc k" "2 ^ Suc k \<le> unat n" using IH(1,2) unfolding k by simp_all
    then show ?thesis unfolding w k by simp
  qed
qed

lemma numMinBits_value:
  assumes "0 < n" "n < 2 ^ 31"
  shows "unat (numMinBits n) = 2 ^ bitwidth n - unat n" "bitwidth n \<le> 31"
    "unat n < 2 ^ bitwidth n" "2 ^ (bitwidth n - 1) \<le> unat n" "0 < bitwidth n"
proof -
  have bw: "unat n < 2 ^ bitwidth n" "2 ^ (bitwidth n - 1) \<le> unat n" "0 < bitwidth n"
    using bitwidth_bounds [of n] assms(1) by auto
  have "unat n < 2 ^ 31" using assms(2) by (simp add: word_less_nat_alt)
  then have "(2::nat) ^ (bitwidth n - 1) < 2 ^ 31" using bw(2) by linarith
  then have "bitwidth n - 1 < 31" by (rule power_less_imp_less_exp [rotated]) simp
  then show le: "bitwidth n \<le> 31" by simp
  have "(2::nat) ^ bitwidth n \<le> 2 ^ 31" using le by (rule power_increasing) simp
  have u32: "unat (of_nat k :: u32) = k" if "k < 2 ^ 32" for k using that by (simp add: unat_of_nat)
  from \<open>(2::nat) ^ bitwidth n \<le> 2 ^ 31\<close> have "(2::nat) ^ bitwidth n < 2 ^ 32" by (rule le_less_trans) simp
  moreover have "(push_bit (bitwidth n) 1 :: u32) = of_nat (2 ^ bitwidth n)" by (simp add: push_bit_of_1)
  ultimately have p: "unat (push_bit (bitwidth n) 1 :: u32) = 2 ^ bitwidth n"
    using u32 by metis
  have "n \<le> push_bit (bitwidth n) 1" using bw(1) p by (simp add: word_le_nat_alt)
  from unat_sub [OF this] show "unat (numMinBits n) = 2 ^ bitwidth n - unat n" by (simp only: numMinBits_def p)
  show "unat n < 2 ^ bitwidth n" "2 ^ (bitwidth n - 1) \<le> unat n" "0 < bitwidth n" by (rule bw)+
qed

definition nonsym_bits :: "u32 \<Rightarrow> u32 \<Rightarrow> bool list" where
  "nonsym_bits n val =
     (if val < numMinBits n then val_bits (ucast val) (bitwidth n - 1)
      else val_bits (ucast (val + numMinBits n)) (bitwidth n))"

lemma length_nonsym_bits:
  "0 < n \<Longrightarrow> int (length (nonsym_bits n val)) = SizeNonSymmetricBits val n"
  using bitwidth_bounds [of n]
  by (auto simp: nonsym_bits_def SizeNonSymmetricBits_def Let_def of_nat_diff Suc_le_eq)

lemma writes_nonsym:
  assumes "val < n" "n < 2 ^ 31"
  shows "writes (WriteNonSymmetric val n) (nonsym_bits n val)"
proof (cases "n = 1")
  case True
  have "bitwidth 1 = 1" using bitwidth.simps [of 1] bitwidth.simps [of 0] by (simp add: drop_bit_Suc)
  moreover have "val = 0" using True assms(1) by (simp add: word_less_1)
  ultimately have "nonsym_bits n val = []" using True by (simp add: nonsym_bits_def numMinBits_def val_bits_def)
  moreover have "\<not> n > 2 ^ 31" using assms(2) by simp
  ultimately show ?thesis using assms True by (simp add: WriteNonSymmetric_def writes_skip)
next
  case False
  have n0: "0 < n" using assms(1) by (metis word_gt_0 word_not_simps(1))
  note nm = numMinBits_value [OF n0 assms(2)]
  have "unat n \<noteq> 1" using False by (metis unat_1 word_unat_eq_iff)
  then have "bitwidth n \<noteq> 1" using nm n0 by (auto simp: word_less_nat_alt)
  then have w: "0 < bitwidth n - 1" "bitwidth n \<le> 64" using nm by auto
  have "\<not> (n \<le> val \<or> n > 2 ^ 31)" using assms by auto
  then show ?thesis
    using False w writes_WriteBits
    by (auto simp: WriteNonSymmetric_def nonsym_bits_def Let_def)
qed

lemma take_bit_small: "unat v < 2 ^ n \<Longrightarrow> take_bit n v = v" for v :: u64
  by (simp add: word_unat_eq_iff unsigned_take_bit_eq take_bit_nat_eq_self)

lemma unat_ucast_u32: "unat (ucast (x :: u32) :: u64) = unat x"
  using unsigned_less [of x, where ?'a = nat] by (simp add: unsigned_ucast_eq take_bit_nat_eq_self)

lemma ucast_u32_back: "(ucast (ucast (x :: u32) :: u64) :: u32) = x"
  by (rule bit_word_eqI) (simp add: bit_simps)

lemma reads_nonsym_short:
  assumes "val < n" "n < 2 ^ 31" "val < numMinBits n"
  shows "reads (ReadNonSymmetric n) (val_bits (ucast val) (bitwidth n - 1)) val"
proof -
  have n0: "0 < n" using assms(1) by (metis word_gt_0 word_not_simps(1))
  note nm = numMinBits_value [OF n0 assms(2)]
  let ?w = "bitwidth n - 1"
  let ?f = "\<lambda>v :: u64. if v < ucast (numMinBits n) then returnR (ucast v)
      else bindR (ReadBits 1) (\<lambda>bit. returnR (ucast (push_bit 1 v + bit - ucast (numMinBits n))))"
  have "unat val < 2 ^ bitwidth n - 2 ^ ?w"
    using assms(3) nm(1,4) by (simp add: word_less_nat_alt)
  also have "(2::nat) ^ bitwidth n = 2 * 2 ^ ?w" using nm(5) by (simp add: power_eq_if)
  finally have tb: "take_bit ?w (ucast val :: u64) = ucast val"
    by (intro take_bit_small) (simp add: unat_ucast_u32)
  have w: "int (bitwidth n) - 1 = int ?w" "?w \<le> 64" using nm(2,5) by (auto simp: of_nat_diff)
  have "(ucast val :: u64) < ucast (numMinBits n)"
    using assms(3) by (simp only: word_less_nat_alt unat_ucast_u32)
  then have "reads (?f (ucast val)) [] val" by (simp add: reads_return ucast_u32_back)
  from reads_bind [OF reads_ReadBits [OF w(2), of "ucast val", unfolded tb], of ?f, OF this] show ?thesis
    using assms(2) by (simp add: ReadNonSymmetric_def Let_def w(1) not_le [symmetric])
qed

lemma reads_nonsym_long:
  assumes "val < n" "n < 2 ^ 31" "\<not> val < numMinBits n"
  shows "reads (ReadNonSymmetric n) (val_bits (ucast (val + numMinBits n)) (bitwidth n)) val"
proof -
  have n0: "0 < n" using assms(1) by (metis word_gt_0 word_not_simps(1))
  note nm = numMinBits_value [OF n0 assms(2)]
  let ?m = "numMinBits n" and ?w = "bitwidth n - 1" and ?X = "ucast (val + numMinBits n) :: u64"
  let ?f = "\<lambda>v :: u64. if v < ucast (numMinBits n) then returnR (ucast v)
      else bindR (ReadBits 1) (\<lambda>bit. returnR (ucast (push_bit 1 v + bit - ucast (numMinBits n))))"
  have w: "int (bitwidth n) - 1 = int ?w" "?w \<le> 64" "bitwidth n = ?w + 1" using nm(2,5) by (auto simp: of_nat_diff)
  have "(2::nat) ^ bitwidth n \<le> 2 ^ 31" using nm(2) by (rule power_increasing) simp
  moreover have sum: "unat val + unat ?m < 2 ^ bitwidth n" using assms(1) nm(1,3) by (simp add: word_less_nat_alt)
  ultimately have "unat val + unat ?m < 2 ^ 32" by simp
  then have X: "unat ?X = unat val + unat ?m" by (simp add: unat_ucast_u32 unat_plus_if')
  have h: "unat (drop_bit 1 ?X) = unat ?X div 2" by (simp add: drop_bit_Suc unat_div)
  have "unat ?X < 2 * 2 ^ ?w" using sum X w(3) by (metis power_Suc add.commute plus_1_eq_Suc)
  then have "unat (drop_bit 1 ?X) < 2 ^ ?w" unfolding h by simp
  then have tb: "take_bit ?w (drop_bit 1 ?X) = drop_bit 1 ?X" by (rule take_bit_small)
  have ge: "unat ?m \<le> unat val" using assms(3) by (simp add: word_less_nat_alt)
  have "\<not> drop_bit 1 ?X < ucast ?m"
    unfolding word_less_nat_alt h X unat_ucast_u32 [of ?m] using ge by simp
  moreover have "?X - ucast ?m = ucast val"
    using X unat_sub [of "ucast ?m" ?X] by (simp add: word_unat_eq_iff word_le_nat_alt unat_ucast_u32)
  then have "push_bit 1 (drop_bit 1 ?X) + take_bit 1 ?X - ucast ?m = ucast val" by (simp only: bits_ident)
  ultimately have "reads (?f (drop_bit 1 ?X)) (val_bits ?X 1 @ []) val"
    using reads_bind [OF reads_ReadBits [of 1 ?X] reads_return, of "\<lambda>bit. ucast (push_bit 1 (drop_bit 1 ?X) + bit - ucast ?m) :: u32"]
    by (simp add: ucast_u32_back)
  from reads_bind [OF reads_ReadBits [OF w(2), of "drop_bit 1 ?X", unfolded tb], of ?f, OF this]
  have "reads (ReadNonSymmetric n) (val_bits (drop_bit 1 ?X) ?w @ val_bits ?X 1) val"
    using assms(2) by (simp add: ReadNonSymmetric_def Let_def w(1) not_le [symmetric])
  then show ?thesis by (simp only: val_bits_append [symmetric] w(3) [symmetric])
qed

interpretation nonsym_codec: bit_codec "nonsym_bits n" "\<lambda>val. val < n \<and> n < 2 ^ 31"
  "\<lambda>val. WriteNonSymmetric val n" "ReadNonSymmetric n" for n
proof (unfold_locales, goal_cases)
  case (1 val)
  then show ?case by (simp add: writes_nonsym)
next
  case (2 val)
  then show ?case using reads_nonsym_short reads_nonsym_long by (auto simp: nonsym_bits_def)
qed

section \<open>Properties\<close>

lemma new_streams: "reader_wf (NewBitStreamReader buf)" "writer_wf (NewBitStreamWriter buf)"
  "position (NewBitStreamWriter buf) = 0" "consumed (NewBitStreamReader buf) = 0"
  "br_buf (NewBitStreamReader buf) = buf" "bw_buf (NewBitStreamWriter buf) = buf"
  by (simp_all add: reader_wf_def NewBitStreamReader_def consumed_def writer_wf_def NewBitStreamWriter_def position_def)

text \<open>C21. A read of up to 64 bits implements the view of the buffer as one list of bits: it gives the value of
  the next bits, most significant first, and leaves the rest; it fails with the end of the stream exactly
  when too few bits remain, and never indexes out of the buffer.\<close>

theorem ReadBits_refines:
  assumes "reader_wf b" "n \<le> 64"
  shows "if n \<le> length (rest b)
    then \<exists>b'. ReadBits (int n) b = (b', Inr (bits_val (take n (rest b)))) \<and> reader_wf b' \<and>
      rest b' = drop n (rest b)
    else \<exists>b'. ReadBits (int n) b = (b', Inl ErrEOF)"
proof (cases "n \<le> length (rest b)")
  case True
  then have "int n \<le> remainingBits b" using length_rest [OF assms(1)] by simp
  from ReadBits_spec [OF assms this] True show ?thesis by auto
next
  case False
  then have "remainingBits b < int n" using length_rest [OF assms(1)] by simp
  with False show ?thesis using assms(2) by (simp add: ReadBits_def)
qed

theorem ReadBits_refines_witness:
  "\<exists>b'. ReadBits 12 (NewBitStreamReader [0xab, 0xcd]) = (b', Inr 0xabc)"
proof -
  have r: "take 12 (rest (NewBitStreamReader [0xab, 0xcd])) = val_bits 0xabc 12"
    by (simp add: rest_def NewBitStreamReader_def consumed_def bytes_bits_def byte_bits_def val_bits_def
        upt_rec numeral_eq_Suc bit_numeral_rec)
  have "12 \<le> length (rest (NewBitStreamReader [0xab, 0xcd]))"
    by (simp add: rest_def NewBitStreamReader_def consumed_def)
  with ReadBits_refines [OF new_streams(1), of 12 "[0xab, 0xcd]"] r show ?thesis
    by (auto simp: bits_val_val_bits)
qed

text \<open>Bits written at any position of a buffer with room for them are read back from that position,
  the writer and the reader move behind them, and every other bit of the buffer stays.\<close>

theorem WriteBits_ReadBits:
  assumes "take_bit n v = v" "0 < n" "n \<le> 64" "writer_wf w" "position w + n \<le> 8 * length (bw_buf w)"
  shows "\<exists>w'. WriteBits v n w = Inr w' \<and> appended w (val_bits v n) w' \<and>
    (\<forall>b. reader_wf b \<and> br_buf b = bw_buf w' \<and> consumed b = position w \<longrightarrow>
       (\<exists>b'. ReadBits (int n) b = (b', Inr v) \<and> reader_wf b' \<and> consumed b' = position w'))"
  using bits_codec.codec_roundtrip [of n v w] assms by simp

theorem WriteBits_ReadBits_witness:
  "\<exists>w' b'. WriteBits 0x2bc 10 (NewBitStreamWriter [0xff, 0xff]) = Inr w' \<and>
     ReadBits 10 (NewBitStreamReader (bw_buf w')) = (b', Inr 0x2bc)"
  using WriteBits_ReadBits [of 10 "0x2bc" "NewBitStreamWriter [0xff, 0xff]"] new_streams by fastforce

text \<open>The non-symmetric coding of a value among \<open>n\<close> takes exactly the bits \<open>SizeNonSymmetricBits\<close>
  announces and is read back from where it was written.\<close>

theorem NonSymmetric_roundtrip:
  assumes "val < n" "n < 2 ^ 31" "writer_wf w"
    "int (position w) + SizeNonSymmetricBits val n \<le> 8 * int (length (bw_buf w))"
  shows "\<exists>w'. WriteNonSymmetric val n w = Inr w' \<and> int (position w') = int (position w) + SizeNonSymmetricBits val n \<and>
    (\<forall>b. reader_wf b \<and> br_buf b = bw_buf w' \<and> consumed b = position w \<longrightarrow>
       (\<exists>b'. ReadNonSymmetric n b = (b', Inr val) \<and> consumed b' = position w'))"
proof -
  have n0: "0 < n" using assms(1) by (metis word_gt_0 word_not_simps(1))
  have "position w + length (nonsym_bits n val) \<le> 8 * length (bw_buf w)"
    using assms(4) length_nonsym_bits [OF n0, of val] by linarith
  with nonsym_codec.codec_roundtrip [of val n w] assms length_nonsym_bits [OF n0, of val] show ?thesis
    by (fastforce simp: appended_def)
qed

theorem NonSymmetric_roundtrip_witness:
  "\<exists>w' b'. WriteNonSymmetric 4 5 (NewBitStreamWriter [0]) = Inr w' \<and>
     ReadNonSymmetric 5 (NewBitStreamReader (bw_buf w')) = (b', Inr 4)"
proof -
  have b: "bitwidth 5 = 3"
    by (simp add: bitwidth.simps [of 5] bitwidth.simps [of 2] bitwidth.simps [of 1] bitwidth.simps [of 0])
  have "int (position (NewBitStreamWriter [0])) + SizeNonSymmetricBits 4 5 \<le> 8 * int (length (bw_buf (NewBitStreamWriter [0])))"
    by (simp add: SizeNonSymmetricBits_def b numMinBits_def new_streams)
  from NonSymmetric_roundtrip [OF _ _ new_streams(2) this] new_streams show ?thesis by fastforce
qed

end
