(* ===== verification/DDReader.thy ===== *)
theory DDReader
  imports BitStream "HOL-Library.Signed_Division"
begin

text \<open>
  The AV1 dependency descriptor and its parser: \<open>dependencydescriptorextension.go\<close> (the types) and
  \<open>dependencydescriptorreader.go\<close> of \<open>pkg/sfu/rtpextension/dependencydescriptor\<close>.

  Pointers are options. The two slices the writer compares with nil, the decode target
  indications and the frame differences of a template, are \<open>slice\<close>s: \<^term>\<open>None\<close> is the nil slice.
  The reader fills the caller's descriptor step by step; after an error the callers drop it, so a
  failed reading returns the error only. Whether the caller's storage for the frame dependencies is
  one of the templates of the structure is a comparison of pointers: the argument \<open>aliased\<close>.

  Lemmas: for any bytes, and a structure as the parser itself builds them, parsing ends without a
  panic, and what it attaches is again such a structure.
\<close>

section \<open>Types\<close>

type_synonym 'a slice = "'a list option"

definition sl :: "'a slice \<Rightarrow> 'a list" where
  "sl s = (case s of None \<Rightarrow> [] | Some xs \<Rightarrow> xs)"

text \<open>Go's \<open>append\<close>, and \<open>s[:0]\<close>.\<close>

definition appendS :: "'a slice \<Rightarrow> 'a list \<Rightarrow> 'a slice" where
  "appendS s xs = (if xs = [] then s else Some (sl s @ xs))"

definition emptied :: "'a slice \<Rightarrow> 'a slice" where
  "emptied s = (case s of None \<Rightarrow> None | Some _ \<Rightarrow> Some [])"

definition MaxSpatialIds :: int where
  "MaxSpatialIds = 4"

definition MaxTemporalIds :: int where
  "MaxTemporalIds = 8"

definition MaxDecodeTargets :: int where
  "MaxDecodeTargets = 32"

definition MaxTemplates :: nat where
  "MaxTemplates = 64"

record FrameDependencyTemplate =
  SpatialId :: int
  TemporalId :: int
  DecodeTargetIndications :: "int slice"
  FrameDiffs :: "int slice"
  ChainDiffs :: "int list"

record RenderResolution =
  Width :: int
  Height :: int

record FrameDependencyStructure =
  StructureId :: int
  NumDecodeTargets :: int
  NumChains :: int
  DecodeTargetProtectedByChain :: "int list"
  Resolutions :: "RenderResolution list"
  Templates :: "FrameDependencyTemplate list"

record DependencyDescriptor =
  FirstPacketInFrame :: bool
  LastPacketInFrame :: bool
  FrameNumber :: u16
  FrameDependencies :: "FrameDependencyTemplate option"
  Resolution :: "RenderResolution option"
  ActiveDecodeTargetsBitmask :: "u32 option"
  AttachedStructure :: "FrameDependencyStructure option"

definition zeroTemplate :: FrameDependencyTemplate where
  "zeroTemplate = \<lparr>SpatialId = 0, TemporalId = 0, DecodeTargetIndications = None, FrameDiffs = None,
     ChainDiffs = []\<rparr>"

definition zeroStructure :: FrameDependencyStructure where
  "zeroStructure = \<lparr>StructureId = 0, NumDecodeTargets = 0, NumChains = 0,
     DecodeTargetProtectedByChain = [], Resolutions = [], Templates = []\<rparr>"

definition CopyInto :: "FrameDependencyTemplate \<Rightarrow> FrameDependencyTemplate \<Rightarrow> FrameDependencyTemplate" where
  "CopyInto t dst =
     dst\<lparr>SpatialId := SpatialId t, TemporalId := TemporalId t,
       DecodeTargetIndications := appendS (emptied (DecodeTargetIndications dst)) (sl (DecodeTargetIndications t)),
       FrameDiffs := appendS (emptied (FrameDiffs dst)) (sl (FrameDiffs t)),
       ChainDiffs := ChainDiffs t\<rparr>"

definition Clone :: "FrameDependencyTemplate \<Rightarrow> FrameDependencyTemplate" where
  "Clone t = \<lparr>SpatialId = SpatialId t, TemporalId = TemporalId t,
     DecodeTargetIndications = Some (sl (DecodeTargetIndications t)), FrameDiffs = Some (sl (FrameDiffs t)),
     ChainDiffs = ChainDiffs t\<rparr>"

record DependencyDescriptorReader =
  rd_descriptor :: DependencyDescriptor
  frameDependencyTemplateId :: int
  activeDecodeTargetsPresentFlag :: bool
  customDtisFlag :: bool
  customFdiffsFlag :: bool
  customChainsFlag :: bool
  rd_structure :: "FrameDependencyStructure option"

definition NewDependencyDescriptorReader ::
  "FrameDependencyStructure option \<Rightarrow> DependencyDescriptor \<Rightarrow> DependencyDescriptorReader" where
  "NewDependencyDescriptorReader structure descriptor =
     \<lparr>rd_descriptor = descriptor, frameDependencyTemplateId = 0, activeDecodeTargetsPresentFlag = False,
      customDtisFlag = False, customFdiffsFlag = False, customChainsFlag = False, rd_structure = structure\<rparr>"

section \<open>Reading a template dependency structure\<close>

text \<open>Loops that read a fixed number of items, and one item per element of a list.\<close>

fun readList :: "nat \<Rightarrow> 'a reading \<Rightarrow> 'a list reading" where
  "readList 0 r = returnR []"
| "readList (Suc n) r = bindR r (\<lambda>x. bindR (readList n r) (\<lambda>xs. returnR (x # xs)))"

fun mapR :: "('a \<Rightarrow> 'b reading) \<Rightarrow> 'a list \<Rightarrow> 'b list reading" where
  "mapR f [] = returnR []"
| "mapR f (x # xs) = bindR (f x) (\<lambda>y. bindR (mapR f xs) (\<lambda>ys. returnR (y # ys)))"

text \<open>The loop of \<open>readTemplateLayers\<close>; the counter is the number of templates that may follow.\<close>

fun readTemplateLayersLoop ::
  "nat \<Rightarrow> FrameDependencyTemplate list \<Rightarrow> int \<Rightarrow> int \<Rightarrow> FrameDependencyTemplate list reading" where
  "readTemplateLayersLoop 0 templates temporalId spatialId = failR ErrDDReaderTooManyTemplates"
| "readTemplateLayersLoop (Suc n) templates temporalId spatialId =
     (let templates = templates @ [zeroTemplate\<lparr>TemporalId := temporalId, SpatialId := spatialId\<rparr>] in
      bindR (ReadBits 2) (\<lambda>nextLayerIdc b.
        if nextLayerIdc = 1 \<and> temporalId + 1 \<ge> MaxTemporalIds
        then failR ErrDDReaderTooManyTemporalLayers b
        else if nextLayerIdc = 2 \<and> spatialId + 1 \<ge> MaxSpatialIds
        then failR ErrDDReaderTooManySpatialLayers b
        else if nextLayerIdc = 3 \<or> \<not> Ok b then returnR templates b
        else if nextLayerIdc = 1 then readTemplateLayersLoop n templates (temporalId + 1) spatialId b
        else if nextLayerIdc = 2 then readTemplateLayersLoop n templates 0 (spatialId + 1) b
        else readTemplateLayersLoop n templates temporalId spatialId b))"

definition readTemplateLayers :: "FrameDependencyStructure \<Rightarrow> FrameDependencyStructure reading" where
  "readTemplateLayers st =
     bindR (readTemplateLayersLoop MaxTemplates [] 0 0) (\<lambda>templates. returnR (st\<lparr>Templates := templates\<rparr>))"

definition readTemplateDtis :: "FrameDependencyStructure \<Rightarrow> FrameDependencyStructure reading" where
  "readTemplateDtis st =
     bindR (mapR (\<lambda>t. bindR (readList (nat (NumDecodeTargets st)) (ReadBits 2)) (\<lambda>indications.
              returnR (t\<lparr>DecodeTargetIndications := Some (map uint indications)\<rparr>))) (Templates st))
       (\<lambda>templates. returnR (st\<lparr>Templates := templates\<rparr>))"

lemma ReadBits_remaining:
  "ReadBits n b = (b', Inr v) \<Longrightarrow> remainingBits b' = remainingBits b - n \<and> 0 \<le> remainingBits b' \<and> 0 \<le> n"
  by (auto simp: ReadBits_def Let_def split: if_splits option.splits prod.splits)

lemma two_reads_shrink:
  assumes "ReadBits 2 b = (b1, Inr v)" "ReadBits (uint u) b1 = (b2, Inr d)"
  shows "nat (remainingBits b2) < nat (remainingBits b)"
proof -
  have "remainingBits b2 < remainingBits b" "0 < remainingBits b"
    using ReadBits_remaining [OF assms(1)] ReadBits_remaining [OF assms(2)] by linarith+
  then show ?thesis by simp
qed

function readFdiffs :: "int slice \<Rightarrow> int slice reading" where
  "readFdiffs fdiffs b =
     (case ReadBits 1 b of
        (b, Inl err) \<Rightarrow> (b, Inl err)
      | (b, Inr fdiffFollow) \<Rightarrow>
          if fdiffFollow = 0 then (b, Inr fdiffs)
          else (case ReadBits 4 b of
                  (b, Inl err) \<Rightarrow> (b, Inl err)
                | (b, Inr fDiffMinusOne) \<Rightarrow> readFdiffs (appendS fdiffs [uint fDiffMinusOne + 1]) b))"
  by pat_completeness auto
termination
  by (relation "measure (\<lambda>(fdiffs, b). nat (remainingBits b))") (auto dest!: ReadBits_remaining [OF sym])

declare readFdiffs.simps [simp del]

definition readTemplateFdiffs :: "FrameDependencyStructure \<Rightarrow> FrameDependencyStructure reading" where
  "readTemplateFdiffs st =
     bindR (mapR (\<lambda>t. bindR (readFdiffs (FrameDiffs t)) (\<lambda>fdiffs. returnR (t\<lparr>FrameDiffs := fdiffs\<rparr>)))
              (Templates st))
       (\<lambda>templates. returnR (st\<lparr>Templates := templates\<rparr>))"

definition readTemplateChains :: "FrameDependencyStructure \<Rightarrow> FrameDependencyStructure reading" where
  "readTemplateChains st =
     bindR (ReadNonSymmetric (word_of_int (NumDecodeTargets st) + 1)) (\<lambda>numChains.
       let st = st\<lparr>NumChains := uint numChains\<rparr> in
       if NumChains st = 0 then returnR st
       else
         bindR (readList (nat (NumDecodeTargets st)) (ReadNonSymmetric (word_of_int (NumChains st))))
           (\<lambda>protectedBy.
         bindR (mapR (\<lambda>t. bindR (readList (nat (NumChains st)) (ReadBits 4)) (\<lambda>chainDiffs.
                  returnR (t\<lparr>ChainDiffs := ChainDiffs t @ map uint chainDiffs\<rparr>))) (Templates st))
           (\<lambda>templates.
              returnR (st\<lparr>DecodeTargetProtectedByChain := DecodeTargetProtectedByChain st @ map uint protectedBy,
                          Templates := templates\<rparr>))))"

definition readResolution :: "RenderResolution reading" where
  "readResolution =
     bindR (ReadBits 16) (\<lambda>widthMinus1. bindR (ReadBits 16) (\<lambda>heightMinus1.
       returnR \<lparr>Width = uint widthMinus1 + 1, Height = uint heightMinus1 + 1\<rparr>))"

definition readResolutions :: "FrameDependencyStructure \<Rightarrow> FrameDependencyStructure reading" where
  "readResolutions st =
     (if Templates st = [] then failR GoPanic
      else
        let spatialLayers = SpatialId (last (Templates st)) + 1 in
        bindR (readList (nat spatialLayers) readResolution) (\<lambda>resolutions.
          returnR (st\<lparr>Resolutions := Resolutions st @ resolutions\<rparr>)))"

definition readTemplateDependencyStructure :: "FrameDependencyStructure reading" where
  "readTemplateDependencyStructure =
     bindR (ReadBits 6) (\<lambda>structureId.
     bindR (ReadBits 5) (\<lambda>numDecodeTargets.
     bindR (readTemplateLayers (zeroStructure\<lparr>StructureId := uint structureId,
              NumDecodeTargets := uint numDecodeTargets + 1\<rparr>)) (\<lambda>st.
     bindR (readTemplateDtis st) (\<lambda>st.
     bindR (readTemplateFdiffs st) (\<lambda>st.
     bindR (readTemplateChains st) (\<lambda>st.
     bindR ReadBool (\<lambda>flag.
       if flag then readResolutions st else returnR st)))))))"

section \<open>Reading a descriptor\<close>

definition readMandatoryFields :: "DependencyDescriptorReader \<Rightarrow> DependencyDescriptorReader reading" where
  "readMandatoryFields r =
     bindR ReadBool (\<lambda>first.
     bindR ReadBool (\<lambda>lst.
     bindR (ReadBits 6) (\<lambda>templateID.
     bindR (ReadBits 16) (\<lambda>frameNumber.
       returnR (r\<lparr>rd_descriptor := (rd_descriptor r)\<lparr>FirstPacketInFrame := first, LastPacketInFrame := lst,
                    FrameNumber := ucast frameNumber\<rparr>,
                  frameDependencyTemplateId := uint templateID\<rparr>)))))"

text \<open>The attached structure was just set, so the nil test behind it cannot succeed. The mask is computed on
  \<open>uint64\<close> and truncated.\<close>

definition readExtendedFields :: "DependencyDescriptorReader \<Rightarrow> DependencyDescriptorReader reading" where
  "readExtendedFields r =
     bindR ReadBool (\<lambda>templateDependencyStructurePresentFlag.
     bindR ReadBool (\<lambda>active.
     bindR ReadBool (\<lambda>dtis.
     bindR ReadBool (\<lambda>fdiffs.
     bindR ReadBool (\<lambda>chains.
       let r = r\<lparr>activeDecodeTargetsPresentFlag := active, customDtisFlag := dtis,
                 customFdiffsFlag := fdiffs, customChainsFlag := chains\<rparr> in
       if templateDependencyStructurePresentFlag
       then bindR readTemplateDependencyStructure (\<lambda>st.
              let bitmask = ucast (push_bit (nat (NumDecodeTargets st)) (1 :: u64) - 1) in
              returnR (r\<lparr>rd_descriptor := (rd_descriptor r)\<lparr>AttachedStructure := Some st,
                           ActiveDecodeTargetsBitmask := Some bitmask\<rparr>\<rparr>))
       else returnR r)))))"

definition readFrameDtis ::
  "FrameDependencyStructure \<Rightarrow> FrameDependencyTemplate \<Rightarrow> FrameDependencyTemplate reading" where
  "readFrameDtis st f =
     (if int (length (sl (DecodeTargetIndications f))) \<noteq> NumDecodeTargets st
      then failR ErrDDReaderNumDTIMismatch
      else bindR (readList (length (sl (DecodeTargetIndications f))) (ReadBits 2)) (\<lambda>indications.
        returnR (f\<lparr>DecodeTargetIndications :=
          (if DecodeTargetIndications f = None then None else Some (map uint indications))\<rparr>)))"

function readFrameFdiffsLoop :: "int slice \<Rightarrow> int slice reading" where
  "readFrameFdiffsLoop fdiffs b =
     (case ReadBits 2 b of
        (b, Inl err) \<Rightarrow> (b, Inl err)
      | (b, Inr nexFdiffSize) \<Rightarrow>
          if nexFdiffSize = 0 then (b, Inr fdiffs)
          else (case ReadBits (uint (nexFdiffSize * 4)) b of
                  (b, Inl err) \<Rightarrow> (b, Inl err)
                | (b, Inr fDiffMinusOne) \<Rightarrow>
                    readFrameFdiffsLoop (appendS fdiffs [uint fDiffMinusOne + 1]) b))"
  by pat_completeness auto
termination
  by (relation "measure (\<lambda>(fdiffs, b). nat (remainingBits b))")
    (auto simp del: zless_nat_conj zless_nat_eq_int_zless intro: two_reads_shrink [OF sym sym])

declare readFrameFdiffsLoop.simps [simp del]

definition readFrameFdiffs :: "FrameDependencyTemplate \<Rightarrow> FrameDependencyTemplate reading" where
  "readFrameFdiffs f =
     bindR (readFrameFdiffsLoop (emptied (FrameDiffs f))) (\<lambda>fdiffs. returnR (f\<lparr>FrameDiffs := fdiffs\<rparr>))"

definition readFrameChains ::
  "FrameDependencyStructure \<Rightarrow> FrameDependencyTemplate \<Rightarrow> FrameDependencyTemplate reading" where
  "readFrameChains st f =
     (if int (length (ChainDiffs f)) \<noteq> NumChains st then failR ErrDDReaderNumChainDiffsMismatch
      else bindR (readList (length (ChainDiffs f)) (ReadBits 8)) (\<lambda>chainDiffs.
        returnR (f\<lparr>ChainDiffs := map uint chainDiffs\<rparr>)))"

text \<open>The resolution of the spatial layer; an invalid one also invalidates the buffer.\<close>

definition lookupResolution ::
  "FrameDependencyStructure \<Rightarrow> FrameDependencyTemplate \<Rightarrow> RenderResolution option reading" where
  "lookupResolution st f b =
     (if Resolutions st = [] then (b, Inr None)
      else if SpatialId f \<ge> int (length (Resolutions st))
      then (Invalidate b, Inl ErrDDReaderInvalidSpatialLayer)
      else if SpatialId f < 0 then (b, Inl GoPanic)
      else (b, Inr (Some (Resolutions st ! nat (SpatialId f)))))"

definition readFrameDependencyDefinition ::
  "bool \<Rightarrow> FrameDependencyStructure \<Rightarrow> DependencyDescriptorReader \<Rightarrow> DependencyDescriptorReader reading" where
  "readFrameDependencyDefinition aliased st r b =
     (let templateIndex = (frameDependencyTemplateId r + int MaxTemplates - StructureId st) smod int MaxTemplates
      in
        if templateIndex \<ge> int (length (Templates st))
        then (Invalidate b, Inl ErrDDReaderInvalidTemplateIndex)
        else if templateIndex < 0 then (b, Inl GoPanic)
        else
          let dst = (case FrameDependencies (rd_descriptor r) of
                       None \<Rightarrow> zeroTemplate
                     | Some dst \<Rightarrow> if aliased then zeroTemplate else dst);
              f = CopyInto (Templates st ! nat templateIndex) dst
          in
            bindR (if customDtisFlag r then readFrameDtis st f else returnR f) (\<lambda>f.
            bindR (if customFdiffsFlag r then readFrameFdiffs f else returnR f) (\<lambda>f.
            bindR (if customChainsFlag r then readFrameChains st f else returnR f) (\<lambda>f.
            bindR (lookupResolution st f) (\<lambda>res.
              returnR (r\<lparr>rd_descriptor :=
                (rd_descriptor r)\<lparr>FrameDependencies := Some f, Resolution := res\<rparr>\<rparr>))))) b)"

definition Parse :: "bool \<Rightarrow> u8 list \<Rightarrow> DependencyDescriptorReader \<Rightarrow> (DependencyDescriptor \<times> nat) reading" where
  "Parse aliased buf r =
     bindR (readMandatoryFields r) (\<lambda>r.
     bindR (if length buf > 3 then readExtendedFields r else returnR r) (\<lambda>r.
       let r = (case AttachedStructure (rd_descriptor r) of
                  None \<Rightarrow> r | Some st \<Rightarrow> r\<lparr>rd_structure := Some st\<rparr>) in
       case rd_structure r of
         None \<Rightarrow> (\<lambda>b. (Invalidate b, Inl ErrDDReaderNoStructure))
       | Some st \<Rightarrow>
           bindR (if activeDecodeTargetsPresentFlag r
                  then bindR (ReadBits (NumDecodeTargets st)) (\<lambda>bitmask.
                         returnR (r\<lparr>rd_descriptor :=
                           (rd_descriptor r)\<lparr>ActiveDecodeTargetsBitmask := Some (ucast bitmask)\<rparr>\<rparr>))
                  else returnR r) (\<lambda>r.
           bindR (readFrameDependencyDefinition aliased st r) (\<lambda>r b.
             (b, Inr (rd_descriptor r, BytesRead b))))))"

definition Unmarshal ::
  "bool \<Rightarrow> FrameDependencyStructure option \<Rightarrow> DependencyDescriptor \<Rightarrow> u8 list \<Rightarrow>
   dd_error + DependencyDescriptor \<times> nat" where
  "Unmarshal aliased structure descriptor buf =
     snd (Parse aliased buf (NewDependencyDescriptorReader structure descriptor) (NewBitStreamReader buf))"

section \<open>Reading without a panic\<close>

text \<open>\<open>safeR m Q\<close>: on a consistent reader \<open>m\<close> does not panic, and if it succeeds the value
  satisfies \<open>Q\<close> and the reader is consistent again.\<close>

definition safeR :: "'a reading \<Rightarrow> ('a \<Rightarrow> bool) \<Rightarrow> bool" where
  "safeR m Q \<longleftrightarrow> (\<forall>b b' r. reader_wf b \<longrightarrow> m b = (b', r) \<longrightarrow>
     r \<noteq> Inl GoPanic \<and> (\<forall>x. r = Inr x \<longrightarrow> reader_wf b' \<and> br_buf b' = br_buf b \<and> Q x))"

named_theorems safe \<open>parsers that do not panic\<close>

lemma safeR_weaken: "safeR m Q \<Longrightarrow> (\<And>x. Q x \<Longrightarrow> R x) \<Longrightarrow> safeR m R"
  unfolding safeR_def by blast

lemma safeR_return [safe]: "Q x \<Longrightarrow> safeR (returnR x) Q"
  by (simp add: safeR_def returnR_def)

lemma safeR_fail [safe]: "err \<noteq> GoPanic \<Longrightarrow> safeR (failR err) Q"
  by (simp add: safeR_def failR_def)

lemma safeR_bind [safe]: "safeR m Q \<Longrightarrow> (\<And>x. Q x \<Longrightarrow> safeR (f x) R) \<Longrightarrow> safeR (bindR m f) R"
  unfolding safeR_def
proof (intro allI impI)
  fix b b' r
  assume m: "\<forall>b b' r. reader_wf b \<longrightarrow> m b = (b', r) \<longrightarrow> r \<noteq> Inl GoPanic \<and>
      (\<forall>x. r = Inr x \<longrightarrow> reader_wf b' \<and> br_buf b' = br_buf b \<and> Q x)"
    and f: "\<And>x. Q x \<Longrightarrow> \<forall>b b' r. reader_wf b \<longrightarrow> f x b = (b', r) \<longrightarrow> r \<noteq> Inl GoPanic \<and>
      (\<forall>x. r = Inr x \<longrightarrow> reader_wf b' \<and> br_buf b' = br_buf b \<and> R x)"
    and b: "reader_wf b" "bindR m f b = (b', r)"
  obtain b1 r1 where r1: "m b = (b1, r1)" by fastforce
  show "r \<noteq> Inl GoPanic \<and> (\<forall>x. r = Inr x \<longrightarrow> reader_wf b' \<and> br_buf b' = br_buf b \<and> R x)"
  proof (cases r1)
    case (Inl err)
    then have "r = Inl err" using b r1 by (simp add: bindR_def)
    moreover have "r1 \<noteq> Inl GoPanic" using m b(1) r1 by blast
    ultimately show ?thesis using Inl by simp
  next
    case (Inr x)
    then have "reader_wf b1" "br_buf b1 = br_buf b" "Q x" using m b(1) r1 by blast+
    moreover have "f x b1 = (b', r)" using b(2) r1 Inr by (simp add: bindR_def)
    ultimately have "reader_wf b1" "br_buf b1 = br_buf b" "Q x" "f x b1 = (b', r)" by auto
    moreover from f [OF this(3)] have "r \<noteq> Inl GoPanic \<and>
        (\<forall>y. r = Inr y \<longrightarrow> reader_wf b' \<and> br_buf b' = br_buf b1 \<and> R y)"
      using \<open>reader_wf b1\<close> \<open>f x b1 = (b', r)\<close> by blast
    ultimately show ?thesis by simp
  qed
qed

lemma safeR_if: "(c \<Longrightarrow> safeR m Q) \<Longrightarrow> (\<not> c \<Longrightarrow> safeR m' Q) \<Longrightarrow> safeR (if c then m else m') Q"
  by simp

lemma safeR_ReadBits: "safeR (ReadBits n) (\<lambda>v. unat v < 2 ^ nat n)"
  unfolding safeR_def
proof (intro allI impI)
  fix b b1 r assume wf: "reader_wf b" and run: "ReadBits n b = (b1, r)"
  show "r \<noteq> Inl GoPanic \<and> (\<forall>v. r = Inr v \<longrightarrow> reader_wf b1 \<and> br_buf b1 = br_buf b \<and> unat v < 2 ^ nat n)"
  proof (cases "0 \<le> n \<and> n \<le> 64 \<and> n \<le> remainingBits b")
    case False
    then show ?thesis using run by (auto simp: ReadBits_def split: if_splits)
  next
    case True
    then obtain k where k: "n = int k" "k \<le> 64" "int k \<le> remainingBits b" by (cases n) auto
    obtain b' where b': "ReadBits n b = (b', Inr (bits_val (take k (rest b))))" "reader_wf b'" "br_buf b' = br_buf b"
      using ReadBits_spec [OF wf k(2,3)] k(1) by auto
    have "take_bit k (bits_val (take k (rest b))) = bits_val (take k (rest b))"
      using k(2) by (intro bit_word_eqI) (auto simp: bit_simps bit_bits_val)
    then have "unat (bits_val (take k (rest b))) < 2 ^ k"
      by (metis take_bit_nat_less_exp unsigned_take_bit_eq)
    then show ?thesis using b' k(1) run by auto
  qed
qed

lemma safeR_ReadBool [safe]: "safeR ReadBool (\<lambda>_. True)"
  unfolding ReadBool_def by (intro safeR_bind [OF safeR_ReadBits] safeR_return TrueI)

lemma safeR_bits: "0 \<le> n \<Longrightarrow> n < 64 \<Longrightarrow> safeR (ReadBits n) (\<lambda>v. 0 \<le> uint v \<and> uint v < 2 ^ nat n)"
proof (rule safeR_weaken [OF safeR_ReadBits])
  fix v :: u64 assume "unat v < 2 ^ nat n"
  then have "int (unat v) < 2 ^ nat n" by (metis of_nat_less_iff of_nat_numeral of_nat_power)
  then show "0 \<le> uint v \<and> uint v < 2 ^ nat n" by simp
qed

lemma safeR_readList [safe]:
  "safeR r Q \<Longrightarrow> safeR (readList n r) (\<lambda>xs. length xs = n \<and> (\<forall>x \<in> set xs. Q x))"
proof (induction n)
  case (Suc n)
  show ?case
    unfolding readList.simps
    by (rule safeR_bind [OF Suc.prems], rule safeR_bind [OF Suc.IH [OF Suc.prems]], rule safeR_return) auto
qed (simp add: safe)

lemma safeR_mapR:
  "(\<And>x. x \<in> set xs \<Longrightarrow> safeR (f x) (R x)) \<Longrightarrow> safeR (mapR f xs) (list_all2 R xs)"
proof (induction xs)
  case (Cons x xs)
  show ?case
    unfolding mapR.simps
    by (rule safeR_bind [of _ "R x"], use Cons.prems in simp,
        rule safeR_bind [OF Cons.IH], use Cons.prems in simp, rule safeR_return) auto
qed (simp add: safe)

text \<open>A non-symmetric value is always below the number of values.\<close>

lemma safeR_ReadNonSymmetric:
  assumes n: "0 < n" "n < 2 ^ 31"
  shows "safeR (ReadNonSymmetric n) (\<lambda>v. v < n)"
proof -
  note nm = numMinBits_value [OF n]
  let ?m = "unat (numMinBits n)" and ?w = "bitwidth n - 1"
  have w2: "(2::nat) ^ bitwidth n = 2 * 2 ^ ?w" using nm(5) by (simp add: power_eq_if)
  have "(2::nat) ^ ?w \<le> 2 ^ 30" using nm(2) by (intro power_increasing) auto
  then have w30: "(2::nat) ^ ?w \<le> 1073741824" by simp
  have nw: "nat (int (bitwidth n) - 1) = ?w" by simp
  have m: "?m + unat n = 2 * 2 ^ ?w" "?m \<le> unat n" using nm(1,3,4) w2 by auto
  have small: "ucast v < n" if "unat v < 2 ^ ?w" "v < ucast (numMinBits n)" for v :: u64
  proof -
    have "unat v < ?m" using that(2) by (simp only: word_less_nat_alt unat_ucast_u32)
    then show ?thesis using m(2) that(1) w30
      by (simp add: word_less_nat_alt unsigned_ucast_eq take_bit_nat_eq_self)
  qed
  have large: "ucast (push_bit 1 v + t - ucast (numMinBits n)) < n"
    if v: "unat v < 2 ^ ?w" "\<not> v < ucast (numMinBits n)" and t: "unat t < 2" for v t :: u64
  proof -
    have ge: "?m \<le> unat v" using v(2) by (simp add: word_less_nat_alt unat_ucast_u32)
    have "unat (push_bit 1 v) = 2 * unat v"
      using v(1) w30 by (simp add: unat_mult_lem [THEN iffD1] unat_word_ariths)
    then have s: "unat (push_bit 1 v + t) = 2 * unat v + unat t"
      using v(1) t w30 by (simp add: unat_plus_if')
    have "unat (push_bit 1 v + t - ucast (numMinBits n)) = 2 * unat v + unat t - ?m"
      using s ge by (subst unat_sub) (simp_all add: word_le_nat_alt unat_ucast_u32)
    moreover have "2 * unat v + unat t - ?m < unat n" using v(1) t m ge by linarith
    ultimately show ?thesis
      using unsigned_less [of n, where ?'a = nat]
      by (simp add: word_less_nat_alt unsigned_ucast_eq take_bit_nat_eq_self)
  qed
  have "\<not> n \<ge> 2 ^ 31" using n(2) by simp
  then show ?thesis
    unfolding ReadNonSymmetric_def Let_def
    by (simp only: if_False, intro safeR_bind [OF safeR_ReadBits] safeR_if safeR_return)
      (use small large nw in \<open>auto simp: word_less_nat_alt\<close>)
qed

section \<open>Well-formed structures\<close>

definition layer :: "FrameDependencyTemplate \<Rightarrow> int \<times> int" where
  "layer t = (SpatialId t, TemporalId t)"

text \<open>The layer of the next template is the same one, the next temporal or the next spatial one.\<close>

fun next_layer :: "int \<times> int \<Rightarrow> int \<times> int \<Rightarrow> bool" where
  "next_layer (s, t) (s', t') \<longleftrightarrow> (s' = s \<and> (t' = t \<or> t' = t + 1)) \<or> (s' = s + 1 \<and> t' = 0)"

definition layers_ok :: "(int \<times> int) list \<Rightarrow> bool" where
  "layers_ok ls \<longleftrightarrow> ls \<noteq> [] \<and> hd ls = (0, 0) \<and> successively next_layer ls \<and>
     (\<forall>(s, t) \<in> set ls. 0 \<le> s \<and> s < MaxSpatialIds \<and> 0 \<le> t \<and> t < MaxTemporalIds)"

definition dtis_ok :: "int \<Rightarrow> FrameDependencyTemplate \<Rightarrow> bool" where
  "dtis_ok num t \<longleftrightarrow> (\<exists>ds. DecodeTargetIndications t = Some ds \<and> length ds = nat num \<and>
     (\<forall>d \<in> set ds. 0 \<le> d \<and> d < 4))"

definition fdiffs_ok :: "int slice \<Rightarrow> bool" where
  "fdiffs_ok fd \<longleftrightarrow> fd \<noteq> Some [] \<and> (\<forall>d \<in> set (sl fd). 1 \<le> d \<and> d \<le> 16)"

definition chains_ok :: "int \<Rightarrow> FrameDependencyTemplate \<Rightarrow> bool" where
  "chains_ok num t \<longleftrightarrow> length (ChainDiffs t) = nat num \<and> (\<forall>c \<in> set (ChainDiffs t). 0 \<le> c \<and> c < 16)"

definition resolution_ok :: "RenderResolution \<Rightarrow> bool" where
  "resolution_ok r \<longleftrightarrow> 1 \<le> Width r \<and> Width r \<le> 65536 \<and> 1 \<le> Height r \<and> Height r \<le> 65536"

definition structure_base :: "FrameDependencyStructure \<Rightarrow> bool" where
  "structure_base st \<longleftrightarrow> 0 \<le> StructureId st \<and> StructureId st < int MaxTemplates \<and>
     1 \<le> NumDecodeTargets st \<and> NumDecodeTargets st \<le> MaxDecodeTargets \<and>
     layers_ok (map layer (Templates st)) \<and> length (Templates st) \<le> MaxTemplates"

definition chain_map_ok :: "FrameDependencyStructure \<Rightarrow> bool" where
  "chain_map_ok st \<longleftrightarrow> 0 \<le> NumChains st \<and> NumChains st \<le> NumDecodeTargets st \<and>
     (if NumChains st = 0 then DecodeTargetProtectedByChain st = []
      else length (DecodeTargetProtectedByChain st) = nat (NumDecodeTargets st) \<and>
        (\<forall>p \<in> set (DecodeTargetProtectedByChain st). 0 \<le> p \<and> p < NumChains st))"

definition resolutions_ok :: "FrameDependencyStructure \<Rightarrow> bool" where
  "resolutions_ok st \<longleftrightarrow> Resolutions st = [] \<or>
     length (Resolutions st) = nat (SpatialId (last (Templates st)) + 1) \<and> (\<forall>r \<in> set (Resolutions st). resolution_ok r)"

definition structure_wf :: "FrameDependencyStructure \<Rightarrow> bool" where
  "structure_wf st \<longleftrightarrow> structure_base st \<and> chain_map_ok st \<and> resolutions_ok st \<and>
     (\<forall>t \<in> set (Templates st). dtis_ok (NumDecodeTargets st) t \<and> fdiffs_ok (FrameDiffs t) \<and>
        chains_ok (NumChains st) t)"

section \<open>Structures read are well-formed\<close>

lemma safeR_if_const:
  "(c \<Longrightarrow> safeR m Q) \<Longrightarrow> (\<not> c \<Longrightarrow> safeR m' Q) \<Longrightarrow> safeR (\<lambda>b. if c then m b else m' b) Q"
  by (cases c) simp_all

lemma safeR_if_state:
  assumes "safeR m Q" "safeR m' Q"
  shows "safeR (\<lambda>b. if c b then m b else m' b) Q"
  unfolding safeR_def
proof (intro allI impI)
  fix b b' r assume b: "reader_wf b" "(if c b then m b else m' b) = (b', r)"
  note D = assms [unfolded safeR_def, rule_format, OF b(1)]
  show "r \<noteq> Inl GoPanic \<and> (\<forall>x. r = Inr x \<longrightarrow> reader_wf b' \<and> br_buf b' = br_buf b \<and> Q x)"
  proof (cases "c b")
    case True
    with b(2) have "m b = (b', r)" by simp
    from D(1) [OF this] show ?thesis by blast
  next
    case False
    with b(2) have "m' b = (b', r)" by simp
    from D(2) [OF this] show ?thesis by blast
  qed
qed

lemma safeR_templates:
  assumes "structure_base st" "\<And>t. t \<in> set (Templates st) \<Longrightarrow> P t"
    and "\<And>t. P t \<Longrightarrow> safeR (f t) (\<lambda>t'. layer t' = layer t \<and> P' t')"
  shows "safeR (mapR f (Templates st))
    (\<lambda>ts. map layer ts = map layer (Templates st) \<and> length ts = length (Templates st) \<and> (\<forall>t \<in> set ts. P' t))"
proof (rule safeR_weaken [OF safeR_mapR])
  show "safeR (f t) (\<lambda>t'. layer t' = layer t \<and> P' t')" if "t \<in> set (Templates st)" for t
    using assms that by blast
  show "map layer ts = map layer (Templates st) \<and> length ts = length (Templates st) \<and> (\<forall>t \<in> set ts. P' t)"
    if "list_all2 (\<lambda>t t'. layer t' = layer t \<and> P' t') (Templates st) ts" for ts
    using that by (induction rule: list_all2_induct) auto
qed

definition bare :: "FrameDependencyTemplate \<Rightarrow> bool" where
  "bare t \<longleftrightarrow> DecodeTargetIndications t = None \<and> FrameDiffs t = None \<and> ChainDiffs t = []"

lemma layers_ok_snoc:
  assumes "layers_ok (ls @ [l])" "next_layer l (s, t)" "s < MaxSpatialIds" "t < MaxTemporalIds"
  shows "layers_ok (ls @ [l] @ [(s, t)])"
proof -
  obtain s0 t0 where l: "l = (s0, t0)" by fastforce
  have "0 \<le> s0" "0 \<le> t0" using assms(1) l by (auto simp: layers_ok_def)
  then have "0 \<le> s" "0 \<le> t" using assms(2) l by auto
  moreover have "successively next_layer ((ls @ [l]) @ [(s, t)])"
    using assms(1,2) by (auto simp: layers_ok_def successively_append_iff)
  ultimately show ?thesis using assms by (auto simp: layers_ok_def hd_append)
qed

lemma safeR_readTemplateLayersLoop:
  assumes "n + length ts = MaxTemplates" "layers_ok (map layer ts @ [(s, t)])" "\<forall>x \<in> set ts. bare x"
  shows "safeR (readTemplateLayersLoop n ts t s)
    (\<lambda>ts'. layers_ok (map layer ts') \<and> length ts' \<le> MaxTemplates \<and> (\<forall>x \<in> set ts'. bare x))"
  using assms
proof (induction n arbitrary: ts s t)
  case 0
  then show ?case by (simp add: safe)
next
  case (Suc n)
  let ?t = "zeroTemplate\<lparr>TemporalId := t, SpatialId := s\<rparr>"
  have lay: "layer ?t = (s, t)" "bare ?t" by (simp_all add: layer_def bare_def zeroTemplate_def)
  let ?Q = "\<lambda>ts'. layers_ok (map layer ts') \<and> length ts' \<le> MaxTemplates \<and> (\<forall>x \<in> set ts'. bare x)"
  have rec: "safeR (readTemplateLayersLoop n (ts @ [?t]) t' s') ?Q"
    if "next_layer (s, t) (s', t')" "s' < MaxSpatialIds" "t' < MaxTemporalIds" for s' t'
    using Suc.prems lay layers_ok_snoc [OF Suc.prems(2) that] by (intro Suc.IH) auto
  have st: "s < MaxSpatialIds" "t < MaxTemporalIds" using Suc.prems(2) by (auto simp: layers_ok_def)
  have stop: "safeR (returnR (ts @ [?t])) ?Q" using Suc.prems lay by (intro safeR_return) auto
  show ?case
    unfolding readTemplateLayersLoop.simps Let_def
    by (rule safeR_bind [OF safeR_ReadBits], intro safeR_if_const safeR_if_state)
      (use rec st stop MaxTemporalIds_def in \<open>auto intro: safeR_fail\<close>)
qed

lemma safeR_readFdiffs: "fdiffs_ok fd \<Longrightarrow> safeR (readFdiffs fd) fdiffs_ok"
  unfolding safeR_def
proof (intro allI impI)
  fix b b' r
  assume "fdiffs_ok fd" "reader_wf b" "readFdiffs fd b = (b', r)"
  then show "r \<noteq> Inl GoPanic \<and> (\<forall>x. r = Inr x \<longrightarrow> reader_wf b' \<and> br_buf b' = br_buf b \<and> fdiffs_ok x)"
  proof (induction fd b rule: readFdiffs.induct)
    case (1 fd b)
    obtain b1 r1 where r1: "ReadBits 1 b = (b1, r1)" by fastforce
    note s1 = safeR_ReadBits [of 1, unfolded safeR_def, rule_format, OF "1.prems"(2) r1]
    obtain b2 r2 where r2: "ReadBits 4 b1 = (b2, r2)" by fastforce
    show ?case
    proof (cases "\<exists>v d. r1 = Inr v \<and> v \<noteq> 0 \<and> r2 = Inr d")
      case False
      have "r2 \<noteq> Inl GoPanic" if "reader_wf b1"
        using safeR_ReadBits [of 4, unfolded safeR_def, rule_format, OF that r2] by blast
      then show ?thesis
        using "1.prems" r1 r2 s1 False readFdiffs.simps [of fd b]
        by (auto split: sum.splits if_splits)
    next
      case True
      then obtain v d where v: "r1 = Inr v" "v \<noteq> 0" "r2 = Inr d" by blast
      have wf1: "reader_wf b1" "br_buf b1 = br_buf b" using s1 v by auto
      note s2 = safeR_bits [of 4, unfolded safeR_def, rule_format, OF _ _ wf1(1) r2]
      have d: "reader_wf b2" "br_buf b2 = br_buf b" "0 \<le> uint d" "uint d < 16" using s2 v wf1 by auto
      have ok: "fdiffs_ok (appendS fd [uint d + 1])"
        using "1.prems"(1) d by (auto simp: fdiffs_ok_def appendS_def sl_def)
      have "readFdiffs (appendS fd [uint d + 1]) b2 = (b', r)"
        using "1.prems"(3) readFdiffs.simps [of fd b] r1 r2 v by simp
      from "1.IH" [OF r1 [symmetric] v(1) v(2) r2 [symmetric] v(3) ok d(1) this] d(2) show ?thesis by simp
    qed
  qed
qed

definition stage :: "(FrameDependencyTemplate \<Rightarrow> bool) \<Rightarrow> FrameDependencyStructure \<Rightarrow> bool" where
  "stage P st \<longleftrightarrow> structure_base st \<and> NumChains st = 0 \<and> DecodeTargetProtectedByChain st = [] \<and>
     Resolutions st = [] \<and> (\<forall>t \<in> set (Templates st). P t)"

text \<open>A pass over the templates that keeps their layers.\<close>

lemma safeR_pass:
  assumes "stage P st" "\<And>t. P t \<Longrightarrow> safeR (f t) (\<lambda>t'. layer t' = layer t \<and> P' t')"
  shows "safeR (bindR (mapR f (Templates st)) (\<lambda>ts. returnR (st\<lparr>Templates := ts\<rparr>)))
    (\<lambda>st'. stage P' st' \<and> NumDecodeTargets st' = NumDecodeTargets st)"
proof (rule safeR_bind [OF safeR_templates])
  show "structure_base st" "\<And>t. t \<in> set (Templates st) \<Longrightarrow> P t" using assms(1) by (auto simp: stage_def)
  show "safeR (returnR (st\<lparr>Templates := ts\<rparr>)) (\<lambda>st'. stage P' st' \<and> NumDecodeTargets st' = NumDecodeTargets st)"
    if "map layer ts = map layer (Templates st) \<and> length ts = length (Templates st) \<and> (\<forall>t \<in> set ts. P' t)" for ts
    using that assms(1) by (intro safeR_return) (auto simp: stage_def structure_base_def)
qed (fact assms(2))

lemma safeR_readTemplateDtis:
  assumes "stage bare st"
  shows "safeR (readTemplateDtis st) (\<lambda>st'. stage (\<lambda>t. dtis_ok (NumDecodeTargets st') t \<and>
    FrameDiffs t = None \<and> ChainDiffs t = []) st')"
proof -
  have "safeR (readTemplateDtis st) (\<lambda>st'. stage (\<lambda>t. dtis_ok (NumDecodeTargets st) t \<and>
    FrameDiffs t = None \<and> ChainDiffs t = []) st' \<and> NumDecodeTargets st' = NumDecodeTargets st)"
    unfolding readTemplateDtis_def
  proof (rule safeR_pass [OF assms])
    fix t assume "bare t"
    then show "safeR (bindR (readList (nat (NumDecodeTargets st)) (ReadBits 2))
        (\<lambda>indications. returnR (t\<lparr>DecodeTargetIndications := Some (map uint indications)\<rparr>)))
        (\<lambda>t'. layer t' = layer t \<and> dtis_ok (NumDecodeTargets st) t' \<and> FrameDiffs t' = None \<and> ChainDiffs t' = [])"
      by (intro safeR_bind [OF safeR_readList [OF safeR_bits]] safeR_return)
        (auto simp: layer_def dtis_ok_def bare_def)
  qed
  then show ?thesis by (rule safeR_weaken) auto
qed

lemma safeR_readTemplateFdiffs:
  assumes "stage (\<lambda>t. dtis_ok (NumDecodeTargets st) t \<and> FrameDiffs t = None \<and> ChainDiffs t = []) st"
  shows "safeR (readTemplateFdiffs st) (\<lambda>st'. stage (\<lambda>t. dtis_ok (NumDecodeTargets st') t \<and>
    fdiffs_ok (FrameDiffs t) \<and> ChainDiffs t = []) st')"
proof -
  have "safeR (readTemplateFdiffs st) (\<lambda>st'. stage (\<lambda>t. dtis_ok (NumDecodeTargets st) t \<and>
    fdiffs_ok (FrameDiffs t) \<and> ChainDiffs t = []) st' \<and> NumDecodeTargets st' = NumDecodeTargets st)"
    unfolding readTemplateFdiffs_def
  proof (rule safeR_pass [OF assms])
    fix t assume t: "dtis_ok (NumDecodeTargets st) t \<and> FrameDiffs t = None \<and> ChainDiffs t = []"
    then have "fdiffs_ok (FrameDiffs t)" by (simp add: fdiffs_ok_def sl_def)
    then show "safeR (bindR (readFdiffs (FrameDiffs t)) (\<lambda>fdiffs. returnR (t\<lparr>FrameDiffs := fdiffs\<rparr>)))
        (\<lambda>t'. layer t' = layer t \<and> dtis_ok (NumDecodeTargets st) t' \<and> fdiffs_ok (FrameDiffs t') \<and> ChainDiffs t' = [])"
      using t by (intro safeR_bind [OF safeR_readFdiffs] safeR_return) (auto simp: layer_def dtis_ok_def)
  qed
  then show ?thesis by (rule safeR_weaken) auto
qed
lemma decode_targets_word:
  assumes "1 \<le> n" "n \<le> MaxDecodeTargets"
  shows "uint (word_of_int n + 1 :: u32) = n + 1" "(0::u32) < word_of_int n + 1" "word_of_int n + 1 < (2 ^ 31 :: u32)"
proof -
  have "uint (word_of_int (n + 1) :: u32) = (n + 1) mod 2 ^ 32" by (simp only: uint_word_of_int) simp
  then have "uint (word_of_int (n + 1) :: u32) = n + 1" using assms by (simp add: MaxDecodeTargets_def)
  then show "uint (word_of_int n + 1 :: u32) = n + 1" by simp
  then show "(0::u32) < word_of_int n + 1" "word_of_int n + 1 < (2 ^ 31 :: u32)"
    using assms by (simp_all add: word_less_def MaxDecodeTargets_def)
qed

lemma safeR_readTemplateChains:
  assumes st: "stage (\<lambda>t. dtis_ok (NumDecodeTargets st) t \<and> fdiffs_ok (FrameDiffs t) \<and> ChainDiffs t = []) st"
  shows "safeR (readTemplateChains st) (\<lambda>st'. structure_wf st' \<and> Resolutions st' = [])"
proof -
  let ?n = "word_of_int (NumDecodeTargets st) + 1 :: u32"
  have base: "structure_base st" using st by (simp add: stage_def)
  then have nd: "1 \<le> NumDecodeTargets st" "NumDecodeTargets st \<le> MaxDecodeTargets" by (auto simp: structure_base_def)
  note n = decode_targets_word [OF nd]
  show ?thesis
    unfolding readTemplateChains_def Let_def
  proof (rule safeR_bind [OF safeR_ReadNonSymmetric [OF n(2,3)]])
    fix nc :: u32 assume nc: "nc < ?n"
    let ?st = "st\<lparr>NumChains := uint nc\<rparr>"
    have ncb: "0 \<le> uint nc" "uint nc \<le> NumDecodeTargets st" using nc n(1) by (simp_all add: word_less_def)
    have none: "structure_wf ?st \<and> Resolutions ?st = []" if "uint nc = 0"
      using st that ncb nd
      by (auto simp: stage_def structure_wf_def structure_base_def chain_map_ok_def resolutions_ok_def chains_ok_def dtis_ok_def)
    have "safeR (readList (nat (NumDecodeTargets st)) (ReadNonSymmetric nc))
        (\<lambda>ps. length ps = nat (NumDecodeTargets st) \<and> (\<forall>p \<in> set ps. p < nc))" if "uint nc \<noteq> 0"
    proof (rule safeR_readList [OF safeR_ReadNonSymmetric])
      show "0 < nc" using that by (simp add: word_less_def less_le)
      show "nc < 2 ^ 31" using nc n(3) by (rule less_trans)
    qed
    moreover have "safeR (mapR (\<lambda>t. bindR (readList (nat (uint nc)) (ReadBits 4)) (\<lambda>chainDiffs.
          returnR (t\<lparr>ChainDiffs := ChainDiffs t @ map uint chainDiffs\<rparr>))) (Templates st))
        (\<lambda>ts. map layer ts = map layer (Templates st) \<and> length ts = length (Templates st) \<and>
           (\<forall>t \<in> set ts. dtis_ok (NumDecodeTargets st) t \<and> fdiffs_ok (FrameDiffs t) \<and> chains_ok (uint nc) t))"
    proof (rule safeR_templates [OF base, where P = "\<lambda>t. dtis_ok (NumDecodeTargets st) t \<and> fdiffs_ok (FrameDiffs t) \<and> ChainDiffs t = []"])
      fix t assume "dtis_ok (NumDecodeTargets st) t \<and> fdiffs_ok (FrameDiffs t) \<and> ChainDiffs t = []"
      then show "safeR (bindR (readList (nat (uint nc)) (ReadBits 4)) (\<lambda>chainDiffs.
          returnR (t\<lparr>ChainDiffs := ChainDiffs t @ map uint chainDiffs\<rparr>)))
        (\<lambda>t'. layer t' = layer t \<and> dtis_ok (NumDecodeTargets st) t' \<and> fdiffs_ok (FrameDiffs t') \<and> chains_ok (uint nc) t')"
        by (intro safeR_bind [OF safeR_readList [OF safeR_bits]] safeR_return)
          (auto simp: layer_def dtis_ok_def chains_ok_def)
    qed (use st in \<open>auto simp: stage_def\<close>)
    moreover have "structure_wf (?st\<lparr>DecodeTargetProtectedByChain := DecodeTargetProtectedByChain ?st @ map uint ps,
        Templates := ts\<rparr>) \<and> Resolutions ?st = []"
      if "uint nc \<noteq> 0" "length ps = nat (NumDecodeTargets st) \<and> (\<forall>p \<in> set ps. p < nc)"
        "map layer ts = map layer (Templates st) \<and> length ts = length (Templates st) \<and>
         (\<forall>t \<in> set ts. dtis_ok (NumDecodeTargets st) t \<and> fdiffs_ok (FrameDiffs t) \<and> chains_ok (uint nc) t)" for ps ts
      using that st ncb nd
      by (auto simp del: One_nat_def simp: stage_def structure_wf_def structure_base_def chain_map_ok_def resolutions_ok_def word_less_def)
    ultimately show "safeR (if NumChains ?st = 0 then returnR ?st
      else bindR (readList (nat (NumDecodeTargets ?st)) (ReadNonSymmetric (word_of_int (NumChains ?st)))) (\<lambda>protectedBy.
        bindR (mapR (\<lambda>t. bindR (readList (nat (NumChains ?st)) (ReadBits 4)) (\<lambda>chainDiffs.
                  returnR (t\<lparr>ChainDiffs := ChainDiffs t @ map uint chainDiffs\<rparr>))) (Templates ?st))
           (\<lambda>templates. returnR (?st\<lparr>DecodeTargetProtectedByChain := DecodeTargetProtectedByChain ?st @ map uint protectedBy,
                          Templates := templates\<rparr>)))) (\<lambda>st'. structure_wf st' \<and> Resolutions st' = [])"
      using none by (intro safeR_if) (auto intro!: safeR_bind safeR_return)
  qed
qed

lemma safeR_readResolution: "safeR readResolution resolution_ok"
  unfolding readResolution_def
  by (intro safeR_bind [OF safeR_bits] safeR_return) (auto simp: resolution_ok_def)

lemma last_spatial: "layers_ok (map layer ts) \<Longrightarrow> ts \<noteq> [] \<and> 0 \<le> SpatialId (last ts)"
  by (cases ts rule: rev_cases) (auto simp: layers_ok_def layer_def)

lemma safeR_readResolutions:
  assumes "structure_wf st" "Resolutions st = []"
  shows "safeR (readResolutions st) structure_wf"
proof -
  have "Templates st \<noteq> []"
    using assms(1) last_spatial by (auto simp: structure_wf_def structure_base_def)
  then show ?thesis
    unfolding readResolutions_def Let_def
    using assms
    by (auto intro!: safeR_bind [OF safeR_readList [OF safeR_readResolution]] safeR_return
        simp: structure_wf_def structure_base_def chain_map_ok_def resolutions_ok_def)
qed

lemma safeR_readTemplateDependencyStructure: "safeR readTemplateDependencyStructure structure_wf"
  unfolding readTemplateDependencyStructure_def
proof (rule safeR_bind [OF safeR_bits [of 6]], simp, simp, rule safeR_bind [OF safeR_bits [of 5]], simp, simp)
  fix sid nd :: u64
  assume sid: "0 \<le> uint sid \<and> uint sid < 2 ^ nat 6" and nd: "0 \<le> uint nd \<and> uint nd < 2 ^ nat 5"
  let ?st = "zeroStructure\<lparr>StructureId := uint sid, NumDecodeTargets := uint nd + 1\<rparr>"
  have layers: "safeR (readTemplateLayers ?st) (stage bare)"
    unfolding readTemplateLayers_def
    using sid nd
    by (auto intro!: safeR_bind [OF safeR_readTemplateLayersLoop] safeR_return
        simp: stage_def structure_base_def zeroStructure_def layers_ok_def MaxTemplates_def MaxDecodeTargets_def
          MaxSpatialIds_def MaxTemporalIds_def)
  show "safeR (bindR (readTemplateLayers ?st) (\<lambda>st. bindR (readTemplateDtis st) (\<lambda>st. bindR (readTemplateFdiffs st)
      (\<lambda>st. bindR (readTemplateChains st) (\<lambda>st. bindR ReadBool (\<lambda>flag.
         if flag then readResolutions st else returnR st)))))) structure_wf"
    by (rule safeR_bind [OF layers], rule safeR_bind [OF safeR_readTemplateDtis], assumption,
        rule safeR_bind [OF safeR_readTemplateFdiffs], assumption,
        rule safeR_bind [OF safeR_readTemplateChains], assumption, rule safeR_bind [OF safeR_ReadBool],
        intro safeR_if safeR_return safeR_readResolutions) auto
qed

section \<open>Descriptors\<close>

lemma safeR_readFrameFdiffsLoop: "safeR (readFrameFdiffsLoop fd) (\<lambda>_. True)"
  unfolding safeR_def
proof (intro allI impI)
  fix b b' r
  assume "reader_wf b" "readFrameFdiffsLoop fd b = (b', r)"
  then show "r \<noteq> Inl GoPanic \<and> (\<forall>x. r = Inr x \<longrightarrow> reader_wf b' \<and> br_buf b' = br_buf b \<and> True)"
  proof (induction fd b rule: readFrameFdiffsLoop.induct)
    case (1 fd b)
    obtain b1 r1 where r1: "ReadBits 2 b = (b1, r1)" by fastforce
    note s1 = safeR_ReadBits [of 2, unfolded safeR_def, rule_format, OF "1.prems"(1) r1]
    show ?case
    proof (cases "\<exists>v. r1 = Inr v \<and> v \<noteq> 0")
      case False
      then show ?thesis
        using "1.prems" r1 s1 readFrameFdiffsLoop.simps [of fd b] by (auto split: sum.splits if_splits)
    next
      case True
      then obtain v where v: "r1 = Inr v" "v \<noteq> 0" by blast
      obtain b2 r2 where r2: "ReadBits (uint (v * 4)) b1 = (b2, r2)" by fastforce
      have wf1: "reader_wf b1" "br_buf b1 = br_buf b" using s1 v by auto
      note s2 = safeR_ReadBits [unfolded safeR_def, rule_format, OF wf1(1) r2]
      have run: "(case r2 of Inl err \<Rightarrow> (b2, Inl err)
          | Inr d \<Rightarrow> readFrameFdiffsLoop (appendS fd [uint d + 1]) b2) = (b', r)"
        using "1.prems"(2) readFrameFdiffsLoop.simps [of fd b] r1 r2 v by simp
      show ?thesis
      proof (cases r2)
        case (Inl err)
        then show ?thesis using run s2 by auto
      next
        case (Inr d)
        then have wf2: "reader_wf b2" "br_buf b2 = br_buf b" using s2 wf1 by auto
        have "readFrameFdiffsLoop (appendS fd [uint d + 1]) b2 = (b', r)" using run Inr by simp
        from "1.IH" [OF r1 [symmetric] v(1) v(2) r2 [symmetric] Inr wf2(1) this] wf2(2) show ?thesis by simp
      qed
    qed
  qed
qed

lemma safeR_invalidate: "err \<noteq> GoPanic \<Longrightarrow> safeR (\<lambda>b. (Invalidate b, Inl err)) Q"
  by (simp add: safeR_def)

lemma safeR_frame_parts:
  assumes "0 \<le> SpatialId f"
  shows "safeR (readFrameDtis st f) (\<lambda>f. 0 \<le> SpatialId f)"
    and "safeR (readFrameFdiffs f) (\<lambda>f. 0 \<le> SpatialId f)"
    and "safeR (readFrameChains st f) (\<lambda>f. 0 \<le> SpatialId f)"
    and "safeR (lookupResolution st f) (\<lambda>_. True)"
proof -
  show "safeR (readFrameDtis st f) (\<lambda>f. 0 \<le> SpatialId f)"
    using assms unfolding readFrameDtis_def
    by (auto intro!: safeR_bind [OF safeR_readList [OF safeR_ReadBits]] safe)
  show "safeR (readFrameFdiffs f) (\<lambda>f. 0 \<le> SpatialId f)"
    using assms unfolding readFrameFdiffs_def
    by (auto intro!: safeR_bind [OF safeR_readFrameFdiffsLoop] safe)
  show "safeR (readFrameChains st f) (\<lambda>f. 0 \<le> SpatialId f)"
    using assms unfolding readFrameChains_def
    by (auto intro!: safeR_bind [OF safeR_readList [OF safeR_ReadBits]] safe)
  show "safeR (lookupResolution st f) (\<lambda>_. True)"
    using assms by (auto simp: safeR_def lookupResolution_def split: if_splits)
qed

definition parsed_ok :: "DependencyDescriptor \<Rightarrow> bool" where
  "parsed_ok d \<longleftrightarrow> (case AttachedStructure d of None \<Rightarrow> True | Some st \<Rightarrow> structure_wf st)"

definition reader_ok :: "DependencyDescriptorReader \<Rightarrow> bool" where
  "reader_ok r \<longleftrightarrow> parsed_ok (rd_descriptor r) \<and>
     (case rd_structure r of None \<Rightarrow> True | Some st \<Rightarrow> structure_wf st) \<and>
     0 \<le> frameDependencyTemplateId r \<and> frameDependencyTemplateId r < int MaxTemplates"

lemma safeR_readMandatoryFields:
  "reader_ok r \<Longrightarrow> safeR (readMandatoryFields r) reader_ok"
  unfolding readMandatoryFields_def
  by (intro safeR_bind [OF safeR_ReadBool] safeR_bind [OF safeR_bits [of 6]] safeR_bind [OF safeR_ReadBits]
      safeR_return) (auto simp: reader_ok_def parsed_ok_def MaxTemplates_def)

lemma safeR_readExtendedFields:
  "reader_ok r \<Longrightarrow> safeR (readExtendedFields r) reader_ok"
  unfolding readExtendedFields_def Let_def
  by (intro safeR_bind [OF safeR_ReadBool] safeR_if safeR_bind [OF safeR_readTemplateDependencyStructure]
      safeR_return) (auto simp: reader_ok_def parsed_ok_def)

lemma template_index:
  assumes "0 \<le> t" "t < int MaxTemplates" "0 \<le> s" "s < int MaxTemplates"
  shows "(t + int MaxTemplates - s) smod int MaxTemplates = (t - s) mod int MaxTemplates"
proof -
  have "(t + int MaxTemplates - s) smod int MaxTemplates = (t + int MaxTemplates - s) mod int MaxTemplates"
    using assms by (simp add: signed_modulo_int_def MaxTemplates_def)
  moreover have "t + int MaxTemplates - s = (t - s) + int MaxTemplates" by simp
  ultimately show ?thesis by (simp only: mod_add_self2)
qed

lemma safeR_readFrameDependencyDefinition:
  assumes "structure_wf st" "reader_ok r"
  shows "safeR (readFrameDependencyDefinition aliased st r)
    (\<lambda>r'. AttachedStructure (rd_descriptor r') = AttachedStructure (rd_descriptor r))"
proof -
  let ?i = "(frameDependencyTemplateId r + int MaxTemplates - StructureId st) smod int MaxTemplates"
  have i: "0 \<le> ?i"
    using assms by (subst template_index) (auto simp: structure_wf_def structure_base_def reader_ok_def MaxTemplates_def)
  have sp: "0 \<le> SpatialId t" if "t \<in> set (Templates st)" for t
    using assms(1) that by (fastforce simp: structure_wf_def structure_base_def layers_ok_def layer_def)
  have "0 \<le> SpatialId (CopyInto (Templates st ! nat ?i) dst)" if "\<not> ?i \<ge> int (length (Templates st))" for dst
    using that i by (simp add: CopyInto_def sp nat_less_iff)
  with i show ?thesis
    unfolding readFrameDependencyDefinition_def Let_def
    by (intro safeR_if_const safeR_invalidate safeR_bind [of _ "\<lambda>f. 0 \<le> SpatialId f"] safeR_if
        safeR_frame_parts safeR_bind [OF safeR_frame_parts(4)] safeR_return) auto
qed

lemma safeR_Parse:
  assumes "reader_ok r"
  shows "safeR (Parse aliased buf r) (\<lambda>(d, n). parsed_ok d)"
  unfolding Parse_def Let_def
proof (rule safeR_bind [OF safeR_readMandatoryFields [OF assms]], rule safeR_bind [of _ reader_ok])
  fix r assume r: "reader_ok r"
  show "safeR (if length buf > 3 then readExtendedFields r else returnR r) reader_ok"
    using r by (intro safeR_if safeR_readExtendedFields safeR_return)
next
  fix r assume r: "reader_ok r"
  let ?r = "case AttachedStructure (rd_descriptor r) of None \<Rightarrow> r | Some st \<Rightarrow> r\<lparr>rd_structure := Some st\<rparr>"
  have r': "reader_ok ?r" using r by (auto simp: reader_ok_def parsed_ok_def split: option.splits)
  have mask: "safeR (if activeDecodeTargetsPresentFlag ?r
       then bindR (ReadBits (NumDecodeTargets st)) (\<lambda>bitmask. returnR (?r\<lparr>rd_descriptor :=
              (rd_descriptor ?r)\<lparr>ActiveDecodeTargetsBitmask := Some (ucast bitmask)\<rparr>\<rparr>))
       else returnR ?r) reader_ok" for st
    using r' by (intro safeR_if safeR_bind [OF safeR_ReadBits] safeR_return) (auto simp: reader_ok_def parsed_ok_def)
  have fin: "safeR (\<lambda>b. (b, Inr (rd_descriptor q, BytesRead b))) (\<lambda>(d, n). parsed_ok d)" if "parsed_ok (rd_descriptor q)" for q
    using that by (simp add: safeR_def)
  show "safeR (case rd_structure ?r of None \<Rightarrow> \<lambda>b. (Invalidate b, Inl ErrDDReaderNoStructure)
     | Some st \<Rightarrow> bindR (if activeDecodeTargetsPresentFlag ?r
         then bindR (ReadBits (NumDecodeTargets st)) (\<lambda>bitmask. returnR (?r\<lparr>rd_descriptor :=
                (rd_descriptor ?r)\<lparr>ActiveDecodeTargetsBitmask := Some (ucast bitmask)\<rparr>\<rparr>))
         else returnR ?r) (\<lambda>r. bindR (readFrameDependencyDefinition aliased st r) (\<lambda>r b.
             (b, Inr (rd_descriptor r, BytesRead b))))) (\<lambda>(d, n). parsed_ok d)"
  proof (cases "rd_structure ?r")
    case None
    then show ?thesis by (simp only: option.case) (rule safeR_invalidate, simp)
  next
    case (Some st)
    then have wf: "structure_wf st" using r' by (simp only: reader_ok_def option.case)
    show ?thesis
      unfolding Some option.case
      by (rule safeR_bind [OF mask], rule safeR_bind [OF safeR_readFrameDependencyDefinition [OF wf]], assumption,
          rule fin) (simp add: reader_ok_def parsed_ok_def)
  qed
qed

lemma reader_wf_new: "reader_wf (NewBitStreamReader buf)"
  by (simp add: reader_wf_def NewBitStreamReader_def consumed_def)

section \<open>Properties\<close>

lemma Unmarshal_returns:
  assumes "\<And>st. structure = Some st \<Longrightarrow> structure_wf st" "parsed_ok d"
  shows "(\<exists>err. Unmarshal aliased structure d buf = Inl err \<and> err \<noteq> GoPanic) \<or>
    (\<exists>d' n. Unmarshal aliased structure d buf = Inr (d', n) \<and> parsed_ok d')"
proof -
  let ?r = "NewDependencyDescriptorReader structure d"
  have "reader_ok ?r"
    using assms by (auto simp: reader_ok_def NewDependencyDescriptorReader_def MaxTemplates_def split: option.splits)
  obtain b' res where run: "Parse aliased buf ?r (NewBitStreamReader buf) = (b', res)" by fastforce
  have "res \<noteq> Inl GoPanic \<and> (\<forall>x. res = Inr x \<longrightarrow> (case x of (d, n) \<Rightarrow> parsed_ok d))"
    using safeR_Parse [OF \<open>reader_ok ?r\<close>, unfolded safeR_def, rule_format, OF reader_wf_new run] by blast
  then show ?thesis using run by (cases res) (auto simp: Unmarshal_def)
qed

text \<open>C18. Parsing is total: whatever the bytes, given no structure or one the parser itself accepts,
  unmarshalling ends with a descriptor or one of its errors and never with a panic; a structure it
  attaches is well-formed (layers in order and in range, one indication per decode target, one
  difference per chain, a protecting chain for every target, a resolution per spatial layer).\<close>

theorem Unmarshal_total:
  assumes "\<And>st. structure = Some st \<Longrightarrow> structure_wf st" "parsed_ok d"
  shows "(\<exists>err. Unmarshal aliased structure d buf = Inl err \<and> err \<noteq> GoPanic) \<or>
    (\<exists>d' n. Unmarshal aliased structure d buf = Inr (d', n) \<and> parsed_ok d')"
  using assms by (rule Unmarshal_returns)

definition zeroDescriptor :: DependencyDescriptor where
  "zeroDescriptor = \<lparr>FirstPacketInFrame = False, LastPacketInFrame = False, FrameNumber = 0,
     FrameDependencies = None, Resolution = None, ActiveDecodeTargetsBitmask = None, AttachedStructure = None\<rparr>"

theorem Unmarshal_total_witness:
  "(\<exists>err. Unmarshal False None zeroDescriptor [0x80, 0, 1] = Inl err \<and> err \<noteq> GoPanic) \<or>
   (\<exists>d' n. Unmarshal False None zeroDescriptor [0x80, 0, 1] = Inr (d', n) \<and> parsed_ok d')"
  by (rule Unmarshal_total) (simp_all add: parsed_ok_def zeroDescriptor_def)

text \<open>A non-symmetric value read from any stream is below the number of values.\<close>

theorem ReadNonSymmetric_bounded:
  assumes "0 < n" "n < 2 ^ 31" "reader_wf b" "ReadNonSymmetric n b = (b', Inr v)"
  shows "v < n \<and> reader_wf b'"
  using safeR_ReadNonSymmetric [OF assms(1,2), unfolded safeR_def, rule_format, OF assms(3,4)] by blast

theorem ReadNonSymmetric_bounded_witness:
  "\<exists>b' v. ReadNonSymmetric 5 (NewBitStreamReader [0xff]) = (b', Inr v) \<and> v < 5"
proof -
  have b: "bitwidth 5 = 3"
    by (simp add: bitwidth.simps [of 5] bitwidth.simps [of 2] bitwidth.simps [of 1] bitwidth.simps [of 0])
  have "\<exists>b' v. ReadNonSymmetric 5 (NewBitStreamReader [0xff]) = (b', Inr v)"
    by (simp add: ReadNonSymmetric_def b numMinBits_def bindR_def returnR_def ReadBits_def NewBitStreamReader_def
        readBytes.simps Let_def)
  then obtain b' v where run: "ReadNonSymmetric 5 (NewBitStreamReader [0xff]) = (b', Inr v)" by blast
  from ReadNonSymmetric_bounded [OF _ _ reader_wf_new this] run show ?thesis by simp
qed

section \<open>An example structure\<close>

definition exampleStructure :: FrameDependencyStructure where
  "exampleStructure = \<lparr>StructureId = 60, NumDecodeTargets = 2, NumChains = 1, DecodeTargetProtectedByChain = [0, 0],
     Resolutions = [\<lparr>Width = 640, Height = 360\<rparr>],
     Templates = [\<lparr>SpatialId = 0, TemporalId = 0, DecodeTargetIndications = Some [3, 3], FrameDiffs = Some [2], ChainDiffs = [2]\<rparr>,
                  \<lparr>SpatialId = 0, TemporalId = 1, DecodeTargetIndications = Some [0, 1], FrameDiffs = Some [1], ChainDiffs = [1]\<rparr>]\<rparr>"

lemma exampleStructure_wf: "structure_wf exampleStructure"
  by (auto simp: exampleStructure_def structure_wf_def structure_base_def layers_ok_def layer_def
      chain_map_ok_def resolutions_ok_def resolution_ok_def dtis_ok_def fdiffs_ok_def chains_ok_def sl_def
      MaxTemplates_def MaxDecodeTargets_def MaxSpatialIds_def MaxTemporalIds_def)

end
