(* ===== verification/DecodeTargets.thy ===== *)
theory DecodeTargets
  imports Layers DDReader "HOL-Library.Multiset"
begin

text \<open>
  The decode targets of a dependency structure, from \<open>pkg/sfu/buffer/dependencydescriptorparser.go\<close>:
  \<open>ProcessFrameDependencyStructure\<close> lists them from the highest layer to the lowest, and
  \<open>GetActiveDecodeTargetBitmask\<close> gives the mask of those within a layer. \<open>ExtDependencyDescriptor\<close> is what the
  parser hands on with a packet; its arrays are storage for the descriptor and not modelled.

  The standard library's \<open>slices.SortFunc\<close> is the insertion sort it is for short slices; for longer ones Go leaves
  the order of equal elements open, and no lemma depends on it.

  Lemmas: every target of a well-formed structure is listed once, the list descends, and the layer of a target is
  the least one that contains every template the target decodes.
\<close>

section \<open>Model\<close>

definition DecodeTargetNotPresent :: int where
  "DecodeTargetNotPresent = 0"

definition DecodeTargetSwitch :: int where
  "DecodeTargetSwitch = 2"

record DependencyDescriptorDecodeTarget =
  Target :: int
  Layer :: VideoLayer

record ExtDependencyDescriptor =
  Descriptor :: "DependencyDescriptor option"
  DecodeTargets :: "DependencyDescriptorDecodeTarget list"
  StructureUpdated :: bool
  ActiveDecodeTargetsUpdated :: bool
  ActiveDecodeTargetsMask :: u32
  Integrity :: bool
  ExtFrameNum :: u64
  ExtKeyFrameNum :: u64
  RestartGeneration :: int

fun insertBy :: "('a \<Rightarrow> 'a \<Rightarrow> int) \<Rightarrow> 'a \<Rightarrow> 'a list \<Rightarrow> 'a list" where
  "insertBy cmp x [] = [x]"
| "insertBy cmp x (y # ys) = (if cmp x y < 0 then x # y # ys else y # insertBy cmp x ys)"

definition SortFunc :: "('a \<Rightarrow> 'a \<Rightarrow> int) \<Rightarrow> 'a list \<Rightarrow> 'a list" where
  "SortFunc cmp xs = foldl (\<lambda>ys x. insertBy cmp x ys) [] xs"

definition compareTargets :: "DependencyDescriptorDecodeTarget \<Rightarrow> DependencyDescriptorDecodeTarget \<Rightarrow> int" where
  "compareTargets a b = (if GreaterThan (Layer a) (Layer b) then - 1 else if GreaterThan (Layer b) (Layer a) then 1 else 0)"

text \<open>The inner loop over the templates; \<^term>\<open>None\<close> when a template has no indication for the target.\<close>

fun targetLayerLoop :: "nat \<Rightarrow> FrameDependencyTemplate list \<Rightarrow> VideoLayer \<Rightarrow> VideoLayer option" where
  "targetLayerLoop target [] lyr = Some lyr"
| "targetLayerLoop target (t # ts) lyr =
     (if target < length (sl (DecodeTargetIndications t))
      then if sl (DecodeTargetIndications t) ! target \<noteq> DecodeTargetNotPresent
           then let lyr = (if Spatial lyr < SpatialId t then lyr\<lparr>Spatial := SpatialId t\<rparr> else lyr);
                    lyr = (if Temporal lyr < TemporalId t then lyr\<lparr>Temporal := TemporalId t\<rparr> else lyr)
                in targetLayerLoop target ts lyr
           else targetLayerLoop target ts lyr
      else None)"

fun decodeTargetsLoop :: "FrameDependencyTemplate list \<Rightarrow> nat list \<Rightarrow> DependencyDescriptorDecodeTarget list option" where
  "decodeTargetsLoop ts [] = Some []"
| "decodeTargetsLoop ts (n # ns) =
     do {
       lyr \<leftarrow> targetLayerLoop n ts \<lparr>Spatial = 0, Temporal = 0\<rparr>;
       dts \<leftarrow> decodeTargetsLoop ts ns;
       Some (\<lparr>Target = int n, Layer = lyr\<rparr> # dts)
     }"

definition ProcessFrameDependencyStructure ::
  "FrameDependencyStructure \<Rightarrow> DependencyDescriptorDecodeTarget list option" where
  "ProcessFrameDependencyStructure structure =
     do {
       decodeTargets \<leftarrow> decodeTargetsLoop (Templates structure) [0..<nat (NumDecodeTargets structure)];
       Some (SortFunc compareTargets decodeTargets)
     }"

definition GetActiveDecodeTargetBitmask :: "VideoLayer \<Rightarrow> DependencyDescriptorDecodeTarget list \<Rightarrow> u32" where
  "GetActiveDecodeTargetBitmask lyr decodeTargets =
     foldl (\<lambda>mask dt. if Spatial (Layer dt) \<le> Spatial lyr \<and> Temporal (Layer dt) \<le> Temporal lyr
                      then mask OR push_bit (nat (Target dt)) 1 else mask) 0 decodeTargets"

section \<open>Sorting\<close>

lemma mset_insertBy [simp]: "mset (insertBy cmp x ys) = add_mset x (mset ys)"
  by (induction ys) auto

lemma SortFunc_snoc: "SortFunc cmp (xs @ [x]) = insertBy cmp x (SortFunc cmp xs)"
  by (simp add: SortFunc_def)

lemma mset_SortFunc [simp]: "mset (SortFunc cmp xs) = mset xs"
proof (induction xs rule: rev_induct)
  case Nil
  show ?case by (simp add: SortFunc_def)
qed (simp add: SortFunc_snoc)

lemma set_insertBy [simp]: "set (insertBy cmp x ys) = insert x (set ys)"
  by (metis mset_insertBy set_mset_add_mset_insert set_mset_mset)

lemma set_SortFunc [simp]: "set (SortFunc cmp xs) = set xs"
  by (metis mset_SortFunc set_mset_mset)

text \<open>With a comparison whose \<open>le\<close>, not greater, is total and transitive, the result ascends.\<close>

lemma sorted_insertBy:
  assumes "\<And>a b. cmp a b < 0 \<Longrightarrow> le a b" "\<And>a b. \<not> cmp a b < 0 \<Longrightarrow> le b a" "\<And>a b c. le a b \<Longrightarrow> le b c \<Longrightarrow> le a c"
  shows "sorted_wrt le ys \<Longrightarrow> sorted_wrt le (insertBy cmp x ys)"
  using assms by (induction ys) (auto, blast)

lemma sorted_SortFunc:
  assumes "\<And>a b. cmp a b < 0 \<Longrightarrow> le a b" "\<And>a b. \<not> cmp a b < 0 \<Longrightarrow> le b a" "\<And>a b c. le a b \<Longrightarrow> le b c \<Longrightarrow> le a c"
  shows "sorted_wrt le (SortFunc cmp xs)"
proof (induction xs rule: rev_induct)
  case Nil
  show ?case by (simp add: SortFunc_def)
next
  case (snoc x xs)
  show ?case unfolding SortFunc_snoc by (rule sorted_insertBy [OF assms snoc])
qed

abbreviation descends :: "DependencyDescriptorDecodeTarget \<Rightarrow> DependencyDescriptorDecodeTarget \<Rightarrow> bool" where
  "descends a b \<equiv> \<not> GreaterThan (Layer b) (Layer a)"

lemma SortFunc_descends: "sorted_wrt descends (SortFunc compareTargets dts)"
  by (rule sorted_SortFunc) (auto simp: compareTargets_def GreaterThan_def split: if_splits)

section \<open>Layers of the targets\<close>

abbreviation decodes :: "nat \<Rightarrow> FrameDependencyTemplate \<Rightarrow> bool" where
  "decodes n t \<equiv> sl (DecodeTargetIndications t) ! n \<noteq> DecodeTargetNotPresent"

lemma targetLayerLoop_Max:
  assumes "\<And>t. t \<in> set ts \<Longrightarrow> n < length (sl (DecodeTargetIndications t))"
  shows "targetLayerLoop n ts l =
    Some \<lparr>Spatial = Max (insert (Spatial l) (SpatialId ` {t \<in> set ts. decodes n t})),
          Temporal = Max (insert (Temporal l) (TemporalId ` {t \<in> set ts. decodes n t}))\<rparr>"
  using assms
proof (induction ts arbitrary: l)
  case (Cons t ts)
  have split: "{t' \<in> set (t # ts). decodes n t'} = (if decodes n t then insert t else id) {t' \<in> set ts. decodes n t'}"
    by auto
  have max: "a < b \<Longrightarrow> Max (insert a (insert b S)) = Max (insert b S)" "\<not> a < b \<Longrightarrow> Max (insert a (insert b S)) = Max (insert a S)"
    if "finite S" for a b :: int and S
    using that by (cases "S = {}"; auto simp: max_def)+
  show ?case
    unfolding split using Cons by (simp add: Let_def max del: Max_insert)
qed simp

lemma decodeTargetsLoop_correct:
  assumes "\<And>n t. n \<in> set ns \<Longrightarrow> t \<in> set ts \<Longrightarrow> n < length (sl (DecodeTargetIndications t))"
  shows "decodeTargetsLoop ts ns = Some (map (\<lambda>n. \<lparr>Target = int n,
     Layer = \<lparr>Spatial = Max (insert 0 (SpatialId ` {t \<in> set ts. decodes n t})),
              Temporal = Max (insert 0 (TemporalId ` {t \<in> set ts. decodes n t}))\<rparr>\<rparr>) ns)"
  using assms by (induction ns) (simp_all add: targetLayerLoop_Max)

lemma ProcessFrameDependencyStructure_total:
  assumes "structure_wf st"
  shows "\<exists>dts. ProcessFrameDependencyStructure st = Some dts \<and>
    mset (map Target dts) = mset (map int [0..<nat (NumDecodeTargets st)]) \<and>
    sorted_wrt (\<lambda>a b. \<not> GreaterThan (Layer b) (Layer a)) dts \<and>
    (\<forall>dt \<in> set dts. Layer dt =
       \<lparr>Spatial = Max (insert 0 (SpatialId ` {t \<in> set (Templates st). sl (DecodeTargetIndications t) ! nat (Target dt) \<noteq> DecodeTargetNotPresent})),
        Temporal = Max (insert 0 (TemporalId ` {t \<in> set (Templates st). sl (DecodeTargetIndications t) ! nat (Target dt) \<noteq> DecodeTargetNotPresent}))\<rparr>)"
proof -
  let ?ns = "[0..<nat (NumDecodeTargets st)]"
  have len: "n < length (sl (DecodeTargetIndications t))" if "n \<in> set ?ns" "t \<in> set (Templates st)" for n t
    using assms that by (fastforce simp: structure_wf_def dtis_ok_def sl_def)
  let ?dts = "map (\<lambda>n. \<lparr>Target = int n,
     Layer = \<lparr>Spatial = Max (insert 0 (SpatialId ` {t \<in> set (Templates st). decodes n t})),
              Temporal = Max (insert 0 (TemporalId ` {t \<in> set (Templates st). decodes n t}))\<rparr>\<rparr>) ?ns"
  have "decodeTargetsLoop (Templates st) ?ns = Some ?dts" by (rule decodeTargetsLoop_correct) (rule len)
  then have "ProcessFrameDependencyStructure st = Some (SortFunc compareTargets ?dts)"
    by (simp add: ProcessFrameDependencyStructure_def)
  moreover have "mset (map Target (SortFunc compareTargets ?dts)) = mset (map int ?ns)"
    unfolding mset_map mset_SortFunc by (simp add: image_mset.compositionality comp_def)
  ultimately show ?thesis using SortFunc_descends [of ?dts] by auto
qed

text \<open>C28. The decode targets of a structure. For every structure the parser accepts, each target is listed exactly
  once, the layers never rise along the list, and the layer of a target is the highest spatial and the highest
  temporal layer of the templates the target decodes.\<close>

theorem ProcessFrameDependencyStructure_correct:
  assumes "structure_wf st"
  shows "\<exists>dts. ProcessFrameDependencyStructure st = Some dts \<and>
    mset (map Target dts) = mset (map int [0..<nat (NumDecodeTargets st)]) \<and>
    sorted_wrt (\<lambda>a b. \<not> GreaterThan (Layer b) (Layer a)) dts \<and>
    (\<forall>dt \<in> set dts. Layer dt =
       \<lparr>Spatial = Max (insert 0 (SpatialId ` {t \<in> set (Templates st). sl (DecodeTargetIndications t) ! nat (Target dt) \<noteq> DecodeTargetNotPresent})),
        Temporal = Max (insert 0 (TemporalId ` {t \<in> set (Templates st). sl (DecodeTargetIndications t) ! nat (Target dt) \<noteq> DecodeTargetNotPresent}))\<rparr>)"
  using assms by (rule ProcessFrameDependencyStructure_total)

theorem ProcessFrameDependencyStructure_correct_witness:
  "ProcessFrameDependencyStructure exampleStructure =
     Some [\<lparr>Target = 1, Layer = \<lparr>Spatial = 0, Temporal = 1\<rparr>\<rparr>, \<lparr>Target = 0, Layer = \<lparr>Spatial = 0, Temporal = 0\<rparr>\<rparr>] \<and>
   sorted_wrt (\<lambda>a b. \<not> GreaterThan (Layer b) (Layer a)) (the (ProcessFrameDependencyStructure exampleStructure))"
proof -
  obtain dts where "ProcessFrameDependencyStructure exampleStructure = Some dts"
    "sorted_wrt (\<lambda>a b. \<not> GreaterThan (Layer b) (Layer a)) dts"
    using ProcessFrameDependencyStructure_correct [OF exampleStructure_wf] by blast
  moreover have "ProcessFrameDependencyStructure exampleStructure =
     Some [\<lparr>Target = 1, Layer = \<lparr>Spatial = 0, Temporal = 1\<rparr>\<rparr>, \<lparr>Target = 0, Layer = \<lparr>Spatial = 0, Temporal = 0\<rparr>\<rparr>]"
    by (simp add: ProcessFrameDependencyStructure_def exampleStructure_def sl_def DecodeTargetNotPresent_def upt_rec
        SortFunc_def compareTargets_def GreaterThan_def)
  ultimately show ?thesis by simp
qed

end
