(* ===== verification/ExtPacket.thy ===== *)
theory ExtPacket
  imports DecodeTargets
begin

text \<open>
  The packet that travels through the forwarding path: \<open>ExtPacket\<close> of \<open>pkg/sfu/buffer/buffer_base.go\<close>, with the
  fields the modelled components read. \<open>Payload\<close>, \<open>Marker\<close> and \<open>Timestamp\<close> are those of the RTP packet it
  holds. The parsed VP8 and VP9 payload descriptors are structs of external packages: the records have the fields
  the sources read and write.
\<close>

record codecVP8 =
  FirstByte :: u8
  vp8_S :: bool
  vp8_I :: bool
  vp8_M :: bool
  PictureID :: u16
  vp8_L :: bool
  TL0PICIDX :: u8
  vp8_T :: bool
  TID :: u8
  vp8_Y :: bool
  vp8_K :: bool
  KEYIDX :: u8
  vp8_IsKeyFrame :: bool
  HeaderSize :: int

record codecsVP9 =
  vp9_B :: bool
  vp9_E :: bool
  vp9_P :: bool
  vp9_U :: bool

record ExtPacket =
  ep_VideoLayer :: VideoLayer
  ExtSequenceNumber :: u64
  ExtTimestamp :: u64
  Payload :: "u8 list"
  Marker :: bool
  ep_VP8 :: "codecVP8 option"
  ep_VP9 :: "codecsVP9 option"
  IsKeyFrame :: bool
  ep_DependencyDescriptor :: "ExtDependencyDescriptor option"
  IsOutOfOrder :: bool

end
