(* ===== verification/OffsetMap.thy ===== *)
theory OffsetMap
  imports Prelude
begin

text \<open>
  The interface between the sequence number translators (the RTP munger, the sequencer) and the
  range map they keep their offsets in.

  \<open>offset_map\<close> states what a translator needs of the open end of the map: every key from
  \<open>base\<close> on has the offset \<open>offset\<close>; excluding keys moves the base and adds their number to the
  offset; decrementing makes room for packets the translator generates itself.
  \<open>offset_history\<close> adds what out-of-order packets need: an answer for an older key, once given,
  is only ever forgotten, and the translated numbers grow with the key. The history laws hold
  while the map stays \<open>short\<close> of half of the number space.
  The client lemmas in the blocks are about translated numbers, \<open>key - offset\<close>.
\<close>

locale offset_map =
  fixes inv :: "'m \<Rightarrow> bool"
    and base :: "'m \<Rightarrow> u64"
    and offset :: "'m \<Rightarrow> u64"
    and reset :: "'m \<Rightarrow> u64 \<Rightarrow> u64 \<Rightarrow> 'm"
    and get :: "'m \<Rightarrow> u64 \<Rightarrow> 'e + u64"
    and exclude :: "'m \<Rightarrow> u64 \<Rightarrow> u64 \<Rightarrow> ('e + 'm) option"
    and dec :: "'m \<Rightarrow> u64 \<Rightarrow> u64 \<Rightarrow> 'm option"
  assumes get_open: "inv m \<Longrightarrow> base m \<le> k \<Longrightarrow> get m k = Inr (offset m)"
    and inv_reset: "inv m \<Longrightarrow> inv (reset m s v)"
    and base_reset: "inv m \<Longrightarrow> base (reset m s v) = s"
    and offset_reset: "inv m \<Longrightarrow> offset (reset m s v) = v"
    and exclude_ok: "inv m \<Longrightarrow> base m \<le> s \<Longrightarrow> s < e \<Longrightarrow> e - s \<le> half_range \<Longrightarrow>
      \<exists>m'. exclude m s e = Some (Inr m') \<and> inv m' \<and> base m' = e \<and> offset m' = offset m + (e - s)"
    and dec_ok: "inv m \<Longrightarrow> k + 1 \<noteq> 0 \<or> k < base m \<Longrightarrow>
      \<exists>m'. dec m k d = Some m' \<and> inv m' \<and> base m' = (if k < base m then base m else k + 1) \<and>
        offset m' = offset m - d"
begin

text \<open>Excluding a run of keys closes the gap they leave: the key after the run is translated to
  the number the first key of the run would have had.\<close>

lemma exclude_closes_gap:
  assumes "inv m" "base m \<le> s" "s < e" "e - s \<le> half_range"
  shows "\<exists>m'. exclude m s e = Some (Inr m') \<and> inv m' \<and> base m' = e \<and> e - offset m' = s - offset m"
  using exclude_ok [OF assms] by (auto simp: algebra_simps)

lemma exclude_one:
  assumes "inv m" "base m \<le> s" "s + 1 \<noteq> 0"
  shows "\<exists>m'. exclude m s (s + 1) = Some (Inr m') \<and> inv m' \<and> base m' = s + 1 \<and> offset m' = offset m + 1"
proof -
  have "unat (s + 1) = unat s + 1" using assms(3) by (simp add: unatSuc add.commute [of s 1])
  then have "s < s + 1" by (simp add: word_less_nat_alt)
  moreover have "s + 1 - s \<le> half_range" by (simp add: word_le_nat_alt unat_half_range)
  ultimately show ?thesis using exclude_ok [OF assms(1,2), of "s + 1"] by auto
qed

text \<open>Decrementing after \<open>k\<close> opens a gap of \<open>d\<close> numbers for the keys above.\<close>

lemma dec_opens_gap:
  assumes "inv m" "k + 1 \<noteq> 0 \<or> k < base m"
  shows "\<exists>m'. dec m k d = Some m' \<and> inv m' \<and> base m' = (if k < base m then base m else k + 1) \<and>
    (\<forall>j. j - offset m' = j - offset m + d)"
  using dec_ok [OF assms, of d] by (auto simp: algebra_simps)

end

locale offset_history = offset_map inv base offset reset get exclude dec
  for inv :: "'m \<Rightarrow> bool" and base offset reset and get :: "'m \<Rightarrow> u64 \<Rightarrow> 'e + u64"
    and exclude dec +
  assumes get_exclude_old: "inv m \<Longrightarrow> base m \<le> s \<Longrightarrow> s < e \<Longrightarrow> e \<le> half_range \<Longrightarrow>
      exclude m s e = Some (Inr m') \<Longrightarrow> k < s \<Longrightarrow> get m' k = Inr v \<Longrightarrow> get m k = Inr v"
    and get_excluded: "inv m \<Longrightarrow> base m \<le> s \<Longrightarrow> s < e \<Longrightarrow> e \<le> half_range \<Longrightarrow>
      exclude m s e = Some (Inr m') \<Longrightarrow> s \<le> k \<Longrightarrow> k < e \<Longrightarrow> \<exists>err. get m' k = Inl err"
    and get_dec_old: "inv m \<Longrightarrow> base m \<le> half_range \<Longrightarrow> k' < half_range \<Longrightarrow>
      dec m k' d = Some m' \<Longrightarrow> k \<le> k' \<Longrightarrow> get m' k = Inr v \<Longrightarrow> get m k = Inr v"
begin

text \<open>An excluded key is never translated again, whatever is excluded after it.\<close>

lemma excluded_stays:
  assumes "inv m" "base m \<le> s" "s < e" "e \<le> half_range" "exclude m s e = Some (Inr m')"
    and "e \<le> s'" "s' < e'" "e' \<le> half_range" "exclude m' s' e' = Some (Inr m'')"
    and "s \<le> k" "k < e"
  shows "\<exists>err. get m'' k = Inl err"
proof -
  have "e - s \<le> half_range"
    using assms(3,4) by (auto simp: word_le_nat_alt word_less_nat_alt unat_sub)
  then have m': "inv m'" "base m' = e" using exclude_ok [OF assms(1-3)] assms(5) by auto
  obtain err where "get m' k = Inl err" using get_excluded [OF assms(1-5,10,11)] by blast
  then show ?thesis
    using get_exclude_old [OF m'(1), of s' e' m'' k] m'(2) assms by (cases "get m'' k") auto
qed

end

end
