(* ===== verification/RangeMap.thy ===== *)
theory RangeMap
  imports OffsetMap
begin

text \<open>
  The map from extended sequence numbers to offsets of \<open>pkg/sfu/utils/rangemap.go\<close>.

  A range map keeps a bounded list of closed ranges, oldest first, and one open range at its end.
  Each range carries a value (the offset subtracted from a sequence number); the keys between two
  ranges are excluded. The record and the operations keep the names of the source. A negative
  or zero size is raised to \<open>minRanges\<close>. Reading the last element of an empty slice panics in Go:
  the operations that do so return \<^term>\<open>None\<close> there, and the invariant \<open>rm_inv\<close> rules it out.

  Lemmas: the invariant (ranges ordered and disjoint, at most \<open>size + 1\<close> of them) is kept by every
  operation; \<open>GetValue\<close> implements the specification \<open>rm_spec\<close>, a search of the list in order,
  as long as the ranges span at most half of the key space; the laws of the interface locale
  \<open>offset_map\<close>, which the RTP munger and the sequencer rely on.
\<close>

section \<open>Model\<close>

datatype rm_error = ErrReversedOrder | ErrKeyNotFound | ErrKeyTooOld | ErrKeyExcluded

record ('k, 'o) rangeVal =
  rv_start :: 'k
  rv_end :: 'k
  rv_value :: 'o

record ('k, 'o) RangeMap =
  rm_halfRange :: 'k
  rm_size :: nat
  rm_ranges :: "('k, 'o) rangeVal list"

definition minRanges :: int where
  "minRanges = 1"

definition initRanges ::
  "('r::len word, 'v::len word) RangeMap \<Rightarrow> 'r word \<Rightarrow> 'v word \<Rightarrow> ('r word, 'v word) RangeMap" where
  "initRanges r start val =
     r\<lparr>rm_ranges := [\<lparr>rv_start = start, rv_end = 0, rv_value = val\<rparr>]\<rparr>"

definition NewRangeMap :: "int \<Rightarrow> ('r::len word, 'v::len word) RangeMap" where
  "NewRangeMap sz =
     initRanges \<lparr>rm_halfRange = half_range, rm_size = nat (max sz minRanges), rm_ranges = []\<rparr> 0 0"

definition ClearAndResetValue ::
  "('r::len word, 'v::len word) RangeMap \<Rightarrow> 'r word \<Rightarrow> 'v word \<Rightarrow> ('r word, 'v word) RangeMap" where
  "ClearAndResetValue r start val = initRanges r start val"

definition prune :: "('r::len word, 'v::len word) RangeMap \<Rightarrow> ('r word, 'v word) RangeMap" where
  "prune r =
     (if length (rm_ranges r) > rm_size r + 1
      then r\<lparr>rm_ranges := drop (length (rm_ranges r) - rm_size r - 1) (rm_ranges r)\<rparr>
      else r)"

definition DecValue ::
  "('r::len word, 'v::len word) RangeMap \<Rightarrow> 'r word \<Rightarrow> 'v word \<Rightarrow> ('r word, 'v word) RangeMap option" where
  "DecValue r end dec =
     (if rm_ranges r = [] then None
      else
        let lr = last (rm_ranges r) in
        if rv_start lr > end
        then Some (r\<lparr>rm_ranges :=
               butlast (rm_ranges r) @ [lr\<lparr>rv_value := rv_value lr - dec\<rparr>]\<rparr>)
        else Some (prune (r\<lparr>rm_ranges :=
               butlast (rm_ranges r) @
               [lr\<lparr>rv_end := end\<rparr>,
                \<lparr>rv_start = end + 1, rv_end = 0, rv_value = rv_value lr - dec\<rparr>]\<rparr>)))"

definition ExcludeRange ::
  "('r::len word, 'v::len word) RangeMap \<Rightarrow> 'r word \<Rightarrow> 'r word \<Rightarrow>
   (rm_error + ('r word, 'v word) RangeMap) option" where
  "ExcludeRange r startInclusive endExclusive =
     (if endExclusive = startInclusive \<or> endExclusive - startInclusive > rm_halfRange r
      then Some (Inl ErrReversedOrder)
      else if rm_ranges r = [] then None
      else
        let lr = last (rm_ranges r) in
        if rv_start lr > startInclusive then Some (Inl ErrReversedOrder)
        else
          let newValue = rv_value lr + ucast (endExclusive - startInclusive) in
          if rv_start lr = startInclusive
          then Some (Inr (r\<lparr>rm_ranges := butlast (rm_ranges r) @
                 [lr\<lparr>rv_start := endExclusive, rv_value := newValue\<rparr>]\<rparr>))
          else Some (Inr (prune (r\<lparr>rm_ranges := butlast (rm_ranges r) @
                 [lr\<lparr>rv_end := startInclusive - 1\<rparr>,
                  \<lparr>rv_start = endExclusive, rv_end = 0, rv_value = newValue\<rparr>]\<rparr>))))"

text \<open>The scan of \<open>GetValue\<close> from the newest range down; the counter is the loop index plus one.\<close>

fun getValueLoop ::
  "('r::len word, 'v::len word) RangeMap \<Rightarrow> 'r word \<Rightarrow> nat \<Rightarrow> rm_error + 'v word" where
  "getValueLoop r key 0 = Inl ErrKeyNotFound"
| "getValueLoop r key (Suc idx) =
     (let rv = rm_ranges r ! idx in
      if idx \<noteq> length (rm_ranges r) - 1 \<and>
         key - rv_start rv < rm_halfRange r \<and> rv_end rv - key < rm_halfRange r
      then Inr (rv_value rv)
      else
        let rvPrev = rm_ranges r ! (idx - 1);
            beforeDiff = key - rv_end rvPrev;
            afterDiff = rv_start rv - key
        in
          if idx > 0 \<and> beforeDiff > 0 \<and> beforeDiff < rm_halfRange r \<and>
             afterDiff > 0 \<and> afterDiff < rm_halfRange r
          then Inl ErrKeyExcluded
          else getValueLoop r key idx)"

definition GetValue ::
  "('r::len word, 'v::len word) RangeMap \<Rightarrow> 'r word \<Rightarrow> rm_error + 'v word" where
  "GetValue r key =
     (let numRanges = length (rm_ranges r) in
      if numRanges \<noteq> 0 \<and> key \<ge> rv_start (rm_ranges r ! (numRanges - 1))
      then Inr (rv_value (rm_ranges r ! (numRanges - 1)))
      else if numRanges \<noteq> 0 \<and> key < rv_start (rm_ranges r ! 0)
      then Inl ErrKeyTooOld
      else getValueLoop r key numRanges)"

section \<open>Specification and invariant\<close>

text \<open>What a lookup promises: the open range and everything above it, then the closed ranges in
  order; a key between two ranges was excluded.\<close>

fun rm_spec :: "('r::len word, 'v::len word) rangeVal list \<Rightarrow> 'r word \<Rightarrow> rm_error + 'v word" where
  "rm_spec [] key = Inl ErrKeyNotFound"
| "rm_spec [rv] key = (if key < rv_start rv then Inl ErrKeyTooOld else Inr (rv_value rv))"
| "rm_spec (rv # rv' # rvs) key =
     (if key < rv_start rv then Inl ErrKeyTooOld
      else if key \<le> rv_end rv then Inr (rv_value rv)
      else if key < rv_start rv' then Inl ErrKeyExcluded
      else rm_spec (rv' # rvs) key)"

text \<open>Closed ranges are non-empty and end before the next one starts.\<close>

fun rv_chain :: "('r::len word, 'v::len word) rangeVal list \<Rightarrow> bool" where
  "rv_chain [] = True"
| "rv_chain [rv] = True"
| "rv_chain (rv # rv' # rvs) =
     (rv_start rv \<le> rv_end rv \<and> rv_end rv < rv_start rv' \<and> rv_chain (rv' # rvs))"

definition rm_inv :: "('r::len word, 'v::len word) RangeMap \<Rightarrow> bool" where
  "rm_inv r \<longleftrightarrow>
     rm_halfRange r = half_range \<and> 1 \<le> rm_size r \<and> rm_ranges r \<noteq> [] \<and>
     length (rm_ranges r) \<le> rm_size r + 1 \<and> rv_chain (rm_ranges r)"

definition open_range :: "('r::len word, 'v::len word) RangeMap \<Rightarrow> ('r word, 'v word) rangeVal" where
  "open_range r = last (rm_ranges r)"

text \<open>The recorded ranges cover at most half of the key space.\<close>

definition rm_narrow :: "('r::len word, 'v::len word) RangeMap \<Rightarrow> bool" where
  "rm_narrow r \<longleftrightarrow>
     unat (rv_start (open_range r)) - unat (rv_start (hd (rm_ranges r))) \<le> 2 ^ (LENGTH('r) - 1)"

section \<open>Ordered ranges\<close>

lemma rv_chain_snoc2:
  "rv_chain (xs @ [a, b]) \<longleftrightarrow>
     rv_chain (xs @ [a]) \<and> rv_start a \<le> rv_end a \<and> rv_end a < rv_start b"
  by (induction xs rule: rv_chain.induct) auto

lemma rv_chain_last_mono:
  "rv_chain (xs @ [a]) \<Longrightarrow> rv_start a \<le> rv_start b \<Longrightarrow> rv_chain (xs @ [b])"
  by (induction xs rule: rv_chain.induct) auto

lemma rv_chain_drop: "rv_chain xs \<Longrightarrow> rv_chain (drop n xs)"
proof (induction n arbitrary: xs)
  case (Suc n)
  then show ?case by (cases xs rule: rv_chain.cases) auto
qed simp

lemma rv_chain_nth:
  "rv_chain xs \<Longrightarrow> Suc i < length xs \<Longrightarrow>
     rv_start (xs ! i) \<le> rv_end (xs ! i) \<and> rv_end (xs ! i) < rv_start (xs ! Suc i)"
proof (induction xs arbitrary: i rule: rv_chain.induct)
  case (3 rv rv' rvs)
  show ?case
  proof (cases i)
    case 0
    with 3 show ?thesis by simp
  next
    case (Suc j)
    with 3 show ?thesis using "3.IH" [of j] by auto
  qed
qed auto

lemma rv_chain_starts:
  "rv_chain xs \<Longrightarrow> i \<le> j \<Longrightarrow> j < length xs \<Longrightarrow> rv_start (xs ! i) \<le> rv_start (xs ! j)"
proof (induction j)
  case (Suc j)
  then show ?case
    using rv_chain_nth [of xs j] by (cases "i = Suc j") (auto intro: order_trans less_imp_le)
qed simp

section \<open>The specification, range by range\<close>

lemma rm_spec_old: "xs \<noteq> [] \<Longrightarrow> key < rv_start (hd xs) \<Longrightarrow> rm_spec xs key = Inl ErrKeyTooOld"
  by (cases xs rule: rv_chain.cases) auto

lemma rm_spec_range:
  assumes "rv_chain xs" "Suc i < length xs" "rv_start (xs ! i) \<le> key" "key \<le> rv_end (xs ! i)"
  shows "rm_spec xs key = Inr (rv_value (xs ! i))"
  using assms
proof (induction xs arbitrary: i rule: rv_chain.induct)
  case (3 rv rv' rvs)
  show ?case
  proof (cases i)
    case 0
    with 3 show ?thesis by auto
  next
    case (Suc j)
    have "rv_start rv' \<le> rv_start ((rv' # rvs) ! j)"
      using 3 Suc rv_chain_starts [of "rv' # rvs" 0 j] by auto
    with 3 Suc have "\<not> key < rv_start rv" "\<not> key \<le> rv_end rv" "\<not> key < rv_start rv'"
      by auto
    with 3 Suc show ?thesis by auto
  qed
qed auto

lemma rm_spec_gap:
  assumes "rv_chain xs" "Suc i < length xs" "rv_end (xs ! i) < key" "key < rv_start (xs ! Suc i)"
  shows "rm_spec xs key = Inl ErrKeyExcluded"
  using assms
proof (induction xs arbitrary: i rule: rv_chain.induct)
  case (3 rv rv' rvs)
  show ?case
  proof (cases i)
    case 0
    with 3 show ?thesis by auto
  next
    case (Suc j)
    have "rv_start rv' \<le> rv_start ((rv' # rvs) ! j)" "rv_start ((rv' # rvs) ! j) \<le> rv_end ((rv' # rvs) ! j)"
      using 3 Suc rv_chain_starts [of "rv' # rvs" 0 j] rv_chain_nth [of "rv' # rvs" j] by auto
    with 3 Suc have "\<not> key < rv_start rv" "\<not> key \<le> rv_end rv" "\<not> key < rv_start rv'"
      by auto
    with 3 Suc show ?thesis by auto
  qed
qed auto

lemma rm_spec_open:
  assumes "rv_chain (xs @ [a])" "rv_start a \<le> key"
  shows "rm_spec (xs @ [a]) key = Inr (rv_value a)"
  using assms
proof (induction xs rule: rv_chain.induct)
  case (3 rv rv' rvs)
  have "rv_start rv' \<le> rv_start a"
    using 3 rv_chain_starts [of "rv' # rvs @ [a]" 0 "Suc (length rvs)"] by (auto simp: nth_append)
  with 3 have "\<not> key < rv_start rv" "\<not> key \<le> rv_end rv" "\<not> key < rv_start rv'" by auto
  with 3 show ?case by auto
qed auto

lemma rm_spec_snoc2:
  assumes "rv_chain (xs @ [a, b])" "key < rv_start b"
  shows "rm_spec (xs @ [a, b]) key =
    (if key < rv_start a then rm_spec (xs @ [a]) key
     else if key \<le> rv_end a then Inr (rv_value a) else Inl ErrKeyExcluded)"
  using assms
proof (induction xs rule: rv_chain.induct)
  case (2 rv)
  then show ?case by (auto simp: not_less)
next
  case (3 rv rv' rvs)
  have "rv_start rv' \<le> rv_start a"
    using 3 rv_chain_starts [of "rv' # rvs @ [a, b]" 0 "Suc (length rvs)"] by (auto simp: nth_append)
  then show ?case using 3 by auto
qed auto

text \<open>Below the open range only the closed ranges and the start of the open one matter.\<close>

lemma rm_spec_last_cong:
  assumes "key < rv_start a" "key < rv_start b" "rv_chain (xs @ [a])" "rv_start a \<le> rv_start b"
  shows "rm_spec (xs @ [b]) key = (if xs = [] then Inl ErrKeyTooOld else rm_spec (xs @ [a]) key)"
  using assms by (induction xs rule: rv_chain.induct) auto

lemma rm_spec_moved:
  assumes "rv_chain (ys @ [a])" "rv_start a \<le> k" "k < rv_start b" "rv_chain (ys @ [b])"
  shows "\<exists>err. rm_spec (ys @ [b]) k = Inl err"
proof (cases ys rule: rev_cases)
  case (snoc zs c)
  then show ?thesis
    using assms rm_spec_snoc2 [of zs c b k] rv_chain_snoc2 [of zs c a] by (auto simp: not_less)
qed (use assms in auto)

section \<open>GetValue implements the specification\<close>

lemma rm_window:
  assumes "rv_chain xs" "i < length xs"
  shows "rv_start (hd xs) \<le> rv_start (xs ! i)" and "rv_start (xs ! i) \<le> rv_start (last xs)"
  using assms rv_chain_starts [of xs 0 i] rv_chain_starts [of xs i "length xs - 1"]
  by (auto simp: hd_conv_nth last_conv_nth length_greater_0_conv [symmetric] simp del: length_greater_0_conv)

lemma rm_in_range_test:
  assumes inv: "rv_chain xs" "Suc i < length xs"
    and narrow: "unat (rv_start (last xs)) - unat (rv_start (hd xs)) \<le> 2 ^ (LENGTH('r) - 1)"
    and lo: "rv_start (hd xs) \<le> key" and hi: "key \<le> rv_end (xs ! i)"
  shows "key - rv_start (xs ! i) < (half_range :: 'r::len word) \<and> rv_end (xs ! i) - key < half_range
    \<longleftrightarrow> rv_start (xs ! i) \<le> key"
proof -
  have w: "rv_start (hd xs) \<le> rv_start (xs ! i)" "rv_start (xs ! Suc i) \<le> rv_start (last xs)"
    using inv rm_window [of xs i] rm_window [of xs "Suc i"] by auto
  have e: "rv_start (xs ! i) \<le> rv_end (xs ! i)" "rv_end (xs ! i) < rv_start (xs ! Suc i)"
    using inv rv_chain_nth by auto
  have "key - rv_start (xs ! i) < half_range \<longleftrightarrow> rv_start (xs ! i) \<le> key"
    by (rule ring_dist_iff) (use w e narrow lo hi in \<open>auto simp: word_le_nat_alt word_less_nat_alt\<close>)
  moreover have "rv_end (xs ! i) - key < half_range"
    by (rule ring_dist_forward)
      (use w e narrow lo hi in \<open>auto simp: word_le_nat_alt word_less_nat_alt\<close>)
  ultimately show ?thesis by simp
qed

lemma rm_gap_test:
  assumes inv: "rv_chain xs" "Suc i < length xs"
    and narrow: "unat (rv_start (last xs)) - unat (rv_start (hd xs)) \<le> 2 ^ (LENGTH('r) - 1)"
    and lo: "rv_start (hd xs) \<le> key" and hi: "key < rv_start (xs ! Suc i)"
  shows "key - rv_end (xs ! i) > 0 \<and> key - rv_end (xs ! i) < (half_range :: 'r::len word) \<and>
      rv_start (xs ! Suc i) - key > 0 \<and> rv_start (xs ! Suc i) - key < half_range
    \<longleftrightarrow> rv_end (xs ! i) < key"
proof -
  have w: "rv_start (hd xs) \<le> rv_start (xs ! i)" "rv_start (xs ! Suc i) \<le> rv_start (last xs)"
    using inv rm_window [of xs i] rm_window [of xs "Suc i"] by auto
  have e: "rv_start (xs ! i) \<le> rv_end (xs ! i)" "rv_end (xs ! i) < rv_start (xs ! Suc i)"
    using inv rv_chain_nth by auto
  have before: "key - rv_end (xs ! i) < half_range \<longleftrightarrow> rv_end (xs ! i) \<le> key"
    by (rule ring_dist_iff) (use w e narrow lo hi in \<open>auto simp: word_le_nat_alt word_less_nat_alt\<close>)
  have "rv_start (xs ! Suc i) - key < half_range" if "rv_end (xs ! i) < key"
    by (rule ring_dist_forward)
      (use w e narrow lo hi that in \<open>auto simp: word_le_nat_alt word_less_nat_alt\<close>)
  with before hi show ?thesis by (auto simp: word_neq_0_conv [symmetric] simp del: word_neq_0_conv)
qed

lemma getValueLoop_spec:
  assumes half: "rm_halfRange r = (half_range :: 'r::len word)" and xs: "xs = rm_ranges r"
    and inv: "rv_chain xs" "xs \<noteq> []"
    and narrow: "unat (rv_start (last xs)) - unat (rv_start (hd xs)) \<le> 2 ^ (LENGTH('r) - 1)"
    and lo: "rv_start (hd xs) \<le> key" and hi: "key < rv_start (last xs)"
  shows "0 < n \<Longrightarrow> n \<le> length xs \<Longrightarrow> (n \<noteq> length xs \<Longrightarrow> key \<le> rv_end (xs ! (n - 1))) \<Longrightarrow>
    getValueLoop r key n = rm_spec xs key"
proof (induction n)
  case (Suc idx)
  note test = rm_in_range_test [OF inv(1) _ narrow lo] and gap = rm_gap_test [OF inv(1) _ narrow lo]
  show ?case
  proof (cases "idx \<noteq> length xs - 1 \<and> rv_start (xs ! idx) \<le> key")
    case True
    with Suc.prems have idx: "Suc idx < length xs" "key \<le> rv_end (xs ! idx)" by auto
    show ?thesis
      using test [OF idx] rm_spec_range [OF inv(1) idx(1)] True idx half
      by (auto simp: xs [symmetric] Let_def)
  next
    case False
    then have below: "key < rv_start (xs ! idx)"
      using hi Suc.prems inv(2) by (auto simp: last_conv_nth)
    then obtain j where j: "idx = Suc j" using lo inv(2) by (cases idx) (auto simp: hd_conv_nth)
    have no_range: "\<not> (idx \<noteq> length xs - 1 \<and> key - rv_start (xs ! idx) < half_range \<and>
        rv_end (xs ! idx) - key < half_range)"
      using False Suc.prems test [of idx] by (cases "Suc idx < length xs") auto
    show ?thesis
    proof (cases "rv_end (xs ! j) < key")
      case True
      with j Suc.prems below gap [of j] no_range half rm_spec_gap [OF inv(1), of j key] show ?thesis
        by (auto simp: xs [symmetric] Let_def)
    next
      case False
      with Suc j have "getValueLoop r key idx = rm_spec xs key" by auto
      with False j Suc.prems below gap [of j] no_range half show ?thesis
        by (auto simp: xs [symmetric] Let_def)
    qed
  qed
qed simp

lemma GetValue_rm_spec:
  assumes "rm_inv r" and "rm_narrow r"
  shows "GetValue r key = rm_spec (rm_ranges r) key"
proof -
  obtain ys a where ra: "rm_ranges r = ys @ [a]"
    using assms by (metis rm_inv_def rev_exhaust)
  have inv: "rm_halfRange r = half_range" "rv_chain (rm_ranges r)" "rm_ranges r \<noteq> []"
    using assms by (auto simp: rm_inv_def)
  show ?thesis
  proof (cases "rv_start a \<le> key")
    case True
    then show ?thesis using ra inv rm_spec_open [of ys a key] by (auto simp: GetValue_def nth_append)
  next
    case False
    show ?thesis
    proof (cases "key < rv_start (hd (rm_ranges r))")
      case True
      with False show ?thesis
        using ra inv rm_spec_old [of "rm_ranges r" key] by (auto simp: GetValue_def nth_append hd_conv_nth)
    next
      case old: False
      have "getValueLoop r key (length (rm_ranges r)) = rm_spec (rm_ranges r) key"
        by (rule getValueLoop_spec [OF inv(1) refl inv(2,3)])
          (use assms False old ra in \<open>auto simp: rm_narrow_def open_range_def\<close>)
      with False old show ?thesis
        using ra by (auto simp: GetValue_def nth_append hd_conv_nth Let_def)
    qed
  qed
qed

section \<open>Every operation keeps the invariant\<close>

lemma rm_inv_NewRangeMap: "rm_inv (NewRangeMap n)"
  by (simp add: rm_inv_def NewRangeMap_def initRanges_def minRanges_def)

lemma rm_inv_ClearAndResetValue: "rm_inv r \<Longrightarrow> rm_inv (ClearAndResetValue r s v)"
  by (simp add: rm_inv_def ClearAndResetValue_def initRanges_def)

lemma open_range_ClearAndResetValue:
  "open_range (ClearAndResetValue r s v) = \<lparr>rv_start = s, rv_end = 0, rv_value = v\<rparr>"
  by (simp add: open_range_def ClearAndResetValue_def initRanges_def)

lemma rm_spec_tl:
  "rv_chain (a # b # xs) \<Longrightarrow> rm_spec (b # xs) k =
     (if k < rv_start b then Inl ErrKeyTooOld else rm_spec (a # b # xs) k)"
  by (cases xs) auto

text \<open>
  Pruning after one append: the oldest range goes when the map was full, and only then; the keys below the
  next range are too old from then on.
\<close>

definition forgotten :: "('r::len word, 'v::len word) RangeMap \<Rightarrow> 'r word \<Rightarrow> bool" where
  "forgotten r k \<longleftrightarrow> length (rm_ranges r) = rm_size r + 1 \<and> k < rv_start (rm_ranges r ! 1)"

lemma prune_append:
  assumes "rm_inv r" and "rm_ranges r = ys @ [a]" and "rv_chain (ys @ [a', b])" and "rv_start a' = rv_start a"
    and r2: "r2 = r\<lparr>rm_ranges := ys @ [a', b]\<rparr>"
  shows "rm_inv (prune r2)" and "open_range (prune r2) = b"
    and "rm_spec (rm_ranges (prune r2)) k = (if forgotten r k then Inl ErrKeyTooOld else rm_spec (ys @ [a', b]) k)"
proof -
  have len: "length (ys @ [a', b]) \<le> rm_size r + 2" "1 \<le> rm_size r"
    using assms by (auto simp: rm_inv_def)
  show "rm_inv (prune r2)"
    using assms len
    by (auto simp: rm_inv_def prune_def simp del: drop_append append_Cons append_Nil intro!: rv_chain_drop)
  show "open_range (prune r2) = b"
    using assms len by (auto simp: open_range_def prune_def)
  show "rm_spec (rm_ranges (prune r2)) k = (if forgotten r k then Inl ErrKeyTooOld else rm_spec (ys @ [a', b]) k)"
  proof (cases "length (ys @ [a', b]) > rm_size r + 1")
    case True
    have n: "length (rm_ranges r) = rm_size r + 1" using True len assms(2) by simp
    then obtain c ys' where ys: "ys = c # ys'" using len assms(2) by (cases ys) auto
    then have "rv_start (rm_ranges r ! 1) = rv_start (hd (ys' @ [a', b]))"
      using assms(2,4) by (cases ys') auto
    then have f: "forgotten r k \<longleftrightarrow> k < rv_start (hd (ys' @ [a', b]))" using n by (simp add: forgotten_def)
    have "length (ys @ [a', b]) - rm_size r - 1 = 1" using True len by simp
    with True have "rm_ranges (prune r2) = tl (ys @ [a', b])"
      by (cases ys) (simp_all add: prune_def r2)
    moreover obtain d zs where "ys' @ [a', b] = d # zs" by (cases ys') auto
    ultimately show ?thesis using assms(3) rm_spec_tl [of c d zs k] f ys n assms(2) by auto
  next
    case False
    then have "\<not> forgotten r k" using assms(2) by (simp add: forgotten_def)
    with False show ?thesis by (simp add: prune_def r2)
  qed
qed

lemma ExcludeRange_ok:
  assumes inv: "rm_inv r" and start: "rv_start (open_range r) \<le> s" "s < e" "e - s \<le> half_range"
  obtains r' where "ExcludeRange r s e = Some (Inr r')" "rm_inv r'"
    "rv_start (open_range r') = e" "rv_value (open_range r') = rv_value (open_range r) + ucast (e - s)"
    "\<And>k. k < s \<Longrightarrow> rm_spec (rm_ranges r') k =
      (if rv_start (open_range r) < s \<and> forgotten r k then Inl ErrKeyTooOld else rm_spec (rm_ranges r) k)"
    "\<And>k. s \<le> k \<Longrightarrow> k < e \<Longrightarrow> \<exists>err. rm_spec (rm_ranges r') k = Inl err"
proof -
  obtain ys a where ra: "rm_ranges r = ys @ [a]" using inv by (metis rm_inv_def rev_exhaust)
  have oa: "open_range r = a" by (simp add: open_range_def ra)
  have chain: "rv_chain (ys @ [a])" and half: "rm_halfRange r = half_range"
    using inv by (auto simp: rm_inv_def ra)
  let ?v = "rv_value a + ucast (e - s)"
  have guard: "\<not> (e = s \<or> e - s > rm_halfRange r)" "\<not> rv_start a > s"
    using start half by (auto simp: oa)
  show ?thesis
  proof (cases "rv_start a = s")
    case True
    let ?b = "a\<lparr>rv_start := e, rv_value := ?v\<rparr>"
    have ch: "rv_chain (ys @ [?b])" by (rule rv_chain_last_mono [OF chain]) (use True start in auto)
    show ?thesis
    proof (rule that [of "r\<lparr>rm_ranges := ys @ [?b]\<rparr>"])
      show "ExcludeRange r s e = Some (Inr (r\<lparr>rm_ranges := ys @ [?b]\<rparr>))"
        using guard True by (auto simp: ExcludeRange_def ra Let_def)
      show "rm_inv (r\<lparr>rm_ranges := ys @ [?b]\<rparr>)" using inv ch by (auto simp: rm_inv_def ra)
      fix k
      show "rm_spec (rm_ranges (r\<lparr>rm_ranges := ys @ [?b]\<rparr>)) k =
        (if rv_start (open_range r) < s \<and> forgotten r k then Inl ErrKeyTooOld else rm_spec (rm_ranges r) k)" if "k < s"
        using that True start rm_spec_last_cong [of k a ?b ys] chain
        by (auto simp: ra oa)
      show "\<exists>err. rm_spec (rm_ranges (r\<lparr>rm_ranges := ys @ [?b]\<rparr>)) k = Inl err" if "s \<le> k" "k < e"
        using that True chain ch rm_spec_moved [of ys a k ?b] by auto
    qed (use oa in \<open>auto simp: open_range_def\<close>)
  next
    case False
    with start oa have lt: "rv_start a < s" by auto
    then have s1: "rv_start a \<le> s - 1" "s - 1 < s" "s - 1 < e"
      using start(2) word_pred_no_wrap [OF lt] by (auto simp: word_le_nat_alt word_less_nat_alt)
    let ?a = "a\<lparr>rv_end := s - 1\<rparr>" and ?b = "\<lparr>rv_start = e, rv_end = 0, rv_value = ?v\<rparr>"
    let ?r = "r\<lparr>rm_ranges := ys @ [?a, ?b]\<rparr>"
    have ch: "rv_chain (ys @ [?a, ?b])"
      using chain s1 rv_chain_last_mono [of ys a ?a] by (auto simp: rv_chain_snoc2)
    note pr = prune_append [OF inv ra ch _ refl, simplified]
    have sp: "rm_spec (rm_ranges (prune ?r)) k = (if forgotten r k then Inl ErrKeyTooOld
        else if k < rv_start a then rm_spec (ys @ [?a]) k
         else if k \<le> s - 1 then Inr (rv_value a) else Inl ErrKeyExcluded)" if "k < e" for k
    proof -
      have "rm_spec (ys @ [?a, ?b]) k = (if k < rv_start a then rm_spec (ys @ [?a]) k
         else if k \<le> s - 1 then Inr (rv_value a) else Inl ErrKeyExcluded)"
        by (subst rm_spec_snoc2 [OF ch]) (simp_all add: that)
      then show ?thesis using pr(3) [of k] by (simp only:)
    qed
    show ?thesis
    proof (rule that [of "prune ?r"])
      show "ExcludeRange r s e = Some (Inr (prune ?r))"
        using guard False by (auto simp: ExcludeRange_def ra Let_def)
      fix k
      show "rm_spec (rm_ranges (prune ?r)) k =
        (if rv_start (open_range r) < s \<and> forgotten r k then Inl ErrKeyTooOld else rm_spec (rm_ranges r) k)" if k: "k < s"
      proof -
        have le: "k \<le> s - 1"
          using k word_pred_no_wrap [OF lt] by (auto simp: word_le_nat_alt word_less_nat_alt)
        have below: "rm_spec (ys @ [?a]) k = rm_spec (rm_ranges r) k" if "k < rv_start a"
          using that chain rm_spec_last_cong [of k a ?a ys] by (auto simp: ra)
        have above: "rm_spec (rm_ranges r) k = Inr (rv_value a)" if "\<not> k < rv_start a"
          using that chain rm_spec_open [of ys a k] by (auto simp: ra)
        have "k < e" using k start by simp
        from sp [OF this] show ?thesis
          using lt oa by (cases "k < rv_start a") (simp_all only: below above le if_True if_False simp_thms)
      qed
      show "\<exists>err. rm_spec (rm_ranges (prune ?r)) k = Inl err" if k: "s \<le> k" "k < e"
        using sp [of k] k s1 lt by (auto split: if_splits)
    qed (use pr oa in auto)
  qed
qed

lemma DecValue_ok:
  assumes inv: "rm_inv r" and last: "end + 1 \<noteq> 0 \<or> end < rv_start (open_range r)"
  obtains r' where "DecValue r end d = Some r'" "rm_inv r'"
    "rv_start (open_range r') = (if end < rv_start (open_range r) then rv_start (open_range r) else end + 1)"
    "rv_value (open_range r') = rv_value (open_range r) - d"
    "\<And>k. k \<le> end \<or> k < rv_start (open_range r) \<Longrightarrow>
       rm_spec (rm_ranges r') k =
       (if rv_start (open_range r) \<le> end \<and> forgotten r k then Inl ErrKeyTooOld else rm_spec (rm_ranges r) k)"
proof -
  obtain ys a where ra: "rm_ranges r = ys @ [a]" using inv by (metis rm_inv_def rev_exhaust)
  have oa: "open_range r = a" by (simp add: open_range_def ra)
  have chain: "rv_chain (ys @ [a])" using inv by (auto simp: rm_inv_def ra)
  show ?thesis
  proof (cases "end < rv_start a")
    case True
    let ?b = "a\<lparr>rv_value := rv_value a - d\<rparr>"
    have ch: "rv_chain (ys @ [?b])" by (rule rv_chain_last_mono [OF chain]) simp
    show ?thesis
    proof (rule that [of "r\<lparr>rm_ranges := ys @ [?b]\<rparr>"])
      show "rm_inv (r\<lparr>rm_ranges := ys @ [?b]\<rparr>)" using inv ch by (auto simp: rm_inv_def ra)
      show "rm_spec (rm_ranges (r\<lparr>rm_ranges := ys @ [?b]\<rparr>)) k =
        (if rv_start (open_range r) \<le> end \<and> forgotten r k then Inl ErrKeyTooOld else rm_spec (rm_ranges r) k)"
        if "k \<le> end \<or> k < rv_start (open_range r)" for k
        using that True rm_spec_last_cong [of k a ?b ys] chain by (auto simp: ra oa)
    qed (use True oa ra in \<open>auto simp: DecValue_def open_range_def Let_def\<close>)
  next
    case False
    let ?a = "a\<lparr>rv_end := end\<rparr>" and ?b = "\<lparr>rv_start = end + 1, rv_end = 0, rv_value = rv_value a - d\<rparr>"
    have lt: "end < end + 1"
      using last False oa by (auto simp: word_less_nat_alt unatSuc add.commute [of _ 1])
    let ?r = "r\<lparr>rm_ranges := ys @ [?a, ?b]\<rparr>"
    have ch: "rv_chain (ys @ [?a, ?b])"
      using chain lt False rv_chain_last_mono [of ys a ?a] by (auto simp: rv_chain_snoc2)
    note pr = prune_append [OF inv ra ch _ refl, simplified]
    show ?thesis
    proof (rule that [of "prune ?r"])
      show "DecValue r end d = Some (prune ?r)" using False by (auto simp: DecValue_def ra Let_def)
      show "rm_spec (rm_ranges (prune ?r)) k =
        (if rv_start (open_range r) \<le> end \<and> forgotten r k then Inl ErrKeyTooOld else rm_spec (rm_ranges r) k)"
        if "k \<le> end \<or> k < rv_start (open_range r)" for k
      proof -
        have k: "k \<le> end" "k < end + 1" using that False lt oa by auto
        have "rm_spec (ys @ [?a]) k = rm_spec (rm_ranges r) k" if "k < rv_start a"
          using that chain rm_spec_last_cong [of k a ?a ys] by (auto simp: ra)
        moreover have "rm_spec (rm_ranges r) k = Inr (rv_value a)" if "\<not> k < rv_start a"
          using that chain rm_spec_open [of ys a k] by (auto simp: ra)
        ultimately show ?thesis
          using pr(3) [of k] rm_spec_snoc2 [OF ch, of k] k False oa by (auto split: if_splits)
      qed
    qed (use pr oa False in auto)
  qed
qed

lemma GetValue_open:
  assumes "rm_inv r" "rv_start (open_range r) \<le> k"
  shows "GetValue r k = Inr (rv_value (open_range r))"
  using assms by (auto simp: GetValue_def rm_inv_def open_range_def last_conv_nth)

lemma rm_narrow_bounded:
  "rv_start (open_range r) \<le> (half_range :: 'r::len word) \<Longrightarrow> rm_narrow (r :: ('r word, 'v::len word) RangeMap)"
  by (simp add: rm_narrow_def word_le_nat_alt unat_half_range)

lemma GetValue_kept:
  assumes "rm_inv r" "rm_inv r'" "rv_start (open_range r) \<le> half_range"
    "rv_start (open_range r') \<le> half_range"
    "rm_spec (rm_ranges r') k = (if c then Inl ErrKeyTooOld else rm_spec (rm_ranges r) k)" "GetValue r' k = Inr v"
  shows "GetValue r k = Inr v"
  using assms by (auto simp: GetValue_rm_spec rm_narrow_bounded split: if_splits)

section \<open>The interface the translators use\<close>

interpretation rmap: offset_map
  "rm_inv :: (u64, u64) RangeMap \<Rightarrow> bool" "\<lambda>r. rv_start (open_range r)" "\<lambda>r. rv_value (open_range r)"
  ClearAndResetValue GetValue ExcludeRange DecValue
proof (unfold_locales, goal_cases)
  case (5 m s e)
  then obtain r' where "ExcludeRange m s e = Some (Inr r')" "rm_inv r'" "rv_start (open_range r') = e"
    "rv_value (open_range r') = rv_value (open_range m) + ucast (e - s)"
    by (rule ExcludeRange_ok)
  then show ?case by auto
next
  case (6 m k d)
  then obtain r' where "DecValue m k d = Some r'" "rm_inv r'"
    "rv_start (open_range r') = (if k < rv_start (open_range m) then rv_start (open_range m) else k + 1)"
    "rv_value (open_range r') = rv_value (open_range m) - d"
    by (rule DecValue_ok [of m k d]) auto
  then show ?case by auto
qed (auto simp: GetValue_open rm_inv_ClearAndResetValue open_range_ClearAndResetValue)

interpretation rhist: offset_history
  "rm_inv :: (u64, u64) RangeMap \<Rightarrow> bool" "\<lambda>r. rv_start (open_range r)" "\<lambda>r. rv_value (open_range r)"
  ClearAndResetValue GetValue ExcludeRange DecValue
proof (unfold_locales, goal_cases)
  case (1 m s e m' k v)
  then have es: "e - s \<le> half_range" by (auto simp: word_le_nat_alt word_less_nat_alt unat_sub)
  from 1 obtain r' where r': "ExcludeRange m s e = Some (Inr r')" "rm_inv r'" "rv_start (open_range r') = e"
    "rm_spec (rm_ranges r') k =
      (if rv_start (open_range m) < s \<and> forgotten m k then Inl ErrKeyTooOld else rm_spec (rm_ranges m) k)"
    by (metis ExcludeRange_ok [OF _ _ _ es])
  then show ?case using 1 GetValue_kept [OF _ _ _ _ r'(4)] by auto
next
  case (2 m s e m' k)
  then have es: "e - s \<le> half_range" by (auto simp: word_le_nat_alt word_less_nat_alt unat_sub)
  from 2 obtain r' where "ExcludeRange m s e = Some (Inr r')" "rm_inv r'" "rv_start (open_range r') = e"
    "\<exists>err. rm_spec (rm_ranges r') k = Inl err"
    by (auto elim: ExcludeRange_ok [OF _ _ _ es])
  then show ?case using 2 by (auto simp: GetValue_rm_spec rm_narrow_bounded)
next
  case (3 m k' d m' k v)
  then have k': "k' + 1 \<noteq> 0" "k' + 1 \<le> half_range"
    using word_succ_no_wrap [OF 3(3)] by (auto simp: word_le_nat_alt word_less_nat_alt)
  from k' 3(1) obtain r' where r': "DecValue m k' d = Some r'" "rm_inv r'"
    "rv_start (open_range r') = (if k' < rv_start (open_range m) then rv_start (open_range m) else k' + 1)"
    "rm_spec (rm_ranges r') k =
      (if rv_start (open_range m) \<le> k' \<and> forgotten m k then Inl ErrKeyTooOld else rm_spec (rm_ranges m) k)"
    using 3(5) by (metis DecValue_ok [of m k' d])
  with k' have "rv_start (open_range r') \<le> half_range" using 3 by auto
  then show ?case using r' 3 GetValue_kept [OF _ _ _ _ r'(4)] by auto
qed

section \<open>Properties\<close>

text \<open>C13. A lookup implements the declarative reading of the range list: below the first range it
  is too old, inside a range it gives the value of that range, between two ranges it is excluded.\<close>

theorem GetValue_refines:
  assumes "rm_inv r" "rm_narrow r"
  shows "GetValue r key = rm_spec (rm_ranges r) key"
  using assms by (rule GetValue_rm_spec)

definition sampleMap :: "(u64, u64) RangeMap" where
  "sampleMap = \<lparr>rm_halfRange = half_range, rm_size = 2,
     rm_ranges = [\<lparr>rv_start = 0, rv_end = 9, rv_value = 0\<rparr>, \<lparr>rv_start = 12, rv_end = 0, rv_value = 2\<rparr>]\<rparr>"

theorem GetValue_refines_witness:
  "rm_inv sampleMap \<and> rm_narrow sampleMap \<and> GetValue sampleMap 10 = Inl ErrKeyExcluded \<and>
   GetValue sampleMap 12 = Inr 2"
proof -
  have "rm_inv sampleMap" "rm_narrow sampleMap"
    by (simp_all add: rm_inv_def rm_narrow_def sampleMap_def open_range_def)
  then show ?thesis
    using GetValue_refines [of sampleMap 10] GetValue_refines [of sampleMap 12] by (simp add: sampleMap_def)
qed

text \<open>C14. Excluding a run of keys at the open end succeeds and keeps the ranges ordered, disjoint
  and bounded in number; the keys from its end on have their offset raised by its length, no
  key of the run has a value any more, and every earlier key has the answer it had, with one exception
  that is stated exactly: when the run starts inside the open range and the map already keeps \<open>size\<close> closed
  ranges, the keys below the second oldest range become too old (\<open>forgotten\<close>).\<close>

theorem ExcludeRange_correct:
  fixes r :: "(u64, u64) RangeMap"
  assumes "rm_inv r" "rv_start (open_range r) \<le> s" "s < e" "e \<le> half_range"
  shows "\<exists>r'. ExcludeRange r s e = Some (Inr r') \<and> rm_inv r' \<and>
    (\<forall>k. e \<le> k \<longrightarrow> GetValue r' k = Inr (rv_value (open_range r) + (e - s))) \<and>
    (\<forall>k. s \<le> k \<and> k < e \<longrightarrow> (\<exists>err. GetValue r' k = Inl err)) \<and>
    (\<forall>k. k < s \<longrightarrow> GetValue r' k =
       (if rv_start (open_range r) < s \<and> length (rm_ranges r) = rm_size r + 1 \<and> k < rv_start (rm_ranges r ! 1)
        then Inl ErrKeyTooOld else GetValue r k))"
proof -
  have es: "e - s \<le> half_range" "s \<le> half_range"
    using assms(3,4) by (auto simp: word_le_nat_alt word_less_nat_alt unat_sub)
  obtain r' where r': "ExcludeRange r s e = Some (Inr r')" "rm_inv r'"
    "rv_start (open_range r') = e" "rv_value (open_range r') = rv_value (open_range r) + (e - s)"
    "\<And>k. k < s \<Longrightarrow> rm_spec (rm_ranges r') k =
      (if rv_start (open_range r) < s \<and> forgotten r k then Inl ErrKeyTooOld else rm_spec (rm_ranges r) k)"
    "\<And>k. s \<le> k \<Longrightarrow> k < e \<Longrightarrow> \<exists>err. rm_spec (rm_ranges r') k = Inl err"
    by (rule ExcludeRange_ok [OF assms(1-3) es(1)]) auto
  have "rm_narrow r" "rm_narrow r'" using assms es r'(3) by (auto intro!: rm_narrow_bounded)
  then have "GetValue r k = rm_spec (rm_ranges r) k" "GetValue r' k = rm_spec (rm_ranges r') k" for k
    using assms(1) r'(2) by (auto intro: GetValue_rm_spec)
  then show ?thesis
    using r' GetValue_open [OF r'(2)] by (intro exI [of _ r']) (simp add: forgotten_def)
qed

text \<open>A map with room for one closed range besides its own, and then the full one: 22 loses its value, 25 has the
  raised one, 5 keeps its value or is forgotten.\<close>

theorem ExcludeRange_correct_witness:
  "\<exists>r' r''. ExcludeRange sampleMap 20 25 = Some (Inr r') \<and> GetValue r' 22 \<noteq> Inr 2 \<and> GetValue r' 25 = Inr 7 \<and>
     GetValue r' 5 = Inr 0 \<and> ExcludeRange (sampleMap\<lparr>rm_size := 1\<rparr>) 20 25 = Some (Inr r'') \<and>
     GetValue r'' 5 = Inl ErrKeyTooOld \<and> GetValue r'' 15 = Inr 2"
proof -
  have b: "(20 :: u64) < 25" "(25 :: u64) \<le> half_range" by (simp_all add: half_range_def)
  have h: "rm_inv sampleMap" "rv_start (open_range sampleMap) \<le> 20"
    "rm_inv (sampleMap\<lparr>rm_size := 1\<rparr>)" "rv_start (open_range (sampleMap\<lparr>rm_size := 1\<rparr>)) \<le> 20"
    by (simp_all add: rm_inv_def sampleMap_def open_range_def)
  from ExcludeRange_correct [OF h(1,2) b] obtain r' where
    "ExcludeRange sampleMap 20 25 = Some (Inr r')" "\<exists>err. GetValue r' 22 = Inl err" "GetValue r' 25 = Inr 7"
    "GetValue r' 5 = GetValue sampleMap 5"
    by (auto simp: sampleMap_def open_range_def)
  moreover from ExcludeRange_correct [OF h(3,4) b] obtain r'' where
    "ExcludeRange (sampleMap\<lparr>rm_size := 1\<rparr>) 20 25 = Some (Inr r'')" "GetValue r'' 5 = Inl ErrKeyTooOld"
    "GetValue r'' 15 = GetValue (sampleMap\<lparr>rm_size := 1\<rparr>) 15"
    by (auto simp: sampleMap_def open_range_def)
  moreover have "rm_narrow sampleMap" by (simp add: rm_narrow_def sampleMap_def open_range_def)
  then have "GetValue sampleMap 5 = Inr 0" using GetValue_rm_spec [OF h(1), of 5] by (simp add: sampleMap_def)
  moreover have "GetValue (sampleMap\<lparr>rm_size := 1\<rparr>) 15 = Inr 2"
    using GetValue_open [OF h(3), of 15] by (simp add: sampleMap_def open_range_def)
  ultimately show ?thesis by auto
qed

text \<open>An excluded key is never translated again, whatever is excluded after it.\<close>

theorem excluded_never_translated:
  fixes r :: "(u64, u64) RangeMap"
  assumes "rm_inv r" "rv_start (open_range r) \<le> s" "s < e" "e \<le> half_range"
    and "ExcludeRange r s e = Some (Inr r')"
    and "e \<le> s'" "s' < e'" "e' \<le> half_range" "ExcludeRange r' s' e' = Some (Inr r'')"
    and "s \<le> k" "k < e"
  shows "\<exists>err. GetValue r'' k = Inl err"
  using assms by (rule rhist.excluded_stays)

theorem excluded_never_translated_witness:
  "\<exists>r' r''. ExcludeRange sampleMap 20 25 = Some (Inr r') \<and> ExcludeRange r' 30 31 = Some (Inr r'') \<and>
     (\<exists>err. GetValue r'' 21 = Inl err)"
proof -
  have h: "(25 :: u64) \<le> half_range" "(31 :: u64) \<le> half_range" by (simp_all add: half_range_def)
  have inv: "rm_inv sampleMap" "rv_start (open_range sampleMap) \<le> 20"
    by (simp_all add: rm_inv_def sampleMap_def open_range_def)
  obtain r' where r': "ExcludeRange sampleMap 20 25 = Some (Inr r')" "rm_inv r'" "rv_start (open_range r') = 25"
    using rmap.exclude_ok [OF inv, of 25] by (auto simp: half_range_def)
  obtain r'' where r'': "ExcludeRange r' 30 31 = Some (Inr r'')"
    using rmap.exclude_ok [OF r'(2), of 30 31] r'(3) by (auto simp: half_range_def)
  show ?thesis
    using excluded_never_translated [OF inv _ h(1) r'(1) _ _ h(2) r'', of 21] r' r'' by auto
qed

text \<open>Decrementing at a key leaves every key up to it with the answer it had (or forgotten, when it closes
  the open range of a full map)
  and lowers the offset of the keys behind it, keeping the invariant; it never panics.\<close>

theorem DecValue_correct:
  fixes r :: "(u64, u64) RangeMap"
  assumes "rm_inv r" "rv_start (open_range r) \<le> half_range" "j < half_range"
  shows "\<exists>r'. DecValue r j d = Some r' \<and> rm_inv r' \<and>
    (\<forall>k. j < k \<and> rv_start (open_range r) \<le> k \<longrightarrow> GetValue r' k = Inr (rv_value (open_range r) - d)) \<and>
    (\<forall>k. k \<le> j \<or> k < rv_start (open_range r) \<longrightarrow>
       GetValue r' k = (if rv_start (open_range r) \<le> j \<and> forgotten r k then Inl ErrKeyTooOld else GetValue r k))"
proof -
  have l: "j + 1 \<noteq> 0" "j + 1 \<le> half_range" "\<And>k. j < k \<Longrightarrow> j + 1 \<le> k"
    using below_half_succ [OF assms(3)] by (auto simp: word_le_nat_alt word_less_nat_alt)
  obtain r' where r': "DecValue r j d = Some r'" "rm_inv r'"
    "rv_start (open_range r') = (if j < rv_start (open_range r) then rv_start (open_range r) else j + 1)"
    "rv_value (open_range r') = rv_value (open_range r) - d"
    "\<And>k. k \<le> j \<or> k < rv_start (open_range r) \<Longrightarrow>
       rm_spec (rm_ranges r') k =
       (if rv_start (open_range r) \<le> j \<and> forgotten r k then Inl ErrKeyTooOld else rm_spec (rm_ranges r) k)"
    by (rule DecValue_ok [OF assms(1), of j d]) (use l in auto)
  have "rm_narrow r" "rm_narrow r'" using assms l r'(3) by (auto intro!: rm_narrow_bounded)
  then have "GetValue r k = rm_spec (rm_ranges r) k" "GetValue r' k = rm_spec (rm_ranges r') k" for k
    using assms(1) r'(2) by (auto intro: GetValue_rm_spec)
  then show ?thesis
    using r' l(3) GetValue_open [OF r'(2)] by (intro exI [of _ r']) simp
qed

theorem DecValue_correct_witness:
  "\<exists>r'. DecValue sampleMap 14 3 = Some r' \<and> GetValue r' 15 = Inr (2 - 3) \<and> GetValue r' 14 \<noteq> Inr (2 - 3)"
proof -
  have "rm_inv sampleMap" "rv_start (open_range sampleMap) \<le> half_range" "(14 :: u64) < half_range"
    by (simp_all add: rm_inv_def sampleMap_def open_range_def half_range_def)
  from DecValue_correct [OF this, of 3] obtain r' where
    r': "DecValue sampleMap 14 3 = Some r'" "GetValue r' 15 = Inr (2 - 3)"
    "GetValue r' 14 = GetValue sampleMap 14"
    by (auto simp: sampleMap_def open_range_def forgotten_def)
  moreover have "GetValue sampleMap 14 = Inr 2" by (simp add: GetValue_def sampleMap_def)
  ultimately show ?thesis by auto
qed

end
