(* ===== verification/RTPMunger.thy ===== *)
theory RTPMunger
  imports ExtPacket RangeMap
begin

text \<open>
  The sequence number and timestamp rewriting of a down track, \<open>pkg/sfu/rtpmunger.go\<close>.

  The munger maps the extended sequence numbers of the forwarded source to a continuous outgoing
  sequence. Packets that are not forwarded are excluded from the range map so that the numbers
  behind them close up; padding packets the munger generates itself push them apart. The record
  has the fields of the Go struct but for the logger; log calls are not modelled, the control flow
  around them is. \<^term>\<open>None\<close> is a run-time panic.

  Lemmas: the invariant \<open>munger_inv\<close> (the cached offset is the one of the next sequence number) is
  kept by every operation and excludes panics; in-order packets, padding-only packets, dropped
  packets and generated padding keep each number sent ahead of the one before, and leave no gap where the source has none.
\<close>

section \<open>Model\<close>

datatype SequenceNumberOrdering =
    SequenceNumberOrderingContiguous
  | SequenceNumberOrderingOutOfOrder
  | SequenceNumberOrderingGap
  | SequenceNumberOrderingDuplicate

datatype munger_error =
    ErrOutOfOrderSequenceNumberCacheMiss
  | ErrPaddingOnlyPacket
  | ErrDuplicatePacket
  | ErrPaddingNotOnFrameBoundary

definition RtxGateWindow :: u64 where
  "RtxGateWindow = 2000"

record TranslationParamsRTP =
  snOrdering :: SequenceNumberOrdering
  tp_extSequenceNumber :: u64
  tp_extTimestamp :: u64

record SnTs =
  st_extSequenceNumber :: u64
  st_extTimestamp :: u64

record RTPMunger =
  extHighestIncomingSN :: u64
  mg_snRangeMap :: "(u64, u64) RangeMap"
  extLastSN :: u64
  extSecondLastSN :: u64
  mg_snOffset :: u64
  extLastTS :: u64
  extSecondLastTS :: u64
  tsOffset :: u64
  lastMarker :: bool
  secondLastMarker :: bool
  extRtxGateSn :: u64
  isInRtxGateRegion :: bool

record RTPMungerState =
  ms_ExtLastSequenceNumber :: u64
  ms_ExtSecondLastSequenceNumber :: u64
  ms_ExtLastTimestamp :: u64
  ms_ExtSecondLastTimestamp :: u64
  ms_LastMarker :: bool
  ms_SecondLastMarker :: bool

definition NewRTPMunger :: RTPMunger where
  "NewRTPMunger =
     \<lparr>extHighestIncomingSN = 0, mg_snRangeMap = NewRangeMap 100, extLastSN = 0, extSecondLastSN = 0,
      mg_snOffset = 0, extLastTS = 0, extSecondLastTS = 0, tsOffset = 0, lastMarker = False,
      secondLastMarker = False, extRtxGateSn = 0, isInRtxGateRegion = False\<rparr>"

definition mg_GetState :: "RTPMunger \<Rightarrow> RTPMungerState" where
  "mg_GetState r =
     \<lparr>ms_ExtLastSequenceNumber = extLastSN r, ms_ExtSecondLastSequenceNumber = extSecondLastSN r,
      ms_ExtLastTimestamp = extLastTS r, ms_ExtSecondLastTimestamp = extSecondLastTS r,
      ms_LastMarker = lastMarker r, ms_SecondLastMarker = secondLastMarker r\<rparr>"

definition mg_SeedState :: "RTPMunger \<Rightarrow> RTPMungerState \<Rightarrow> RTPMunger" where
  "mg_SeedState r state =
     r\<lparr>extLastSN := ms_ExtLastSequenceNumber state,
       extSecondLastSN := ms_ExtSecondLastSequenceNumber state,
       extLastTS := ms_ExtLastTimestamp state,
       extSecondLastTS := ms_ExtSecondLastTimestamp state,
       lastMarker := ms_LastMarker state,
       secondLastMarker := ms_SecondLastMarker state\<rparr>"

text \<open>A failed lookup is logged and leaves the zero value.\<close>

definition updateSnOffset :: "RTPMunger \<Rightarrow> RTPMunger" where
  "updateSnOffset r =
     r\<lparr>mg_snOffset := (case GetValue (mg_snRangeMap r) (extHighestIncomingSN r + 1) of
        Inl _ \<Rightarrow> 0 | Inr v \<Rightarrow> v)\<rparr>"

definition SetLastSnTs :: "RTPMunger \<Rightarrow> ExtPacket \<Rightarrow> RTPMunger" where
  "SetLastSnTs r extPkt =
     (let r = r\<lparr>extHighestIncomingSN := ExtSequenceNumber extPkt - 1\<rparr>;
          r = r\<lparr>extLastSN := ExtSequenceNumber extPkt\<rparr>;
          r = r\<lparr>extSecondLastSN := extLastSN r - 1\<rparr>;
          r = r\<lparr>mg_snRangeMap := ClearAndResetValue (mg_snRangeMap r) (ExtSequenceNumber extPkt) 0\<rparr>;
          r = updateSnOffset r
      in r\<lparr>extLastTS := ExtTimestamp extPkt, extSecondLastTS := ExtTimestamp extPkt, tsOffset := 0\<rparr>)"

definition UpdateSnTsOffsets :: "RTPMunger \<Rightarrow> ExtPacket \<Rightarrow> u64 \<Rightarrow> u64 \<Rightarrow> RTPMunger" where
  "UpdateSnTsOffsets r extPkt snAdjust tsAdjust =
     (let r = r\<lparr>extHighestIncomingSN := ExtSequenceNumber extPkt - 1\<rparr>;
          r = r\<lparr>mg_snRangeMap := ClearAndResetValue (mg_snRangeMap r) (ExtSequenceNumber extPkt)
                 (ExtSequenceNumber extPkt - extLastSN r - snAdjust)\<rparr>;
          r = updateSnOffset r
      in r\<lparr>tsOffset := ExtTimestamp extPkt - extLastTS r - tsAdjust\<rparr>)"

text \<open>Excluding the highest incoming sequence number; an error is logged and otherwise ignored.\<close>

definition excludeHighest :: "RTPMunger \<Rightarrow> RTPMunger option" where
  "excludeHighest r =
     do {
       res \<leftarrow> ExcludeRange (mg_snRangeMap r) (extHighestIncomingSN r) (extHighestIncomingSN r + 1);
       Some (case res of Inl _ \<Rightarrow> r | Inr rm \<Rightarrow> r\<lparr>mg_snRangeMap := rm\<rparr>)
     }"

definition PacketDropped :: "RTPMunger \<Rightarrow> ExtPacket \<Rightarrow> RTPMunger option" where
  "PacketDropped r extPkt =
     (if extHighestIncomingSN r \<noteq> ExtSequenceNumber extPkt then Some r
      else do {
        r \<leftarrow> excludeHighest r;
        let r = r\<lparr>extLastSN := extSecondLastSN r\<rparr>;
        let r = updateSnOffset r;
        Some (r\<lparr>extLastTS := extSecondLastTS r, lastMarker := secondLastMarker r\<rparr>)
      })"

definition UpdateAndGetSnTs ::
  "RTPMunger \<Rightarrow> ExtPacket \<Rightarrow> bool \<Rightarrow>
   (RTPMunger \<times> TranslationParamsRTP \<times> munger_error option) option" where
  "UpdateAndGetSnTs r extPkt marker =
     (let diff = sint (ExtSequenceNumber extPkt - extHighestIncomingSN r) in
      if (diff = 1 \<and> length (Payload extPkt) \<noteq> 0) \<or> diff > 1
      then
        let r = r\<lparr>extHighestIncomingSN := ExtSequenceNumber extPkt\<rparr>;
            ordering = (if diff > 1 then SequenceNumberOrderingGap
                        else SequenceNumberOrderingContiguous);
            extMungedSN = ExtSequenceNumber extPkt - mg_snOffset r;
            extMungedTS = ExtTimestamp extPkt - tsOffset r;
            r = r\<lparr>extSecondLastSN := extLastSN r, extLastSN := extMungedSN,
                  extSecondLastTS := extLastTS r, extLastTS := extMungedTS,
                  secondLastMarker := lastMarker r, lastMarker := marker\<rparr>;
            r = (if IsKeyFrame extPkt
                 then r\<lparr>extRtxGateSn := extMungedSN, isInRtxGateRegion := True\<rparr> else r);
            r = (if isInRtxGateRegion r \<and> extMungedSN - extRtxGateSn r > RtxGateWindow
                 then r\<lparr>isInRtxGateRegion := False\<rparr> else r)
        in Some (r, \<lparr>snOrdering = ordering, tp_extSequenceNumber = extMungedSN,
                     tp_extTimestamp = extMungedTS\<rparr>, None)
      else if diff < 0
      then
        (case GetValue (mg_snRangeMap r) (ExtSequenceNumber extPkt) of
           Inl _ \<Rightarrow>
             Some (r, \<lparr>snOrdering = SequenceNumberOrderingOutOfOrder, tp_extSequenceNumber = 0,
                       tp_extTimestamp = 0\<rparr>, Some ErrOutOfOrderSequenceNumberCacheMiss)
         | Inr snOffset \<Rightarrow>
             let extSequenceNumber = ExtSequenceNumber extPkt - snOffset in
             if extSequenceNumber \<ge> extLastSN r
             then Some (r, \<lparr>snOrdering = SequenceNumberOrderingOutOfOrder, tp_extSequenceNumber = 0,
                            tp_extTimestamp = 0\<rparr>, Some ErrOutOfOrderSequenceNumberCacheMiss)
             else Some (r, \<lparr>snOrdering = SequenceNumberOrderingOutOfOrder,
                            tp_extSequenceNumber = extSequenceNumber,
                            tp_extTimestamp = ExtTimestamp extPkt - tsOffset r\<rparr>, None))
      else if diff = 1
      then do {
        r \<leftarrow> excludeHighest (r\<lparr>extHighestIncomingSN := ExtSequenceNumber extPkt\<rparr>);
        Some (updateSnOffset r,
              \<lparr>snOrdering = SequenceNumberOrderingContiguous, tp_extSequenceNumber = 0,
               tp_extTimestamp = 0\<rparr>, Some ErrPaddingOnlyPacket)
      }
      else Some (r, \<lparr>snOrdering = SequenceNumberOrderingDuplicate, tp_extSequenceNumber = 0,
                     tp_extTimestamp = 0\<rparr>, Some ErrDuplicatePacket))"

definition FilterRTX :: "RTPMunger \<Rightarrow> u16 list \<Rightarrow> u16 list" where
  "FilterRTX r nacks =
     (if \<not> isInRtxGateRegion r then nacks
      else filter (\<lambda>sn. sn - ucast (extRtxGateSn r) < 2 ^ 15) nacks)"

text \<open>The loop that numbers the padding packets: \<open>i\<close> is the loop variable and the counter the
  iterations left; it returns the values and the last sequence number and timestamp.\<close>

fun paddingLoop ::
  "u64 \<Rightarrow> u32 \<Rightarrow> u32 \<Rightarrow> bool \<Rightarrow> nat \<Rightarrow> u64 \<Rightarrow> nat \<Rightarrow> nat \<Rightarrow> u64 \<Rightarrow> u64 \<Rightarrow>
   SnTs list \<times> u64 \<times> u64" where
  "paddingLoop origTS clockRate frameRate useLastTSForFirst tsOff extRtpTimestamp i 0 lastSN lastTS =
     ([], lastSN, lastTS)"
| "paddingLoop origTS clockRate frameRate useLastTSForFirst tsOff extRtpTimestamp i (Suc n) lastSN lastTS =
     (let lastSN = lastSN + 1;
          (ts, lastTS) =
            (if frameRate \<noteq> 0
             then if useLastTSForFirst \<and> i = 0 then (origTS, lastTS)
                  else
                    let ets = extRtpTimestamp +
                          ucast ((of_nat (i + 1 - tsOff) * clockRate + frameRate - 1) div frameRate);
                        ets = (if sint (ets - lastTS) \<le> 0 then lastTS + 1 else ets)
                    in (ets, ets)
             else (origTS, lastTS));
          (vals, lastSN', lastTS') =
            paddingLoop origTS clockRate frameRate useLastTSForFirst tsOff extRtpTimestamp (i + 1) n lastSN lastTS
      in (\<lparr>st_extSequenceNumber = lastSN, st_extTimestamp = ts\<rparr> # vals, lastSN', lastTS'))"

definition UpdateAndGetPaddingSnTs ::
  "RTPMunger \<Rightarrow> int \<Rightarrow> u32 \<Rightarrow> u32 \<Rightarrow> bool \<Rightarrow> u64 \<Rightarrow>
   (RTPMunger \<times> (munger_error + SnTs list)) option" where
  "UpdateAndGetPaddingSnTs r num clockRate frameRate forceMarker extRtpTimestamp =
     (if num = 0 then Some (r, Inr [])
      else if \<not> lastMarker r \<and> \<not> forceMarker then Some (r, Inl ErrPaddingNotOnFrameBoundary)
      else if num < 0 then None
      else
        let useLastTSForFirst = (\<not> lastMarker r);
            tsOff = (if \<not> lastMarker r then 1 else 0);
            (vals, lastSN, lastTS) =
              paddingLoop (extLastTS r) clockRate frameRate useLastTSForFirst tsOff extRtpTimestamp
                0 (nat num) (extLastSN r) (extLastTS r);
            r = r\<lparr>extSecondLastSN := lastSN - 1, extLastSN := lastSN\<rparr>
        in do {
          rm \<leftarrow> DecValue (mg_snRangeMap r) (extHighestIncomingSN r) (word_of_int num);
          let r = updateSnOffset (r\<lparr>mg_snRangeMap := rm\<rparr>);
          let r = r\<lparr>extSecondLastTS :=
                (if length vals = 1 then extLastTS r
                 else st_extTimestamp (vals ! (length vals - 2)))\<rparr>;
          let r = r\<lparr>tsOffset := tsOffset r - (lastTS - extLastTS r)\<rparr>;
          let r = r\<lparr>extLastTS := lastTS, secondLastMarker := lastMarker r\<rparr>;
          let r = (if forceMarker then r\<lparr>lastMarker := True\<rparr> else r);
          Some (r, Inr vals)
        })"

definition IsOnFrameBoundary :: "RTPMunger \<Rightarrow> bool" where
  "IsOnFrameBoundary r = lastMarker r"

section \<open>Invariant\<close>

text \<open>Extended sequence numbers stay below half of the number space: a 16 bit number and the count
  of its cycles, from a source that sends a packet every few microseconds at most.\<close>

definition sn_ok :: "ExtPacket \<Rightarrow> bool" where
  "sn_ok p \<longleftrightarrow> 0 < ExtSequenceNumber p \<and> ExtSequenceNumber p < half_range"

definition munger_inv :: "RTPMunger \<Rightarrow> bool" where
  "munger_inv r \<longleftrightarrow>
     rm_inv (mg_snRangeMap r) \<and>
     rv_start (open_range (mg_snRangeMap r)) \<le> extHighestIncomingSN r + 1 \<and>
     extHighestIncomingSN r < half_range \<and>
     mg_snOffset r = rv_value (open_range (mg_snRangeMap r))"

text \<open>The outgoing number of the next contiguous packet, and the states in which it follows the
  last number sent: all but the one between \<open>SetLastSnTs\<close> and the first packet.\<close>

definition nextOutSN :: "RTPMunger \<Rightarrow> u64" where
  "nextOutSN r = extHighestIncomingSN r + 1 - mg_snOffset r"

definition munger_synced :: "RTPMunger \<Rightarrow> bool" where
  "munger_synced r \<longleftrightarrow> munger_inv r \<and> nextOutSN r = extLastSN r + 1"

definition pkt_diff :: "RTPMunger \<Rightarrow> ExtPacket \<Rightarrow> int" where
  "pkt_diff r p = sint (ExtSequenceNumber p - extHighestIncomingSN r)"

text \<open>Facts every proof below starts from.\<close>

lemma munger_invD:
  assumes "munger_inv r"
  shows "rm_inv (mg_snRangeMap r)"
    and "rv_start (open_range (mg_snRangeMap r)) \<le> extHighestIncomingSN r + 1"
    and "extHighestIncomingSN r < half_range"
    and "mg_snOffset r = rv_value (open_range (mg_snRangeMap r))"
  using assms by (auto simp: munger_inv_def)

lemma updateSnOffset_open:
  assumes "rm_inv (mg_snRangeMap r)"
    and "rv_start (open_range (mg_snRangeMap r)) \<le> extHighestIncomingSN r + 1"
  shows "updateSnOffset r = r\<lparr>mg_snOffset := rv_value (open_range (mg_snRangeMap r))\<rparr>"
  using assms by (simp add: updateSnOffset_def rmap.get_open)

lemma pkt_diff_true:
  assumes "munger_inv r" "sn_ok p"
  shows "pkt_diff r p = int (unat (ExtSequenceNumber p)) - int (unat (extHighestIncomingSN r))"
  using assms by (simp add: pkt_diff_def sn_ok_def munger_inv_def sint_diff_below_half)

lemma sn_from_diff:
  assumes "munger_inv r" "sn_ok p"
  shows "ExtSequenceNumber p = extHighestIncomingSN r + word_of_int (pkt_diff r p)"
  by (simp add: pkt_diff_def)

section \<open>Starting and switching\<close>

lemma rm_inv_mono_base:
  assumes "munger_inv r" "sn_ok p"
  shows "rm_inv (ClearAndResetValue (mg_snRangeMap r) s v)"
  using assms by (simp add: munger_inv_def rm_inv_ClearAndResetValue)

lemma sn_ok_pred:
  assumes "sn_ok p"
  shows "ExtSequenceNumber p - 1 < half_range"
proof -
  have "unat (ExtSequenceNumber p - 1) = unat (ExtSequenceNumber p) - 1"
    using assms by (intro word_pred_no_wrap [of 0]) (simp add: sn_ok_def)
  then show ?thesis using assms by (auto simp: sn_ok_def word_less_nat_alt)
qed

lemma SetLastSnTs_inv:
  assumes "rm_inv (mg_snRangeMap r)" "sn_ok p"
  shows "munger_inv (SetLastSnTs r p)" and "nextOutSN (SetLastSnTs r p) = ExtSequenceNumber p"
proof -
  have "SetLastSnTs r p = r\<lparr>extHighestIncomingSN := ExtSequenceNumber p - 1,
      extLastSN := ExtSequenceNumber p, extSecondLastSN := ExtSequenceNumber p - 1,
      mg_snRangeMap := ClearAndResetValue (mg_snRangeMap r) (ExtSequenceNumber p) 0,
      mg_snOffset := 0, extLastTS := ExtTimestamp p, extSecondLastTS := ExtTimestamp p, tsOffset := 0\<rparr>"
    using assms
    by (simp add: SetLastSnTs_def Let_def updateSnOffset_open rm_inv_ClearAndResetValue
        open_range_ClearAndResetValue)
  then show "munger_inv (SetLastSnTs r p)" "nextOutSN (SetLastSnTs r p) = ExtSequenceNumber p"
    using assms sn_ok_pred
    by (auto simp: munger_inv_def nextOutSN_def rm_inv_ClearAndResetValue open_range_ClearAndResetValue)
qed

lemma UpdateSnTsOffsets_inv:
  assumes "rm_inv (mg_snRangeMap r)" "sn_ok p"
  shows "munger_inv (UpdateSnTsOffsets r p snAdjust tsAdjust)"
    and "nextOutSN (UpdateSnTsOffsets r p snAdjust tsAdjust) = extLastSN r + snAdjust"
    and "extLastSN (UpdateSnTsOffsets r p snAdjust tsAdjust) = extLastSN r"
proof -
  have "UpdateSnTsOffsets r p snAdjust tsAdjust = r\<lparr>extHighestIncomingSN := ExtSequenceNumber p - 1,
      mg_snRangeMap := ClearAndResetValue (mg_snRangeMap r) (ExtSequenceNumber p)
        (ExtSequenceNumber p - extLastSN r - snAdjust),
      mg_snOffset := ExtSequenceNumber p - extLastSN r - snAdjust,
      tsOffset := ExtTimestamp p - extLastTS r - tsAdjust\<rparr>"
    using assms
    by (simp add: UpdateSnTsOffsets_def Let_def updateSnOffset_open rm_inv_ClearAndResetValue
        open_range_ClearAndResetValue)
  then show "munger_inv (UpdateSnTsOffsets r p snAdjust tsAdjust)"
    "nextOutSN (UpdateSnTsOffsets r p snAdjust tsAdjust) = extLastSN r + snAdjust"
    "extLastSN (UpdateSnTsOffsets r p snAdjust tsAdjust) = extLastSN r"
    using assms sn_ok_pred
    by (auto simp: munger_inv_def nextOutSN_def rm_inv_ClearAndResetValue open_range_ClearAndResetValue)
qed

section \<open>In-order packets\<close>

definition in_order :: "RTPMunger \<Rightarrow> ExtPacket \<Rightarrow> bool" where
  "in_order r p \<longleftrightarrow> (pkt_diff r p = 1 \<and> Payload p \<noteq> []) \<or> pkt_diff r p > 1"

lemma UpdateAndGetSnTs_in_order:
  assumes inv: "munger_inv r" and p: "sn_ok p" "in_order r p"
  obtains r' where
    "UpdateAndGetSnTs r p m =
       Some (r', \<lparr>snOrdering = (if pkt_diff r p > 1 then SequenceNumberOrderingGap
                                 else SequenceNumberOrderingContiguous),
          tp_extSequenceNumber = nextOutSN r + word_of_int (pkt_diff r p - 1),
          tp_extTimestamp = ExtTimestamp p - tsOffset r\<rparr>, None)"
    "munger_synced r'" "extHighestIncomingSN r' = ExtSequenceNumber p"
    "extLastSN r' = nextOutSN r + word_of_int (pkt_diff r p - 1)"
    "extSecondLastSN r' = extLastSN r" "extLastTS r' = ExtTimestamp p - tsOffset r"
    "extSecondLastTS r' = extLastTS r" "tsOffset r' = tsOffset r"
    "secondLastMarker r' = lastMarker r" "lastMarker r' = m" "mg_snRangeMap r' = mg_snRangeMap r"
    "mg_snOffset r' = mg_snOffset r"
proof -
  note D = munger_invD [OF inv]
  have sn: "nextOutSN r + word_of_int (pkt_diff r p - 1) = ExtSequenceNumber p - mg_snOffset r"
    by (simp add: nextOutSN_def pkt_diff_def algebra_simps)
  have grow: "extHighestIncomingSN r + 1 \<le> ExtSequenceNumber p + 1"
    using p pkt_diff_true [OF inv p(1)] below_half_succ [OF D(3)] below_half_succ [of "ExtSequenceNumber p"]
    by (auto simp: word_le_nat_alt in_order_def sn_ok_def simp del: of_nat_unat)
  have "\<exists>r'. UpdateAndGetSnTs r p m =
       Some (r', \<lparr>snOrdering = (if pkt_diff r p > 1 then SequenceNumberOrderingGap
                                 else SequenceNumberOrderingContiguous),
          tp_extSequenceNumber = ExtSequenceNumber p - mg_snOffset r,
          tp_extTimestamp = ExtTimestamp p - tsOffset r\<rparr>, None) \<and>
    munger_synced r' \<and> extHighestIncomingSN r' = ExtSequenceNumber p \<and>
    extLastSN r' = ExtSequenceNumber p - mg_snOffset r \<and>
    extSecondLastSN r' = extLastSN r \<and> extLastTS r' = ExtTimestamp p - tsOffset r \<and>
    extSecondLastTS r' = extLastTS r \<and> tsOffset r' = tsOffset r \<and>
    secondLastMarker r' = lastMarker r \<and> lastMarker r' = m \<and> mg_snRangeMap r' = mg_snRangeMap r \<and>
    mg_snOffset r' = mg_snOffset r"
    using p D grow order_trans [OF D(2) grow]
    by (simp add: UpdateAndGetSnTs_def Let_def in_order_def pkt_diff_def [symmetric]
         munger_synced_def munger_inv_def nextOutSN_def sn_ok_def)
  then show ?thesis using that unfolding sn by blast
qed

section \<open>Packets that are not forwarded\<close>

text \<open>Taking the highest sequence number out of the map: the next number moves down by one.\<close>

lemma excludeHighest_ok:
  assumes inv: "rm_inv (mg_snRangeMap r)" "rv_start (open_range (mg_snRangeMap r)) \<le> extHighestIncomingSN r"
    "extHighestIncomingSN r < half_range"
  obtains rm where "excludeHighest r = Some (r\<lparr>mg_snRangeMap := rm\<rparr>)" "rm_inv rm"
    "rv_start (open_range rm) = extHighestIncomingSN r + 1"
    "rv_value (open_range rm) = rv_value (open_range (mg_snRangeMap r)) + 1"
proof -
  have "extHighestIncomingSN r + 1 \<noteq> 0" using below_half_succ [OF inv(3)] by simp
  from rmap.exclude_one [OF inv(1,2) this] that show ?thesis by (auto simp: excludeHighest_def)
qed

lemma padding_only_step:
  assumes inv: "munger_inv r" and p: "sn_ok p" "pkt_diff r p = 1" "Payload p = []"
  obtains r' where
    "UpdateAndGetSnTs r p m =
       Some (r', \<lparr>snOrdering = SequenceNumberOrderingContiguous, tp_extSequenceNumber = 0,
                  tp_extTimestamp = 0\<rparr>, Some ErrPaddingOnlyPacket)"
    "munger_inv r'" "nextOutSN r' = nextOutSN r" "extLastSN r' = extLastSN r"
    "extHighestIncomingSN r' = ExtSequenceNumber p"
proof -
  note D = munger_invD [OF inv]
  let ?h = "r\<lparr>extHighestIncomingSN := ExtSequenceNumber p\<rparr>"
  have sn: "ExtSequenceNumber p = extHighestIncomingSN r + 1"
    using sn_from_diff [OF inv p(1)] p(2) by simp
  obtain rm where rm: "excludeHighest ?h = Some (?h\<lparr>mg_snRangeMap := rm\<rparr>)" "rm_inv rm"
    "rv_start (open_range rm) = ExtSequenceNumber p + 1"
    "rv_value (open_range rm) = mg_snOffset r + 1"
    by (rule excludeHighest_ok [of ?h]) (use D sn p in \<open>auto simp: sn_ok_def\<close>)
  show ?thesis
  proof (rule that)
    show "UpdateAndGetSnTs r p m =
       Some (updateSnOffset (?h\<lparr>mg_snRangeMap := rm\<rparr>), \<lparr>snOrdering = SequenceNumberOrderingContiguous,
         tp_extSequenceNumber = 0, tp_extTimestamp = 0\<rparr>, Some ErrPaddingOnlyPacket)"
      using p rm(1) by (simp add: UpdateAndGetSnTs_def Let_def pkt_diff_def [symmetric])
  qed (use rm sn p in \<open>auto simp: updateSnOffset_open munger_inv_def nextOutSN_def sn_ok_def\<close>)
qed

text \<open>A packet that was numbered as contiguous and then dropped leaves the outgoing side as it was.\<close>

lemma PacketDropped_undo:
  assumes inv: "munger_inv r" and p: "sn_ok p" "pkt_diff r p = 1" "Payload p \<noteq> []"
  obtains r1 tp r2 where "UpdateAndGetSnTs r p m = Some (r1, tp, None)"
    "snOrdering tp = SequenceNumberOrderingContiguous" "PacketDropped r1 p = Some r2"
    "munger_inv r2" "nextOutSN r2 = nextOutSN r" "extLastSN r2 = extLastSN r" "extLastTS r2 = extLastTS r"
    "tsOffset r2 = tsOffset r" "lastMarker r2 = lastMarker r"
    "extHighestIncomingSN r2 = ExtSequenceNumber p"
proof -
  note D = munger_invD [OF inv]
  have ino: "in_order r p" using p by (simp add: in_order_def)
  have sn: "ExtSequenceNumber p = extHighestIncomingSN r + 1"
    using sn_from_diff [OF inv p(1)] p(2) by simp
  obtain r1 where r1: "UpdateAndGetSnTs r p m =
       Some (r1, \<lparr>snOrdering = SequenceNumberOrderingContiguous,
          tp_extSequenceNumber = nextOutSN r, tp_extTimestamp = ExtTimestamp p - tsOffset r\<rparr>, None)"
    "munger_synced r1" "extHighestIncomingSN r1 = ExtSequenceNumber p"
    "extSecondLastSN r1 = extLastSN r" "extSecondLastTS r1 = extLastTS r"
    "secondLastMarker r1 = lastMarker r" "mg_snRangeMap r1 = mg_snRangeMap r"
    "mg_snOffset r1 = mg_snOffset r" "tsOffset r1 = tsOffset r"
    by (rule UpdateAndGetSnTs_in_order [OF inv p(1) ino, of m]) (use p in auto)
  obtain rm where rm: "excludeHighest r1 = Some (r1\<lparr>mg_snRangeMap := rm\<rparr>)" "rm_inv rm"
    "rv_start (open_range rm) = ExtSequenceNumber p + 1"
    "rv_value (open_range rm) = mg_snOffset r + 1"
    by (rule excludeHighest_ok [of r1]) (use D sn p r1 in \<open>auto simp: sn_ok_def\<close>)
  show ?thesis
  proof (rule that [OF r1(1)])
    show "PacketDropped r1 p =
        Some (r1\<lparr>mg_snRangeMap := rm, extLastSN := extLastSN r, mg_snOffset := mg_snOffset r + 1,
          extLastTS := extLastTS r, lastMarker := lastMarker r\<rparr>)"
      using r1 rm by (simp add: PacketDropped_def Let_def updateSnOffset_open)
  qed (use r1 rm sn p in \<open>auto simp: munger_inv_def nextOutSN_def sn_ok_def\<close>)
qed

section \<open>Generated padding\<close>

lemma paddingLoop_numbers:
  "paddingLoop ts0 cr fr u off ext i n sn ts = (vals, sn', ts') \<Longrightarrow>
     map st_extSequenceNumber vals = map (\<lambda>j. sn + of_nat j) [1..<Suc n] \<and> sn' = sn + of_nat n"
proof (induction n arbitrary: i sn ts vals sn' ts')
  case (Suc n)
  have up: "map (\<lambda>j. sn + of_nat j) [1..<Suc (Suc n)] =
      (sn + 1) # map (\<lambda>j. sn + 1 + of_nat j) [1..<Suc n]"
    by (subst upt_conv_Cons) (auto simp: map_Suc_upt [symmetric] algebra_simps simp del: upt_Suc)
  from Suc.prems obtain t ts1 vs where step:
    "paddingLoop ts0 cr fr u off ext (i + 1) n (sn + 1) ts1 = (vs, sn', ts')"
    "vals = \<lparr>st_extSequenceNumber = sn + 1, st_extTimestamp = t\<rparr> # vs"
    by (auto simp: Let_def split: prod.splits if_splits)
  show ?case
    using Suc.IH [OF step(1)] step(2) by (simp add: up add.assoc del: upt_Suc One_nat_def)
qed simp

lemma UpdateAndGetPaddingSnTs_ok:
  assumes syn: "munger_synced r" and num: "0 < num" and mark: "lastMarker r \<or> force"
  obtains r' vals where
    "UpdateAndGetPaddingSnTs r num cr fr force ext = Some (r', Inr vals)"
    "map st_extSequenceNumber vals = map (\<lambda>j. extLastSN r + of_nat j) [1..<Suc (nat num)]"
    "munger_synced r'" "extLastSN r' = extLastSN r + word_of_int num"
    "extHighestIncomingSN r' = extHighestIncomingSN r"
proof -
  have inv: "munger_inv r" using syn by (simp add: munger_synced_def)
  note D = munger_invD [OF inv]
  let ?off = "if lastMarker r then 0 else 1"
  obtain vals sn ts where loop: "paddingLoop (extLastTS r) cr fr (\<not> lastMarker r) ?off ext 0 (nat num)
      (extLastSN r) (extLastTS r) = (vals, sn, ts)"
    by (metis prod_cases3)
  have sn: "map st_extSequenceNumber vals = map (\<lambda>j. extLastSN r + of_nat j) [1..<Suc (nat num)]"
    "sn = extLastSN r + word_of_int num"
    using paddingLoop_numbers [OF loop] num by (auto simp del: upt_Suc)
  have h: "extHighestIncomingSN r + 1 \<noteq> 0" using below_half_succ [OF D(3)] by simp
  obtain rm where rm: "DecValue (mg_snRangeMap r) (extHighestIncomingSN r) (word_of_int num) = Some rm"
    "rm_inv rm" "rv_start (open_range rm) \<le> extHighestIncomingSN r + 1"
    "rv_value (open_range rm) = mg_snOffset r - word_of_int num"
    using rmap.dec_ok [OF D(1), of "extHighestIncomingSN r" "word_of_int num"] h D
    by (auto split: if_splits)
  have "\<exists>r'. UpdateAndGetPaddingSnTs r num cr fr force ext = Some (r', Inr vals) \<and>
      munger_synced r' \<and> extLastSN r' = extLastSN r + word_of_int num \<and>
      extHighestIncomingSN r' = extHighestIncomingSN r"
    using num mark loop sn(2) rm syn D
    by (auto simp: UpdateAndGetPaddingSnTs_def Let_def updateSnOffset_open munger_synced_def
        munger_inv_def nextOutSN_def algebra_simps)
  then show ?thesis using that sn by blast
qed

section \<open>Runs\<close>

text \<open>
  A run of the munger as the forwarder drives it: packets to forward, packets not selected for
  forwarding (a contiguous one is dropped, one after a gap keeps its number and is padded), generated
  padding, and switches to another source with a sequence number step of one. A step returns the
  numbers it sends in order; numbers of late packets are below the last one sent and not listed.
\<close>

datatype munger_event =
    EvPacket ExtPacket bool
  | EvUnselected ExtPacket bool
  | EvPadding int u32 u32 bool u64
  | EvSwitch ExtPacket u64

definition newNumbers :: "TranslationParamsRTP \<Rightarrow> munger_error option \<Rightarrow> u64 list" where
  "newNumbers tp err =
     (if err = None \<and> snOrdering tp \<noteq> SequenceNumberOrderingOutOfOrder
      then [tp_extSequenceNumber tp] else [])"

fun munger_step :: "RTPMunger \<Rightarrow> munger_event \<Rightarrow> (RTPMunger \<times> u64 list) option" where
  "munger_step r (EvPacket p m) =
     do { (r, tp, err) \<leftarrow> UpdateAndGetSnTs r p m; Some (r, newNumbers tp err) }"
| "munger_step r (EvUnselected p m) =
     do { (r, tp, err) \<leftarrow> UpdateAndGetSnTs r p m;
          if err = None \<and> snOrdering tp = SequenceNumberOrderingContiguous
          then do { r \<leftarrow> PacketDropped r p; Some (r, []) }
          else Some (r, newNumbers tp err) }"
| "munger_step r (EvPadding num cr fr force ts) =
     do { (r, res) \<leftarrow> UpdateAndGetPaddingSnTs r num cr fr force ts;
          Some (r, case res of Inl _ \<Rightarrow> [] | Inr vals \<Rightarrow> map st_extSequenceNumber vals) }"
| "munger_step r (EvSwitch p tsAdjust) = Some (UpdateSnTsOffsets r p 1 tsAdjust, [])"

fun munger_run :: "RTPMunger \<Rightarrow> munger_event list \<Rightarrow> (RTPMunger \<times> u64 list) option" where
  "munger_run r [] = Some (r, [])"
| "munger_run r (e # es) =
     do { (r, out) \<leftarrow> munger_step r e; (r, outs) \<leftarrow> munger_run r es; Some (r, out @ outs) }"

fun event_ok :: "munger_event \<Rightarrow> bool" where
  "event_ok (EvPacket p m) = sn_ok p"
| "event_ok (EvUnselected p m) = sn_ok p"
| "event_ok (EvPadding num cr fr force ts) = (0 \<le> num)"
| "event_ok (EvSwitch p tsAdjust) = sn_ok p"

text \<open>
  Where the source stands after an event (its highest sequence number), and by how much the event
  can move the outgoing numbers: a packet by its distance from the highest number of its source, generated padding
  by its count.
\<close>

fun high_after :: "u64 \<Rightarrow> munger_event \<Rightarrow> u64" where
  "high_after h (EvPacket p m) = max h (ExtSequenceNumber p)"
| "high_after h (EvUnselected p m) = max h (ExtSequenceNumber p)"
| "high_after h (EvPadding num cr fr force ts) = h"
| "high_after h (EvSwitch p tsAdjust) = ExtSequenceNumber p - 1"

fun event_advance :: "u64 \<Rightarrow> munger_event \<Rightarrow> nat" where
  "event_advance h (EvPacket p m) = unat (ExtSequenceNumber p) - unat h"
| "event_advance h (EvUnselected p m) = unat (ExtSequenceNumber p) - unat h"
| "event_advance h (EvPadding num cr fr force ts) = nat num"
| "event_advance h (EvSwitch p tsAdjust) = 0"

fun source_advance :: "u64 \<Rightarrow> munger_event list \<Rightarrow> nat" where
  "source_advance h [] = 0"
| "source_advance h (e # es) = event_advance h e + source_advance (high_after h e) es"

text \<open>The distances from each number of a list to the next, around the end of the number space.\<close>

fun strides :: "u64 \<Rightarrow> u64 list \<Rightarrow> nat list" where
  "strides a [] = []"
| "strides a (x # xs) = unat (x - a) # strides x xs"

lemma strides_append: "strides a (xs @ ys) = strides a xs @ strides (last (a # xs)) ys"
  by (induction xs arbitrary: a) auto

text \<open>Where the strides add up to no more than the room above the first number, none of them wraps.\<close>

lemma strides_above:
  assumes "\<forall>d \<in> set (strides a xs). 0 < d" "unat a + sum_list (strides a xs) < 2 ^ 64"
  shows "sorted_wrt (<) (a # xs)"
  using assms
proof (induction xs arbitrary: a)
  case (Cons x xs)
  have "x = a + (x - a)" by simp
  then have "unat x = unat a + unat (x - a)"
    using Cons.prems(2) unat_plus_if' [of a "x - a"] by auto
  with Cons.prems have "a < x" by (simp add: word_less_nat_alt)
  moreover have "sorted_wrt (<) (x # xs)"
    by (rule Cons.IH) (use Cons.prems \<open>unat x = _\<close> in \<open>simp_all add: add.assoc\<close>)
  ultimately show ?case by auto
qed simp

text \<open>\<open>advances n r r' out\<close>: the numbers sent follow the last one, each ahead of the one before it by less
  than half of the number space, by \<open>n\<close> in all at most, and the last of them is the last one sent afterwards.\<close>

definition advances :: "nat \<Rightarrow> RTPMunger \<Rightarrow> RTPMunger \<Rightarrow> u64 list \<Rightarrow> bool" where
  "advances n r r' out \<longleftrightarrow>
     (\<forall>d \<in> set (strides (extLastSN r) out). 0 < d \<and> d < 2 ^ 63) \<and>
     sum_list (strides (extLastSN r) out) \<le> n \<and> extLastSN r' = last (extLastSN r # out)"

lemma advances_none: "extLastSN r' = extLastSN r \<Longrightarrow> advances n r r' []"
  by (simp add: advances_def)

lemma advances_one:
  assumes "0 < d" "d < 2 ^ 63" "nat d \<le> n" "extLastSN r' = extLastSN r + word_of_int d"
  shows "advances n r r' [extLastSN r + word_of_int d]"
proof -
  have "unat (word_of_int d :: u64) = nat d"
    using assms(1,2) by (simp add: unsigned_of_int take_bit_int_eq_self nat_less_iff)
  then show ?thesis using assms by (simp add: advances_def nat_less_iff)
qed

lemma advances_append:
  assumes "advances n r r1 xs" "advances m r1 r2 ys"
  shows "advances (n + m) r r2 (xs @ ys)"
  using assms by (auto simp: advances_def strides_append)

lemma strides_upt: "strides a (map (\<lambda>j. a + of_nat j) [1..<Suc n]) = replicate n 1 \<and>
    last (a # map (\<lambda>j. a + of_nat j) [1..<Suc n]) = a + of_nat n"
proof (induction n)
  case (Suc n)
  have "map (\<lambda>j. a + of_nat j) [1..<Suc (Suc n)] = map (\<lambda>j. a + of_nat j) [1..<Suc n] @ [a + of_nat (Suc n)]" by simp
  with Suc show ?case by (simp add: strides_append replicate_append_same del: upt_Suc)
qed simp

text \<open>Late and duplicate packets leave the munger alone.\<close>

lemma UpdateAndGetSnTs_late:
  assumes "pkt_diff r p \<le> 0"
  obtains tp err where "UpdateAndGetSnTs r p m = Some (r, tp, err)" "newNumbers tp err = []"
    "err \<noteq> None \<or> snOrdering tp \<noteq> SequenceNumberOrderingContiguous"
proof -
  have "\<exists>tp err. UpdateAndGetSnTs r p m = Some (r, tp, err) \<and> newNumbers tp err = [] \<and>
    (err \<noteq> None \<or> snOrdering tp \<noteq> SequenceNumberOrderingContiguous)"
    using assms
    by (cases "pkt_diff r p = 0"; cases "GetValue (mg_snRangeMap r) (ExtSequenceNumber p)")
      (auto simp: UpdateAndGetSnTs_def Let_def pkt_diff_def [symmetric] newNumbers_def)
  then show ?thesis using that by blast
qed

lemma packet_cases:
  obtains (in_order) "in_order r p" | (padding) "pkt_diff r p = 1" "Payload p = []" | (late) "pkt_diff r p \<le> 0"
  by (cases "pkt_diff r p \<le> 0"; cases "pkt_diff r p = 1") (auto simp: in_order_def)

lemma nextOut_synced:
  "munger_synced r \<Longrightarrow> nextOutSN r + word_of_int (d - 1) = extLastSN r + word_of_int d"
  by (simp add: munger_synced_def)

text \<open>What one event does: no panic, the invariant, the numbers and where the source stands.\<close>

definition steps_on :: "RTPMunger \<Rightarrow> munger_event \<Rightarrow> bool" where
  "steps_on r e \<longleftrightarrow>
     (\<exists>r' out. munger_step r e = Some (r', out) \<and> munger_synced r' \<and>
        advances (event_advance (extHighestIncomingSN r) e) r r' out \<and>
        extHighestIncomingSN r' = high_after (extHighestIncomingSN r) e)"

lemma high_packet:
  assumes "munger_inv r" "sn_ok p"
  shows "pkt_diff r p \<le> 0 \<Longrightarrow> max (extHighestIncomingSN r) (ExtSequenceNumber p) = extHighestIncomingSN r"
    and "0 < pkt_diff r p \<Longrightarrow> max (extHighestIncomingSN r) (ExtSequenceNumber p) = ExtSequenceNumber p"
    and "0 < pkt_diff r p \<Longrightarrow> pkt_diff r p = int (unat (ExtSequenceNumber p) - unat (extHighestIncomingSN r))"
    and "pkt_diff r p < 2 ^ 63"
proof -
  have "unat (ExtSequenceNumber p) < 2 ^ 63" using assms(2) by (simp add: sn_ok_def word_less_nat_alt unat_half_range)
  then show "pkt_diff r p \<le> 0 \<Longrightarrow> max (extHighestIncomingSN r) (ExtSequenceNumber p) = extHighestIncomingSN r"
    "0 < pkt_diff r p \<Longrightarrow> max (extHighestIncomingSN r) (ExtSequenceNumber p) = ExtSequenceNumber p"
    "0 < pkt_diff r p \<Longrightarrow> pkt_diff r p = int (unat (ExtSequenceNumber p) - unat (extHighestIncomingSN r))"
    "pkt_diff r p < 2 ^ 63"
    using pkt_diff_true [OF assms] by (auto simp: max_def word_le_nat_alt word_unat_eq_iff simp del: of_nat_unat)
qed

lemma in_order_advances:
  assumes syn: "munger_synced r" and p: "sn_ok p" "in_order r p"
  shows "\<exists>r' tp. UpdateAndGetSnTs r p m = Some (r', tp, None) \<and> munger_synced r' \<and>
    snOrdering tp = (if pkt_diff r p > 1 then SequenceNumberOrderingGap else SequenceNumberOrderingContiguous) \<and>
    extHighestIncomingSN r' = max (extHighestIncomingSN r) (ExtSequenceNumber p) \<and>
    advances (unat (ExtSequenceNumber p) - unat (extHighestIncomingSN r)) r r' [tp_extSequenceNumber tp]"
proof -
  have inv: "munger_inv r" using syn by (simp add: munger_synced_def)
  let ?ord = "if pkt_diff r p > 1 then SequenceNumberOrderingGap else SequenceNumberOrderingContiguous"
  let ?sn = "extLastSN r + word_of_int (pkt_diff r p)"
  obtain r' where r': "UpdateAndGetSnTs r p m = Some (r', \<lparr>snOrdering = ?ord, tp_extSequenceNumber = ?sn,
      tp_extTimestamp = ExtTimestamp p - tsOffset r\<rparr>, None)" "munger_synced r'" "extLastSN r' = ?sn"
    "extHighestIncomingSN r' = ExtSequenceNumber p"
    using UpdateAndGetSnTs_in_order [OF inv p, of m] unfolding nextOut_synced [OF syn] by metis
  have pos: "0 < pkt_diff r p" using p by (auto simp: in_order_def)
  note h = high_packet [OF inv p(1)]
  have "advances (unat (ExtSequenceNumber p) - unat (extHighestIncomingSN r)) r r' [?sn]"
    using pos h(4) _ r'(3) by (rule advances_one) (simp add: h(3) [OF pos])
  with r' h(2) [OF pos] show ?thesis by auto
qed

lemma late_steps_on:
  assumes "munger_synced r" "sn_ok p" "pkt_diff r p \<le> 0"
  shows "steps_on r (EvPacket p m)" and "steps_on r (EvUnselected p m)"
proof -
  have "munger_inv r" using assms(1) by (simp add: munger_synced_def)
  note h = high_packet(1) [OF this assms(2,3)]
  show "steps_on r (EvPacket p m)" "steps_on r (EvUnselected p m)"
    unfolding steps_on_def
    by (rule UpdateAndGetSnTs_late [OF assms(3), of m], use assms h in \<open>auto simp: advances_none\<close>)+
qed

lemma padding_only_steps_on:
  assumes syn: "munger_synced r" and p: "sn_ok p" "pkt_diff r p = 1" "Payload p = []"
  shows "steps_on r (EvPacket p m)" and "steps_on r (EvUnselected p m)"
proof -
  have inv: "munger_inv r" using syn by (simp add: munger_synced_def)
  have h: "max (extHighestIncomingSN r) (ExtSequenceNumber p) = ExtSequenceNumber p"
    using high_packet(2) [OF inv p(1)] p(2) by simp
  show "steps_on r (EvPacket p m)" "steps_on r (EvUnselected p m)"
    unfolding steps_on_def
    by (rule padding_only_step [OF inv p, of m],
        use syn h in \<open>auto simp: newNumbers_def munger_synced_def advances_none\<close>)+
qed

lemma munger_step_packet:
  assumes syn: "munger_synced r" and p: "sn_ok p"
  shows "steps_on r (EvPacket p m)"
proof -
  consider (in_order) "in_order r p" | (padding) "pkt_diff r p = 1" "Payload p = []"
    | (late) "pkt_diff r p \<le> 0" by (rule packet_cases)
  then show ?thesis
  proof cases
    case in_order
    then show ?thesis using in_order_advances [OF syn p in_order, of m] by (auto simp: newNumbers_def steps_on_def)
  qed (use late_steps_on padding_only_steps_on syn p in auto)
qed

lemma munger_step_unselected:
  assumes syn: "munger_synced r" and p: "sn_ok p"
  shows "steps_on r (EvUnselected p m)"
proof -
  have inv: "munger_inv r" using syn by (simp add: munger_synced_def)
  consider (contiguous) "pkt_diff r p = 1" "Payload p \<noteq> []" | (gap) "pkt_diff r p > 1"
    | (padding) "pkt_diff r p = 1" "Payload p = []" | (late) "pkt_diff r p \<le> 0" by linarith
  then show ?thesis
  proof cases
    case contiguous
    then have h: "max (extHighestIncomingSN r) (ExtSequenceNumber p) = ExtSequenceNumber p"
      using high_packet(2) [OF inv p] by simp
    show ?thesis unfolding steps_on_def
      by (rule PacketDropped_undo [OF inv p contiguous, of m])
        (use syn h in \<open>auto simp: munger_synced_def advances_none\<close>)
  next
    case gap
    then have "in_order r p" by (simp add: in_order_def)
    then show ?thesis using gap in_order_advances [OF syn p, of m] by (auto simp: newNumbers_def steps_on_def)
  qed (use late_steps_on padding_only_steps_on syn p in auto)
qed

lemma munger_step_padding:
  assumes syn: "munger_synced r" and num: "0 \<le> num"
  shows "steps_on r (EvPadding num cr fr force ts)"
proof (cases "num = 0 \<or> \<not> (lastMarker r \<or> force)")
  case True
  then show ?thesis using syn by (auto simp: UpdateAndGetPaddingSnTs_def advances_none steps_on_def)
next
  case False
  let ?out = "map (\<lambda>j. extLastSN r + of_nat j) [1..<Suc (nat num)]"
  obtain r' vals where pad: "UpdateAndGetPaddingSnTs r num cr fr force ts = Some (r', Inr vals)"
    "map st_extSequenceNumber vals = ?out" "munger_synced r'" "extLastSN r' = extLastSN r + word_of_int num"
    "extHighestIncomingSN r' = extHighestIncomingSN r"
    by (rule UpdateAndGetPaddingSnTs_ok [OF syn, of num force cr fr ts]) (use num False in auto)
  have "strides (extLastSN r) ?out = replicate (nat num) 1" "last (extLastSN r # ?out) = extLastSN r + of_nat (nat num)"
    using strides_upt [of "extLastSN r" "nat num"] by blast+
  then have "advances (nat num) r r' ?out"
    using pad(4) num unfolding advances_def by (simp add: sum_list_replicate del: upt_Suc last.simps)
  with pad show ?thesis by (auto simp: steps_on_def simp del: upt_Suc)
qed

lemma munger_step_ok:
  assumes "munger_synced r" "event_ok e"
  shows "steps_on r e"
proof (cases e)
  case (EvSwitch p tsAdjust)
  have "extHighestIncomingSN (UpdateSnTsOffsets r p 1 tsAdjust) = ExtSequenceNumber p - 1"
    by (simp add: UpdateSnTsOffsets_def updateSnOffset_def Let_def)
  with EvSwitch assms show ?thesis
    using UpdateSnTsOffsets_inv [of r p 1 tsAdjust]
    by (auto simp: munger_synced_def munger_inv_def advances_none steps_on_def)
qed (use assms munger_step_packet munger_step_unselected munger_step_padding in auto)

lemma munger_run_ok:
  assumes "munger_synced r" "list_all event_ok es"
  shows "\<exists>r' out. munger_run r es = Some (r', out) \<and> munger_synced r' \<and>
    advances (source_advance (extHighestIncomingSN r) es) r r' out"
  using assms
proof (induction es arbitrary: r)
  case Nil
  then show ?case by (simp add: advances_none)
next
  case (Cons e es)
  then obtain r1 out where s: "munger_step r e = Some (r1, out)" "munger_synced r1"
    "advances (event_advance (extHighestIncomingSN r) e) r r1 out"
    "extHighestIncomingSN r1 = high_after (extHighestIncomingSN r) e"
    using munger_step_ok [of r e] by (auto simp: steps_on_def)
  obtain r2 outs where "munger_run r1 es = Some (r2, outs)" "munger_synced r2"
    "advances (source_advance (extHighestIncomingSN r1) es) r1 r2 outs"
    using Cons.IH [OF s(2)] Cons.prems by auto
  with s show ?case using advances_append by auto
qed

section \<open>Streams without a gap\<close>

text \<open>\<open>consecutive a out b\<close>: \<open>out\<close> counts up by one from \<open>a\<close>, exclusive, to \<open>b\<close>.\<close>

fun consecutive :: "u64 \<Rightarrow> u64 list \<Rightarrow> u64 \<Rightarrow> bool" where
  "consecutive a [] b \<longleftrightarrow> b = a"
| "consecutive a (x # xs) b \<longleftrightarrow> x = a + 1 \<and> consecutive x xs b"

lemma consecutive_append: "consecutive a xs b \<Longrightarrow> consecutive b ys c \<Longrightarrow> consecutive a (xs @ ys) c"
  by (induction xs arbitrary: a) auto

lemma consecutive_upt: "consecutive a (map (\<lambda>j. a + of_nat j) [1..<Suc n]) (a + of_nat n)"
proof (induction n arbitrary: a)
  case (Suc n)
  have up: "map (\<lambda>j. a + of_nat j) [1..<Suc (Suc n)] = (a + 1) # map (\<lambda>j. a + 1 + of_nat j) [1..<Suc n]"
    by (subst upt_conv_Cons) (auto simp: map_Suc_upt [symmetric] algebra_simps simp del: upt_Suc)
  show ?case using Suc.IH [of "a + 1"] by (simp only: up consecutive.simps) (simp add: algebra_simps)
qed simp

text \<open>No source packet is skipped: each one is at most one above the highest seen.\<close>

fun no_gap :: "u64 \<Rightarrow> munger_event list \<Rightarrow> bool" where
  "no_gap h [] = True"
| "no_gap h (EvPacket p m # es) = (ExtSequenceNumber p \<le> h + 1 \<and> no_gap (max h (ExtSequenceNumber p)) es)"
| "no_gap h (EvUnselected p m # es) = (ExtSequenceNumber p \<le> h + 1 \<and> no_gap (max h (ExtSequenceNumber p)) es)"
| "no_gap h (EvPadding num cr fr force ts # es) = no_gap h es"
| "no_gap h (EvSwitch p tsAdjust # es) = no_gap (ExtSequenceNumber p - 1) es"

definition steps_consecutively :: "RTPMunger \<Rightarrow> munger_event \<Rightarrow> u64 \<Rightarrow> bool" where
  "steps_consecutively r e h \<longleftrightarrow>
     (\<exists>r' out. munger_step r e = Some (r', out) \<and> munger_synced r' \<and>
        consecutive (extLastSN r) out (extLastSN r') \<and> extHighestIncomingSN r' = h)"

lemma pkt_diff_one:
  assumes "munger_inv r" "sn_ok p" "ExtSequenceNumber p \<le> extHighestIncomingSN r + 1"
  obtains (follows) "pkt_diff r p = 1" "max (extHighestIncomingSN r) (ExtSequenceNumber p) = ExtSequenceNumber p"
  | (late) "pkt_diff r p \<le> 0" "max (extHighestIncomingSN r) (ExtSequenceNumber p) = extHighestIncomingSN r"
proof -
  have "unat (ExtSequenceNumber p) \<le> unat (extHighestIncomingSN r) + 1"
    using assms(3) below_half_succ [OF munger_invD(3) [OF assms(1)]] by (simp add: word_le_nat_alt)
  then show ?thesis
    using that pkt_diff_true [OF assms(1,2)]
    by (cases "unat (ExtSequenceNumber p) = unat (extHighestIncomingSN r) + 1")
      (auto simp: max_def word_le_nat_alt word_unat_eq_iff simp del: of_nat_unat)
qed

lemma late_consecutive:
  assumes "munger_synced r" "pkt_diff r p \<le> 0"
  shows "steps_consecutively r (EvPacket p m) (extHighestIncomingSN r)"
    and "steps_consecutively r (EvUnselected p m) (extHighestIncomingSN r)"
  unfolding steps_consecutively_def
  by (rule UpdateAndGetSnTs_late [OF assms(2), of m], use assms in auto)+

lemma padding_only_consecutive:
  assumes syn: "munger_synced r" and p: "sn_ok p" "pkt_diff r p = 1" "Payload p = []"
  shows "steps_consecutively r (EvPacket p m) (ExtSequenceNumber p)"
    and "steps_consecutively r (EvUnselected p m) (ExtSequenceNumber p)"
proof -
  have inv: "munger_inv r" using syn by (simp add: munger_synced_def)
  show "steps_consecutively r (EvPacket p m) (ExtSequenceNumber p)"
    "steps_consecutively r (EvUnselected p m) (ExtSequenceNumber p)"
    unfolding steps_consecutively_def
    by (rule padding_only_step [OF inv p, of m], use syn in \<open>auto simp: newNumbers_def munger_synced_def\<close>)+
qed

lemma packet_consecutive:
  assumes syn: "munger_synced r" and p: "sn_ok p" "ExtSequenceNumber p \<le> extHighestIncomingSN r + 1"
  shows "steps_consecutively r (EvPacket p m) (max (extHighestIncomingSN r) (ExtSequenceNumber p))"
    and "steps_consecutively r (EvUnselected p m) (max (extHighestIncomingSN r) (ExtSequenceNumber p))"
proof -
  have inv: "munger_inv r" using syn by (simp add: munger_synced_def)
  have "steps_consecutively r (EvPacket p m) (ExtSequenceNumber p) \<and>
      steps_consecutively r (EvUnselected p m) (ExtSequenceNumber p)"
    if d: "pkt_diff r p = 1" and pl: "Payload p \<noteq> []"
  proof
    have io: "in_order r p" using d pl by (simp add: in_order_def)
    have nx: "nextOutSN r = extLastSN r + 1" using syn by (simp add: munger_synced_def)
    show "steps_consecutively r (EvPacket p m) (ExtSequenceNumber p)"
      unfolding steps_consecutively_def
      by (rule UpdateAndGetSnTs_in_order [OF inv p(1) io, of m]) (use d nx in \<open>auto simp: newNumbers_def\<close>)
    show "steps_consecutively r (EvUnselected p m) (ExtSequenceNumber p)"
      unfolding steps_consecutively_def
      by (rule PacketDropped_undo [OF inv p(1) d pl, of m])
        (use syn in \<open>auto simp: munger_synced_def\<close>)
  qed
  then have "steps_consecutively r (EvPacket p m) (max (extHighestIncomingSN r) (ExtSequenceNumber p)) \<and>
      steps_consecutively r (EvUnselected p m) (max (extHighestIncomingSN r) (ExtSequenceNumber p))"
    using late_consecutive [OF syn, of p m] padding_only_consecutive [OF syn p(1), of m]
    by (cases "Payload p = []"; cases rule: pkt_diff_one [OF inv p]) auto
  then show "steps_consecutively r (EvPacket p m) (max (extHighestIncomingSN r) (ExtSequenceNumber p))"
    "steps_consecutively r (EvUnselected p m) (max (extHighestIncomingSN r) (ExtSequenceNumber p))"
    by auto
qed

lemma padding_consecutive:
  assumes syn: "munger_synced r" and num: "0 \<le> num"
  shows "steps_consecutively r (EvPadding num cr fr force ts) (extHighestIncomingSN r)"
proof (cases "num = 0 \<or> \<not> (lastMarker r \<or> force)")
  case True
  then show ?thesis using syn by (auto simp: steps_consecutively_def UpdateAndGetPaddingSnTs_def)
next
  case False
  have w: "word_of_int num = (of_nat (nat num) :: u64)" using num by simp
  obtain r' vals where pad: "UpdateAndGetPaddingSnTs r num cr fr force ts = Some (r', Inr vals)"
    "map st_extSequenceNumber vals = map (\<lambda>j. extLastSN r + of_nat j) [1..<Suc (nat num)]"
    "munger_synced r'" "extLastSN r' = extLastSN r + word_of_int num"
    "extHighestIncomingSN r' = extHighestIncomingSN r"
    by (rule UpdateAndGetPaddingSnTs_ok [OF syn, of num force cr fr ts]) (use num False in auto)
  have "munger_step r (EvPadding num cr fr force ts) = Some (r', map st_extSequenceNumber vals)"
    using pad(1) by simp
  then show ?thesis
    unfolding steps_consecutively_def using pad consecutive_upt [of "extLastSN r" "nat num"] w by metis
qed

lemma munger_run_consecutive:
  assumes "munger_synced r" "list_all event_ok es" "no_gap (extHighestIncomingSN r) es"
  shows "\<exists>r' out. munger_run r es = Some (r', out) \<and> munger_synced r' \<and>
    consecutive (extLastSN r) out (extLastSN r')"
  using assms
proof (induction es arbitrary: r)
  case (Cons e es)
  have "\<exists>h. steps_consecutively r e h \<and> no_gap h es"
  proof (cases e)
    case (EvSwitch p tsAdjust)
    have rm: "rm_inv (mg_snRangeMap r)" using Cons.prems(1) by (simp add: munger_synced_def munger_inv_def)
    have sn: "sn_ok p" using Cons.prems(2) EvSwitch by simp
    have "extHighestIncomingSN (UpdateSnTsOffsets r p 1 tsAdjust) = ExtSequenceNumber p - 1"
      by (simp add: UpdateSnTsOffsets_def updateSnOffset_def Let_def)
    with EvSwitch UpdateSnTsOffsets_inv [OF rm sn, of 1 tsAdjust] Cons.prems(3) show ?thesis
      by (auto simp: steps_consecutively_def munger_synced_def)
  next
    case (EvPacket p m)
    with Cons.prems show ?thesis using packet_consecutive(1) [of r p m] by auto
  next
    case (EvUnselected p m)
    with Cons.prems show ?thesis using packet_consecutive(2) [of r p m] by auto
  next
    case (EvPadding num cr fr force ts)
    with Cons.prems show ?thesis using padding_consecutive [of r num cr fr force ts] by auto
  qed
  then obtain r1 out where s: "munger_step r e = Some (r1, out)" "munger_synced r1"
    "consecutive (extLastSN r) out (extLastSN r1)" "no_gap (extHighestIncomingSN r1) es"
    by (auto simp: steps_consecutively_def)
  obtain r2 outs where "munger_run r1 es = Some (r2, outs)" "munger_synced r2"
    "consecutive (extLastSN r1) outs (extLastSN r2)"
    using Cons.IH [OF s(2) _ s(4)] Cons.prems by auto
  with s show ?case by (auto intro: consecutive_append)
qed simp

section \<open>Properties\<close>

lemma munger_start:
  assumes "sn_ok p" "Payload p \<noteq> []"
  shows "\<exists>r. munger_step (SetLastSnTs NewRTPMunger p) (EvPacket p m) = Some (r, [ExtSequenceNumber p]) \<and>
    munger_synced r \<and> extLastSN r = ExtSequenceNumber p \<and> extHighestIncomingSN r = ExtSequenceNumber p"
proof -
  let ?r = "SetLastSnTs NewRTPMunger p"
  have rm: "rm_inv (mg_snRangeMap NewRTPMunger)" by (simp add: NewRTPMunger_def rm_inv_NewRangeMap)
  note st = SetLastSnTs_inv [OF rm assms(1)]
  have d: "pkt_diff ?r p = 1"
    by (simp add: pkt_diff_def SetLastSnTs_def updateSnOffset_def Let_def)
  then have io: "in_order ?r p" using assms(2) by (simp add: in_order_def)
  show ?thesis
    by (rule UpdateAndGetSnTs_in_order [OF st(1) assms(1) io, of m])
      (use d st(2) in \<open>auto simp: newNumbers_def\<close>)
qed


definition samplePacket :: "u64 \<Rightarrow> u8 list \<Rightarrow> ExtPacket" where
  "samplePacket sn pl = \<lparr>ep_VideoLayer = \<lparr>Spatial = 0, Temporal = 0\<rparr>, ExtSequenceNumber = sn,
     ExtTimestamp = 90 * sn, Payload = pl, Marker = False, ep_VP8 = None, ep_VP9 = None, IsKeyFrame = False,
     ep_DependencyDescriptor = None, IsOutOfOrder = False\<rparr>"

text \<open>A stream with a dropped packet, a padding-only one, generated padding and a switch.\<close>

definition sampleEvents :: "munger_event list" where
  "sampleEvents =
     [EvPacket (samplePacket 101 [1]) True, EvUnselected (samplePacket 102 [1]) True,
      EvPacket (samplePacket 103 []) False, EvPacket (samplePacket 104 [1]) True,
      EvPadding 2 90000 30 True 0, EvSwitch (samplePacket 7 [1]) 3000, EvPacket (samplePacket 7 [1]) True]"

lemma sampleEvents_ok: "sn_ok (samplePacket 100 [1])" "list_all event_ok sampleEvents" "no_gap 100 sampleEvents"
  by (simp_all add: sampleEvents_def samplePacket_def sn_ok_def half_range_def)


text \<open>C2. When no source packet is lost, no outgoing number is skipped either: packets that are not
  forwarded are closed up and padding and switches continue the count.\<close>

theorem munger_stream_gap_free:
  assumes "sn_ok p" "Payload p \<noteq> []" "list_all event_ok es" "no_gap (ExtSequenceNumber p) es"
  shows "\<exists>r out. munger_run (SetLastSnTs NewRTPMunger p) (EvPacket p m # es) =
      Some (r, ExtSequenceNumber p # out) \<and> consecutive (ExtSequenceNumber p) out (extLastSN r)"
proof -
  obtain r where r: "munger_step (SetLastSnTs NewRTPMunger p) (EvPacket p m) = Some (r, [ExtSequenceNumber p])"
    "munger_synced r" "extLastSN r = ExtSequenceNumber p" "extHighestIncomingSN r = ExtSequenceNumber p"
    using munger_start [OF assms(1,2)] by blast
  obtain r' out where "munger_run r es = Some (r', out)" "consecutive (extLastSN r) out (extLastSN r')"
    using munger_run_consecutive [OF r(2) assms(3)] assms(4) r(4) by auto
  with r show ?thesis by auto
qed

theorem munger_stream_gap_free_witness:
  "\<exists>r out. munger_run (SetLastSnTs NewRTPMunger (samplePacket 100 [1]))
     (EvPacket (samplePacket 100 [1]) True # sampleEvents) = Some (r, 100 # out) \<and>
     consecutive 100 out (extLastSN r)"
  using munger_stream_gap_free [OF sampleEvents_ok(1) _ sampleEvents_ok(2), of True] sampleEvents_ok(3)
  by (auto simp: samplePacket_def)

text \<open>A contiguous packet that is numbered and then dropped leaves the outgoing side where it
  was: the last number, timestamp and marker are those before it, its own number is excluded from
  later translation, and the next packet takes the number it had.\<close>

theorem PacketDropped_reverts:
  assumes "munger_inv r" "sn_ok p" "pkt_diff r p = 1" "Payload p \<noteq> []"
  shows "\<exists>r1 tp r2. UpdateAndGetSnTs r p m = Some (r1, tp, None) \<and> PacketDropped r1 p = Some r2 \<and>
    munger_inv r2 \<and> extHighestIncomingSN r2 = ExtSequenceNumber p \<and> nextOutSN r2 = nextOutSN r \<and>
    extLastSN r2 = extLastSN r \<and> extLastTS r2 = extLastTS r \<and> lastMarker r2 = lastMarker r \<and>
    tsOffset r2 = tsOffset r"
  by (rule PacketDropped_undo [OF assms, of m]) blast

theorem PacketDropped_reverts_witness:
  "\<exists>r1 tp r2. UpdateAndGetSnTs (SetLastSnTs NewRTPMunger (samplePacket 100 [1])) (samplePacket 100 [1]) True =
     Some (r1, tp, None) \<and> PacketDropped r1 (samplePacket 100 [1]) = Some r2 \<and> nextOutSN r2 = 100"
proof -
  have rm: "rm_inv (mg_snRangeMap NewRTPMunger)" by (simp add: NewRTPMunger_def rm_inv_NewRangeMap)
  note st = SetLastSnTs_inv [OF rm sampleEvents_ok(1)]
  have d: "pkt_diff (SetLastSnTs NewRTPMunger (samplePacket 100 [1])) (samplePacket 100 [1]) = 1"
    by (simp add: pkt_diff_def SetLastSnTs_def updateSnOffset_def Let_def)
  have "Payload (samplePacket 100 [1]) \<noteq> []" by (simp add: samplePacket_def)
  from PacketDropped_reverts [OF st(1) sampleEvents_ok(1) d this, of True] st(2) show ?thesis
    by (auto simp: samplePacket_def)
qed

text \<open>Packets behind the highest one never move the munger: a duplicate or a packet whose number
  is gone from the cache is refused with its error, any other gets its source number less the
  offset recorded for it and a number below the last one sent.\<close>

theorem UpdateAndGetSnTs_late_packet:
  assumes "pkt_diff r p \<le> 0"
  shows "\<exists>tp err. UpdateAndGetSnTs r p m = Some (r, tp, err) \<and>
    (pkt_diff r p = 0 \<longrightarrow> err = Some ErrDuplicatePacket) \<and>
    (err = None \<longrightarrow> pkt_diff r p < 0 \<and> snOrdering tp = SequenceNumberOrderingOutOfOrder \<and>
       tp_extSequenceNumber tp < extLastSN r \<and>
       GetValue (mg_snRangeMap r) (ExtSequenceNumber p) = Inr (ExtSequenceNumber p - tp_extSequenceNumber tp))"
  using assms
  by (cases "pkt_diff r p = 0"; cases "GetValue (mg_snRangeMap r) (ExtSequenceNumber p)")
    (auto simp: UpdateAndGetSnTs_def Let_def pkt_diff_def [symmetric])

theorem UpdateAndGetSnTs_late_packet_witness:
  "let r = (SetLastSnTs NewRTPMunger (samplePacket 100 [1])) in
   \<exists>tp err. UpdateAndGetSnTs r (samplePacket 99 [1]) True = Some (r, tp, err) \<and> err \<noteq> None"
proof -
  let ?r = "SetLastSnTs NewRTPMunger (samplePacket 100 [1])"
  have "pkt_diff ?r (samplePacket 99 [1]) \<le> 0"
    by (simp add: pkt_diff_def SetLastSnTs_def updateSnOffset_def Let_def samplePacket_def)
  moreover have "pkt_diff ?r (samplePacket 99 [1]) = 0"
    by (simp add: pkt_diff_def SetLastSnTs_def updateSnOffset_def Let_def samplePacket_def)
  ultimately show ?thesis using UpdateAndGetSnTs_late_packet [of ?r "samplePacket 99 [1]" True] by auto
qed

text \<open>Generated padding takes the numbers right behind the last one sent, moves the source
  numbers that follow up by as many, and needs a frame boundary unless one is forced; on refusal
  nothing changes.\<close>

theorem UpdateAndGetPaddingSnTs_correct:
  assumes "munger_synced r" "0 < num"
  shows "if lastMarker r \<or> force
    then \<exists>r' vals. UpdateAndGetPaddingSnTs r num cr fr force ext = Some (r', Inr vals) \<and>
      map st_extSequenceNumber vals = map (\<lambda>j. extLastSN r + of_nat j) [1..<Suc (nat num)] \<and>
      munger_synced r' \<and> extLastSN r' = extLastSN r + word_of_int num \<and>
      extHighestIncomingSN r' = extHighestIncomingSN r
    else UpdateAndGetPaddingSnTs r num cr fr force ext = Some (r, Inl ErrPaddingNotOnFrameBoundary)"
proof (cases "lastMarker r \<or> force")
  case True
  show ?thesis
    by (rule UpdateAndGetPaddingSnTs_ok [OF assms True, of cr fr ext]) (use True in auto)
next
  case False
  then show ?thesis using assms(2) by (simp add: UpdateAndGetPaddingSnTs_def)
qed

theorem UpdateAndGetPaddingSnTs_correct_witness:
  "\<exists>r r' vals. munger_synced r \<and> extLastSN r = 100 \<and>
     UpdateAndGetPaddingSnTs r 2 90000 30 True 9000 = Some (r', Inr vals) \<and>
     map st_extSequenceNumber vals = [101, 102]"
proof -
  have pl: "Payload (samplePacket 100 [1]) \<noteq> []" by (simp add: samplePacket_def)
  obtain r where r: "munger_synced r" "extLastSN r = 100"
    using munger_start [OF sampleEvents_ok(1) pl, of True] by (auto simp: samplePacket_def)
  from UpdateAndGetPaddingSnTs_correct [OF r(1), of 2 True 90000 30 9000] r show ?thesis
    by (auto simp: upt_rec)
qed

text \<open>C17. The outgoing numbering survives a migration: seeding any munger with the state taken
  from another one and switching it to a source continues one above the last number sent.\<close>

theorem migrated_munger_continues:
  assumes "rm_inv (mg_snRangeMap r')" "sn_ok p"
  shows "mg_GetState (mg_SeedState r' (mg_GetState r)) = mg_GetState r \<and>
    munger_synced (UpdateSnTsOffsets (mg_SeedState r' (mg_GetState r)) p 1 tsAdjust) \<and>
    nextOutSN (UpdateSnTsOffsets (mg_SeedState r' (mg_GetState r)) p 1 tsAdjust) = extLastSN r + 1"
proof -
  have "rm_inv (mg_snRangeMap (mg_SeedState r' (mg_GetState r)))" using assms by (simp add: mg_SeedState_def)
  note UpdateSnTsOffsets_inv [OF this assms(2), of 1 tsAdjust]
  then show ?thesis by (auto simp: munger_synced_def mg_GetState_def mg_SeedState_def)
qed

theorem migrated_munger_continues_witness:
  "nextOutSN (UpdateSnTsOffsets (mg_SeedState NewRTPMunger (mg_GetState
     (SetLastSnTs NewRTPMunger (samplePacket 100 [1])))) (samplePacket 100 [1]) 1 0) = 101"
proof -
  have rm: "rm_inv (mg_snRangeMap NewRTPMunger)" by (simp add: NewRTPMunger_def rm_inv_NewRangeMap)
  have "extLastSN (SetLastSnTs NewRTPMunger (samplePacket 100 [1])) = 100"
    by (simp add: SetLastSnTs_def updateSnOffset_def Let_def samplePacket_def)
  with migrated_munger_continues [OF rm sampleEvents_ok(1), of "SetLastSnTs NewRTPMunger (samplePacket 100 [1])" 0]
  show ?thesis by simp
qed

end
