(* ===== verification/Sequencer.thy ===== *)
theory Sequencer
  imports RangeMap "HOL-Library.Signed_Division"
begin

text \<open>
  The packet metadata ring of a down track, \<open>pkg/sfu/sequencer.go\<close>, consulted when a receiver
  reports packets lost.

  A sequencer is a ring of \<open>size\<close> slots indexed by the outgoing extended sequence number less the
  number of padding packets before it; a sparse sequencer keeps those offsets in a range map.
  Times are the nanoseconds the Go code reads (\<open>int64\<close>, taken not to overflow); the current time of
  \<open>getExtPacketMetas\<close> is an argument. Fixed arrays are lists of their length; a Go \<open>copy\<close> into a
  fresh array is \<open>copyInto\<close>. \<^term>\<open>None\<close> results of state changing operations are run-time
  panics; \<open>lookupExtPacketMeta\<close> returns a nil pointer as \<^term>\<open>None\<close>.

  Lemmas: the ring invariant; a packet is found again under its outgoing number until the ring has
  moved past it; a packet is handed out for retransmission at most \<open>maxAck\<close> times and no two
  times within the duplicate window; the extended number rebuilt from a 16 bit NACK is the one sent.
\<close>

section \<open>Model\<close>

definition defaultRtt :: u32 where
  "defaultRtt = 70"

definition ignoreRetransmission :: u32 where
  "ignoreRetransmission = 100"

definition maxAck :: u8 where
  "maxAck = 3"

definition actMaxSize :: nat where
  "actMaxSize = 16"

record packetMeta =
  sourceSeqNo :: u64
  targetSeqNo :: u16
  pm_timestamp :: u32
  pm_marker :: bool
  lastNack :: u32
  nacked :: u8
  pm_layer :: int
  codecBytes :: "u8 list"
  numCodecBytesIn :: u8
  numCodecBytesOut :: u8
  codecBytesSlice :: "u8 list"
  ddBytes :: "u8 list"
  ddBytesSize :: u8
  ddBytesSlice :: "u8 list"
  actBytes :: "u8 list"
  actBytesSize :: u8
  trailerStripped :: u8

record extPacketMeta =
  epm_meta :: packetMeta
  epm_extSequenceNumber :: u64
  epm_extTimestamp :: u64
  epm_slot :: nat

record sequencer =
  sq_size :: nat
  startTime :: int
  initialized :: bool
  extStartSN :: u64
  extHighestSN :: u64
  sq_snOffset :: u64
  extHighestTS :: u64
  sq_meta :: "packetMeta list"
  sq_snRangeMap :: "(u64, u64) RangeMap option"
  rtt :: u32

definition zeroMeta :: packetMeta where
  "zeroMeta =
     \<lparr>sourceSeqNo = 0, targetSeqNo = 0, pm_timestamp = 0, pm_marker = False, lastNack = 0, nacked = 0,
      pm_layer = 0, codecBytes = replicate 8 0, numCodecBytesIn = 0, numCodecBytesOut = 0,
      codecBytesSlice = [], ddBytes = replicate 8 0, ddBytesSize = 0, ddBytesSlice = [],
      actBytes = replicate actMaxSize 0, actBytesSize = 0, trailerStripped = 0\<rparr>"

text \<open>A nil sequencer for size zero; \<open>size\<close> is not negative.\<close>

definition newSequencer :: "nat \<Rightarrow> bool \<Rightarrow> int \<Rightarrow> sequencer option" where
  "newSequencer sz maybeSparse now =
     (if sz = 0 then None
      else Some \<lparr>sq_size = sz, startTime = now, initialized = False, extStartSN = 0, extHighestSN = 0,
        sq_snOffset = 0, extHighestTS = 0, sq_meta = replicate sz zeroMeta,
        sq_snRangeMap = (if maybeSparse then Some (NewRangeMap (int ((sz + 1) div 2))) else None),
        rtt = defaultRtt\<rparr>)"

definition setRTT :: "sequencer \<Rightarrow> u32 \<Rightarrow> sequencer" where
  "setRTT s rt = (if rt = 0 then s\<lparr>rtt := defaultRtt\<rparr> else s\<lparr>rtt := rt\<rparr>)"

definition flush :: "sequencer \<Rightarrow> sequencer" where
  "flush s =
     s\<lparr>initialized := False, extStartSN := 0, extHighestSN := 0, extHighestTS := 0, sq_snOffset := 0,
       sq_meta := map (\<lambda>_. zeroMeta) (sq_meta s),
       sq_snRangeMap := (case sq_snRangeMap s of None \<Rightarrow> None
          | Some _ \<Rightarrow> Some (NewRangeMap (int ((sq_size s + 1) div 2))))\<rparr>"

definition getRefTime :: "sequencer \<Rightarrow> int \<Rightarrow> u32" where
  "getRefTime s at = word_of_int ((at - startTime s) sdiv 1000000)"

definition updateSNOffset :: "sequencer \<Rightarrow> sequencer" where
  "updateSNOffset s =
     (case sq_snRangeMap s of None \<Rightarrow> s
      | Some rm \<Rightarrow> (case GetValue rm (extHighestSN s + 1) of
           Inl _ \<Rightarrow> s | Inr snOffset \<Rightarrow> s\<lparr>sq_snOffset := snOffset\<rparr>))"

definition invalidateSlot :: "packetMeta list \<Rightarrow> nat \<Rightarrow> packetMeta list" where
  "invalidateSlot meta slot = (if slot \<ge> length meta then meta else meta[slot := zeroMeta])"

definition isInvalidSlot :: "packetMeta list \<Rightarrow> nat \<Rightarrow> bool" where
  "isInvalidSlot meta slot \<longleftrightarrow>
     (if slot \<ge> length meta then True
      else sourceSeqNo (meta ! slot) = 0 \<and> targetSeqNo (meta ! slot) = 0 \<and> lastNack (meta ! slot) = 0)"

text \<open>The loop that invalidates the slots between the highest and the new packet; the counter is
  \<open>size - numInvalidated\<close>, where the source breaks off.\<close>

fun invalidateMissing :: "nat \<Rightarrow> u64 \<Rightarrow> nat \<Rightarrow> u64 \<Rightarrow> packetMeta list \<Rightarrow> packetMeta list" where
  "invalidateMissing sz target 0 esn meta = meta"
| "invalidateMissing sz target (Suc n) esn meta =
     (if esn = target then meta
      else invalidateMissing sz target n (esn + 1) (invalidateSlot meta (unat esn mod sz)))"

definition copyInto :: "u8 list \<Rightarrow> u8 list \<Rightarrow> u8 list" where
  "copyInto arr xs = take (length arr) xs @ drop (length xs) arr"

definition newMeta ::
  "u64 \<Rightarrow> u64 \<Rightarrow> u64 \<Rightarrow> bool \<Rightarrow> int \<Rightarrow> u8 list \<Rightarrow> int \<Rightarrow> u8 list \<Rightarrow> u8 list \<Rightarrow> int \<Rightarrow> u32 \<Rightarrow> packetMeta" where
  "newMeta extIncomingSN extModifiedSN extModifiedTS mark lyr cBytes nIn dBytes aBytes trailer refTime =
     (let pm = zeroMeta\<lparr>sourceSeqNo := extIncomingSN, targetSeqNo := ucast extModifiedSN,
            pm_timestamp := ucast extModifiedTS, pm_marker := mark, pm_layer := lyr,
            numCodecBytesIn := word_of_int nIn, trailerStripped := word_of_int trailer,
            lastNack := refTime\<rparr>;
          pm = pm\<lparr>numCodecBytesOut := of_nat (length cBytes)\<rparr>;
          pm = (if length cBytes > length (codecBytes pm) then pm\<lparr>codecBytesSlice := cBytes\<rparr>
                else pm\<lparr>codecBytes := copyInto (codecBytes pm) cBytes\<rparr>);
          pm = pm\<lparr>ddBytesSize := of_nat (length dBytes)\<rparr>;
          pm = (if length dBytes > length (ddBytes pm) then pm\<lparr>ddBytesSlice := dBytes\<rparr>
                else pm\<lparr>ddBytes := copyInto (ddBytes pm) dBytes\<rparr>)
      in pm\<lparr>actBytes := copyInto (actBytes pm) aBytes,
            actBytesSize := of_nat (min (length aBytes) (length (actBytes pm)))\<rparr>)"

definition push ::
  "sequencer \<Rightarrow> int \<Rightarrow> u64 \<Rightarrow> u64 \<Rightarrow> u64 \<Rightarrow> bool \<Rightarrow> int \<Rightarrow> u8 list \<Rightarrow> int \<Rightarrow> u8 list \<Rightarrow> u8 list \<Rightarrow> int \<Rightarrow>
   sequencer" where
  "push s packetTime extIncomingSN extModifiedSN extModifiedTS mark lyr cBytes nIn dBytes aBytes trailer =
     (let s = (if \<not> initialized s
               then updateSNOffset (s\<lparr>initialized := True, extStartSN := extModifiedSN,
                      extHighestSN := extModifiedSN, extHighestTS := extModifiedTS\<rparr>)
               else s)
      in
        if extModifiedSN < extStartSN s then s
        else
          let extHighestSNAdjusted = extHighestSN s - sq_snOffset s;
              adjusted =
                (if extModifiedSN < extHighestSN s
                 then (case sq_snRangeMap s of None \<Rightarrow> Some (extModifiedSN - sq_snOffset s)
                       | Some rm \<Rightarrow> (case GetValue rm extModifiedSN of
                            Inl _ \<Rightarrow> None | Inr snOffset \<Rightarrow> Some (extModifiedSN - snOffset)))
                 else Some (extModifiedSN - sq_snOffset s))
          in
            case adjusted of None \<Rightarrow> s
            | Some extModifiedSNAdjusted \<Rightarrow>
              if sint (extModifiedSNAdjusted - extHighestSNAdjusted) \<le> - int (sq_size s) then s
              else
                let meta = (if extModifiedSNAdjusted > extHighestSNAdjusted
                            then invalidateMissing (sq_size s) extModifiedSNAdjusted (sq_size s)
                                   (extHighestSNAdjusted + 1) (sq_meta s)
                            else sq_meta s);
                    slot = unat extModifiedSNAdjusted mod sq_size s;
                    pm = newMeta extIncomingSN extModifiedSN extModifiedTS mark lyr cBytes nIn dBytes
                           aBytes trailer (getRefTime s packetTime);
                    s = s\<lparr>sq_meta := meta[slot := pm]\<rparr>;
                    s = (if extModifiedSN > extHighestSN s then s\<lparr>extHighestSN := extModifiedSN\<rparr> else s)
                in if extModifiedTS > extHighestTS s then s\<lparr>extHighestTS := extModifiedTS\<rparr> else s)"

text \<open>The loop over an exclusion range that lies before what was sequenced; it runs
  \<open>end + 1 - start\<close> times in modular arithmetic, which is the counter.\<close>

fun invalidatePadding :: "sequencer \<Rightarrow> (u64, u64) RangeMap \<Rightarrow> nat \<Rightarrow> u64 \<Rightarrow> packetMeta list \<Rightarrow> packetMeta list" where
  "invalidatePadding s rm 0 esn meta = meta"
| "invalidatePadding s rm (Suc n) esn meta =
     (let diff = sint (esn - extHighestSN s);
          meta = (if diff \<ge> 0 \<or> diff < - int (sq_size s) then meta
                  else (case GetValue rm esn of Inl _ \<Rightarrow> meta
                        | Inr snOffset \<Rightarrow> invalidateSlot meta (unat (esn - snOffset) mod sq_size s)))
      in invalidatePadding s rm n (esn + 1) meta)"

definition pushPadding :: "sequencer \<Rightarrow> u64 \<Rightarrow> u64 \<Rightarrow> sequencer option" where
  "pushPadding s extStartSNInclusive extEndSNInclusive =
     (case sq_snRangeMap s of None \<Rightarrow> Some s
      | Some rm \<Rightarrow>
        if \<not> initialized s then Some s
        else if extStartSNInclusive \<le> extHighestSN s
        then Some (s\<lparr>sq_meta := invalidatePadding s rm
               (unat (extEndSNInclusive + 1 - extStartSNInclusive)) extStartSNInclusive (sq_meta s)\<rparr>)
        else do {
          res \<leftarrow> ExcludeRange rm extStartSNInclusive (extEndSNInclusive + 1);
          Some (case res of Inl _ \<Rightarrow> s
                | Inr rm' \<Rightarrow> updateSNOffset (s\<lparr>sq_snRangeMap := Some rm', extHighestSN := extEndSNInclusive\<rparr>))
        })"

text \<open>Extending a 16 bit sequence number and a 32 bit timestamp against the highest ones sent.\<close>

definition extendSN :: "u64 \<Rightarrow> u16 \<Rightarrow> u64" where
  "extendSN highest sn =
     (let extSN = ucast sn + (highest AND 0xFFFFFFFFFFFF0000)
      in if sn > ucast highest then extSN - 2 ^ 16 else extSN)"

definition extendTS :: "u64 \<Rightarrow> u32 \<Rightarrow> u64" where
  "extendTS highest ts =
     (let extTS = ucast ts + (highest AND 0xFFFFFFFF00000000)
      in if ts > ucast highest then extTS - 2 ^ 32 else extTS)"

definition rtxThreshold :: "sequencer \<Rightarrow> u32" where
  "rtxThreshold s = min ignoreRetransmission (2 * rtt s)"

text \<open>One iteration of the loop of \<open>getExtPacketMetas\<close>.\<close>

definition getExtPacketMeta :: "u32 \<Rightarrow> sequencer \<Rightarrow> u16 \<Rightarrow> sequencer \<times> extPacketMeta list" where
  "getExtPacketMeta refTime s sn =
     (let highestSN = ucast (extHighestSN s) :: u16;
          diff = highestSN - sn in
      if diff > 2 ^ 15 then (s, [])
      else
        let extSN = extendSN (extHighestSN s) sn in
        case (case sq_snRangeMap s of None \<Rightarrow> Inr 0 | Some rm \<Rightarrow> GetValue rm extSN) of
          Inl _ \<Rightarrow> (s, [])
        | Inr snOffset \<Rightarrow>
          let extSNAdjusted = extSN - snOffset;
              extHighestSNAdjusted = extHighestSN s - sq_snOffset s in
          if extHighestSNAdjusted - extSNAdjusted \<ge> of_nat (sq_size s) then (s, [])
          else
            let slot = unat extSNAdjusted mod sq_size s;
                meta = sq_meta s ! slot in
            if targetSeqNo meta \<noteq> sn \<or> isInvalidSlot (sq_meta s) slot then (s, [])
            else if nacked meta < maxAck \<and> refTime - lastNack meta > rtxThreshold s
            then
              let meta = meta\<lparr>nacked := nacked meta + 1, lastNack := refTime\<rparr>;
                  epm = \<lparr>epm_meta = meta, epm_extSequenceNumber = extSN,
                         epm_extTimestamp = extendTS (extHighestTS s) (pm_timestamp meta),
                         epm_slot = slot\<rparr>
              in (s\<lparr>sq_meta := (sq_meta s)[slot := meta]\<rparr>, [epm])
            else (s, []))"

fun getExtPacketMetasLoop :: "u32 \<Rightarrow> sequencer \<Rightarrow> u16 list \<Rightarrow> sequencer \<times> extPacketMeta list" where
  "getExtPacketMetasLoop refTime s [] = (s, [])"
| "getExtPacketMetasLoop refTime s (sn # seqNo) =
     (let (s, epms) = getExtPacketMeta refTime s sn;
          (s, epms') = getExtPacketMetasLoop refTime s seqNo
      in (s, epms @ epms'))"

definition getExtPacketMetas :: "sequencer \<Rightarrow> int \<Rightarrow> u16 list \<Rightarrow> sequencer \<times> extPacketMeta list" where
  "getExtPacketMetas s now seqNo =
     (if \<not> initialized s then (s, [])
      else getExtPacketMetasLoop (getRefTime s now) s seqNo)"

fun unmarkNacked :: "sequencer \<Rightarrow> extPacketMeta list \<Rightarrow> sequencer option" where
  "unmarkNacked s [] = Some s"
| "unmarkNacked s (epm # epms) =
     (if epm_slot epm \<ge> length (sq_meta s) then None
      else
        let meta = sq_meta s ! epm_slot epm in
        if targetSeqNo meta \<noteq> targetSeqNo (epm_meta epm) \<or> lastNack meta \<noteq> lastNack (epm_meta epm) \<or>
           nacked meta = 0
        then unmarkNacked s epms
        else unmarkNacked (s\<lparr>sq_meta :=
               (sq_meta s)[epm_slot epm := meta\<lparr>nacked := nacked meta - 1\<rparr>]\<rparr>) epms)"

definition lookupExtPacketMeta :: "sequencer \<Rightarrow> u64 \<Rightarrow> extPacketMeta option" where
  "lookupExtPacketMeta s extSN =
     (if \<not> initialized s then None
      else
        case (case sq_snRangeMap s of None \<Rightarrow> Inr 0 | Some rm \<Rightarrow> GetValue rm extSN) of
          Inl _ \<Rightarrow> None
        | Inr snOffset \<Rightarrow>
          let extSNAdjusted = extSN - snOffset;
              extHighestSNAdjusted = extHighestSN s - sq_snOffset s in
          if extHighestSNAdjusted - extSNAdjusted \<ge> of_nat (sq_size s) then None
          else
            let slot = unat extSNAdjusted mod sq_size s;
                meta = sq_meta s ! slot in
            if isInvalidSlot (sq_meta s) slot then None
            else Some \<lparr>epm_meta = meta, epm_extSequenceNumber = extSN,
                       epm_extTimestamp = extendTS (extHighestTS s) (pm_timestamp meta),
                       epm_slot = 0\<rparr>)"

section \<open>Extended numbers\<close>

lemma extendSN_extend_word: "extendSN = extend_word"
proof -
  have "(0xFFFFFFFFFFFF0000 :: u64) = NOT (mask 16)" "LENGTH(16) = 16"
    by (simp_all add: mask_eq_exp_minus_1)
  then show ?thesis by (intro ext) (simp only: extendSN_def extend_word_def)
qed

lemma extendTS_extend_word: "extendTS = extend_word"
proof -
  have "(0xFFFFFFFF00000000 :: u64) = NOT (mask 32)" "LENGTH(32) = 32"
    by (simp_all add: mask_eq_exp_minus_1)
  then show ?thesis by (intro ext) (simp only: extendTS_def extend_word_def)
qed

section \<open>The ring\<close>

lemma length_invalidateSlot [simp]: "length (invalidateSlot meta i) = length meta"
  by (simp add: invalidateSlot_def)

lemma length_invalidateMissing [simp]:
  "length (invalidateMissing sz target n esn meta) = length meta"
  by (induction sz target n esn meta rule: invalidateMissing.induct) auto

lemma length_invalidatePadding [simp]: "length (invalidatePadding s rm n esn meta) = length meta"
  by (induction s rm n esn meta rule: invalidatePadding.induct) (auto simp: Let_def split: sum.splits)

text \<open>Slots outside the invalidated stretch keep their content.\<close>

lemma invalidateMissing_nth:
  assumes "unat esn \<le> unat target"
    and "\<And>x. unat esn \<le> x \<Longrightarrow> x < unat target \<Longrightarrow> x mod sz \<noteq> j"
  shows "invalidateMissing sz target n esn meta ! j = meta ! j"
  using assms
proof (induction n arbitrary: esn meta)
  case (Suc n)
  show ?case
  proof (cases "esn = target")
    case False
    then have lt: "unat esn < unat target"
      using Suc.prems(1) by (metis le_neq_implies_less word_unat_eq_iff)
    then have "unat (esn + 1) = unat esn + 1"
      by (intro word_succ_no_wrap [of esn target]) (simp add: word_less_nat_alt)
    with lt Suc.prems have "invalidateMissing sz target n (esn + 1) (invalidateSlot meta (unat esn mod sz)) ! j
        = invalidateSlot meta (unat esn mod sz) ! j"
      by (intro Suc.IH) auto
    moreover have "unat esn mod sz \<noteq> j" using Suc.prems(2) lt by blast
    ultimately show ?thesis using False by (simp add: invalidateSlot_def)
  qed simp
qed simp

text \<open>Numbers closer together than the size of the ring have different slots.\<close>

lemma slots_differ:
  fixes a b n :: nat
  assumes "a < b" "b < a + n"
  shows "a mod n \<noteq> b mod n"
proof
  assume "a mod n = b mod n"
  then have "n dvd b - a" using assms(1) by (metis less_imp_le mod_eq_dvd_iff_nat)
  with assms show False by (auto dest: dvd_imp_le)
qed

definition seqOffset :: "sequencer \<Rightarrow> u64 \<Rightarrow> rm_error + u64" where
  "seqOffset s sn = (case sq_snRangeMap s of None \<Rightarrow> Inr 0 | Some rm \<Rightarrow> GetValue rm sn)"

definition seq_map_inv :: "sequencer \<Rightarrow> bool" where
  "seq_map_inv s \<longleftrightarrow>
     (case sq_snRangeMap s of
        None \<Rightarrow> sq_snOffset s = 0
      | Some rm \<Rightarrow> rm_inv rm \<and> sq_snOffset s = rv_value (open_range rm) \<and>
          (if initialized s then rv_start (open_range rm) \<le> extHighestSN s + 1
           else rv_start (open_range rm) = 0 \<and> sq_snOffset s = 0))"

definition seq_inv :: "sequencer \<Rightarrow> bool" where
  "seq_inv s \<longleftrightarrow>
     1 \<le> sq_size s \<and> sq_size s < 2 ^ 63 \<and> length (sq_meta s) = sq_size s \<and> seq_map_inv s \<and>
     (initialized s \<longrightarrow> extStartSN s \<le> extHighestSN s \<and> extHighestSN s < half_range \<and>
        sq_snOffset s \<le> extHighestSN s)"

lemma seq_invD:
  assumes "seq_inv s"
  shows "1 \<le> sq_size s" and "sq_size s < 2 ^ 63" and "length (sq_meta s) = sq_size s" and "seq_map_inv s"
    and "initialized s \<Longrightarrow> extStartSN s \<le> extHighestSN s"
    and "initialized s \<Longrightarrow> extHighestSN s < half_range"
    and "initialized s \<Longrightarrow> sq_snOffset s \<le> extHighestSN s"
  using assms by (auto simp: seq_inv_def)

text \<open>Beyond the highest number every lookup gives the cached offset.\<close>

lemma seqOffset_new:
  assumes "seq_inv s" "initialized s" "extHighestSN s < sn"
  shows "seqOffset s sn = Inr (sq_snOffset s)"
proof (cases "sq_snRangeMap s")
  case (Some rm)
  have "extHighestSN s + 1 \<le> sn"
    using below_half_succ [OF seq_invD(6) [OF assms(1,2)]] assms(3)
    by (simp add: word_le_nat_alt word_less_nat_alt)
  with Some assms show ?thesis
    by (auto simp: seqOffset_def seq_inv_def seq_map_inv_def intro!: rmap.get_open)
qed (use assms in \<open>auto simp: seqOffset_def seq_inv_def seq_map_inv_def\<close>)

text \<open>The slot number space: outgoing numbers less the padding before them.\<close>

abbreviation highestAdjusted :: "sequencer \<Rightarrow> u64" where
  "highestAdjusted s \<equiv> extHighestSN s - sq_snOffset s"

lemma unat_adjusted:
  assumes "seq_inv s" "initialized s" "extHighestSN s \<le> sn"
  shows "unat (sn - sq_snOffset s) = unat sn - unat (sq_snOffset s)"
    and "unat (sq_snOffset s) \<le> unat (extHighestSN s)"
  using assms by (auto simp: seq_inv_def word_le_nat_alt intro!: unat_sub)

lemma push_new:
  assumes inv: "seq_inv s" "initialized s" and sn: "extHighestSN s < sn" "sn < half_range"
  shows "push s t inc sn ts mk ly cb ni db ab tr =
    s\<lparr>sq_meta := (invalidateMissing (sq_size s) (sn - sq_snOffset s) (sq_size s) (highestAdjusted s + 1)
          (sq_meta s))[unat (sn - sq_snOffset s) mod sq_size s :=
            newMeta inc sn ts mk ly cb ni db ab tr (getRefTime s t)],
      extHighestSN := sn, extHighestTS := (if ts > extHighestTS s then ts else extHighestTS s)\<rparr>"
proof -
  note D = seq_invD [OF inv(1)]
  have "\<not> sn < extStartSN s" "\<not> sn < extHighestSN s" using D(5) [OF inv(2)] sn by auto
  moreover have "sn - sq_snOffset s > highestAdjusted s"
    using unat_adjusted [OF inv less_imp_le [OF sn(1)]] unat_adjusted [OF inv order_refl] sn
    by (auto simp: word_less_nat_alt)
  moreover have "sint (sn - extHighestSN s) > 0"
    using sn D(6) [OF inv(2)] by (simp add: sint_diff_below_half word_less_nat_alt del: of_nat_unat)
  then have "\<not> sint ((sn - sq_snOffset s) - highestAdjusted s) \<le> - int (sq_size s)" by simp
  ultimately show ?thesis using inv(2) sn by (simp add: push_def Let_def)
qed


lemma seqOffset_push:
  "seqOffset (s\<lparr>sq_meta := m, extHighestSN := h, extHighestTS := ts\<rparr>) sn = seqOffset s sn"
  by (simp add: seqOffset_def)

lemma lookupExtPacketMeta_alt:
  "lookupExtPacketMeta s sn =
     (if \<not> initialized s then None
      else case seqOffset s sn of Inl _ \<Rightarrow> None
      | Inr off \<Rightarrow>
        if highestAdjusted s - (sn - off) \<ge> of_nat (sq_size s) then None
        else if isInvalidSlot (sq_meta s) (unat (sn - off) mod sq_size s) then None
        else Some \<lparr>epm_meta = sq_meta s ! (unat (sn - off) mod sq_size s), epm_extSequenceNumber = sn,
               epm_extTimestamp = extendTS (extHighestTS s)
                 (pm_timestamp (sq_meta s ! (unat (sn - off) mod sq_size s))), epm_slot = 0\<rparr>)"
  unfolding lookupExtPacketMeta_def seqOffset_def Let_def by (rule refl)

lemma of_nat_size:
  assumes "seq_inv s"
  shows "unat (of_nat (sq_size s) :: u64) = sq_size s"
  using seq_invD(2) [OF assms] by (intro unat_of_nat_u64) simp

definition metaVisible :: "packetMeta \<Rightarrow> bool" where
  "metaVisible m \<longleftrightarrow> \<not> (sourceSeqNo m = 0 \<and> targetSeqNo m = 0 \<and> lastNack m = 0)"

lemma isInvalidSlot_iff:
  "slot < length meta \<Longrightarrow> isInvalidSlot meta slot \<longleftrightarrow> \<not> metaVisible (meta ! slot)"
  by (auto simp: isInvalidSlot_def metaVisible_def)

lemma newMeta_fields:
  "sourceSeqNo (newMeta inc sn ts mk ly cb ni db ab tr rt) = inc"
  "targetSeqNo (newMeta inc sn ts mk ly cb ni db ab tr rt) = ucast sn"
  "pm_timestamp (newMeta inc sn ts mk ly cb ni db ab tr rt) = ucast ts"
  "lastNack (newMeta inc sn ts mk ly cb ni db ab tr rt) = rt"
  "nacked (newMeta inc sn ts mk ly cb ni db ab tr rt) = 0"
  "pm_marker (newMeta inc sn ts mk ly cb ni db ab tr rt) = mk"
  by (simp_all add: newMeta_def Let_def zeroMeta_def)

lemma push_new_lookup:
  assumes inv: "seq_inv s" "initialized s" and sn: "extHighestSN s < sn" "sn < half_range"
    and m: "m = newMeta inc sn ts mk ly cb ni db ab tr (getRefTime s t)" "metaVisible m"
  shows "\<exists>e. lookupExtPacketMeta (push s t inc sn ts mk ly cb ni db ab tr) sn = Some e \<and> epm_meta e = m"
proof -
  note D = seq_invD [OF inv(1)]
  have "\<not> (0 :: u64) \<ge> of_nat (sq_size s)"
    using D(1) of_nat_size [OF inv(1)] by (simp add: word_le_nat_alt)
  then show ?thesis
    using inv D(1,3) m
    by (simp add: push_new [OF inv sn] lookupExtPacketMeta_alt seqOffset_push seqOffset_new [OF inv sn(1)]
        isInvalidSlot_iff)
qed

text \<open>What is found stays found while the ring has not come round to its slot.\<close>

lemma push_new_keeps:
  assumes inv: "seq_inv s" "initialized s" and sn: "extHighestSN s < sn" "sn < half_range"
    and old: "lookupExtPacketMeta s k = Some e" "seqOffset s k = Inr off"
    and adj: "k - off \<le> highestAdjusted s"
    and window: "unat (sn - sq_snOffset s) < unat (k - off) + sq_size s"
  shows "\<exists>e'. lookupExtPacketMeta (push s t inc sn ts mk ly cb ni db ab tr) k = Some e' \<and> epm_meta e' = epm_meta e"
proof -
  note D = seq_invD [OF inv(1)]
  let ?sA = "sn - sq_snOffset s" and ?j = "unat (k - off) mod sq_size s"
  have u: "unat ?sA = unat sn - unat (sq_snOffset s)" "unat (highestAdjusted s) = unat (extHighestSN s) - unat (sq_snOffset s)"
    "unat (sq_snOffset s) \<le> unat (extHighestSN s)" "unat (extHighestSN s) < unat sn"
    using unat_adjusted [OF inv less_imp_le [OF sn(1)]] unat_adjusted [OF inv order_refl] sn
    by (auto simp: word_less_nat_alt)
  have lt: "unat (highestAdjusted s) < unat ?sA" using u by linarith
  have succ: "unat (highestAdjusted s + 1) = unat (highestAdjusted s) + 1"
    by (rule word_succ_no_wrap [of _ ?sA]) (simp add: word_less_nat_alt lt)
  have kh: "unat (k - off) \<le> unat (highestAdjusted s)" using adj by (simp add: word_le_nat_alt)
  have j: "?j < sq_size s" using D(1) by simp
  have slot: "unat ?sA mod sq_size s \<noteq> ?j"
    using slots_differ [of "unat (k - off)" "unat ?sA" "sq_size s"] kh lt window by auto
  have keep: "invalidateMissing (sq_size s) ?sA (sq_size s) (highestAdjusted s + 1) (sq_meta s) ! ?j = sq_meta s ! ?j"
  proof (rule invalidateMissing_nth)
    show "unat (highestAdjusted s + 1) \<le> unat ?sA" using lt succ by simp
    show "x mod sq_size s \<noteq> ?j" if "unat (highestAdjusted s + 1) \<le> x" "x < unat ?sA" for x
      using slots_differ [of "unat (k - off)" x "sq_size s"] that kh window succ by auto
  qed
  have "\<not> ?sA - (k - off) \<ge> of_nat (sq_size s)"
  proof -
    have "unat (?sA - (k - off)) = unat ?sA - unat (k - off)"
      using kh lt by (intro unat_sub) (simp add: word_le_nat_alt)
    then show ?thesis using window kh lt of_nat_size [OF inv(1)] by (simp add: word_le_nat_alt)
  qed
  with old inv(2) j D(3) keep slot show ?thesis
    by (auto simp: push_new [OF inv sn] lookupExtPacketMeta_alt seqOffset_push isInvalidSlot_iff
        split: if_splits)
qed


section \<open>Every operation keeps the invariant\<close>

lemma seq_inv_new: "newSequencer sz sp now = Some s \<Longrightarrow> sz < 2 ^ 63 \<Longrightarrow> seq_inv s"
  by (auto simp: newSequencer_def seq_inv_def seq_map_inv_def rm_inv_NewRangeMap split: if_splits)
    (auto simp: NewRangeMap_def initRanges_def open_range_def)

lemma seq_inv_setRTT: "seq_inv s \<Longrightarrow> seq_inv (setRTT s rt)"
  by (auto simp: setRTT_def seq_inv_def seq_map_inv_def split: option.splits)

lemma seq_inv_flush: "seq_inv s \<Longrightarrow> seq_inv (flush s)"
  by (auto simp: flush_def seq_inv_def seq_map_inv_def rm_inv_NewRangeMap split: option.splits)
    (auto simp: NewRangeMap_def initRanges_def open_range_def)

text \<open>Changing ring content or timestamps does not touch the invariant.\<close>

lemma seq_inv_meta:
  "seq_inv s \<Longrightarrow> length m = sq_size s \<Longrightarrow> seq_inv (s\<lparr>sq_meta := m\<rparr>)"
  by (auto simp: seq_inv_def seq_map_inv_def split: option.splits)

lemma seq_inv_highestTS: "seq_inv (s\<lparr>extHighestTS := ts\<rparr>) = seq_inv s"
  by (auto simp: seq_inv_def seq_map_inv_def split: option.splits)

lemma seq_inv_raise:
  assumes "seq_inv s" "initialized s" "extHighestSN s < sn" "sn < half_range"
  shows "seq_inv (s\<lparr>extHighestSN := sn\<rparr>)"
proof -
  have "extHighestSN s + 1 \<le> sn + 1"
    using below_half_succ [OF seq_invD(6) [OF assms(1,2)]] below_half_succ [OF assms(4)] assms(3)
    by (simp add: word_le_nat_alt word_less_nat_alt)
  with assms show ?thesis
    by (auto simp: seq_inv_def seq_map_inv_def split: option.splits)
qed

lemma seq_inv_init:
  assumes "seq_inv s" "\<not> initialized s" "sn < half_range"
  shows "seq_inv (updateSNOffset (s\<lparr>initialized := True, extStartSN := sn, extHighestSN := sn, extHighestTS := ts\<rparr>))"
  using assms by (auto simp: seq_inv_def seq_map_inv_def updateSNOffset_def rmap.get_open split: option.splits)

lemma seq_inv_push:
  assumes "seq_inv s" "sn < half_range"
  shows "seq_inv (push s t inc sn ts mk ly cb ni db ab tr)"
proof -
  define s1 where "s1 = (if \<not> initialized s
               then updateSNOffset (s\<lparr>initialized := True, extStartSN := sn, extHighestSN := sn, extHighestTS := ts\<rparr>)
               else s)"
  have inv1: "seq_inv s1" using assms seq_inv_init by (auto simp: s1_def)
  have init1: "initialized s1"
    by (auto simp: s1_def updateSNOffset_def split: option.splits sum.splits)
  have "seq_inv (s1\<lparr>sq_meta := m, extHighestSN := sn, extHighestTS := x\<rparr>)"
    if "extHighestSN s1 < sn" "length m = sq_size s1" for m x
    using seq_inv_raise [OF seq_inv_meta [OF inv1 that(2)]] that assms(2) init1
    by (simp add: seq_inv_highestTS)
  moreover have "seq_inv (s1\<lparr>sq_meta := m, extHighestSN := sn\<rparr>)"
    if "extHighestSN s1 < sn" "length m = sq_size s1" for m
    using seq_inv_raise [OF seq_inv_meta [OF inv1 that(2)]] that assms(2) init1 by simp
  moreover have "seq_inv (s1\<lparr>sq_meta := m, extHighestTS := x\<rparr>)" if "length m = sq_size s1" for m x
    using seq_inv_meta [OF inv1 that] by (simp add: seq_inv_highestTS)
  ultimately show ?thesis
    unfolding push_def s1_def [symmetric] Let_def
    using inv1 seq_inv_meta [OF inv1] seq_invD(3) [OF inv1]
    by (auto split: option.splits sum.splits)
qed

lemma seq_inv_pushPadding:
  assumes inv: "seq_inv s" and ab: "a \<le> b" "b < half_range"
  shows "\<exists>s'. pushPadding s a b = Some s' \<and> seq_inv s'"
proof (cases "sq_snRangeMap s")
  case None
  then show ?thesis using inv by (auto simp: pushPadding_def)
next
  case (Some rm)
  show ?thesis
  proof (cases "initialized s \<and> extHighestSN s < a")
    case False
    then show ?thesis
      using Some inv seq_inv_meta [OF inv] seq_invD(3) [OF inv] by (auto simp: pushPadding_def not_less)
  next
    case True
    have b: "unat (b + 1) = unat b + 1" using below_half_succ [OF ab(2)] by blast
    have rm: "rm_inv rm" "rv_start (open_range rm) \<le> extHighestSN s + 1" "sq_snOffset s = rv_value (open_range rm)"
      using inv True Some by (auto simp: seq_inv_def seq_map_inv_def)
    have h: "unat (extHighestSN s + 1) = unat (extHighestSN s) + 1"
      using below_half_succ seq_invD(6) [OF inv] True by blast
    have base: "rv_start (open_range rm) \<le> a"
      using rm(2) True h by (auto simp: word_le_nat_alt word_less_nat_alt)
    have len: "unat (b + 1 - a) = unat b + 1 - unat a"
      using ab(1) b by (subst unat_sub) (auto simp: word_le_nat_alt)
    have exc: "a < b + 1" "b + 1 - a \<le> half_range"
      using ab b len by (auto simp: word_le_nat_alt word_less_nat_alt)
    obtain rm' where rm': "ExcludeRange rm a (b + 1) = Some (Inr rm')" "rm_inv rm'"
      "rv_start (open_range rm') = b + 1" "rv_value (open_range rm') = rv_value (open_range rm) + (b + 1 - a)"
      using rmap.exclude_ok [OF rm(1) base exc] by blast
    let ?off = "sq_snOffset s + (b + 1 - a)"
    let ?s = "s\<lparr>sq_snRangeMap := Some rm', extHighestSN := b, sq_snOffset := ?off\<rparr>"
    have "unat (sq_snOffset s) < unat a"
      using seq_invD(7) [OF inv] True by (auto simp: word_le_nat_alt word_less_nat_alt)
    then have "unat (sq_snOffset s) + unat (b + 1 - a) \<le> unat b" using ab len by (simp add: word_le_nat_alt)
    then have off: "?off \<le> b" using unsigned_less [of b, where ?'a = nat] by (simp add: word_le_nat_alt unat_plus_if')
    have "pushPadding s a b = Some ?s"
      using True Some rm' rm(3) by (auto simp: pushPadding_def updateSNOffset_def rmap.get_open not_le)
    moreover have "extStartSN s \<le> b" using seq_invD(5) [OF inv] True ab by auto
    then have "seq_inv ?s"
      using inv True rm' off rm(3) ab unfolding seq_inv_def seq_map_inv_def by simp
    ultimately show ?thesis by blast
  qed
qed

section \<open>Retransmission bookkeeping\<close>

text \<open>One NACKed number either changes nothing or marks exactly the slot it returns.\<close>

lemma getExtPacketMeta_cases:
  obtains (none) "getExtPacketMeta refTime s sn = (s, [])"
  | (some) slot m e where "slot = epm_slot e"
      "getExtPacketMeta refTime s sn = (s\<lparr>sq_meta := (sq_meta s)[slot := m]\<rparr>, [e])"
      "targetSeqNo (sq_meta s ! slot) = sn" "nacked (sq_meta s ! slot) < maxAck"
      "refTime - lastNack (sq_meta s ! slot) > rtxThreshold s" "slot < length (sq_meta s)"
      "m = (sq_meta s ! slot)\<lparr>nacked := nacked (sq_meta s ! slot) + 1, lastNack := refTime\<rparr>" "epm_meta e = m"
proof -
  have "getExtPacketMeta refTime s sn = (s, []) \<or>
    (\<exists>e m. getExtPacketMeta refTime s sn = (s\<lparr>sq_meta := (sq_meta s)[epm_slot e := m]\<rparr>, [e]) \<and>
      targetSeqNo (sq_meta s ! epm_slot e) = sn \<and> nacked (sq_meta s ! epm_slot e) < maxAck \<and>
      refTime - lastNack (sq_meta s ! epm_slot e) > rtxThreshold s \<and> epm_slot e < length (sq_meta s) \<and>
      m = (sq_meta s ! epm_slot e)\<lparr>nacked := nacked (sq_meta s ! epm_slot e) + 1, lastNack := refTime\<rparr> \<and>
      epm_meta e = m)"
    by (auto simp: getExtPacketMeta_def Let_def isInvalidSlot_def split: sum.splits)
  then show ?thesis using that by blast
qed

definition markSlots :: "u32 \<Rightarrow> nat set \<Rightarrow> packetMeta list \<Rightarrow> packetMeta list \<Rightarrow> bool" where
  "markSlots refTime js before after \<longleftrightarrow>
     length after = length before \<and>
     (\<forall>j. after ! j = (if j \<in> js then (before ! j)\<lparr>nacked := nacked (before ! j) + 1, lastNack := refTime\<rparr>
                       else before ! j))"

lemma getExtPacketMetasLoop_marks:
  assumes "getExtPacketMetasLoop refTime s sns = (s', epms)"
  shows "\<exists>m. s' = s\<lparr>sq_meta := m\<rparr> \<and> markSlots refTime (epm_slot ` set epms) (sq_meta s) m \<and>
    distinct (map epm_slot epms) \<and>
    (\<forall>e \<in> set epms. epm_slot e < length (sq_meta s) \<and> nacked (sq_meta s ! epm_slot e) < maxAck \<and>
       refTime - lastNack (sq_meta s ! epm_slot e) > rtxThreshold s \<and> epm_meta e = m ! epm_slot e)"
  using assms
proof (induction sns arbitrary: s s' epms)
  case Nil
  then show ?case by (auto simp: markSlots_def intro!: exI [of _ "sq_meta s"])
next
  case (Cons sn sns)
  obtain s1 es where one: "getExtPacketMeta refTime s sn = (s1, es)" by fastforce
  obtain s2 es' where rest: "getExtPacketMetasLoop refTime s1 sns = (s2, es')" by fastforce
  have res: "s' = s2" "epms = es @ es'" using Cons.prems one rest by (auto simp: Let_def)
  obtain m where m: "s2 = s1\<lparr>sq_meta := m\<rparr>" "markSlots refTime (epm_slot ` set es') (sq_meta s1) m"
    "distinct (map epm_slot es')"
    "\<And>e. e \<in> set es' \<Longrightarrow> epm_slot e < length (sq_meta s1) \<and> nacked (sq_meta s1 ! epm_slot e) < maxAck \<and>
       refTime - lastNack (sq_meta s1 ! epm_slot e) > rtxThreshold s1 \<and> epm_meta e = m ! epm_slot e"
    using Cons.IH [OF rest] by auto
  show ?case
  proof (cases rule: getExtPacketMeta_cases [of refTime s sn])
    case none
    with one res m show ?thesis by auto
  next
    case (some slot m1 e)
    with one have s1: "s1 = s\<lparr>sq_meta := (sq_meta s)[slot := m1]\<rparr>" and es: "es = [e]" by auto
    have fresh: "slot \<notin> epm_slot ` set es'"
    proof
      assume "slot \<in> epm_slot ` set es'"
      then have "refTime - lastNack (sq_meta s1 ! slot) > rtxThreshold s1" using m(4) by auto
      then show False using some s1 by simp
    qed
    have other: "sq_meta s1 ! epm_slot e' = sq_meta s ! epm_slot e'" if "e' \<in> set es'" for e'
    proof -
      have "slot \<noteq> epm_slot e'" using fresh that by auto
      then show ?thesis by (simp add: s1)
    qed
    have thr: "rtxThreshold s1 = rtxThreshold s" using s1 by (simp add: rtxThreshold_def)
    have "markSlots refTime (epm_slot ` set epms) (sq_meta s) m"
      using m(2) fresh some s1 es res unfolding markSlots_def by (auto simp: nth_list_update)
    moreover have "m ! slot = m1" using m(2) fresh some(6) s1 by (simp add: markSlots_def)
    ultimately show ?thesis
      using m some s1 es res fresh other thr by (intro exI [of _ m]) auto
  qed
qed

text \<open>Reverting the marks of packets that were not sent.\<close>

lemma unmarkNacked_reverts:
  assumes "distinct (map epm_slot epms)"
    and "\<And>e. e \<in> set epms \<Longrightarrow> epm_slot e < length (sq_meta s) \<and> epm_meta e = sq_meta s ! epm_slot e \<and>
      nacked (sq_meta s ! epm_slot e) \<noteq> 0"
  shows "\<exists>m. unmarkNacked s epms = Some (s\<lparr>sq_meta := m\<rparr>) \<and> length m = length (sq_meta s) \<and>
    (\<forall>j. m ! j = (if j \<in> epm_slot ` set epms then (sq_meta s ! j)\<lparr>nacked := nacked (sq_meta s ! j) - 1\<rparr>
                  else sq_meta s ! j))"
  using assms
proof (induction epms arbitrary: s)
  case Nil
  then show ?case by (auto intro!: exI [of _ "sq_meta s"])
next
  case (Cons e epms)
  let ?j = "epm_slot e"
  let ?s = "s\<lparr>sq_meta := (sq_meta s)[?j := (sq_meta s ! ?j)\<lparr>nacked := nacked (sq_meta s ! ?j) - 1\<rparr>]\<rparr>"
  have j: "?j < length (sq_meta s)" "epm_meta e = sq_meta s ! ?j" "nacked (sq_meta s ! ?j) \<noteq> 0"
    and fresh: "?j \<notin> epm_slot ` set epms" using Cons.prems by auto
  have step: "unmarkNacked s (e # epms) = unmarkNacked ?s epms" using j by (simp add: Let_def)
  have "\<exists>m. unmarkNacked ?s epms = Some (?s\<lparr>sq_meta := m\<rparr>) \<and> length m = length (sq_meta ?s) \<and>
    (\<forall>j. m ! j = (if j \<in> epm_slot ` set epms then (sq_meta ?s ! j)\<lparr>nacked := nacked (sq_meta ?s ! j) - 1\<rparr>
                  else sq_meta ?s ! j))"
    using Cons.prems fresh by (intro Cons.IH) (auto simp: nth_list_update)
  then obtain m where m: "unmarkNacked ?s epms = Some (?s\<lparr>sq_meta := m\<rparr>)" "length m = length (sq_meta s)"
    "\<And>j. m ! j = (if j \<in> epm_slot ` set epms then (sq_meta ?s ! j)\<lparr>nacked := nacked (sq_meta ?s ! j) - 1\<rparr>
                  else sq_meta ?s ! j)"
    by auto
  then show ?case
    using step fresh j by (intro exI [of _ m]) (auto simp: nth_list_update)
qed

text \<open>A history of NACK reports, each at its time.\<close>

fun nackRun :: "sequencer \<Rightarrow> (int \<times> u16 list) list \<Rightarrow> sequencer \<times> extPacketMeta list" where
  "nackRun s [] = (s, [])"
| "nackRun s ((now, sns) # reports) =
     (let (s, epms) = getExtPacketMetas s now sns; (s, epms') = nackRun s reports in (s, epms @ epms'))"

definition handedOut :: "nat \<Rightarrow> extPacketMeta list \<Rightarrow> nat" where
  "handedOut j epms = length (filter (\<lambda>e. epm_slot e = j) epms)"

lemma handedOut_append: "handedOut j (xs @ ys) = handedOut j xs + handedOut j ys"
  by (simp add: handedOut_def)

lemma handedOut_distinct:
  "distinct (map epm_slot epms) \<Longrightarrow> handedOut j epms = (if j \<in> epm_slot ` set epms then 1 else 0)"
  by (induction epms) (auto simp: handedOut_def)

lemma getExtPacketMetas_count:
  assumes "getExtPacketMetas s now sns = (s', epms)" "nacked (sq_meta s ! j) \<le> maxAck"
  shows "unat (nacked (sq_meta s' ! j)) = unat (nacked (sq_meta s ! j)) + handedOut j epms"
    and "nacked (sq_meta s' ! j) \<le> maxAck"
proof -
  have "unat (nacked (sq_meta s' ! j)) = unat (nacked (sq_meta s ! j)) + handedOut j epms \<and>
    nacked (sq_meta s' ! j) \<le> maxAck"
  proof (cases "initialized s")
    case False
    then show ?thesis using assms by (simp add: getExtPacketMetas_def handedOut_def)
  next
    case True
    then have "getExtPacketMetasLoop (getRefTime s now) s sns = (s', epms)"
      using assms by (simp add: getExtPacketMetas_def)
    then obtain m where m: "s' = s\<lparr>sq_meta := m\<rparr>" "markSlots (getRefTime s now) (epm_slot ` set epms) (sq_meta s) m"
      "distinct (map epm_slot epms)"
      "\<And>e. e \<in> set epms \<Longrightarrow> nacked (sq_meta s ! epm_slot e) < maxAck"
      using getExtPacketMetasLoop_marks by blast
    show ?thesis
    proof (cases "j \<in> epm_slot ` set epms")
      case True
      then have "nacked (sq_meta s ! j) < maxAck" using m(4) by auto
      then have "unat (nacked (sq_meta s ! j) + 1) = unat (nacked (sq_meta s ! j)) + 1"
        "nacked (sq_meta s ! j) + 1 \<le> maxAck"
        using word_succ_no_wrap [of "nacked (sq_meta s ! j)" maxAck]
        by (auto simp: word_less_nat_alt word_le_nat_alt)
      with True m show ?thesis by (simp add: markSlots_def handedOut_distinct)
    next
      case False
      with m assms(2) show ?thesis by (simp add: markSlots_def handedOut_distinct)
    qed
  qed
  then show "unat (nacked (sq_meta s' ! j)) = unat (nacked (sq_meta s ! j)) + handedOut j epms"
    "nacked (sq_meta s' ! j) \<le> maxAck" by auto
qed

lemma nackRun_count:
  assumes "nackRun s reports = (s', epms)" "nacked (sq_meta s ! j) \<le> maxAck"
  shows "unat (nacked (sq_meta s ! j)) + handedOut j epms \<le> unat maxAck"
  using assms
proof (induction s reports arbitrary: s' epms rule: nackRun.induct)
  case (2 s now sns reports)
  obtain s1 es where one: "getExtPacketMetas s now sns = (s1, es)" by fastforce
  obtain s2 es' where rest: "nackRun s1 reports = (s2, es')" by fastforce
  have "epms = es @ es'" using 2 one rest by (auto simp: Let_def)
  moreover note getExtPacketMetas_count [OF one "2.prems"(2)]
  moreover have "unat (nacked (sq_meta s1 ! j)) + handedOut j es' \<le> unat maxAck"
    using "2.IH" [of "(s1, es)"] one rest calculation by auto
  ultimately show ?case by (simp add: handedOut_append)
qed (auto simp: handedOut_def word_le_nat_alt)

section \<open>Retention\<close>

text \<open>The arguments of one \<open>push\<close>, and a series of pushes.\<close>

record seqPush =
  sp_time :: int
  sp_incoming :: u64
  sp_sn :: u64
  sp_ts :: u64
  sp_marker :: bool
  sp_layer :: int
  sp_codec :: "u8 list"
  sp_codecIn :: int
  sp_dd :: "u8 list"
  sp_act :: "u8 list"
  sp_trailer :: int

definition pushOne :: "sequencer \<Rightarrow> seqPush \<Rightarrow> sequencer" where
  "pushOne s p = push s (sp_time p) (sp_incoming p) (sp_sn p) (sp_ts p) (sp_marker p) (sp_layer p)
     (sp_codec p) (sp_codecIn p) (sp_dd p) (sp_act p) (sp_trailer p)"

definition metaOf :: "sequencer \<Rightarrow> seqPush \<Rightarrow> packetMeta" where
  "metaOf s p = newMeta (sp_incoming p) (sp_sn p) (sp_ts p) (sp_marker p) (sp_layer p) (sp_codec p)
     (sp_codecIn p) (sp_dd p) (sp_act p) (sp_trailer p) (getRefTime s (sp_time p))"

lemma pushOne_new_frame:
  assumes "seq_inv s" "initialized s" "extHighestSN s < sp_sn p" "sp_sn p < half_range"
  shows "seq_inv (pushOne s p)" "initialized (pushOne s p)" "extHighestSN (pushOne s p) = sp_sn p"
    "sq_snOffset (pushOne s p) = sq_snOffset s" "sq_size (pushOne s p) = sq_size s"
    "metaOf (pushOne s p) = metaOf s" "seqOffset (pushOne s p) = seqOffset s"
  using assms seq_inv_push [OF assms(1,4)]
  by (auto simp: pushOne_def push_new metaOf_def getRefTime_def seqOffset_def fun_eq_iff)

definition newer :: "sequencer \<Rightarrow> seqPush list \<Rightarrow> bool" where
  "newer s ps \<longleftrightarrow> sorted_wrt (\<lambda>p q. sp_sn p < sp_sn q) ps \<and>
     (\<forall>p \<in> set ps. extHighestSN s < sp_sn p \<and> sp_sn p < half_range)"

lemma newer_snoc:
  assumes "newer s (ps @ [p])"
  shows "newer s ps" and "extHighestSN s < sp_sn p" and "sp_sn p < half_range"
    and "q \<in> set ps \<Longrightarrow> sp_sn q < sp_sn p"
  using assms by (auto simp: newer_def sorted_wrt_append)

lemma pushAll_frame:
  assumes "seq_inv s" "initialized s" "newer s ps"
  shows "let s' = foldl pushOne s ps in seq_inv s' \<and> initialized s' \<and> sq_snOffset s' = sq_snOffset s \<and>
    sq_size s' = sq_size s \<and> metaOf s' = metaOf s \<and> seqOffset s' = seqOffset s \<and>
    extHighestSN s' = (if ps = [] then extHighestSN s else sp_sn (last ps))"
  using assms(3)
proof (induction ps rule: rev_induct)
  case (snoc p ps)
  note n = newer_snoc [OF snoc.prems]
  have "extHighestSN (foldl pushOne s ps) < sp_sn p"
    using snoc.IH [OF n(1)] n(2,4) by (auto simp: Let_def)
  then show ?case
    using snoc.IH [OF n(1)] n(3) pushOne_new_frame [of "foldl pushOne s ps" p] by (auto simp: Let_def)
qed (use assms in auto)

lemma pushAll_lookup:
  assumes inv: "seq_inv s" "initialized s" and "newer s ps" "p \<in> set ps" "metaVisible (metaOf s p)"
    and "unat (sp_sn (last ps)) < unat (sp_sn p) + sq_size s"
  shows "\<exists>e. lookupExtPacketMeta (foldl pushOne s ps) (sp_sn p) = Some e \<and> epm_meta e = metaOf s p"
  using assms(3-)
proof (induction ps rule: rev_induct)
  case (snoc q ps)
  note n = newer_snoc [OF snoc.prems(1)]
  let ?s = "foldl pushOne s ps"
  have fr: "seq_inv ?s" "initialized ?s" "sq_snOffset ?s = sq_snOffset s" "sq_size ?s = sq_size s"
    "metaOf ?s = metaOf s" "seqOffset ?s = seqOffset s" and hi: "extHighestSN ?s < sp_sn q"
    and last: "ps \<noteq> [] \<Longrightarrow> extHighestSN ?s = sp_sn (last ps)"
    using pushAll_frame [OF inv n(1)] n(2,4) by (auto simp: Let_def)
  show ?case
  proof (cases "p \<in> set ps")
    case False
    with snoc.prems have "p = q" by simp
    then show ?thesis
      using push_new_lookup [OF fr(1,2) hi n(3) metaOf_def] snoc.prems(3) fr(5)
      by (simp add: pushOne_def [of "foldl pushOne s ps"])
  next
    case True
    then have pq: "sp_sn p < sp_sn q" and ne: "ps \<noteq> []" using n(4) by auto
    have "last ps \<in> set ps" using ne by simp
    then have lq: "sp_sn (last ps) < sp_sn q" using n(4) by blast
    then have "unat (sp_sn (last ps)) < unat (sp_sn p) + sq_size s"
      using snoc.prems(4) by (simp add: word_less_nat_alt)
    then obtain e where e: "lookupExtPacketMeta ?s (sp_sn p) = Some e" "epm_meta e = metaOf s p"
      using snoc.IH [OF n(1) True snoc.prems(3)] by auto
    have hp: "extHighestSN s < sp_sn p" using n(1) True by (simp add: newer_def)
    have off: "seqOffset ?s (sp_sn p) = Inr (sq_snOffset s)" using seqOffset_new [OF inv hp] fr(6) by simp
    have "sp_sn p \<le> sp_sn (last ps)"
      using n(1) True ne by (cases ps rule: rev_cases) (auto simp: newer_def sorted_wrt_append less_imp_le)
    then have le: "unat (sq_snOffset s) \<le> unat (sp_sn p)" "unat (sp_sn p) \<le> unat (sp_sn (last ps))"
      using seq_invD(7) [OF inv] hp by (auto simp: word_le_nat_alt word_less_nat_alt)
    have sub: "unat (x - sq_snOffset s) = unat x - unat (sq_snOffset s)" if "sp_sn p \<le> x" for x
      using that le by (intro unat_sub) (simp add: word_le_nat_alt)
    have "sp_sn p - sq_snOffset s \<le> highestAdjusted ?s"
      using le last [OF ne] fr(3) sub by (simp add: word_le_nat_alt)
    moreover have "unat (sp_sn q - sq_snOffset ?s) < unat (sp_sn p - sq_snOffset s) + sq_size ?s"
      unfolding fr sub [OF less_imp_le [OF pq]] sub [OF order_refl]
      using snoc.prems(4) le pq by (simp add: word_less_nat_alt)
    ultimately show ?thesis
      using push_new_keeps [OF fr(1,2) hi n(3) e(1) off] e(2)
      by (simp add: pushOne_def [of "foldl pushOne s ps"])
  qed
qed simp

section \<open>Reachable sequencers\<close>

inductive seq_reachable :: "sequencer \<Rightarrow> bool" where
  new: "newSequencer sz sparse now = Some s \<Longrightarrow> sz < 2 ^ 63 \<Longrightarrow> seq_reachable s"
| rtt: "seq_reachable s \<Longrightarrow> seq_reachable (setRTT s rt)"
| flushed: "seq_reachable s \<Longrightarrow> seq_reachable (flush s)"
| pushed: "seq_reachable s \<Longrightarrow> sp_sn p < half_range \<Longrightarrow> seq_reachable (pushOne s p)"
| padded: "seq_reachable s \<Longrightarrow> a \<le> b \<Longrightarrow> b < half_range \<Longrightarrow> pushPadding s a b = Some s' \<Longrightarrow> seq_reachable s'"
| reported: "seq_reachable s \<Longrightarrow> getExtPacketMetas s now sns = (s', epms) \<Longrightarrow> seq_reachable s'"
| unmarked: "seq_reachable s \<Longrightarrow> unmarkNacked s epms = Some s' \<Longrightarrow> seq_reachable s'"

lemma seq_inv_unmark: "unmarkNacked s epms = Some s' \<Longrightarrow> seq_inv s \<Longrightarrow> seq_inv s'"
proof (induction epms arbitrary: s)
  case (Cons e epms)
  then show ?case
    by (auto simp: Let_def seq_invD(3) intro!: Cons.IH seq_inv_meta split: if_splits)
qed simp

lemma seq_inv_getExtPacketMetas:
  assumes "getExtPacketMetas s now sns = (s', epms)" "seq_inv s"
  shows "seq_inv s'"
proof (cases "initialized s")
  case True
  then have "getExtPacketMetasLoop (getRefTime s now) s sns = (s', epms)"
    using assms(1) by (simp add: getExtPacketMetas_def)
  then obtain m where "s' = s\<lparr>sq_meta := m\<rparr>" "length m = length (sq_meta s)"
    using getExtPacketMetasLoop_marks unfolding markSlots_def by blast
  then show ?thesis using assms(2) by (simp add: seq_inv_meta seq_invD(3))
qed (use assms in \<open>auto simp: getExtPacketMetas_def\<close>)

lemma seq_reachable_inv: "seq_reachable s \<Longrightarrow> seq_inv s"
proof (induction rule: seq_reachable.induct)
  case (padded s a b s')
  then show ?case using seq_inv_pushPadding [of s a b] by auto
qed (auto intro: seq_inv_new seq_inv_setRTT seq_inv_flush seq_inv_push seq_inv_getExtPacketMetas seq_inv_unmark
  simp: pushOne_def)

section \<open>Properties\<close>

lemma extendSN_first_cycle:
  assumes "unat h < 2 ^ 16" "unat sn \<le> unat h"
  shows "extendSN h (ucast sn) = sn"
proof -
  have "unat (h AND NOT (mask 16)) = 0" using and_high_mask [of h 16] assms(1) by simp
  then have base: "h AND NOT (mask LENGTH(16)) = 0" by (simp add: unsigned_eq_0_iff)
  have u: "unat (ucast sn :: u16) = unat sn" "unat (ucast h :: u16) = unat h"
    using assms by (simp_all add: unsigned_ucast_eq take_bit_eq_mod)
  then have "(ucast (ucast sn :: u16) :: u64) = sn"
    by (simp add: word_unat_eq_iff unsigned_ucast_eq take_bit_eq_mod unat_mod)
  then show ?thesis
    using assms(2) by (simp only: extendSN_extend_word extend_word_def Let_def base) (simp add: word_less_nat_alt u)
qed

lemma extendSN_sent:
  assumes "unat sn \<le> unat h" "unat h < unat sn + 2 ^ 16"
  shows "extendSN h (ucast sn) = sn"
proof (cases "unat h < 2 ^ 16")
  case True
  then show ?thesis using assms(1) by (rule extendSN_first_cycle)
next
  case False
  let ?e = "extend_word h (ucast sn :: u16)"
  have e: "ucast ?e = (ucast sn :: u16)" "unat ?e \<le> unat h" "unat h < unat ?e + 2 ^ 16"
    using extend_word_spec [of h "ucast sn :: u16"] False by simp_all
  have "unat ?e mod 2 ^ 16 = unat sn mod 2 ^ 16"
    using arg_cong [OF e(1), of unat] by (simp add: unsigned_ucast_eq take_bit_eq_mod)
  then have "unat ?e = unat sn" using slots_differ [of "unat ?e" "unat sn" "2 ^ 16"]
      slots_differ [of "unat sn" "unat ?e" "2 ^ 16"] e assms by linarith
  then show ?thesis by (simp add: extendSN_extend_word word_unat_eq_iff)
qed

lemma sn_distance:
  assumes "unat sn \<le> unat h" "unat h \<le> unat sn + 2 ^ 15"
  shows "\<not> (ucast (h :: u64) - ucast sn :: u16) > 2 ^ 15"
proof -
  have "(ucast h - ucast sn :: u16) = of_nat (unat h) - of_nat (unat sn)" by simp
  also have "\<dots> = of_nat (unat h - unat sn)" using assms(1) by (rule of_nat_diff [symmetric])
  finally have "unat (ucast h - ucast sn :: u16) = (unat h - unat sn) mod 2 ^ 16"
    by (simp only: unat_of_nat) simp
  then show ?thesis using assms(2) by (simp add: word_less_nat_alt)
qed

definition sampleSequencer :: sequencer where
  "sampleSequencer = push (the (newSequencer 4 True 0)) 0 900 70000 9000 True 0 [] 0 [] [] 0"

definition samplePush :: "u64 \<Rightarrow> seqPush" where
  "samplePush sn = \<lparr>sp_time = 0, sp_incoming = sn + 5, sp_sn = sn, sp_ts = 9000, sp_marker = True, sp_layer = 0,
     sp_codec = [], sp_codecIn = 0, sp_dd = [], sp_act = [], sp_trailer = 0\<rparr>"

lemma sampleSequencer_ok:
  "seq_reachable sampleSequencer" "seq_inv sampleSequencer" "initialized sampleSequencer"
  "extHighestSN sampleSequencer = 70000" "sq_size sampleSequencer = 4"
proof -
  have "seq_reachable (pushOne (the (newSequencer 4 True 0)) ((samplePush 70000)\<lparr>sp_incoming := 900\<rparr>))"
    by (intro seq_reachable.pushed seq_reachable.new [of 4 True 0])
      (simp_all add: newSequencer_def samplePush_def half_range_def)
  then show "seq_reachable sampleSequencer"
    by (simp add: pushOne_def samplePush_def sampleSequencer_def)
  then show "seq_inv sampleSequencer" by (rule seq_reachable_inv)
  show "initialized sampleSequencer" "extHighestSN sampleSequencer = 70000" "sq_size sampleSequencer = 4"
    by (simp_all add: sampleSequencer_def newSequencer_def push_def updateSNOffset_def NewRangeMap_def
        initRanges_def GetValue_def Let_def minRanges_def)
qed

text \<open>C15. Whatever packets, padding, flushes and NACK reports a down track feeds it, a sequencer keeps
  its invariant: the ring has its size, the cached offset is the one of the next number and never
  exceeds the highest number; and recording padding never panics.\<close>

theorem sequencer_safe:
  assumes "seq_reachable s"
  shows "seq_inv s \<and> (\<forall>a b. a \<le> b \<and> b < half_range \<longrightarrow> (\<exists>s'. pushPadding s a b = Some s'))"
  using seq_reachable_inv [OF assms] seq_inv_pushPadding by blast

theorem sequencer_safe_witness: "\<exists>s'. pushPadding sampleSequencer 70001 70010 = Some s'"
  using sequencer_safe [OF sampleSequencer_ok(1)] by (auto simp: half_range_def)

text \<open>C3. Retention: of packets pushed in order with increasing outgoing numbers, every one among the
  last \<open>size\<close> numbers is found again under its own number, with the metadata it was pushed with;
  the packets pushed in between do not disturb it.\<close>

theorem sequencer_retains:
  assumes "seq_inv s" "initialized s" "newer s ps" "p \<in> set ps" "metaVisible (metaOf s p)"
    and "unat (sp_sn (last ps)) < unat (sp_sn p) + sq_size s"
  shows "\<exists>e. lookupExtPacketMeta (foldl pushOne s ps) (sp_sn p) = Some e \<and> epm_meta e = metaOf s p"
  using assms by (rule pushAll_lookup)

theorem sequencer_retains_witness:
  "\<exists>e. lookupExtPacketMeta (foldl pushOne sampleSequencer (map samplePush [70001, 70003, 70004])) 70001 = Some e \<and>
     sourceSeqNo (epm_meta e) = 70006"
proof -
  let ?ps = "map samplePush [70001, 70003, 70004]"
  have "newer sampleSequencer ?ps" "samplePush 70001 \<in> set ?ps"
    "unat (sp_sn (last ?ps)) < unat (sp_sn (samplePush 70001)) + sq_size sampleSequencer"
    by (simp_all add: newer_def samplePush_def half_range_def sampleSequencer_ok)
  moreover have "sourceSeqNo (metaOf sampleSequencer (samplePush 70001)) = 70006"
    by (simp add: metaOf_def samplePush_def newMeta_fields)
  moreover from this have "metaVisible (metaOf sampleSequencer (samplePush 70001))" by (simp add: metaVisible_def)
  ultimately show ?thesis
    using sequencer_retains [OF sampleSequencer_ok(2,3), of ?ps "samplePush 70001"] by (auto simp: samplePush_def)
qed

text \<open>C4. A receiver that reports the 16 bit number of a packet still in the ring gets that packet,
  provided the packet is at most \<open>2 ^ 15\<close> numbers behind the highest one sent, has been handed out fewer than
  \<open>maxAck\<close> times, and the time since it was last handed out (or sent) exceeds the threshold: the extended number is
  rebuilt, the slot is found and marked as retransmitted now, and nothing else of the sequencer changes.
  This holds in the first cycle of the 16 bit numbers and in every later one.\<close>

theorem nack_returns_packet:
  assumes "initialized s" "lookupExtPacketMeta s sn = Some e" "targetSeqNo (epm_meta e) = ucast sn"
    and "unat sn \<le> unat (extHighestSN s)" "unat (extHighestSN s) \<le> unat sn + 2 ^ 15"
    and "nacked (epm_meta e) < maxAck" "getRefTime s now - lastNack (epm_meta e) > rtxThreshold s"
  shows "\<exists>slot e'. getExtPacketMetas s now [ucast sn] =
      (s\<lparr>sq_meta := (sq_meta s)[slot := epm_meta e']\<rparr>, [e']) \<and> sq_meta s ! slot = epm_meta e \<and>
    epm_slot e' = slot \<and> epm_extSequenceNumber e' = sn \<and> epm_extTimestamp e' = epm_extTimestamp e \<and>
    epm_meta e' = (epm_meta e)\<lparr>nacked := nacked (epm_meta e) + 1, lastNack := getRefTime s now\<rparr>"
proof -
  let ?sn = "ucast sn :: u16"
  have ext: "extendSN (extHighestSN s) ?sn = sn" by (rule extendSN_sent) (use assms in auto)
  have near: "\<not> ucast (extHighestSN s) - ?sn > 2 ^ 15" by (rule sn_distance) (use assms in auto)
  from assms(2) obtain off where off: "seqOffset s sn = Inr off"
    "\<not> highestAdjusted s - (sn - off) \<ge> of_nat (sq_size s)"
    "\<not> isInvalidSlot (sq_meta s) (unat (sn - off) mod sq_size s)"
    "epm_meta e = sq_meta s ! (unat (sn - off) mod sq_size s)"
    "epm_extTimestamp e = extendTS (extHighestTS s) (pm_timestamp (epm_meta e))"
    by (auto simp: lookupExtPacketMeta_alt split: if_splits sum.splits)
  show ?thesis
    unfolding getExtPacketMetas_def
    using assms near off by (simp add: getExtPacketMeta_def ext Let_def seqOffset_def [symmetric])
qed

theorem nack_returns_packet_witness:
  "\<exists>slot e'. getExtPacketMetas sampleSequencer 200000000 [4464] =
      (sampleSequencer\<lparr>sq_meta := (sq_meta sampleSequencer)[slot := epm_meta e']\<rparr>, [e']) \<and>
    epm_extSequenceNumber e' = 70000 \<and> sourceSeqNo (epm_meta e') = 900"
proof -
  have s: "sampleSequencer = sampleSequencer\<lparr>startTime := 0, rtt := defaultRtt\<rparr>"
    by (simp add: sampleSequencer_def newSequencer_def push_def updateSNOffset_def NewRangeMap_def
        initRanges_def GetValue_def Let_def minRanges_def)
  obtain e where e: "lookupExtPacketMeta sampleSequencer 70000 = Some e" "targetSeqNo (epm_meta e) = 4464"
    "nacked (epm_meta e) = 0" "lastNack (epm_meta e) = 0" "sourceSeqNo (epm_meta e) = 900"
    by (simp add: sampleSequencer_def newSequencer_def push_def updateSNOffset_def NewRangeMap_def
        initRanges_def GetValue_def Let_def minRanges_def lookupExtPacketMeta_def newMeta_fields
        isInvalidSlot_def getRefTime_def)
  have t: "getRefTime sampleSequencer 200000000 = 200" "rtxThreshold sampleSequencer = 100"
    by (subst s, simp add: getRefTime_def rtxThreshold_def ignoreRetransmission_def defaultRtt_def)+
  have n: "(4464 :: u16) = 70000" by simp
  from nack_returns_packet [OF sampleSequencer_ok(3) e(1), of 200000000] e t show ?thesis
    unfolding n by (auto simp: sampleSequencer_ok maxAck_def)
qed

text \<open>C16. A packet is retransmitted at most \<open>maxAck\<close> times: over any series of NACK reports, however
  often a number is repeated in them, the slot of a packet never NACKed before is handed out at most
  \<open>maxAck\<close> times.\<close>

theorem retransmissions_bounded:
  assumes "nackRun s reports = (s', epms)" "nacked (sq_meta s ! slot) = 0"
  shows "handedOut slot epms \<le> unat maxAck"
  using nackRun_count [OF assms(1), of slot] assms(2) by simp

theorem retransmissions_bounded_witness:
  "handedOut 0 (snd (nackRun sampleSequencer [(200000000, [4464, 4464]), (400000000, [4464])])) \<le> 3"
proof -
  have "nacked (sq_meta sampleSequencer ! 0) = 0"
    by (simp add: sampleSequencer_def newSequencer_def push_def updateSNOffset_def NewRangeMap_def
        initRanges_def GetValue_def Let_def minRanges_def newMeta_fields)
  from retransmissions_bounded [OF prod.collapse [symmetric] this] show ?thesis
    by (simp add: maxAck_def del: nackRun.simps)
qed

text \<open>Within one report every slot is handed out at most once, and taking the marks back with
  \<open>unmarkNacked\<close> (when the packets could not be sent) restores every retransmission count.\<close>

theorem unmarkNacked_restores:
  assumes "getExtPacketMetas s now sns = (s', epms)"
  shows "distinct (map epm_slot epms) \<and>
    (\<exists>s''. unmarkNacked s' epms = Some s'' \<and> (\<forall>j. nacked (sq_meta s'' ! j) = nacked (sq_meta s ! j)))"
proof (cases "initialized s")
  case False
  then show ?thesis using assms by (auto simp: getExtPacketMetas_def)
next
  case True
  then have "getExtPacketMetasLoop (getRefTime s now) s sns = (s', epms)"
    using assms by (simp add: getExtPacketMetas_def)
  then obtain m where m: "s' = s\<lparr>sq_meta := m\<rparr>" "markSlots (getRefTime s now) (epm_slot ` set epms) (sq_meta s) m"
    "distinct (map epm_slot epms)"
    "\<And>e. e \<in> set epms \<Longrightarrow> epm_slot e < length (sq_meta s) \<and> nacked (sq_meta s ! epm_slot e) < maxAck \<and>
       epm_meta e = m ! epm_slot e"
    using getExtPacketMetasLoop_marks by blast
  have succ: "nacked (sq_meta s ! epm_slot e) + 1 \<noteq> 0" if "e \<in> set epms" for e
    using word_succ_no_wrap [of "nacked (sq_meta s ! epm_slot e)" maxAck] m(4) [OF that] by auto
  obtain m' where m': "unmarkNacked s' epms = Some (s'\<lparr>sq_meta := m'\<rparr>)"
    "\<And>j. m' ! j = (if j \<in> epm_slot ` set epms then (m ! j)\<lparr>nacked := nacked (m ! j) - 1\<rparr> else m ! j)"
    using unmarkNacked_reverts [OF m(3), of s'] m succ unfolding markSlots_def by auto
  then show ?thesis using m unfolding markSlots_def by auto
qed

theorem unmarkNacked_restores_witness:
  "\<exists>s' epms s''. getExtPacketMetas sampleSequencer 200000000 [4464] = (s', epms) \<and>
     unmarkNacked s' epms = Some s''"
  using unmarkNacked_restores [OF prod.collapse [symmetric], of sampleSequencer 200000000 "[4464]"]
  by (metis prod.collapse)

end
