(* ===== verification/DDWriter.thy ===== *)
theory DDWriter
  imports DDReader
begin

text \<open>
  The serialiser of the AV1 dependency descriptor: \<open>dependencydescriptorwriter.go\<close> and the marshal
  functions of \<open>dependencydescriptorextension.go\<close> of \<open>pkg/sfu/rtpextension/dependencydescriptor\<close>.

  A writer is made for a descriptor and a structure, looks for the template that needs the fewest
  extra bits, and writes into a buffer of exactly the bytes it computes beforehand. A nil structure
  or nil frame dependencies panic. On an error only the error is returned; what was written into the
  buffer by then is dropped with it.

  Lemmas: the encoding of a template dependency structure as a list of bits, with the length the code
  reserves for it, which the writer writes and the parser reads back. Whole descriptors are the
  subject of \<open>DDRoundtrip\<close>.
\<close>

section \<open>Model\<close>

record TemplateMatch =
  TemplateIdx :: nat
  NeedCustomDtis :: bool
  NeedCustomFdiffs :: bool
  NeedCustomChains :: bool
  ExtraSizeBits :: int

record DependencyDescriptorWriter =
  wr_descriptor :: DependencyDescriptor
  wr_frame :: FrameDependencyTemplate
  wr_structure :: FrameDependencyStructure
  activeChains :: u32
  bestTemplate :: TemplateMatch

definition zeroMatch :: TemplateMatch where
  "zeroMatch = \<lparr>TemplateIdx = 0, NeedCustomDtis = False, NeedCustomFdiffs = False,
     NeedCustomChains = False, ExtraSizeBits = 0\<rparr>"

text \<open>The writer keeps the frame dependencies \<open>w.descriptor.FrameDependencies\<close> points to in \<open>wr_frame\<close>;
  every entry point dereferences it and the structure at once.\<close>

definition newDependencyDescriptorWriter ::
  "FrameDependencyStructure option \<Rightarrow> u32 \<Rightarrow> DependencyDescriptor \<Rightarrow> dd_error + DependencyDescriptorWriter" where
  "newDependencyDescriptorWriter structure active descriptor =
     (case (structure, FrameDependencies descriptor) of
        (Some st, Some f) \<Rightarrow>
          Inr \<lparr>wr_descriptor = descriptor, wr_frame = f, wr_structure = st, activeChains = active,
               bestTemplate = zeroMatch\<rparr>
      | _ \<Rightarrow> Inl GoPanic)"

definition fdiffSizeBits :: "int \<Rightarrow> int" where
  "fdiffSizeBits fdiff = (if fdiff \<le> 2 ^ 4 then 4 else if fdiff \<le> 2 ^ 8 then 8 else 12)"

definition chainDiffers :: "DependencyDescriptorWriter \<Rightarrow> FrameDependencyTemplate \<Rightarrow> nat \<Rightarrow> bool" where
  "chainDiffers w template i \<longleftrightarrow> bit (activeChains w) i \<and>
     (length (ChainDiffs (wr_frame w)) \<le> i \<or> length (ChainDiffs template) \<le> i \<or>
      ChainDiffs (wr_frame w) ! i \<noteq> ChainDiffs template ! i)"

definition calculateMatch :: "DependencyDescriptorWriter \<Rightarrow> nat \<Rightarrow> FrameDependencyTemplate \<Rightarrow> TemplateMatch" where
  "calculateMatch w idx template =
     (let f = wr_frame w;
          fdiffs = (FrameDiffs f \<noteq> None \<and> sl (FrameDiffs f) \<noteq> sl (FrameDiffs template));
          dtis = (DecodeTargetIndications f \<noteq> None \<and>
                  sl (DecodeTargetIndications f) \<noteq> sl (DecodeTargetIndications template));
          chns = list_ex (chainDiffers w template) [0..<nat (NumChains (wr_structure w))];
          extra = (if fdiffs then 2 * (1 + int (length (sl (FrameDiffs f)))) +
                      sum_list (map fdiffSizeBits (sl (FrameDiffs f))) else 0);
          extra = (if dtis then extra + 2 * int (length (sl (DecodeTargetIndications f))) else extra);
          extra = (if chns then extra + 8 * NumChains (wr_structure w) else extra)
      in \<lparr>TemplateIdx = idx, NeedCustomDtis = dtis, NeedCustomFdiffs = fdiffs, NeedCustomChains = chns,
          ExtraSizeBits = extra\<rparr>)"

definition sameLayer :: "FrameDependencyTemplate \<Rightarrow> FrameDependencyTemplate \<Rightarrow> bool" where
  "sameLayer f t \<longleftrightarrow> SpatialId f = SpatialId t \<and> TemporalId f = TemporalId t"

text \<open>The first loop stops at the first template of the frame's layer.\<close>

fun firstSameLayerIdx :: "FrameDependencyTemplate \<Rightarrow> FrameDependencyTemplate list \<Rightarrow> nat \<Rightarrow> nat option" where
  "firstSameLayerIdx f [] i = None"
| "firstSameLayerIdx f (t # ts) i = (if sameLayer f t then Some i else firstSameLayerIdx f ts (i + 1))"

text \<open>The second loop runs to the end: it keeps the index of the last template of another layer.\<close>

fun lastSameLayerIdx :: "FrameDependencyTemplate \<Rightarrow> FrameDependencyTemplate list \<Rightarrow> nat \<Rightarrow> nat \<Rightarrow> nat" where
  "lastSameLayerIdx f [] i lst = lst"
| "lastSameLayerIdx f (t # ts) i lst = lastSameLayerIdx f ts (i + 1) (if \<not> sameLayer f t then i else lst)"

definition betterMatch :: "DependencyDescriptorWriter \<Rightarrow> TemplateMatch \<Rightarrow> nat \<Rightarrow> TemplateMatch" where
  "betterMatch w best i =
     (let m = calculateMatch w i (Templates (wr_structure w) ! i)
      in if ExtraSizeBits m < ExtraSizeBits best then m else best)"

definition findBestTemplate :: "DependencyDescriptorWriter \<Rightarrow> dd_error + DependencyDescriptorWriter" where
  "findBestTemplate w =
     (let ts = Templates (wr_structure w); f = wr_frame w in
      case firstSameLayerIdx f ts 0 of
        None \<Rightarrow> Inl ErrNoTemplateFound
      | Some first \<Rightarrow>
          let lst = lastSameLayerIdx f (drop first ts) first 0;
              best = foldl (betterMatch w) (calculateMatch w first (ts ! first)) [first + 1..<lst + 1]
          in Inr (w\<lparr>bestTemplate := best\<rparr>))"

definition writeMandatoryFields :: "DependencyDescriptorWriter \<Rightarrow> writing" where
  "writeMandatoryFields w =
     (let templateId = (int (TemplateIdx (bestTemplate w)) + StructureId (wr_structure w)) smod int MaxTemplates in
      thenW (writeBool (FirstPacketInFrame (wr_descriptor w)))
      (thenW (writeBool (LastPacketInFrame (wr_descriptor w)))
      (thenW (WriteBits (word_of_int templateId) 6)
             (WriteBits (ucast (FrameNumber (wr_descriptor w))) 16))))"

definition hasExtendedFields :: "DependencyDescriptorWriter \<Rightarrow> bool" where
  "hasExtendedFields w \<longleftrightarrow> ExtraSizeBits (bestTemplate w) > 0 \<or> AttachedStructure (wr_descriptor w) \<noteq> None \<or>
     ActiveDecodeTargetsBitmask (wr_descriptor w) \<noteq> None"

definition shouldWriteActiveDecodeTargetsBitmask :: "DependencyDescriptorWriter \<Rightarrow> bool" where
  "shouldWriteActiveDecodeTargetsBitmask w \<longleftrightarrow>
     (case ActiveDecodeTargetsBitmask (wr_descriptor w) of
        None \<Rightarrow> False
      | Some bitmask \<Rightarrow>
          let allDecodeTargetsBitmask = push_bit (nat (NumDecodeTargets (wr_structure w))) (1 :: u64) - 1 in
          \<not> (AttachedStructure (wr_descriptor w) \<noteq> None \<and> ucast bitmask = allDecodeTargetsBitmask))"

section \<open>Writing a template dependency structure\<close>

text \<open>\<open>invalidLayer\<close> is 4, the other codes are those on the wire.\<close>

definition getNextLayerIdc :: "FrameDependencyTemplate \<Rightarrow> FrameDependencyTemplate \<Rightarrow> nat" where
  "getNextLayerIdc prev nxt =
     (if SpatialId nxt = SpatialId prev \<and> TemporalId nxt = TemporalId prev then 0
      else if SpatialId nxt = SpatialId prev \<and> TemporalId nxt = TemporalId prev + 1 then 1
      else if SpatialId nxt = SpatialId prev + 1 \<and> TemporalId nxt = 0 then 2
      else 4)"

fun writeLayersLoop :: "FrameDependencyTemplate \<Rightarrow> FrameDependencyTemplate list \<Rightarrow> writing" where
  "writeLayersLoop prev [] = WriteBits 3 2"
| "writeLayersLoop prev (t # ts) =
     (let nextLayerIdc = getNextLayerIdc prev t in
      if nextLayerIdc \<ge> 3 then failW ErrInvalidNextLayerIdc
      else thenW (WriteBits (of_nat nextLayerIdc) 2) (writeLayersLoop t ts))"

text \<open>The error message for an empty list of templates itself reads the first one.\<close>

definition writeTemplateLayers :: "FrameDependencyStructure \<Rightarrow> writing" where
  "writeTemplateLayers st =
     (case Templates st of
        [] \<Rightarrow> failW GoPanic
      | t # ts \<Rightarrow>
          if length (Templates st) > MaxTemplates \<or> SpatialId t \<noteq> 0 \<or> TemporalId t \<noteq> 0
          then failW ErrInvalidTemplates
          else writeLayersLoop t ts)"

definition writeTemplateDtis :: "FrameDependencyStructure \<Rightarrow> writing" where
  "writeTemplateDtis st =
     seqW (map (\<lambda>t. seqW (map (\<lambda>dti. WriteBits (word_of_int dti) 2) (sl (DecodeTargetIndications t))))
       (Templates st))"

definition writeFdiffs :: "FrameDependencyTemplate \<Rightarrow> writing" where
  "writeFdiffs t =
     thenW (seqW (map (\<lambda>fdiff. WriteBits (push_bit 4 1 OR word_of_int (fdiff - 1)) 5) (sl (FrameDiffs t))))
       (WriteBits 0 1)"

definition writeTemplateFdiffs :: "FrameDependencyStructure \<Rightarrow> writing" where
  "writeTemplateFdiffs st = seqW (map writeFdiffs (Templates st))"

definition writeTemplateChains :: "FrameDependencyStructure \<Rightarrow> writing" where
  "writeTemplateChains st =
     thenW (WriteNonSymmetric (word_of_int (NumChains st)) (word_of_int (NumDecodeTargets st + 1)))
     (if NumChains st = 0 then skipW
      else
        thenW (seqW (map (\<lambda>p. WriteNonSymmetric (word_of_int p) (word_of_int (NumChains st)))
                 (DecodeTargetProtectedByChain st)))
        (seqW (map (\<lambda>t. seqW (map (\<lambda>c. WriteBits (word_of_int c) 4) (ChainDiffs t))) (Templates st))))"

definition writeResolution :: "RenderResolution \<Rightarrow> writing" where
  "writeResolution res =
     thenW (WriteBits (word_of_int (Width res) - 1) 16) (WriteBits (word_of_int (Height res) - 1) 16)"

definition writeResolutions :: "FrameDependencyStructure \<Rightarrow> writing" where
  "writeResolutions st = seqW (map writeResolution (Resolutions st))"

definition writeTemplateDependencyStructure :: "FrameDependencyStructure \<Rightarrow> writing" where
  "writeTemplateDependencyStructure st =
     (if StructureId st < 0 \<or> StructureId st \<ge> int MaxTemplates \<or>
         NumDecodeTargets st \<le> 0 \<or> NumDecodeTargets st > MaxDecodeTargets
      then failW ErrInvalidArgument
      else
        thenW (WriteBits (word_of_int (StructureId st)) 6)
        (thenW (WriteBits (word_of_int (NumDecodeTargets st - 1)) 5)
        (thenW (writeTemplateLayers st)
        (thenW (writeTemplateDtis st)
        (thenW (writeTemplateFdiffs st)
        (thenW (writeTemplateChains st)
        (thenW (writeBool (length (Resolutions st) > 0))
               (writeResolutions st))))))))"

section \<open>Writing a descriptor\<close>

definition writeExtendedFields :: "DependencyDescriptorWriter \<Rightarrow> writing" where
  "writeExtendedFields w =
     (let d = wr_descriptor w; present = shouldWriteActiveDecodeTargetsBitmask w in
      thenW (writeBool (AttachedStructure d \<noteq> None))
      (thenW (writeBool present)
      (thenW (writeBool (NeedCustomDtis (bestTemplate w)))
      (thenW (writeBool (NeedCustomFdiffs (bestTemplate w)))
      (thenW (writeBool (NeedCustomChains (bestTemplate w)))
      (thenW (if AttachedStructure d \<noteq> None then writeTemplateDependencyStructure (wr_structure w) else skipW)
             (case ActiveDecodeTargetsBitmask d of
                Some bitmask \<Rightarrow>
                  if present then WriteBits (ucast bitmask) (nat (NumDecodeTargets (wr_structure w))) else skipW
              | None \<Rightarrow> skipW)))))))"

definition writeFrameDtis :: "DependencyDescriptorWriter \<Rightarrow> writing" where
  "writeFrameDtis w =
     seqW (map (\<lambda>dti. WriteBits (word_of_int dti) 2) (sl (DecodeTargetIndications (wr_frame w))))"

definition writeFrameFdiff :: "int \<Rightarrow> writing" where
  "writeFrameFdiff fdiff =
     (if fdiff \<le> 2 ^ 4 then WriteBits (push_bit 4 1 OR word_of_int (fdiff - 1)) 6
      else if fdiff \<le> 2 ^ 8 then WriteBits (push_bit 8 2 OR word_of_int (fdiff - 1)) 10
      else WriteBits (push_bit 12 3 OR word_of_int (fdiff - 1)) 14)"

definition writeFrameFdiffs :: "DependencyDescriptorWriter \<Rightarrow> writing" where
  "writeFrameFdiffs w =
     thenW (seqW (map writeFrameFdiff (sl (FrameDiffs (wr_frame w))))) (WriteBits 0 2)"

definition writeFrameChains :: "DependencyDescriptorWriter \<Rightarrow> writing" where
  "writeFrameChains w =
     seqW (map (\<lambda>i.
         if bit (activeChains w) i
         then if i \<ge> length (ChainDiffs (wr_frame w)) then failW ErrNoChainDiff
              else WriteBits (word_of_int (ChainDiffs (wr_frame w) ! i)) 8
         else WriteBits 0 8)
       [0..<nat (NumChains (wr_structure w))])"

definition writeFrameDependencyDefinition :: "DependencyDescriptorWriter \<Rightarrow> writing" where
  "writeFrameDependencyDefinition w =
     thenW (if NeedCustomDtis (bestTemplate w) then writeFrameDtis w else skipW)
     (thenW (if NeedCustomFdiffs (bestTemplate w) then writeFrameFdiffs w else skipW)
            (if NeedCustomChains (bestTemplate w) then writeFrameChains w else skipW))"

text \<open>Zeroing what remains of the buffer.\<close>

definition writeZeroes :: writing where
  "writeZeroes bw =
     (let remaining = nat (w_RemainingBits bw) in
      thenW (if remaining mod 64 \<noteq> 0 then WriteBits 0 (remaining mod 64) else skipW)
            (seqW (replicate (remaining div 64) (WriteBits 0 64))) bw)"

definition Write :: "DependencyDescriptorWriter \<Rightarrow> u8 list \<Rightarrow> dd_error + u8 list" where
  "Write w buf =
     (case findBestTemplate w of
        Inl err \<Rightarrow> Inl err
      | Inr w \<Rightarrow>
          map_sum id bw_buf
            (thenW (writeMandatoryFields w)
             (thenW (if hasExtendedFields w
                     then thenW (writeExtendedFields w) (writeFrameDependencyDefinition w)
                     else skipW)
                    writeZeroes)
             (NewBitStreamWriter buf)))"

definition mandatoryFieldSize :: int where
  "mandatoryFieldSize = 1 + 1 + 6 + 16"

definition structureSizeBits :: "FrameDependencyStructure \<Rightarrow> int" where
  "structureSizeBits st =
     (let n = int (length (Templates st)) in
      11 + 2 * n + 2 * n * NumDecodeTargets st + n +
      sum_list (map (\<lambda>t. 5 * int (length (sl (FrameDiffs t)))) (Templates st)) +
      SizeNonSymmetricBits (word_of_int (NumChains st)) (word_of_int (NumDecodeTargets st + 1)) +
      (if NumChains st > 0
       then sum_list (map (\<lambda>p. SizeNonSymmetricBits (word_of_int p) (word_of_int (NumChains st)))
              (DecodeTargetProtectedByChain st)) + 4 * n * NumChains st
       else 0) +
      1 + 32 * int (length (Resolutions st)))"

definition ValueSizeBits :: "DependencyDescriptorWriter \<Rightarrow> int" where
  "ValueSizeBits w =
     mandatoryFieldSize + ExtraSizeBits (bestTemplate w) +
     (if hasExtendedFields w
      then 5 + (if AttachedStructure (wr_descriptor w) \<noteq> None then structureSizeBits (wr_structure w) else 0) +
           (if shouldWriteActiveDecodeTargetsBitmask w then NumDecodeTargets (wr_structure w) else 0)
      else 0)"

definition newWriter ::
  "FrameDependencyStructure option \<Rightarrow> u32 \<Rightarrow> DependencyDescriptor \<Rightarrow>
   dd_error + DependencyDescriptorWriter \<times> nat" where
  "newWriter structure active descriptor =
     (case newDependencyDescriptorWriter structure active descriptor of
        Inl err \<Rightarrow> Inl err
      | Inr w \<Rightarrow>
          (case findBestTemplate w of
             Inl err \<Rightarrow> Inl err
           | Inr w \<Rightarrow> Inr (w, nat ((ValueSizeBits w + 7) div 8))))"

definition MarshalWithActiveChains ::
  "FrameDependencyStructure option \<Rightarrow> DependencyDescriptor \<Rightarrow> u32 \<Rightarrow> dd_error + u8 list" where
  "MarshalWithActiveChains structure descriptor active =
     (case newWriter structure active descriptor of
        Inl err \<Rightarrow> Inl err
      | Inr (w, sz) \<Rightarrow> Write w (replicate sz 0))"

definition Marshal :: "FrameDependencyStructure option \<Rightarrow> DependencyDescriptor \<Rightarrow> dd_error + u8 list" where
  "Marshal structure descriptor = MarshalWithActiveChains structure descriptor (NOT 0)"

text \<open>Into caller owned storage: the storage after the call and the number of bytes.\<close>

definition MarshalTo ::
  "FrameDependencyStructure option \<Rightarrow> DependencyDescriptor \<Rightarrow> u8 list \<Rightarrow> dd_error + u8 list \<times> nat" where
  "MarshalTo structure descriptor buf =
     (case newWriter structure (NOT 0) descriptor of
        Inl err \<Rightarrow> Inl err
      | Inr (w, sz) \<Rightarrow>
          if length buf < sz then Inl ErrBufferTooSmall
          else (case Write w (take sz buf) of
                  Inl err \<Rightarrow> Inl err
                | Inr out \<Rightarrow> Inr (out @ drop sz buf, sz)))"

definition MarshalSizeWithActiveChains :: "DependencyDescriptor \<Rightarrow> u32 \<Rightarrow> dd_error + nat" where
  "MarshalSizeWithActiveChains d active =
     map_sum id snd (newWriter (AttachedStructure d) active d)"

section \<open>Encodings of lists\<close>

lemma reads_readList:
  assumes "\<And>d. d \<in> set ds \<Longrightarrow> reads r (enc d) (g d)" "n = length ds"
  shows "reads (readList n r) (concat (map enc ds)) (map g ds)"
  using assms
proof (induction ds arbitrary: n)
  case (Cons d ds)
  have "reads (bindR r (\<lambda>x. bindR (readList (length ds) r) (\<lambda>xs. returnR (x # xs))))
      (enc d @ concat (map enc ds) @ []) (g d # map g ds)"
    using Cons by (intro reads_bind [of r _ "g d"] reads_bind [of _ _ "map g ds"] reads_return Cons.IH) auto
  then show ?case using Cons.prems(2) by simp
qed (simp add: reads_return)

lemma reads_mapR:
  assumes "\<And>t. t \<in> set ts \<Longrightarrow> reads (f (g t)) (enc t) (h t)"
  shows "reads (mapR f (map g ts)) (concat (map enc ts)) (map h ts)"
  using assms
proof (induction ts)
  case (Cons t ts)
  have "reads (bindR (f (g t)) (\<lambda>x. bindR (mapR f (map g ts)) (\<lambda>xs. returnR (x # xs))))
      (enc t @ concat (map enc ts) @ []) (h t # map h ts)"
    using Cons by (intro reads_bind [of _ _ "h t"] reads_bind [of _ _ "map h ts"] reads_return Cons.IH) auto
  then show ?case by simp
qed (simp add: reads_return)

lemma reads_cong:
  assumes "reads m bs x" "\<And>b. reader_wf b \<Longrightarrow> m' b = m b"
  shows "reads m' bs x"
  using assms by (simp add: reads_def)

lemma length_concat_const: "(\<And>x. x \<in> set xs \<Longrightarrow> length (enc x) = n) \<Longrightarrow> length (concat (map enc xs)) = n * length xs"
  by (induction xs) auto

section \<open>Small integers on the wire\<close>

text \<open>\<open>fits d n\<close>: the integer has at most \<open>n\<close> bits.\<close>

definition fits :: "int \<Rightarrow> nat \<Rightarrow> bool" where
  "fits d n \<longleftrightarrow> 0 \<le> d \<and> d < 2 ^ n"

abbreviation int_bits :: "int \<Rightarrow> nat \<Rightarrow> bool list" where
  "int_bits d n \<equiv> val_bits (word_of_int d) n"

lemma fits_word:
  assumes "fits d n" "n \<le> 32"
  shows "uint (word_of_int d :: u64) = d" "take_bit n (word_of_int d :: u64) = word_of_int d"
    "uint (word_of_int d :: u32) = d \<or> n = 32"
proof -
  have "(2::int) ^ n \<le> 2 ^ 32" using assms(2) by (intro power_increasing) auto
  then have d: "0 \<le> d" "d < 2 ^ 32" using assms(1) by (auto simp: fits_def)
  then show u: "uint (word_of_int d :: u64) = d" by (simp add: uint_word_of_int)
  show "uint (word_of_int d :: u32) = d \<or> n = 32" using d by (simp add: uint_word_of_int)
  have "unat (word_of_int d :: u64) < 2 ^ n"
    using u assms(1) by (metis fits_def nat_less_iff nat_power_eq_Suc_0_iff of_nat_less_iff of_nat_numeral of_nat_power uint_nat)
  then show "take_bit n (word_of_int d :: u64) = word_of_int d" by (rule take_bit_small)
qed

lemma reads_int:
  assumes "fits d n" "n \<le> 32" "k = int n"
  shows "reads (ReadBits k) (int_bits d n) (word_of_int d)"
  using reads_ReadBits [of n "word_of_int d"] fits_word(2) [OF assms(1,2)] assms by simp

lemma val_bits_prefix:
  assumes "take_bit n x = x" "m + n \<le> 64"
  shows "val_bits (push_bit n c OR x) (m + n) = val_bits c m @ val_bits x n"
proof (rule nth_equalityI)
  fix j assume j: "j < length (val_bits (push_bit n c OR x) (m + n))"
  have x: "\<not> bit x i" if "n \<le> i" for i using assms(1) that by (metis bit_take_bit_iff not_le)
  show "val_bits (push_bit n c OR x) (m + n) ! j = (val_bits c m @ val_bits x n) ! j"
  proof (cases "j < m")
    case True
    then have "m + n - 1 - j - n = m - 1 - j" "n \<le> m + n - 1 - j" "m + n - 1 - j < 64" using assms(2) by auto
    then show ?thesis using True x [of "m + n - 1 - j"] by (simp add: val_bits_nth nth_append bit_simps)
  next
    case False
    then have "m + n - 1 - j = n - 1 - (j - m)" using j by simp
    then show ?thesis using False j by (auto simp: val_bits_nth nth_append bit_simps)
  qed
qed simp
section \<open>The encoding of a structure\<close>

fun layer_bits :: "FrameDependencyTemplate \<Rightarrow> FrameDependencyTemplate list \<Rightarrow> bool list" where
  "layer_bits prev [] = val_bits 3 2"
| "layer_bits prev (t # ts) = val_bits (of_nat (getNextLayerIdc prev t)) 2 @ layer_bits t ts"

definition dti_bits :: "FrameDependencyTemplate \<Rightarrow> bool list" where
  "dti_bits t = concat (map (\<lambda>d. int_bits d 2) (sl (DecodeTargetIndications t)))"

definition fdiff_bits :: "FrameDependencyTemplate \<Rightarrow> bool list" where
  "fdiff_bits t = concat (map (\<lambda>d. val_bits (push_bit 4 1 OR word_of_int (d - 1)) 5) (sl (FrameDiffs t))) @ val_bits 0 1"

definition chain_bits :: "FrameDependencyTemplate \<Rightarrow> bool list" where
  "chain_bits t = concat (map (\<lambda>c. int_bits c 4) (ChainDiffs t))"

definition chains_bits :: "FrameDependencyStructure \<Rightarrow> bool list" where
  "chains_bits st = nonsym_bits (word_of_int (NumDecodeTargets st + 1)) (word_of_int (NumChains st)) @
     (if NumChains st = 0 then []
      else concat (map (\<lambda>p. nonsym_bits (word_of_int (NumChains st)) (word_of_int p)) (DecodeTargetProtectedByChain st)) @
           concat (map chain_bits (Templates st)))"

definition resolution_bits :: "RenderResolution \<Rightarrow> bool list" where
  "resolution_bits r = val_bits (word_of_int (Width r) - 1) 16 @ val_bits (word_of_int (Height r) - 1) 16"

definition structure_bits :: "FrameDependencyStructure \<Rightarrow> bool list" where
  "structure_bits st = int_bits (StructureId st) 6 @ int_bits (NumDecodeTargets st - 1) 5 @
     layer_bits (hd (Templates st)) (tl (Templates st)) @ concat (map dti_bits (Templates st)) @
     concat (map fdiff_bits (Templates st)) @ chains_bits st @ [length (Resolutions st) > 0] @
     concat (map resolution_bits (Resolutions st))"

lemma next_layer_idc:
  "next_layer (layer a) (layer b) \<Longrightarrow> getNextLayerIdc a b < 3"
  by (auto simp: layer_def getNextLayerIdc_def)

lemma writes_layers:
  "successively next_layer (map layer (t # ts)) \<Longrightarrow> writes (writeLayersLoop t ts) (layer_bits t ts)"
proof (induction ts arbitrary: t)
  case Nil
  then show ?case by (simp add: writes_WriteBits)
next
  case (Cons t' ts)
  then have n: "getNextLayerIdc t t' < 3" by (intro next_layer_idc) simp
  have "writes (writeLayersLoop t' ts) (layer_bits t' ts)" using Cons by simp
  with n show ?case by (simp add: Let_def writes_then writes_WriteBits)
qed

lemma writes_int: "0 < n \<Longrightarrow> n \<le> 64 \<Longrightarrow> writes (WriteBits (word_of_int d) n) (int_bits d n)"
  by (rule writes_WriteBits)

lemma structure_words:
  assumes "structure_wf st"
  shows "word_of_int (NumDecodeTargets st + 1) < (2 ^ 31 :: u32)" "(0 :: u32) < word_of_int (NumDecodeTargets st + 1)"
    "word_of_int (NumChains st) < (word_of_int (NumDecodeTargets st + 1) :: u32)"
    "uint (word_of_int (NumChains st) :: u32) = NumChains st"
    "word_of_int (NumChains st) < (2 ^ 31 :: u32)"
    "p \<in> set (DecodeTargetProtectedByChain st) \<Longrightarrow>
       word_of_int p < (word_of_int (NumChains st) :: u32) \<and> uint (word_of_int p :: u32) = p"
proof -
  have b: "1 \<le> NumDecodeTargets st" "NumDecodeTargets st \<le> 32" "0 \<le> NumChains st" "NumChains st \<le> NumDecodeTargets st"
    using assms by (auto simp: structure_wf_def structure_base_def chain_map_ok_def MaxDecodeTargets_def)
  have w: "uint (word_of_int x :: u32) = x" if "0 \<le> x" "x \<le> 33" for x using that by (simp add: uint_word_of_int)
  show "word_of_int (NumDecodeTargets st + 1) < (2 ^ 31 :: u32)" "(0 :: u32) < word_of_int (NumDecodeTargets st + 1)"
    "word_of_int (NumChains st) < (word_of_int (NumDecodeTargets st + 1) :: u32)"
    "uint (word_of_int (NumChains st) :: u32) = NumChains st" "word_of_int (NumChains st) < (2 ^ 31 :: u32)"
    unfolding word_less_def using w [of "NumDecodeTargets st + 1"] w [of "NumChains st"] b by simp_all
  show "word_of_int p < (word_of_int (NumChains st) :: u32) \<and> uint (word_of_int p :: u32) = p"
    if "p \<in> set (DecodeTargetProtectedByChain st)"
    unfolding word_less_def using assms that w [of p] w [of "NumChains st"] b
    by (auto simp: structure_wf_def chain_map_ok_def split: if_splits)
qed

lemma structure_shape:
  assumes "structure_wf st"
  shows "\<exists>t ts. Templates st = t # ts \<and> layer t = (0, 0) \<and> successively next_layer (map layer (t # ts)) \<and>
    length (t # ts) \<le> MaxTemplates"
  using assms by (cases "Templates st") (auto simp: structure_wf_def structure_base_def layers_ok_def)

lemma writes_chains:
  assumes "structure_wf st"
  shows "writes (writeTemplateChains st) (chains_bits st)"
proof -
  note sw = structure_words [OF assms]
  have head: "writes (WriteNonSymmetric (word_of_int (NumChains st)) (word_of_int (NumDecodeTargets st + 1)))
      (nonsym_bits (word_of_int (NumDecodeTargets st + 1)) (word_of_int (NumChains st)))"
    using sw by (intro nonsym_codec.wr_ok) simp
  have prot: "writes (seqW (map (\<lambda>p. WriteNonSymmetric (word_of_int p) (word_of_int (NumChains st)))
        (DecodeTargetProtectedByChain st)))
      (concat (map (\<lambda>p. nonsym_bits (word_of_int (NumChains st)) (word_of_int p)) (DecodeTargetProtectedByChain st)))"
    using sw by (intro writes_seq nonsym_codec.wr_ok) simp
  have diffs: "writes (seqW (map (\<lambda>t. seqW (map (\<lambda>c. WriteBits (word_of_int c) 4) (ChainDiffs t))) (Templates st)))
      (concat (map chain_bits (Templates st)))"
    unfolding chain_bits_def by (intro writes_seq writes_int) auto
  show ?thesis
    unfolding writeTemplateChains_def chains_bits_def
    by (rule writes_then [OF head]) (simp add: writes_skip writes_then [OF prot diffs])
qed

lemma writes_structure:
  assumes "structure_wf st"
  shows "writes (writeTemplateDependencyStructure st) (structure_bits st)"
proof -
  obtain t ts where ts: "Templates st = t # ts" "layer t = (0, 0)" "successively next_layer (map layer (t # ts))"
    "length (t # ts) \<le> MaxTemplates" using structure_shape [OF assms] by blast
  have "writes (writeTemplateLayers st) (layer_bits (hd (Templates st)) (tl (Templates st)))"
    using ts writes_layers [OF ts(3)] by (simp add: writeTemplateLayers_def layer_def)
  moreover have "writes (writeTemplateDtis st) (concat (map dti_bits (Templates st)))"
    unfolding writeTemplateDtis_def dti_bits_def by (intro writes_seq writes_int) auto
  moreover have "writes (writeTemplateFdiffs st) (concat (map fdiff_bits (Templates st)))"
    unfolding writeTemplateFdiffs_def writeFdiffs_def fdiff_bits_def
    by (intro writes_seq writes_then writes_WriteBits) auto
  moreover have "writes (writeResolutions st) (concat (map resolution_bits (Resolutions st)))"
    unfolding writeResolutions_def writeResolution_def resolution_bits_def
    by (intro writes_seq writes_then writes_WriteBits) auto
  moreover have "\<not> (StructureId st < 0 \<or> StructureId st \<ge> int MaxTemplates \<or>
         NumDecodeTargets st \<le> 0 \<or> NumDecodeTargets st > MaxDecodeTargets)"
    using assms by (auto simp: structure_wf_def structure_base_def)
  ultimately show ?thesis
    unfolding writeTemplateDependencyStructure_def structure_bits_def
    by (simp only: if_False)
      (intro writes_then writes_int writes_chains [OF assms] writes_writeBool; simp)
qed

lemma length_layer_bits: "length (layer_bits t ts) = 2 * (length ts + 1)"
  by (induction t ts rule: layer_bits.induct) auto

text \<open>The encoding has as many bits as the code reserves.\<close>

lemma length_structure_bits:
  assumes wf: "structure_wf st"
  shows "int (length (structure_bits st)) = structureSizeBits st"
proof -
  let ?n = "int (length (Templates st))"
  obtain t ts where ts: "Templates st = t # ts" using structure_shape [OF wf] by blast
  have nd: "0 \<le> NumDecodeTargets st" "0 \<le> NumChains st"
    using wf by (auto simp: structure_wf_def structure_base_def chain_map_ok_def)
  have dti: "length (dti_bits x) = 2 * nat (NumDecodeTargets st)" if "x \<in> set (Templates st)" for x
    using wf that by (fastforce simp: dti_bits_def structure_wf_def dtis_ok_def sl_def length_concat_const)
  have ch: "length (chain_bits x) = 4 * nat (NumChains st)" if "x \<in> set (Templates st)" for x
    using wf that by (auto simp: chain_bits_def structure_wf_def chains_ok_def length_concat_const)
  have fd: "length (concat (map fdiff_bits xs)) = sum_list (map (\<lambda>t. 5 * length (sl (FrameDiffs t))) xs) + length xs" for xs
    by (induction xs) (auto simp: fdiff_bits_def length_concat_const)
  have fd': "int (sum_list (map (\<lambda>t. 5 * length (sl (FrameDiffs t))) xs)) = sum_list (map (\<lambda>t. 5 * int (length (sl (FrameDiffs t)))) xs)"
    for xs by (induction xs) auto
  have res: "length (concat (map resolution_bits xs)) = 32 * length xs" for xs
    by (rule length_concat_const) (simp add: resolution_bits_def)
  note sw = structure_words [OF wf]
  have ns: "int (length (concat (map (nonsym_bits m) xs))) = sum_list (map (\<lambda>v. SizeNonSymmetricBits v m) xs)"
    if "0 < m" for m xs using that by (induction xs) (auto simp: length_nonsym_bits)
  have prot: "int (length (concat (map (\<lambda>p. nonsym_bits (word_of_int (NumChains st)) (word_of_int p)) ps))) =
      sum_list (map (\<lambda>p. SizeNonSymmetricBits (word_of_int p) (word_of_int (NumChains st))) ps)"
    if "NumChains st \<noteq> 0" for ps :: "int list"
  proof -
    have "(0 :: u32) < word_of_int (NumChains st)" unfolding word_less_def using sw(4) nd(2) that by simp
    from ns [OF this, of "map word_of_int ps"] show ?thesis by (simp add: comp_def)
  qed
  have "int (length (chains_bits st)) =
      SizeNonSymmetricBits (word_of_int (NumChains st)) (word_of_int (NumDecodeTargets st + 1)) +
      (if NumChains st > 0
       then sum_list (map (\<lambda>p. SizeNonSymmetricBits (word_of_int p) (word_of_int (NumChains st)))
              (DecodeTargetProtectedByChain st)) + 4 * ?n * NumChains st else 0)"
  proof (cases "NumChains st = 0")
    case True
    then show ?thesis using sw(2) by (simp add: chains_bits_def length_nonsym_bits)
  next
    case False
    have "length (concat (map chain_bits (Templates st))) = 4 * nat (NumChains st) * length (Templates st)"
      by (rule length_concat_const [OF ch])
    then show ?thesis
      using False prot [OF False] sw(2) nd(2)
      by (simp add: chains_bits_def length_nonsym_bits del: length_concat)
  qed
  moreover have "int (length (concat (map dti_bits (Templates st)))) = 2 * ?n * NumDecodeTargets st"
    using length_concat_const [of "Templates st" dti_bits, OF dti] nd(1) by (simp del: length_concat)
  moreover have "int (length (layer_bits (hd (Templates st)) (tl (Templates st)))) = 2 * ?n"
    by (simp add: length_layer_bits ts)
  moreover have "int (length (concat (map fdiff_bits (Templates st)))) =
      ?n + sum_list (map (\<lambda>t. 5 * int (length (sl (FrameDiffs t)))) (Templates st))"
    by (simp only: fd of_nat_add fd' add.commute)
  moreover have "int (length (concat (map resolution_bits (Resolutions st)))) = 32 * int (length (Resolutions st))"
    by (simp only: res of_nat_mult of_nat_numeral)
  ultimately show ?thesis
    by (simp add: structure_bits_def structureSizeBits_def Let_def del: length_concat)
qed
section \<open>Reading a structure back\<close>

text \<open>What the reader knows of a template after the layers, the indications and the differences.\<close>

definition strip0 :: "FrameDependencyTemplate \<Rightarrow> FrameDependencyTemplate" where
  "strip0 t = zeroTemplate\<lparr>TemporalId := TemporalId t, SpatialId := SpatialId t\<rparr>"

definition strip1 :: "FrameDependencyTemplate \<Rightarrow> FrameDependencyTemplate" where
  "strip1 t = (strip0 t)\<lparr>DecodeTargetIndications := DecodeTargetIndications t\<rparr>"

definition strip2 :: "FrameDependencyTemplate \<Rightarrow> FrameDependencyTemplate" where
  "strip2 t = (strip1 t)\<lparr>FrameDiffs := FrameDiffs t\<rparr>"

lemma reads_idc:
  assumes "c < 4"
  shows "reads (ReadBits 2) (val_bits (of_nat c) 2) (of_nat c)"
proof -
  have "unat (of_nat c :: u64) < 2 ^ 2" using assms by (simp add: unat_of_nat_u64)
  from take_bit_small [OF this] show ?thesis using reads_ReadBits [of 2 "of_nat c"] by simp
qed

text \<open>What the reader does after the code of the next layer.\<close>

definition layer_dispatch ::
  "nat \<Rightarrow> FrameDependencyTemplate list \<Rightarrow> FrameDependencyTemplate \<Rightarrow> u64 \<Rightarrow> FrameDependencyTemplate list reading" where
  "layer_dispatch m acc p nextLayerIdc b =
       (if nextLayerIdc = 1 \<and> TemporalId p + 1 \<ge> MaxTemporalIds
        then failR ErrDDReaderTooManyTemporalLayers b
        else if nextLayerIdc = 2 \<and> SpatialId p + 1 \<ge> MaxSpatialIds
        then failR ErrDDReaderTooManySpatialLayers b
        else if nextLayerIdc = 3 \<or> \<not> Ok b then returnR acc b
        else if nextLayerIdc = 1 then readTemplateLayersLoop m acc (TemporalId p + 1) (SpatialId p) b
        else if nextLayerIdc = 2 then readTemplateLayersLoop m acc 0 (SpatialId p + 1) b
        else readTemplateLayersLoop m acc (TemporalId p) (SpatialId p) b)"

lemma readTemplateLayersLoop_dispatch:
  "readTemplateLayersLoop (Suc m) acc (TemporalId p) (SpatialId p) =
     bindR (ReadBits 2) (layer_dispatch m (acc @ [strip0 p]) p)"
  by (simp add: Let_def strip0_def layer_dispatch_def [abs_def])

lemma layer_dispatch_next:
  assumes "next_layer (layer p) (layer t)" "SpatialId t < MaxSpatialIds" "TemporalId t < MaxTemporalIds" "reader_wf b"
  shows "layer_dispatch m acc p (of_nat (getNextLayerIdc p t)) b = readTemplateLayersLoop m acc (TemporalId t) (SpatialId t) b"
proof -
  have ok: "Ok b" using assms(4) by (simp add: Ok_def reader_wf_def)
  consider "getNextLayerIdc p t = 0" "SpatialId t = SpatialId p" "TemporalId t = TemporalId p"
    | "getNextLayerIdc p t = 1" "SpatialId t = SpatialId p" "TemporalId t = TemporalId p + 1"
    | "getNextLayerIdc p t = 2" "SpatialId t = SpatialId p + 1" "TemporalId t = 0"
    using next_layer_idc [OF assms(1)] by (auto simp: getNextLayerIdc_def split: if_splits)
  then show ?thesis using ok assms(2,3) by cases (simp_all add: layer_dispatch_def)
qed

lemma reads_layers:
  assumes "successively next_layer (map layer (p # ts))" "length ts < n"
    and "\<And>t. t \<in> set (p # ts) \<Longrightarrow> SpatialId t < MaxSpatialIds \<and> TemporalId t < MaxTemporalIds"
  shows "reads (readTemplateLayersLoop n acc (TemporalId p) (SpatialId p)) (layer_bits p ts) (acc @ map strip0 (p # ts))"
  using assms
proof (induction ts arbitrary: p n acc)
  case Nil
  then obtain m where n: "n = Suc m" by (cases n) auto
  have "reads (layer_dispatch m (acc @ [strip0 p]) p (of_nat 3)) [] (acc @ [strip0 p])"
    by (rule reads_cong [OF reads_return]) (simp add: layer_dispatch_def)
  from reads_bind [OF reads_idc [of 3], of "layer_dispatch m (acc @ [strip0 p]) p", OF _ this] show ?case
    by (simp add: n readTemplateLayersLoop_dispatch del: readTemplateLayersLoop.simps)
next
  case (Cons t ts)
  then obtain m where n: "n = Suc m" by (cases n) auto
  let ?acc = "acc @ [strip0 p]"
  have nl: "next_layer (layer p) (layer t)" using Cons.prems(1) by simp
  have "reads (readTemplateLayersLoop m ?acc (TemporalId t) (SpatialId t)) (layer_bits t ts) (?acc @ map strip0 (t # ts))"
    using Cons.prems n by (intro Cons.IH) auto
  then have "reads (layer_dispatch m ?acc p (of_nat (getNextLayerIdc p t))) (layer_bits t ts) (?acc @ map strip0 (t # ts))"
    by (rule reads_cong) (use layer_dispatch_next [OF nl] Cons.prems(3) in auto)
  from reads_bind [OF reads_idc, of _ "layer_dispatch m ?acc p", OF _ this] next_layer_idc [OF nl] show ?case
    by (simp add: n readTemplateLayersLoop_dispatch del: readTemplateLayersLoop.simps)
qed

lemma map_uint_words: "(\<And>d. d \<in> set ds \<Longrightarrow> fits d n) \<Longrightarrow> n \<le> 32 \<Longrightarrow> map uint (map word_of_int ds :: u64 list) = ds"
  by (rule trans [OF map_map map_idI]) (use fits_word(1) in auto)

text \<open>Reading a list of integers of the same width.\<close>

lemma reads_ints:
  assumes "\<And>d. d \<in> set ds \<Longrightarrow> fits d n" "n \<le> 32" "k = int n" "m = length ds"
    and "\<And>ws. map uint ws = ds \<Longrightarrow> reads (f ws) bs x"
  shows "reads (bindR (readList m (ReadBits k)) f) (concat (map (\<lambda>d. int_bits d n) ds) @ bs) x"
proof (rule reads_bind)
  show "reads (readList m (ReadBits k)) (concat (map (\<lambda>d. int_bits d n) ds)) (map word_of_int ds)"
    using assms by (intro reads_readList reads_int) auto
  show "reads (f (map word_of_int ds)) bs x" using map_uint_words [of ds n] assms by auto
qed

lemma reads_template_dtis:
  assumes "dtis_ok num t" "0 \<le> num"
  shows "reads (bindR (readList (nat num) (ReadBits 2)) (\<lambda>indications.
      returnR ((strip0 t)\<lparr>DecodeTargetIndications := Some (map uint indications)\<rparr>))) (dti_bits t) (strip1 t)"
proof -
  obtain ds where ds: "DecodeTargetIndications t = Some ds" "length ds = nat num" "\<And>d. d \<in> set ds \<Longrightarrow> fits d 2"
    using assms by (auto simp: dtis_ok_def fits_def)
  have "reads (bindR (readList (nat num) (ReadBits 2)) (\<lambda>indications.
      returnR ((strip0 t)\<lparr>DecodeTargetIndications := Some (map uint indications)\<rparr>)))
      (concat (map (\<lambda>d. int_bits d 2) ds) @ []) (strip1 t)"
    using ds by (intro reads_ints) (auto simp: strip1_def reads_return)
  then show ?thesis by (simp add: dti_bits_def ds(1) sl_def)
qed

lemma readFdiffs_unfold:
  "readFdiffs fd = bindR (ReadBits 1) (\<lambda>fdiffFollow.
     if fdiffFollow = 0 then returnR fd
     else bindR (ReadBits 4) (\<lambda>d. readFdiffs (appendS fd [uint d + 1])))"
proof
  fix b
  obtain b1 r1 where r1: "ReadBits 1 b = (b1, r1)" by fastforce
  obtain b2 r2 where r2: "ReadBits 4 b1 = (b2, r2)" by fastforce
  show "readFdiffs fd b = bindR (ReadBits 1) (\<lambda>fdiffFollow.
     if fdiffFollow = 0 then returnR fd
     else bindR (ReadBits 4) (\<lambda>d. readFdiffs (appendS fd [uint d + 1]))) b"
    using r1 r2
    by (subst readFdiffs.simps) (cases r1; cases r2; simp add: bindR_def returnR_def)
qed

lemma appendS_Cons: "appendS (appendS fd [d]) ds = appendS fd (d # ds)"
  by (auto simp: appendS_def sl_def)

lemma reads_fdiffs:
  assumes "\<And>d. d \<in> set ds \<Longrightarrow> 1 \<le> d \<and> d \<le> 16"
  shows "reads (readFdiffs fd)
    (concat (map (\<lambda>d. val_bits (push_bit 4 1 OR word_of_int (d - 1)) 5) ds) @ val_bits 0 1) (appendS fd ds)"
  using assms
proof (induction ds arbitrary: fd)
  case Nil
  have "reads (bindR (ReadBits 1) (\<lambda>v. if v = 0 then returnR fd
     else bindR (ReadBits 4) (\<lambda>d. readFdiffs (appendS fd [uint d + 1])))) (val_bits 0 1 @ []) fd"
    by (rule reads_bind [of _ _ 0]) (use reads_ReadBits [of 1 0] in \<open>auto simp: reads_return\<close>)
  then show ?case by (subst readFdiffs_unfold) (simp add: appendS_def)
next
  case (Cons d ds)
  have f: "fits (d - 1) 4" using Cons.prems [of d] by (auto simp: fits_def)
  have tb: "take_bit 4 (word_of_int (d - 1) :: u64) = word_of_int (d - 1)" using fits_word(2) [OF f] by simp
  have pre: "val_bits (push_bit 4 1 OR word_of_int (d - 1)) 5 = val_bits 1 1 @ int_bits (d - 1) 4"
    using val_bits_prefix [OF tb, of 1 1] by simp
  let ?rest = "concat (map (\<lambda>d. val_bits (push_bit 4 1 OR word_of_int (d - 1)) 5) ds) @ val_bits 0 1"
  have "reads (readFdiffs (appendS fd [uint (word_of_int (d - 1) :: u64) + 1])) ?rest (appendS fd (d # ds))"
    using Cons.IH [of "appendS fd [d]"] Cons.prems fits_word(1) [OF f] by (simp add: appendS_Cons)
  from reads_bind [OF reads_int [OF f, of 4], where f = "\<lambda>d. readFdiffs (appendS fd [uint d + 1])", OF _ _ this]
  have "reads (bindR (ReadBits 4) (\<lambda>d. readFdiffs (appendS fd [uint d + 1])))
      (int_bits (d - 1) 4 @ ?rest) (appendS fd (d # ds))" by simp
  then have "reads (bindR (ReadBits 1) (\<lambda>v. if v = 0 then returnR fd
     else bindR (ReadBits 4) (\<lambda>d. readFdiffs (appendS fd [uint d + 1]))))
      (val_bits 1 1 @ int_bits (d - 1) 4 @ ?rest) (appendS fd (d # ds))"
    by (intro reads_bind [of _ _ 1]) (use reads_ReadBits [of 1 1] in auto)
  then show ?case by (subst readFdiffs_unfold) (simp only: pre list.map concat.simps append_assoc)
qed

lemma reads_template_fdiffs:
  assumes "fdiffs_ok (FrameDiffs t)"
  shows "reads (bindR (readFdiffs (FrameDiffs (strip1 t))) (\<lambda>fdiffs. returnR ((strip1 t)\<lparr>FrameDiffs := fdiffs\<rparr>)))
    (fdiff_bits t) (strip2 t)"
proof -
  have "appendS None (sl (FrameDiffs t)) = FrameDiffs t"
    using assms by (auto simp: appendS_def sl_def fdiffs_ok_def split: option.splits)
  moreover have "reads (readFdiffs None) (fdiff_bits t) (appendS None (sl (FrameDiffs t)))"
    unfolding fdiff_bits_def using assms by (intro reads_fdiffs) (auto simp: fdiffs_ok_def)
  ultimately have "reads (bindR (readFdiffs None) (\<lambda>fdiffs. returnR ((strip1 t)\<lparr>FrameDiffs := fdiffs\<rparr>)))
      (fdiff_bits t @ []) ((strip1 t)\<lparr>FrameDiffs := FrameDiffs t\<rparr>)"
    by (intro reads_bind [of _ _ "FrameDiffs t"] reads_return) simp
  then show ?thesis by (simp add: strip2_def strip1_def strip0_def zeroTemplate_def)
qed

lemma strip2_chains: "(strip2 t)\<lparr>ChainDiffs := ChainDiffs t\<rparr> = t"
  by (simp add: strip2_def strip1_def strip0_def zeroTemplate_def)

lemma reads_template_chains:
  assumes "chains_ok num t" "0 \<le> num"
  shows "reads (bindR (readList (nat num) (ReadBits 4)) (\<lambda>chainDiffs.
      returnR ((strip2 t)\<lparr>ChainDiffs := ChainDiffs (strip2 t) @ map uint chainDiffs\<rparr>))) (chain_bits t) t"
proof -
  have "reads (bindR (readList (nat num) (ReadBits 4)) (\<lambda>chainDiffs.
      returnR ((strip2 t)\<lparr>ChainDiffs := ChainDiffs (strip2 t) @ map uint chainDiffs\<rparr>)))
      (concat (map (\<lambda>c. int_bits c 4) (ChainDiffs t)) @ []) t"
  proof (intro reads_ints)
    show "fits d 4" if "d \<in> set (ChainDiffs t)" for d using assms that by (auto simp: chains_ok_def fits_def)
    have "ChainDiffs (strip2 t) = []" by (simp add: strip2_def strip1_def strip0_def zeroTemplate_def)
    then show "reads (returnR ((strip2 t)\<lparr>ChainDiffs := ChainDiffs (strip2 t) @ map uint ws\<rparr>)) [] t"
      if "map uint ws = ChainDiffs t" for ws using that strip2_chains [of t] reads_return [of t] by simp
  qed (use assms in \<open>auto simp: chains_ok_def\<close>)
  then show ?thesis by (simp add: chain_bits_def)
qed

lemma reads_resolution: "resolution_ok r \<Longrightarrow> reads readResolution (resolution_bits r) r"
proof -
  assume ok: "resolution_ok r"
  have f: "fits (Width r - 1) 16" "fits (Height r - 1) 16" using ok by (auto simp: resolution_ok_def fits_def)
  have "reads readResolution (int_bits (Width r - 1) 16 @ int_bits (Height r - 1) 16 @ [])
      \<lparr>Width = uint (word_of_int (Width r - 1) :: u64) + 1, Height = uint (word_of_int (Height r - 1) :: u64) + 1\<rparr>"
    unfolding readResolution_def using f
    by (intro reads_bind [OF reads_int] reads_return) auto
  then show ?thesis
    using fits_word(1) [OF f(1)] fits_word(1) [OF f(2)] by (cases r) (simp add: resolution_bits_def)
qed

lemma reads_protected:
  assumes "structure_wf st" "NumChains st \<noteq> 0"
    and "\<And>ws. map uint ws = DecodeTargetProtectedByChain st \<Longrightarrow> reads (f ws) bs x"
  shows "reads (bindR (readList (nat (NumDecodeTargets st)) (ReadNonSymmetric (word_of_int (NumChains st)))) f)
    (concat (map (\<lambda>p. nonsym_bits (word_of_int (NumChains st)) (word_of_int p)) (DecodeTargetProtectedByChain st)) @ bs) x"
proof (rule reads_bind)
  let ?ps = "DecodeTargetProtectedByChain st"
  note sw = structure_words [OF assms(1)]
  show "reads (readList (nat (NumDecodeTargets st)) (ReadNonSymmetric (word_of_int (NumChains st))))
      (concat (map (\<lambda>p. nonsym_bits (word_of_int (NumChains st)) (word_of_int p)) ?ps)) (map word_of_int ?ps)"
  proof (rule reads_readList)
    show "nat (NumDecodeTargets st) = length ?ps"
      using assms(1,2) by (simp add: structure_wf_def chain_map_ok_def)
    show "reads (ReadNonSymmetric (word_of_int (NumChains st))) (nonsym_bits (word_of_int (NumChains st)) (word_of_int p))
        (word_of_int p)" if "p \<in> set ?ps" for p
      using sw(5) sw(6) [OF that] by (intro nonsym_codec.rd_ok) simp
  qed
  have "map uint (map word_of_int ?ps :: u32 list) = ?ps"
    by (rule trans [OF map_map map_idI]) (use sw(6) in simp)
  then show "reads (f (map word_of_int ?ps)) bs x" by (rule assms(3))
qed

lemma reads_chains:
  assumes wf: "structure_wf st"
    and st0: "st0 = st\<lparr>NumChains := 0, DecodeTargetProtectedByChain := [], Resolutions := [], Templates := map strip2 (Templates st)\<rparr>"
  shows "reads (readTemplateChains st0) (chains_bits st) (st\<lparr>Resolutions := []\<rparr>)"
proof -
  note sw = structure_words [OF wf]
  let ?nc = "word_of_int (NumChains st) :: u32"
  let ?st1 = "st0\<lparr>NumChains := NumChains st\<rparr>"
  have nc: "0 \<le> NumChains st" using wf by (simp add: structure_wf_def chain_map_ok_def)
  have ch: "chains_ok (NumChains st) t" if "t \<in> set (Templates st)" for t using wf that by (simp add: structure_wf_def)
  have head: "reads (ReadNonSymmetric (word_of_int (NumDecodeTargets st) + 1))
      (nonsym_bits (word_of_int (NumDecodeTargets st + 1)) ?nc) ?nc"
    using nonsym_codec.rd_ok [of ?nc "word_of_int (NumDecodeTargets st + 1)"] sw by simp
  show ?thesis
  proof (cases "NumChains st = 0")
    case True
    have "map strip2 (Templates st) = Templates st"
    proof (rule map_idI)
      fix t assume "t \<in> set (Templates st)"
      then have "ChainDiffs t = []" using ch True by (fastforce simp: chains_ok_def)
      then show "strip2 t = t" using strip2_chains [of t] by (simp add: strip2_def strip1_def strip0_def zeroTemplate_def)
    qed
    moreover have "DecodeTargetProtectedByChain st = []" using wf True by (simp add: structure_wf_def chain_map_ok_def)
    ultimately have eq: "?st1 = st\<lparr>Resolutions := []\<rparr>" using True st0 by simp
    have "reads (readTemplateChains st0) (nonsym_bits (word_of_int (NumDecodeTargets st + 1)) ?nc @ []) ?st1"
      unfolding readTemplateChains_def Let_def
      using True sw(4) st0 head by (intro reads_bind [of _ _ ?nc]) (simp_all add: reads_return)
    then show ?thesis using True by (simp add: chains_bits_def flip: eq)
  next
    case False
    let ?fin = "\<lambda>ws ts. ?st1\<lparr>DecodeTargetProtectedByChain := DecodeTargetProtectedByChain ?st1 @ map uint ws, Templates := ts\<rparr>"
    have "reads (mapR (\<lambda>t. bindR (readList (nat (NumChains st)) (ReadBits 4)) (\<lambda>chainDiffs.
          returnR (t\<lparr>ChainDiffs := ChainDiffs t @ map uint chainDiffs\<rparr>))) (map strip2 (Templates st)))
        (concat (map chain_bits (Templates st))) (map (\<lambda>t. t) (Templates st))"
      by (rule reads_mapR, rule reads_template_chains [OF ch nc])
    then have diffs: "reads (bindR (mapR (\<lambda>t. bindR (readList (nat (NumChains st)) (ReadBits 4)) (\<lambda>chainDiffs.
          returnR (t\<lparr>ChainDiffs := ChainDiffs t @ map uint chainDiffs\<rparr>))) (map strip2 (Templates st)))
        (\<lambda>ts. returnR (?fin ws ts))) (concat (map chain_bits (Templates st)) @ []) (?fin ws (Templates st))" for ws :: "u32 list"
      by (rule reads_bind) (simp add: reads_return)
    have fin: "?fin ws (Templates st) = st\<lparr>Resolutions := []\<rparr>" if "map uint ws = DecodeTargetProtectedByChain st" for ws :: "u32 list"
      using that st0 by simp
    have "reads (bindR (readList (nat (NumDecodeTargets st)) (ReadNonSymmetric ?nc)) (\<lambda>protectedBy.
        bindR (mapR (\<lambda>t. bindR (readList (nat (NumChains st)) (ReadBits 4)) (\<lambda>chainDiffs.
          returnR (t\<lparr>ChainDiffs := ChainDiffs t @ map uint chainDiffs\<rparr>))) (map strip2 (Templates st)))
        (\<lambda>ts. returnR (?fin protectedBy ts))))
      (concat (map (\<lambda>p. nonsym_bits ?nc (word_of_int p)) (DecodeTargetProtectedByChain st)) @ concat (map chain_bits (Templates st)))
      (st\<lparr>Resolutions := []\<rparr>)"
      by (rule reads_protected [OF wf False], rule diffs [unfolded append_Nil2, THEN back_subst [of "reads _ _"]]) (rule fin)
    then have "reads (readTemplateChains st0) (nonsym_bits (word_of_int (NumDecodeTargets st + 1)) ?nc @
        concat (map (\<lambda>p. nonsym_bits ?nc (word_of_int p)) (DecodeTargetProtectedByChain st)) @
        concat (map chain_bits (Templates st))) (st\<lparr>Resolutions := []\<rparr>)"
      unfolding readTemplateChains_def Let_def
      using False sw(4) st0 head by (intro reads_bind [of _ _ ?nc]) simp_all
    then show ?thesis using False by (simp add: chains_bits_def)
  qed
qed

definition with_templates :: "FrameDependencyStructure \<Rightarrow> (FrameDependencyTemplate \<Rightarrow> FrameDependencyTemplate) \<Rightarrow> FrameDependencyStructure" where
  "with_templates st g = st\<lparr>NumChains := 0, DecodeTargetProtectedByChain := [], Resolutions := [],
     Templates := map g (Templates st)\<rparr>"

lemma reads_readTemplateLayers:
  assumes "structure_wf st" "st0 = zeroStructure\<lparr>StructureId := StructureId st, NumDecodeTargets := NumDecodeTargets st\<rparr>"
  shows "reads (readTemplateLayers st0) (layer_bits (hd (Templates st)) (tl (Templates st))) (with_templates st strip0)"
proof -
  obtain t ts where ts: "Templates st = t # ts" "layer t = (0, 0)" "successively next_layer (map layer (t # ts))"
    "length (t # ts) \<le> MaxTemplates" using structure_shape [OF assms(1)] by blast
  have bd: "SpatialId x < MaxSpatialIds \<and> TemporalId x < MaxTemporalIds" if "x \<in> set (t # ts)" for x
    using assms(1) that ts(1)
    by (fastforce simp: structure_wf_def structure_base_def layers_ok_def layer_def)
  have "reads (readTemplateLayersLoop MaxTemplates [] (TemporalId t) (SpatialId t)) (layer_bits t ts) ([] @ map strip0 (t # ts))"
    using ts bd by (intro reads_layers) auto
  moreover have "TemporalId t = 0" "SpatialId t = 0" using ts(2) by (auto simp: layer_def)
  ultimately have "reads (readTemplateLayersLoop MaxTemplates [] 0 0) (layer_bits t ts) (map strip0 (t # ts))" by simp
  then have "reads (readTemplateLayers st0) (layer_bits t ts @ []) (st0\<lparr>Templates := map strip0 (t # ts)\<rparr>)"
    unfolding readTemplateLayers_def by (rule reads_bind) (rule reads_return)
  moreover have "st0\<lparr>Templates := map strip0 (t # ts)\<rparr> = with_templates st strip0"
    using assms(2) ts(1) by (simp add: with_templates_def zeroStructure_def)
  ultimately show ?thesis using ts(1) by (simp del: list.map)
qed

lemma reads_readTemplateDtis:
  assumes "structure_wf st"
  shows "reads (readTemplateDtis (with_templates st strip0)) (concat (map dti_bits (Templates st))) (with_templates st strip1)"
proof -
  have nd: "0 \<le> NumDecodeTargets st" using assms by (simp add: structure_wf_def structure_base_def)
  have "dtis_ok (NumDecodeTargets st) t" if "t \<in> set (Templates st)" for t using assms that by (simp add: structure_wf_def)
  then have "reads (mapR (\<lambda>t. bindR (readList (nat (NumDecodeTargets st)) (ReadBits 2)) (\<lambda>indications.
      returnR (t\<lparr>DecodeTargetIndications := Some (map uint indications)\<rparr>))) (map strip0 (Templates st)))
      (concat (map dti_bits (Templates st))) (map strip1 (Templates st))"
    by (intro reads_mapR reads_template_dtis [OF _ nd])
  then have "reads (bindR (mapR (\<lambda>t. bindR (readList (nat (NumDecodeTargets st)) (ReadBits 2)) (\<lambda>indications.
      returnR (t\<lparr>DecodeTargetIndications := Some (map uint indications)\<rparr>))) (map strip0 (Templates st)))
      (\<lambda>ts. returnR ((with_templates st strip0)\<lparr>Templates := ts\<rparr>))) (concat (map dti_bits (Templates st)) @ [])
      ((with_templates st strip0)\<lparr>Templates := map strip1 (Templates st)\<rparr>)"
    by (rule reads_bind [OF _ reads_return])
  then show ?thesis by (simp add: readTemplateDtis_def with_templates_def)
qed

lemma reads_readTemplateFdiffs:
  assumes "structure_wf st"
  shows "reads (readTemplateFdiffs (with_templates st strip1)) (concat (map fdiff_bits (Templates st))) (with_templates st strip2)"
proof -
  have "fdiffs_ok (FrameDiffs t)" if "t \<in> set (Templates st)" for t using assms that by (simp add: structure_wf_def)
  then have "reads (mapR (\<lambda>t. bindR (readFdiffs (FrameDiffs t)) (\<lambda>fdiffs. returnR (t\<lparr>FrameDiffs := fdiffs\<rparr>)))
      (map strip1 (Templates st))) (concat (map fdiff_bits (Templates st))) (map strip2 (Templates st))"
    by (intro reads_mapR reads_template_fdiffs)
  then have "reads (bindR (mapR (\<lambda>t. bindR (readFdiffs (FrameDiffs t)) (\<lambda>fdiffs. returnR (t\<lparr>FrameDiffs := fdiffs\<rparr>)))
        (map strip1 (Templates st))) (\<lambda>ts. returnR ((with_templates st strip1)\<lparr>Templates := ts\<rparr>)))
      (concat (map fdiff_bits (Templates st)) @ []) ((with_templates st strip1)\<lparr>Templates := map strip2 (Templates st)\<rparr>)"
    by (rule reads_bind [OF _ reads_return])
  then show ?thesis by (simp add: readTemplateFdiffs_def with_templates_def)
qed

lemma reads_flag_resolutions:
  assumes wf: "structure_wf st"
  shows "reads (bindR ReadBool (\<lambda>flag. if flag then readResolutions (st\<lparr>Resolutions := []\<rparr>) else returnR (st\<lparr>Resolutions := []\<rparr>)))
    ([length (Resolutions st) > 0] @ concat (map resolution_bits (Resolutions st))) st"
proof (cases "Resolutions st = []")
  case True
  then have eq: "st\<lparr>Resolutions := []\<rparr> = st" by simp
  show ?thesis
    by (rule reads_bind [OF reads_ReadBool]) (simp add: True eq reads_return)
next
  case False
  have ne: "Templates st \<noteq> []" using structure_shape [OF wf] by auto
  have ok: "length (Resolutions st) = nat (SpatialId (last (Templates st)) + 1)" "\<forall>r \<in> set (Resolutions st). resolution_ok r"
    using wf False by (auto simp: structure_wf_def resolutions_ok_def)
  have "reads (readList (length (Resolutions st)) readResolution) (concat (map resolution_bits (Resolutions st)))
      (map (\<lambda>r. r) (Resolutions st))"
    by (rule reads_readList) (use ok reads_resolution in auto)
  then have "reads (bindR (readList (nat (SpatialId (last (Templates st)) + 1)) readResolution)
      (\<lambda>rs. returnR (st\<lparr>Resolutions := [] @ rs\<rparr>))) (concat (map resolution_bits (Resolutions st)) @ []) (st\<lparr>Resolutions := [] @ Resolutions st\<rparr>)"
    unfolding ok(1) by (intro reads_bind [OF _ reads_return]) simp
  then have "reads (readResolutions (st\<lparr>Resolutions := []\<rparr>)) (concat (map resolution_bits (Resolutions st))) st"
    using ne by (simp add: readResolutions_def Let_def)
  then show ?thesis by (intro reads_bind [OF reads_ReadBool]) (simp add: False)
qed

lemma reads_structure:
  assumes wf: "structure_wf st"
  shows "reads readTemplateDependencyStructure (structure_bits st) st"
proof -
  have f: "fits (StructureId st) 6" "fits (NumDecodeTargets st - 1) 5"
    using wf by (auto simp: structure_wf_def structure_base_def fits_def MaxTemplates_def MaxDecodeTargets_def)
  have u: "uint (word_of_int (StructureId st) :: u64) = StructureId st"
    "uint (word_of_int (NumDecodeTargets st - 1) :: u64) + 1 = NumDecodeTargets st"
    using fits_word(1) [OF f(1)] fits_word(1) [OF f(2)] by auto
  show ?thesis
    unfolding readTemplateDependencyStructure_def structure_bits_def
    by (rule reads_bind [OF reads_int [OF f(1)]], simp, simp, rule reads_bind [OF reads_int [OF f(2)]], simp, simp,
        unfold u, rule reads_bind [OF reads_readTemplateLayers [OF wf refl]],
        rule reads_bind [OF reads_readTemplateDtis [OF wf]], rule reads_bind [OF reads_readTemplateFdiffs [OF wf]],
        rule reads_bind [OF reads_chains [OF wf with_templates_def]], rule reads_flag_resolutions [OF wf])
qed

text \<open>Structures are a codec: any place of any buffer, any well-formed structure.\<close>

interpretation structure_codec: bit_codec structure_bits structure_wf writeTemplateDependencyStructure
  readTemplateDependencyStructure
  by unfold_locales (simp_all add: writes_structure reads_structure)

end
