(* ===== verification/DDRoundtrip.thy ===== *)
theory DDRoundtrip
  imports DDWriter
begin

text \<open>
  Marshalling and unmarshalling dependency descriptors together: \<open>DependencyDescriptorExtension\<close> of
  \<open>dependencydescriptorextension.go\<close>.

  A frame differs from its template in up to three parts, which are then written in full. The encoding
  of a whole descriptor is the list of bits the writer appends; it has as many bits as
  \<open>ValueSizeBits\<close> computes, so the buffer the code allocates is always large enough, and the parser
  reads it back. The template search is shown to choose a cheapest candidate, and a concrete
  descriptor shows that its candidates are not those of the frame's layer only.
\<close>

section \<open>Frame parts\<close>

definition frame_wf :: "FrameDependencyStructure \<Rightarrow> FrameDependencyTemplate \<Rightarrow> bool" where
  "frame_wf st f \<longleftrightarrow> dtis_ok (NumDecodeTargets st) f \<and>
     (\<exists>fds. FrameDiffs f = Some fds \<and> (\<forall>d \<in> set fds. 1 \<le> d \<and> d \<le> 4096)) \<and>
     length (ChainDiffs f) = nat (NumChains st) \<and> (\<forall>c \<in> set (ChainDiffs f). 0 \<le> c \<and> c < 256)"

definition frame_fdiff_bits :: "int \<Rightarrow> bool list" where
  "frame_fdiff_bits d =
     (if d \<le> 16 then val_bits 1 2 @ int_bits (d - 1) 4
      else if d \<le> 256 then val_bits 2 2 @ int_bits (d - 1) 8
      else val_bits 3 2 @ int_bits (d - 1) 12)"

definition frame_fdiffs_bits :: "FrameDependencyTemplate \<Rightarrow> bool list" where
  "frame_fdiffs_bits f = concat (map frame_fdiff_bits (sl (FrameDiffs f))) @ val_bits 0 2"

definition frame_chains_bits :: "FrameDependencyTemplate \<Rightarrow> bool list" where
  "frame_chains_bits f = concat (map (\<lambda>c. int_bits c 8) (ChainDiffs f))"

lemma writes_frame_fdiff:
  assumes "1 \<le> d" "d \<le> 4096"
  shows "writes (writeFrameFdiff d) (frame_fdiff_bits d)"
proof -
  have pre: "val_bits (push_bit n c OR word_of_int (d - 1)) (2 + n) = val_bits c 2 @ int_bits (d - 1) n"
    if "d \<le> 2 ^ n" "n \<le> 12" for n c
  proof (rule val_bits_prefix)
    have "fits (d - 1) n" using assms that by (simp add: fits_def)
    then show "take_bit n (word_of_int (d - 1) :: u64) = word_of_int (d - 1)"
      by (rule fits_word(2)) (use that in simp)
  qed (use that in simp)
  consider "d \<le> 16" | "\<not> d \<le> 16" "d \<le> 256" | "\<not> d \<le> 256" by linarith
  then show ?thesis
  proof cases
    case 1
    then show ?thesis using writes_WriteBits [of 6 "push_bit 4 1 OR word_of_int (d - 1)"] pre [of 4 1]
      by (simp add: writeFrameFdiff_def frame_fdiff_bits_def)
  next
    case 2
    then show ?thesis using writes_WriteBits [of 10 "push_bit 8 2 OR word_of_int (d - 1)"] pre [of 8 2]
      by (simp add: writeFrameFdiff_def frame_fdiff_bits_def)
  next
    case 3
    then show ?thesis using writes_WriteBits [of 14 "push_bit 12 3 OR word_of_int (d - 1)"] pre [of 12 3] assms
      by (simp add: writeFrameFdiff_def frame_fdiff_bits_def)
  qed
qed

lemma readFrameFdiffsLoop_unfold:
  "readFrameFdiffsLoop fd = bindR (ReadBits 2) (\<lambda>sz.
     if sz = 0 then returnR fd
     else bindR (ReadBits (uint (sz * 4))) (\<lambda>d. readFrameFdiffsLoop (appendS fd [uint d + 1])))"
proof
  fix b
  obtain b1 r1 where r1: "ReadBits 2 b = (b1, r1)" by fastforce
  show "readFrameFdiffsLoop fd b = bindR (ReadBits 2) (\<lambda>sz.
     if sz = 0 then returnR fd
     else bindR (ReadBits (uint (sz * 4))) (\<lambda>d. readFrameFdiffsLoop (appendS fd [uint d + 1]))) b"
    using r1
    by (subst readFrameFdiffsLoop.simps) (cases r1; simp add: bindR_def returnR_def split: prod.splits sum.splits)
qed

lemma reads_frame_fdiff_step:
  assumes "fits (d - 1) (4 * c)" "0 < c" "c < 4"
    and "reads (readFrameFdiffsLoop (appendS fd [d])) bs x"
  shows "reads (readFrameFdiffsLoop fd) ((val_bits (of_nat c) 2 @ int_bits (d - 1) (4 * c)) @ bs) x"
proof -
  let ?g = "\<lambda>d. readFrameFdiffsLoop (appendS fd [uint d + 1])"
  have u: "uint (word_of_int (d - 1) :: u64) + 1 = d" using fits_word(1) [OF assms(1)] assms(3) by simp
  have size: "uint (of_nat c * 4 :: u64) = int (4 * c)" "(of_nat c :: u64) \<noteq> 0"
  proof -
    have "c = 1 \<or> c = 2 \<or> c = 3" using assms(2,3) by auto
    then show "uint (of_nat c * 4 :: u64) = int (4 * c)" "(of_nat c :: u64) \<noteq> 0" by auto
  qed
  have "reads (bindR (ReadBits (int (4 * c))) ?g) (int_bits (d - 1) (4 * c) @ bs) x"
    by (rule reads_bind [OF reads_int [OF assms(1)]]) (use assms(3,4) u in auto)
  then have "reads (bindR (ReadBits 2) (\<lambda>sz. if sz = 0 then returnR fd else bindR (ReadBits (uint (sz * 4))) ?g))
      (val_bits (of_nat c) 2 @ int_bits (d - 1) (4 * c) @ bs) x"
    using size assms(3) by (intro reads_bind [OF reads_idc]) auto
  then show ?thesis by (subst readFrameFdiffsLoop_unfold) simp
qed

lemma reads_frame_fdiffs:
  assumes "\<And>d. d \<in> set ds \<Longrightarrow> 1 \<le> d \<and> d \<le> 4096"
  shows "reads (readFrameFdiffsLoop fd) (concat (map frame_fdiff_bits ds) @ val_bits 0 2) (appendS fd ds)"
  using assms
proof (induction ds arbitrary: fd)
  case Nil
  have "reads (bindR (ReadBits 2) (\<lambda>sz. if sz = 0 then returnR fd
     else bindR (ReadBits (uint (sz * 4))) (\<lambda>d. readFrameFdiffsLoop (appendS fd [uint d + 1])))) (val_bits 0 2 @ []) fd"
    by (rule reads_bind [of _ _ 0]) (use reads_ReadBits [of 2 0] in \<open>auto simp: reads_return\<close>)
  then show ?case by (subst readFrameFdiffsLoop_unfold) (simp add: appendS_def)
next
  case (Cons d ds)
  let ?rest = "concat (map frame_fdiff_bits ds) @ val_bits 0 2"
  have IH: "reads (readFrameFdiffsLoop (appendS fd [d])) ?rest (appendS fd (d # ds))"
    using Cons.IH [of "appendS fd [d]"] Cons.prems by (simp add: appendS_Cons)
  have d: "1 \<le> d" "d \<le> 4096" using Cons.prems by auto
  have "reads (readFrameFdiffsLoop fd) (frame_fdiff_bits d @ ?rest) (appendS fd (d # ds))"
  proof -
    consider "d \<le> 16" | "\<not> d \<le> 16" "d \<le> 256" | "\<not> d \<le> 256" by linarith
    then show ?thesis
    proof cases
      case 1
      then show ?thesis using reads_frame_fdiff_step [of d 1, OF _ _ _ IH] d by (simp add: fits_def frame_fdiff_bits_def)
    next
      case 2
      then show ?thesis using reads_frame_fdiff_step [of d 2, OF _ _ _ IH] d by (simp add: fits_def frame_fdiff_bits_def)
    next
      case 3
      then show ?thesis using reads_frame_fdiff_step [of d 3, OF _ _ _ IH] d by (simp add: fits_def frame_fdiff_bits_def)
    qed
  qed
  then show ?case by simp
qed

section \<open>The encoding of a descriptor\<close>

text \<open>A writer that is ready: its structure and frame are well-formed, every chain is active, the match is
  the one of a template of the frame's layer, the structure attached is the one it writes with, and the bitmask
  has no bit beyond the decode targets.\<close>

definition ready :: "DependencyDescriptorWriter \<Rightarrow> bool" where
  "ready w \<longleftrightarrow> (let st = wr_structure w; i = TemplateIdx (bestTemplate w); d = wr_descriptor w in
     structure_wf st \<and> frame_wf st (wr_frame w) \<and> activeChains w = NOT 0 \<and>
     i < length (Templates st) \<and> sameLayer (wr_frame w) (Templates st ! i) \<and>
     bestTemplate w = calculateMatch w i (Templates st ! i) \<and>
     (AttachedStructure d = None \<or> AttachedStructure d = Some st) \<and>
     (\<forall>m. ActiveDecodeTargetsBitmask d = Some m \<longrightarrow> take_bit (nat (NumDecodeTargets st)) m = m))"

definition mandatory_bits :: "DependencyDescriptorWriter \<Rightarrow> bool list" where
  "mandatory_bits w = [FirstPacketInFrame (wr_descriptor w)] @ [LastPacketInFrame (wr_descriptor w)] @
     int_bits ((int (TemplateIdx (bestTemplate w)) + StructureId (wr_structure w)) smod int MaxTemplates) 6 @
     val_bits (ucast (FrameNumber (wr_descriptor w))) 16"

definition flag_bits :: "DependencyDescriptorWriter \<Rightarrow> bool list" where
  "flag_bits w = [AttachedStructure (wr_descriptor w) \<noteq> None] @ [shouldWriteActiveDecodeTargetsBitmask w] @
     [NeedCustomDtis (bestTemplate w)] @ [NeedCustomFdiffs (bestTemplate w)] @ [NeedCustomChains (bestTemplate w)]"

definition attached_bits :: "DependencyDescriptorWriter \<Rightarrow> bool list" where
  "attached_bits w = (if AttachedStructure (wr_descriptor w) \<noteq> None then structure_bits (wr_structure w) else [])"

definition mask_bits :: "DependencyDescriptorWriter \<Rightarrow> bool list" where
  "mask_bits w = (if shouldWriteActiveDecodeTargetsBitmask w
     then val_bits (ucast (the (ActiveDecodeTargetsBitmask (wr_descriptor w)))) (nat (NumDecodeTargets (wr_structure w)))
     else [])"

definition custom_bits :: "DependencyDescriptorWriter \<Rightarrow> bool list" where
  "custom_bits w = (if NeedCustomDtis (bestTemplate w) then dti_bits (wr_frame w) else []) @
     (if NeedCustomFdiffs (bestTemplate w) then frame_fdiffs_bits (wr_frame w) else []) @
     (if NeedCustomChains (bestTemplate w) then frame_chains_bits (wr_frame w) else [])"

definition descriptor_bits :: "DependencyDescriptorWriter \<Rightarrow> bool list" where
  "descriptor_bits w = mandatory_bits w @
     (if hasExtendedFields w then (flag_bits w @ attached_bits w @ mask_bits w) @ custom_bits w else [])"

lemma ready_facts:
  assumes "ready w"
  shows "structure_wf (wr_structure w)" "frame_wf (wr_structure w) (wr_frame w)" "activeChains w = NOT 0"
    "TemplateIdx (bestTemplate w) < length (Templates (wr_structure w))"
    "sameLayer (wr_frame w) (Templates (wr_structure w) ! TemplateIdx (bestTemplate w))"
    "1 \<le> NumDecodeTargets (wr_structure w)" "NumDecodeTargets (wr_structure w) \<le> 32"
    "0 \<le> NumChains (wr_structure w)" "NumChains (wr_structure w) \<le> 32"
  using assms by (auto simp: ready_def Let_def structure_wf_def structure_base_def chain_map_ok_def MaxDecodeTargets_def)

lemma ready_match:
  assumes "ready w" and t: "t = Templates (wr_structure w) ! TemplateIdx (bestTemplate w)"
  shows "NeedCustomDtis (bestTemplate w) \<longleftrightarrow> sl (DecodeTargetIndications (wr_frame w)) \<noteq> sl (DecodeTargetIndications t)"
    "NeedCustomFdiffs (bestTemplate w) \<longleftrightarrow> sl (FrameDiffs (wr_frame w)) \<noteq> sl (FrameDiffs t)"
    "NeedCustomChains (bestTemplate w) \<longleftrightarrow> ChainDiffs (wr_frame w) \<noteq> ChainDiffs t"
    "ExtraSizeBits (bestTemplate w) =
       (if NeedCustomFdiffs (bestTemplate w) then 2 * (1 + int (length (sl (FrameDiffs (wr_frame w))))) +
          sum_list (map fdiffSizeBits (sl (FrameDiffs (wr_frame w)))) else 0) +
       (if NeedCustomDtis (bestTemplate w) then 2 * int (length (sl (DecodeTargetIndications (wr_frame w)))) else 0) +
       (if NeedCustomChains (bestTemplate w) then 8 * NumChains (wr_structure w) else 0)"
proof -
  note F = ready_facts [OF assms(1)]
  have m: "bestTemplate w = calculateMatch w (TemplateIdx (bestTemplate w)) t"
    using assms by (simp add: ready_def Let_def)
  have some: "DecodeTargetIndications (wr_frame w) \<noteq> None" "FrameDiffs (wr_frame w) \<noteq> None"
    using F(2) by (auto simp: frame_wf_def dtis_ok_def)
  have tin: "t \<in> set (Templates (wr_structure w))" using F(4) t by simp
  have len: "length (ChainDiffs (wr_frame w)) = nat (NumChains (wr_structure w))"
    "length (ChainDiffs t) = nat (NumChains (wr_structure w))"
    using F(1,2) tin by (auto simp: frame_wf_def structure_wf_def chains_ok_def)
  have "list_ex (chainDiffers w t) [0..<nat (NumChains (wr_structure w))] \<longleftrightarrow>
      (\<exists>i < nat (NumChains (wr_structure w)). ChainDiffs (wr_frame w) ! i \<noteq> ChainDiffs t ! i)"
    using len F(3,9) by (fastforce simp: list_ex_iff chainDiffers_def Bex_def)
  also have "\<dots> \<longleftrightarrow> ChainDiffs (wr_frame w) \<noteq> ChainDiffs t"
    using len by (metis nth_equalityI)
  finally have ch: "list_ex (chainDiffers w t) [0..<nat (NumChains (wr_structure w))] \<longleftrightarrow>
    ChainDiffs (wr_frame w) \<noteq> ChainDiffs t" .
  show "NeedCustomDtis (bestTemplate w) \<longleftrightarrow> sl (DecodeTargetIndications (wr_frame w)) \<noteq> sl (DecodeTargetIndications t)"
    by (subst m) (use some in \<open>simp add: calculateMatch_def Let_def\<close>)
  show "NeedCustomFdiffs (bestTemplate w) \<longleftrightarrow> sl (FrameDiffs (wr_frame w)) \<noteq> sl (FrameDiffs t)"
    by (subst m) (use some in \<open>simp add: calculateMatch_def Let_def\<close>)
  show "NeedCustomChains (bestTemplate w) \<longleftrightarrow> ChainDiffs (wr_frame w) \<noteq> ChainDiffs t"
    by (subst m) (simp only: calculateMatch_def Let_def TemplateMatch.select_convs ch)
  show "ExtraSizeBits (bestTemplate w) =
       (if NeedCustomFdiffs (bestTemplate w) then 2 * (1 + int (length (sl (FrameDiffs (wr_frame w))))) +
          sum_list (map fdiffSizeBits (sl (FrameDiffs (wr_frame w)))) else 0) +
       (if NeedCustomDtis (bestTemplate w) then 2 * int (length (sl (DecodeTargetIndications (wr_frame w)))) else 0) +
       (if NeedCustomChains (bestTemplate w) then 8 * NumChains (wr_structure w) else 0)"
    by (subst (1 2 3 4) m) (simp add: calculateMatch_def Let_def)
qed

lemma writes_custom:
  assumes "ready w"
  shows "writes (writeFrameDependencyDefinition w) (custom_bits w)"
proof -
  note F = ready_facts [OF assms]
  have "writes (writeFrameDtis w) (dti_bits (wr_frame w))"
    unfolding writeFrameDtis_def dti_bits_def by (intro writes_seq writes_int) auto
  moreover have "writes (writeFrameFdiffs w) (frame_fdiffs_bits (wr_frame w))"
    unfolding writeFrameFdiffs_def frame_fdiffs_bits_def
    by (intro writes_then writes_seq writes_frame_fdiff writes_WriteBits) (use F(2) in \<open>auto simp: frame_wf_def sl_def\<close>)
  moreover have "writes (writeFrameChains w) (frame_chains_bits (wr_frame w))"
  proof -
    have len: "length (ChainDiffs (wr_frame w)) = nat (NumChains (wr_structure w))" using F(2) by (simp add: frame_wf_def)
    have "writes (writeFrameChains w) (concat (map (\<lambda>i. int_bits (ChainDiffs (wr_frame w) ! i) 8) [0..<nat (NumChains (wr_structure w))]))"
      unfolding writeFrameChains_def by (rule writes_seq) (use F(3,9) len in \<open>auto intro: writes_int\<close>)
    moreover have "map (\<lambda>i. int_bits (ChainDiffs (wr_frame w) ! i) 8) [0..<length (ChainDiffs (wr_frame w))] =
        map (\<lambda>c. int_bits c 8) (ChainDiffs (wr_frame w))" by (rule nth_equalityI) auto
    ultimately show ?thesis by (simp add: frame_chains_bits_def flip: len)
  qed
  ultimately show ?thesis
    unfolding writeFrameDependencyDefinition_def custom_bits_def by (intro writes_then) (auto intro: writes_skip)
qed

lemma mask_some: "shouldWriteActiveDecodeTargetsBitmask w \<Longrightarrow> \<exists>m. ActiveDecodeTargetsBitmask (wr_descriptor w) = Some m"
  by (auto simp: shouldWriteActiveDecodeTargetsBitmask_def split: option.splits)

lemma writes_descriptor:
  assumes "ready w"
  shows "writes (thenW (writeMandatoryFields w) (if hasExtendedFields w
     then thenW (writeExtendedFields w) (writeFrameDependencyDefinition w) else skipW)) (descriptor_bits w)"
proof -
  note F = ready_facts [OF assms]
  have man: "writes (writeMandatoryFields w) (mandatory_bits w)"
    unfolding writeMandatoryFields_def mandatory_bits_def Let_def
    by (intro writes_then writes_writeBool writes_WriteBits) auto
  have mask: "writes (case ActiveDecodeTargetsBitmask (wr_descriptor w) of
       Some bitmask \<Rightarrow> if shouldWriteActiveDecodeTargetsBitmask w
         then WriteBits (ucast bitmask) (nat (NumDecodeTargets (wr_structure w))) else skipW
     | None \<Rightarrow> skipW) (mask_bits w)"
    using F(6,7) mask_some [of w] by (auto simp: mask_bits_def writes_skip intro!: writes_WriteBits split: option.splits)
  have ext: "writes (writeExtendedFields w) (flag_bits w @ attached_bits w @ mask_bits w)"
    unfolding writeExtendedFields_def flag_bits_def attached_bits_def Let_def append_assoc
    by (intro writes_then writes_writeBool mask) (auto intro: writes_skip writes_structure [OF F(1)])
  show ?thesis
    unfolding descriptor_bits_def
    by (rule writes_then [OF man]) (use writes_then [OF ext writes_custom [OF assms]] in \<open>simp add: writes_skip\<close>)
qed

lemma length_frame_fdiff: "int (length (frame_fdiff_bits d)) = 2 + fdiffSizeBits d"
  by (simp add: frame_fdiff_bits_def fdiffSizeBits_def)

lemma length_frame_fdiffs:
  "int (length (frame_fdiffs_bits f)) = 2 * (1 + int (length (sl (FrameDiffs f)))) + sum_list (map fdiffSizeBits (sl (FrameDiffs f)))"
proof -
  have "int (length (concat (map frame_fdiff_bits ds))) = 2 * int (length ds) + sum_list (map fdiffSizeBits ds)" for ds
    by (induction ds) (auto simp: length_frame_fdiff)
  then show ?thesis by (simp add: frame_fdiffs_bits_def del: length_concat)
qed

lemma length_custom_bits:
  assumes "ready w"
  shows "int (length (custom_bits w)) = ExtraSizeBits (bestTemplate w)"
proof -
  note F = ready_facts [OF assms]
  have ch: "int (length (frame_chains_bits (wr_frame w))) = 8 * NumChains (wr_structure w)"
    using F(2,8) length_concat_const [of "ChainDiffs (wr_frame w)" "\<lambda>c. int_bits c 8" 8]
    by (simp add: frame_chains_bits_def frame_wf_def del: length_concat)
  have dt: "int (length (dti_bits (wr_frame w))) = 2 * int (length (sl (DecodeTargetIndications (wr_frame w))))"
    using length_concat_const [of "sl (DecodeTargetIndications (wr_frame w))" "\<lambda>d. int_bits d 2" 2]
    by (simp add: dti_bits_def del: length_concat)
  show ?thesis
    unfolding ready_match(4) [OF assms refl] custom_bits_def
    using ch dt length_frame_fdiffs [of "wr_frame w"] by simp
qed

text \<open>The encoding has as many bits as \<open>ValueSizeBits\<close> counts.\<close>

lemma length_descriptor_bits:
  assumes "ready w"
  shows "int (length (descriptor_bits w)) = ValueSizeBits w"
proof -
  note F = ready_facts [OF assms]
  have "0 \<le> ExtraSizeBits (bestTemplate w)" using length_custom_bits [OF assms] by linarith
  then have "ExtraSizeBits (bestTemplate w) = 0" if "\<not> hasExtendedFields w"
    using that by (simp add: hasExtendedFields_def)
  moreover have "int (length (mask_bits w)) =
      (if shouldWriteActiveDecodeTargetsBitmask w then NumDecodeTargets (wr_structure w) else 0)"
    using F(6) by (simp add: mask_bits_def)
  moreover have "int (length (attached_bits w)) =
      (if AttachedStructure (wr_descriptor w) \<noteq> None then structureSizeBits (wr_structure w) else 0)"
    using length_structure_bits [OF F(1)] by (simp add: attached_bits_def)
  ultimately show ?thesis
    using length_custom_bits [OF assms]
    by (simp add: descriptor_bits_def ValueSizeBits_def mandatoryFieldSize_def mandatory_bits_def flag_bits_def)
qed

text \<open>\<open>Write\<close> fills the buffer: the encoding and zeroes up to the next byte.\<close>

lemma bytes_of_new: "bytes_bits (bw_buf w') = bs @ drop (length bs) (bytes_bits buf)"
  if "appended (NewBitStreamWriter buf) bs w'"
  using that new_streams(3,6) [of buf] by (simp add: appended_def)

lemma then_run: "thenW f g w = Inr w1 \<Longrightarrow> thenW f (thenW g h) w = h w1"
  by (auto simp: thenW_def split: sum.splits)

lemma Write_ready:
  assumes "ready w" "findBestTemplate w' = Inr w" "length buf = nat ((ValueSizeBits w + 7) div 8)"
  shows "\<exists>out r. Write w' buf = Inr out \<and> length out = length buf \<and> r < 8 \<and>
    bytes_bits out = descriptor_bits w @ val_bits 0 r"
proof -
  let ?bs = "descriptor_bits w" and ?n = "length (descriptor_bits w)"
  define r where "r = 8 * length buf - ?n"
  have "int ?n = ValueSizeBits w" by (rule length_descriptor_bits [OF assms(1)])
  then have n: "?n \<le> 8 * length buf" "r < 8" using assms(3) unfolding r_def by auto
  obtain w1 where w1: "thenW (writeMandatoryFields w) (if hasExtendedFields w
     then thenW (writeExtendedFields w) (writeFrameDependencyDefinition w) else skipW) (NewBitStreamWriter buf) = Inr w1"
    "appended (NewBitStreamWriter buf) ?bs w1"
    using writes_descriptor [OF assms(1)] n(1) new_streams [of buf] unfolding writes_def by fastforce
  have pos: "writer_wf w1" "position w1 = ?n" "length (bw_buf w1) = length buf"
    using w1(2) new_streams [of buf] by (auto simp: appended_def)
  have rem: "nat (w_RemainingBits w1) = r" using pos n(1) by (simp add: remaining_position r_def)
  obtain w2 where w2: "writeZeroes w1 = Inr w2" "appended w1 (val_bits 0 r) w2"
  proof (cases "r = 0")
    case True
    then have "writeZeroes w1 = Inr w1" using rem by (simp add: writeZeroes_def thenW_def skipW_def)
    moreover have "appended w1 (val_bits 0 r) w1" using appended_none [OF pos(1)] True by (simp add: val_bits_def)
    ultimately show ?thesis by (rule that)
  next
    case False
    then obtain w2 where "WriteBits 0 r w1 = Inr w2" "appended w1 (val_bits 0 r) w2"
      using WriteBits_appends [of w1 r 0] pos n by (auto simp: r_def)
    then show ?thesis using that rem n(2) False by (simp add: writeZeroes_def thenW_def skipW_def)
  qed
  have app: "appended (NewBitStreamWriter buf) (?bs @ val_bits 0 r) w2" by (rule appended_trans [OF w1(2) w2(2)])
  have "bytes_bits (bw_buf w2) = ?bs @ val_bits 0 r" using bytes_of_new [OF app] n(1) by (simp add: r_def)
  moreover have "length (bw_buf w2) = length buf" using app new_streams(6) [of buf] by (simp add: appended_def)
  moreover have "Write w' buf = Inr (bw_buf w2)"
    using then_run [OF w1(1), of writeZeroes] w2(1) assms(2) by (simp add: Write_def)
  ultimately show ?thesis using n(2) by fastforce
qed

section \<open>Reading a descriptor back\<close>

lemma reads_custom:
  assumes "ready w" and t: "t = Templates (wr_structure w) ! TemplateIdx (bestTemplate w)"
    and flags: "customDtisFlag r = NeedCustomDtis (bestTemplate w)" "customFdiffsFlag r = NeedCustomFdiffs (bestTemplate w)"
      "customChainsFlag r = NeedCustomChains (bestTemplate w)"
    and k: "\<And>f. Clone f = Clone (wr_frame w) \<Longrightarrow> reads (k f) bs (x f)"
  shows "\<exists>f. Clone f = Clone (wr_frame w) \<and> reads (bindR (if customDtisFlag r then readFrameDtis (wr_structure w) (CopyInto t zeroTemplate)
         else returnR (CopyInto t zeroTemplate)) (\<lambda>f.
       bindR (if customFdiffsFlag r then readFrameFdiffs f else returnR f) (\<lambda>f.
       bindR (if customChainsFlag r then readFrameChains (wr_structure w) f else returnR f) k)))
     (custom_bits w @ bs) (x f)"
proof -
  note F = ready_facts [OF assms(1)] and M = ready_match [OF assms(1) t]
  let ?f = "wr_frame w" and ?st = "wr_structure w"
  have tin: "t \<in> set (Templates ?st)" using F(4) t by simp
  obtain ds0 where ds0: "DecodeTargetIndications t = Some ds0" "length ds0 = nat (NumDecodeTargets ?st)"
    using F(1) tin by (auto simp: structure_wf_def dtis_ok_def)
  obtain ds where ds: "DecodeTargetIndications ?f = Some ds" "length ds = nat (NumDecodeTargets ?st)"
    "\<And>d. d \<in> set ds \<Longrightarrow> fits d 2"
    using F(2) by (auto simp: frame_wf_def dtis_ok_def fits_def)
  obtain fds where fds: "FrameDiffs ?f = Some fds" "\<And>d. d \<in> set fds \<Longrightarrow> 1 \<le> d \<and> d \<le> 4096"
    using F(2) by (auto simp: frame_wf_def)
  have cs: "length (ChainDiffs ?f) = nat (NumChains ?st)" "length (ChainDiffs t) = nat (NumChains ?st)"
    "\<And>c. c \<in> set (ChainDiffs ?f) \<Longrightarrow> fits c 8"
    using F(1,2) tin by (auto simp: frame_wf_def structure_wf_def chains_ok_def fits_def)
  define f1 where "f1 = (CopyInto t zeroTemplate)\<lparr>DecodeTargetIndications := Some ds\<rparr>"
  have ne: "ds0 \<noteq> []" using ds0(2) F(6) by auto
  have 1: "reads (if customDtisFlag r then readFrameDtis ?st (CopyInto t zeroTemplate) else returnR (CopyInto t zeroTemplate))
      (if NeedCustomDtis (bestTemplate w) then dti_bits ?f else []) f1"
  proof (cases "NeedCustomDtis (bestTemplate w)")
    case True
    have "reads (bindR (readList (length ds0) (ReadBits 2)) (\<lambda>is. returnR ((CopyInto t zeroTemplate)\<lparr>DecodeTargetIndications := Some (map uint is)\<rparr>)))
        (concat (map (\<lambda>d. int_bits d 2) ds) @ []) f1"
      by (rule reads_ints) (use ds ds0 reads_return f1_def in auto)
    with True flags(1) ds0 F(6) ne ds(1) show ?thesis
      by (simp add: readFrameDtis_def CopyInto_def appendS_def emptied_def zeroTemplate_def sl_def dti_bits_def)
  next
    case False
    then have "CopyInto t zeroTemplate = f1"
      using M(1) ds(1) ds0(1) ne by (simp add: CopyInto_def appendS_def emptied_def zeroTemplate_def sl_def f1_def)
    with False flags(1) show ?thesis by (simp add: reads_return)
  qed
  define fd where "fd = appendS (if NeedCustomFdiffs (bestTemplate w) then emptied (FrameDiffs f1) else None) fds"
  have slfd: "sl fd = fds" by (auto simp: fd_def appendS_def emptied_def sl_def split: option.splits)
  have 2: "reads (if customFdiffsFlag r then readFrameFdiffs f1 else returnR f1)
      (if NeedCustomFdiffs (bestTemplate w) then frame_fdiffs_bits ?f else []) (f1\<lparr>FrameDiffs := fd\<rparr>)"
  proof (cases "NeedCustomFdiffs (bestTemplate w)")
    case True
    have "reads (bindR (readFrameFdiffsLoop (emptied (FrameDiffs f1))) (\<lambda>fd. returnR (f1\<lparr>FrameDiffs := fd\<rparr>)))
        ((concat (map frame_fdiff_bits fds) @ val_bits 0 2) @ []) (f1\<lparr>FrameDiffs := fd\<rparr>)"
      by (rule reads_bind [of _ _ fd]) (use reads_frame_fdiffs [OF fds(2)] True reads_return in \<open>auto simp: fd_def\<close>)
    with True flags(2) fds(1) show ?thesis by (simp add: readFrameFdiffs_def frame_fdiffs_bits_def sl_def)
  next
    case False
    then have "f1\<lparr>FrameDiffs := fd\<rparr> = f1"
      using M(2) fds(1) by (simp add: f1_def fd_def CopyInto_def appendS_def emptied_def zeroTemplate_def sl_def)
    with False flags(2) show ?thesis by (simp add: reads_return)
  qed
  define f2 where "f2 = f1\<lparr>FrameDiffs := fd\<rparr>"
  have c2: "ChainDiffs f2 = ChainDiffs t" by (simp add: f2_def f1_def CopyInto_def)
  have 3: "reads (if customChainsFlag r then readFrameChains ?st f2 else returnR f2)
      (if NeedCustomChains (bestTemplate w) then frame_chains_bits ?f else []) (f2\<lparr>ChainDiffs := ChainDiffs ?f\<rparr>)"
  proof (cases "NeedCustomChains (bestTemplate w)")
    case True
    have "reads (bindR (readList (length (ChainDiffs t)) (ReadBits 8)) (\<lambda>is. returnR (f2\<lparr>ChainDiffs := map uint is\<rparr>)))
        (concat (map (\<lambda>d. int_bits d 8) (ChainDiffs ?f)) @ []) (f2\<lparr>ChainDiffs := ChainDiffs ?f\<rparr>)"
      by (rule reads_ints) (use cs reads_return in auto)
    with True flags(3) cs c2 F(8) show ?thesis by (simp add: readFrameChains_def frame_chains_bits_def)
  next
    case False
    with M(3) c2 have "f2\<lparr>ChainDiffs := ChainDiffs ?f\<rparr> = f2" by simp
    with False flags(3) show ?thesis by (simp add: reads_return)
  qed
  have "Clone (f2\<lparr>ChainDiffs := ChainDiffs ?f\<rparr>) = Clone ?f"
    using F(5) t ds(1) fds(1) slfd by (simp add: Clone_def f2_def f1_def CopyInto_def sameLayer_def sl_def [of "Some _"])
  note clone = this [folded f2_def]
  show ?thesis
    unfolding custom_bits_def append_assoc
    by (rule exI [of _ "f2\<lparr>ChainDiffs := ChainDiffs ?f\<rparr>"], rule conjI [OF clone], rule reads_bind [OF 1], rule reads_bind [OF 2],
        fold f2_def, rule reads_bind [OF 3], rule k [OF clone])
qed

lemma template_id:
  assumes "ready w" and tid: "tid = (int (TemplateIdx (bestTemplate w)) + StructureId (wr_structure w)) smod int MaxTemplates"
  shows "fits tid 6" "(tid + int MaxTemplates - StructureId (wr_structure w)) smod int MaxTemplates = int (TemplateIdx (bestTemplate w))"
proof -
  let ?i = "int (TemplateIdx (bestTemplate w))" and ?s = "StructureId (wr_structure w)"
  have b: "0 \<le> ?s" "?s < int MaxTemplates" "?i < int MaxTemplates"
    using ready_facts(1,4) [OF assms(1)] by (auto simp: structure_wf_def structure_base_def)
  then have "0 \<le> ?i + ?s" by simp
  then have t: "tid = (?i + ?s) mod int MaxTemplates" using tid by (simp add: signed_modulo_int_def MaxTemplates_def sgn_if)
  then show "fits tid 6" by (simp add: fits_def MaxTemplates_def)
  have "(tid + int MaxTemplates - ?s) smod int MaxTemplates = (tid - ?s) mod int MaxTemplates"
    using b t by (intro template_index) (simp_all add: MaxTemplates_def)
  also have "\<dots> = ?i mod int MaxTemplates" unfolding t by (simp add: mod_simps)
  finally show "(tid + int MaxTemplates - ?s) smod int MaxTemplates = ?i" using b by simp
qed

lemma spatial_monotone:
  "successively next_layer (map layer ts) \<Longrightarrow> t \<in> set ts \<Longrightarrow> SpatialId t \<le> SpatialId (last ts)"
proof (induction ts arbitrary: t)
  case (Cons a ts)
  show ?case
  proof (cases ts)
    case (Cons b us)
    have "SpatialId a \<le> SpatialId b" using Cons.prems(1) Cons by (auto simp: layer_def)
    moreover have "SpatialId x \<le> SpatialId (last ts)" if "x \<in> set ts" for x
      using Cons.IH [OF _ that] Cons.prems(1) Cons by simp
    moreover have "SpatialId b \<le> SpatialId (last ts)" using calculation(2) Cons by simp
    ultimately have "SpatialId x \<le> SpatialId (last ts)" if "x \<in> set (a # ts)" for x using that by fastforce
    from this [OF Cons.prems(2)] Cons show ?thesis by simp
  qed (use Cons.prems in auto)
qed simp

definition frame_resolution :: "FrameDependencyStructure \<Rightarrow> FrameDependencyTemplate \<Rightarrow> RenderResolution option" where
  "frame_resolution st f = (if Resolutions st = [] then None else Some (Resolutions st ! nat (SpatialId f)))"

lemma reads_resolution_of:
  assumes "ready w" "SpatialId f = SpatialId (wr_frame w)"
  shows "reads (lookupResolution (wr_structure w) f) [] (frame_resolution (wr_structure w) (wr_frame w))"
proof -
  note F = ready_facts [OF assms(1)]
  let ?ts = "Templates (wr_structure w)" and ?t = "Templates (wr_structure w) ! TemplateIdx (bestTemplate w)"
  have sp: "SpatialId f = SpatialId ?t" using F(5) assms(2) by (simp add: sameLayer_def)
  have tin: "?t \<in> set ?ts" using F(4) by simp
  have "0 \<le> SpatialId ?t"
    using F(1) tin by (fastforce simp: structure_wf_def structure_base_def layers_ok_def layer_def)
  moreover have "SpatialId ?t \<le> SpatialId (last ?ts)"
    by (rule spatial_monotone) (use F(1) tin in \<open>auto simp: structure_wf_def structure_base_def layers_ok_def\<close>)
  moreover have "Resolutions (wr_structure w) = [] \<or> int (length (Resolutions (wr_structure w))) = SpatialId (last ?ts) + 1"
    using F(1) calculation by (auto simp: structure_wf_def resolutions_ok_def)
  ultimately show ?thesis using sp assms(2)
    by (auto simp: reads_def lookupResolution_def frame_resolution_def)
qed

text \<open>The frame definition, read with the template the mandatory fields name.\<close>

lemma reads_frame_definition:
  assumes "ready w" "r = r0\<lparr>frameDependencyTemplateId := (int (TemplateIdx (bestTemplate w)) + StructureId (wr_structure w)) smod int MaxTemplates,
      customDtisFlag := NeedCustomDtis (bestTemplate w), customFdiffsFlag := NeedCustomFdiffs (bestTemplate w),
      customChainsFlag := NeedCustomChains (bestTemplate w)\<rparr>"
    and none: "FrameDependencies (rd_descriptor r0) = None"
  shows "\<exists>f. Clone f = Clone (wr_frame w) \<and> reads (readFrameDependencyDefinition aliased (wr_structure w) r) (custom_bits w)
    (r\<lparr>rd_descriptor := (rd_descriptor r)\<lparr>FrameDependencies := Some f,
       Resolution := frame_resolution (wr_structure w) (wr_frame w)\<rparr>\<rparr>)"
proof -
  note F = ready_facts [OF assms(1)]
  let ?st = "wr_structure w" and ?t = "Templates (wr_structure w) ! TemplateIdx (bestTemplate w)"
  let ?k = "\<lambda>f. bindR (lookupResolution ?st f) (\<lambda>res. returnR (r\<lparr>rd_descriptor :=
                (rd_descriptor r)\<lparr>FrameDependencies := Some f, Resolution := res\<rparr>\<rparr>))"
  let ?m = "bindR (if customDtisFlag r then readFrameDtis ?st (CopyInto ?t zeroTemplate) else returnR (CopyInto ?t zeroTemplate)) (\<lambda>f.
       bindR (if customFdiffsFlag r then readFrameFdiffs f else returnR f) (\<lambda>f.
       bindR (if customChainsFlag r then readFrameChains ?st f else returnR f) ?k))"
  have "readFrameDependencyDefinition aliased ?st r = ?m"
    using template_id(2) [OF assms(1) refl] F(4) none
    by (intro ext) (simp add: readFrameDependencyDefinition_def Let_def assms(2))
  moreover have "\<exists>f. Clone f = Clone (wr_frame w) \<and> reads ?m (custom_bits w @ []) (r\<lparr>rd_descriptor := (rd_descriptor r)\<lparr>FrameDependencies := Some f,
       Resolution := frame_resolution (wr_structure w) (wr_frame w)\<rparr>\<rparr>)"
  proof (rule reads_custom [OF assms(1) refl])
    fix f assume "Clone f = Clone (wr_frame w)"
    then have "SpatialId f = SpatialId (wr_frame w)" by (simp add: Clone_def)
    from reads_bind [OF reads_resolution_of [OF assms(1) this] reads_return]
    show "reads (?k f) [] (r\<lparr>rd_descriptor := (rd_descriptor r)\<lparr>FrameDependencies := Some f,
       Resolution := frame_resolution (wr_structure w) (wr_frame w)\<rparr>\<rparr>)" by simp
  qed (simp_all add: assms(2))
  ultimately show ?thesis by simp
qed

text \<open>Parsing ends in the number of bytes read; \<open>parseFields\<close> is all before that.\<close>

definition parseFields :: "bool \<Rightarrow> u8 list \<Rightarrow> DependencyDescriptorReader \<Rightarrow> DependencyDescriptorReader reading" where
  "parseFields aliased buf r =
     bindR (readMandatoryFields r) (\<lambda>r.
     bindR (if length buf > 3 then readExtendedFields r else returnR r) (\<lambda>r.
       let r = (case AttachedStructure (rd_descriptor r) of
                  None \<Rightarrow> r | Some st \<Rightarrow> r\<lparr>rd_structure := Some st\<rparr>) in
       case rd_structure r of
         None \<Rightarrow> (\<lambda>b. (Invalidate b, Inl ErrDDReaderNoStructure))
       | Some st \<Rightarrow>
           bindR (if activeDecodeTargetsPresentFlag r
                  then bindR (ReadBits (NumDecodeTargets st)) (\<lambda>bitmask.
                         returnR (r\<lparr>rd_descriptor :=
                           (rd_descriptor r)\<lparr>ActiveDecodeTargetsBitmask := Some (ucast bitmask)\<rparr>\<rparr>))
                  else returnR r) (readFrameDependencyDefinition aliased st)))"

lemma bindR_assoc: "bindR (bindR m f) g = bindR m (\<lambda>x. bindR (f x) g)"
  by (rule ext) (simp add: bindR_def split: prod.splits sum.splits)

lemma Parse_fields: "Parse aliased buf r = bindR (parseFields aliased buf r) (\<lambda>r b. (b, Inr (rd_descriptor r, BytesRead b)))"
proof -
  have none: "bindR (\<lambda>b. (Invalidate b, Inl e)) g = (\<lambda>b. (Invalidate b, Inl e))" for e and g :: "DependencyDescriptorReader \<Rightarrow> (DependencyDescriptor \<times> nat) reading"
    by (rule ext) (simp add: bindR_def)
  show ?thesis
    unfolding Parse_def parseFields_def bindR_assoc Let_def
    by (intro arg_cong2 [of _ _ _ _ bindR] refl ext) (auto simp: bindR_assoc none split: option.splits)
qed
definition decoded_mask :: "DependencyDescriptorWriter \<Rightarrow> u32 option" where
  "decoded_mask w = (if AttachedStructure (wr_descriptor w) \<noteq> None \<and> \<not> shouldWriteActiveDecodeTargetsBitmask w
     then Some (ucast (push_bit (nat (NumDecodeTargets (wr_structure w))) (1 :: u64) - 1))
     else ActiveDecodeTargetsBitmask (wr_descriptor w))"

definition decoded :: "DependencyDescriptorWriter \<Rightarrow> FrameDependencyTemplate \<Rightarrow> DependencyDescriptor" where
  "decoded w f = (wr_descriptor w)\<lparr>FrameDependencies := Some f,
     Resolution := frame_resolution (wr_structure w) (wr_frame w), ActiveDecodeTargetsBitmask := decoded_mask w\<rparr>"

text \<open>The reader behind the mandatory fields and behind the flags and the structure.\<close>

definition after_mandatory :: "DependencyDescriptorWriter \<Rightarrow> DependencyDescriptorReader \<Rightarrow> DependencyDescriptorReader" where
  "after_mandatory w r = r\<lparr>rd_descriptor := (rd_descriptor r)\<lparr>FirstPacketInFrame := FirstPacketInFrame (wr_descriptor w),
       LastPacketInFrame := LastPacketInFrame (wr_descriptor w), FrameNumber := FrameNumber (wr_descriptor w)\<rparr>,
     frameDependencyTemplateId := (int (TemplateIdx (bestTemplate w)) + StructureId (wr_structure w)) smod int MaxTemplates\<rparr>"

definition after_extended :: "DependencyDescriptorWriter \<Rightarrow> DependencyDescriptorReader \<Rightarrow> DependencyDescriptorReader" where
  "after_extended w r = r\<lparr>activeDecodeTargetsPresentFlag := shouldWriteActiveDecodeTargetsBitmask w,
     customDtisFlag := NeedCustomDtis (bestTemplate w), customFdiffsFlag := NeedCustomFdiffs (bestTemplate w),
     customChainsFlag := NeedCustomChains (bestTemplate w),
     rd_descriptor := (if AttachedStructure (wr_descriptor w) \<noteq> None
       then (rd_descriptor r)\<lparr>AttachedStructure := AttachedStructure (wr_descriptor w),
              ActiveDecodeTargetsBitmask := Some (ucast (push_bit (nat (NumDecodeTargets (wr_structure w))) (1 :: u64) - 1))\<rparr>
       else rd_descriptor r)\<rparr>"

lemma reads_mandatory:
  assumes "ready w"
  shows "reads (readMandatoryFields r) (mandatory_bits w) (after_mandatory w r)"
proof -
  let ?tid = "(int (TemplateIdx (bestTemplate w)) + StructureId (wr_structure w)) smod int MaxTemplates"
  note fit = template_id(1) [OF assms refl]
  have tid: "uint (word_of_int ?tid :: u64) = ?tid" using fits_word(1) [OF fit] by simp
  have fn: "ucast (take_bit 16 (ucast (FrameNumber (wr_descriptor w)) :: u64)) = FrameNumber (wr_descriptor w)"
    by (rule bit_word_eqI) (auto simp: bit_simps)
  have num: "reads (bindR (ReadBits (int 16)) (\<lambda>n. returnR (r\<lparr>rd_descriptor := (rd_descriptor r)\<lparr>
        FirstPacketInFrame := FirstPacketInFrame (wr_descriptor w), LastPacketInFrame := LastPacketInFrame (wr_descriptor w),
        FrameNumber := ucast n\<rparr>, frameDependencyTemplateId := uint (word_of_int ?tid :: u64)\<rparr>)))
      (val_bits (ucast (FrameNumber (wr_descriptor w))) 16 @ []) (after_mandatory w r)"
    by (rule reads_bind [OF reads_ReadBits]) (simp_all add: fn tid after_mandatory_def reads_return)
  show ?thesis
    unfolding readMandatoryFields_def mandatory_bits_def
    by (rule reads_bind [OF reads_ReadBool], rule reads_bind [OF reads_ReadBool], rule reads_bind [OF reads_int [OF fit]])
      (use num in simp_all)
qed

lemma reads_extended:
  assumes "ready w"
  shows "reads (readExtendedFields r) (flag_bits w @ attached_bits w) (after_extended w r)"
proof -
  note F = ready_facts [OF assms]
  let ?r = "r\<lparr>activeDecodeTargetsPresentFlag := shouldWriteActiveDecodeTargetsBitmask w,
     customDtisFlag := NeedCustomDtis (bestTemplate w), customFdiffsFlag := NeedCustomFdiffs (bestTemplate w),
     customChainsFlag := NeedCustomChains (bestTemplate w)\<rparr>"
  let ?m = "if AttachedStructure (wr_descriptor w) \<noteq> None
     then bindR readTemplateDependencyStructure (\<lambda>st.
            let bitmask = ucast (push_bit (nat (NumDecodeTargets st)) (1 :: u64) - 1) in
            returnR (?r\<lparr>rd_descriptor := (rd_descriptor ?r)\<lparr>AttachedStructure := Some st,
                         ActiveDecodeTargetsBitmask := Some bitmask\<rparr>\<rparr>))
     else returnR ?r"
  have m: "reads ?m (attached_bits w) (after_extended w r)"
  proof (cases "AttachedStructure (wr_descriptor w) \<noteq> None")
    case True
    then have "AttachedStructure (wr_descriptor w) = Some (wr_structure w)" using assms by (auto simp: ready_def Let_def)
    with reads_bind [OF reads_structure [OF F(1)] reads_return, of "\<lambda>st. ?r\<lparr>rd_descriptor := (rd_descriptor ?r)\<lparr>
        AttachedStructure := Some st, ActiveDecodeTargetsBitmask := Some (ucast (push_bit (nat (NumDecodeTargets st)) (1 :: u64) - 1))\<rparr>\<rparr>"]
    show ?thesis by (simp add: attached_bits_def after_extended_def Let_def)
  next
    case False
    then show ?thesis by (simp add: attached_bits_def after_extended_def reads_return)
  qed
  show ?thesis
    unfolding readExtendedFields_def flag_bits_def append_assoc Let_def
    by (rule reads_bind [OF reads_ReadBool], rule reads_bind [OF reads_ReadBool], rule reads_bind [OF reads_ReadBool],
        rule reads_bind [OF reads_ReadBool], rule reads_bind [OF reads_ReadBool], rule m [unfolded Let_def])
qed

lemma not_extended:
  assumes "ready w" "\<not> hasExtendedFields w"
  shows "custom_bits w = []" "mask_bits w = []" "after_extended w (after_mandatory w (NewDependencyDescriptorReader s d)) =
    after_mandatory w (NewDependencyDescriptorReader s d)"
proof -
  note F = ready_facts [OF assms(1)] and M = ready_match [OF assms(1) refl]
  have e: "ExtraSizeBits (bestTemplate w) \<le> 0" "AttachedStructure (wr_descriptor w) = None"
    "ActiveDecodeTargetsBitmask (wr_descriptor w) = None"
    using assms(2) by (auto simp: hasExtendedFields_def)
  have "length (custom_bits w) = 0" using length_custom_bits [OF assms(1)] e(1) by linarith
  then show c: "custom_bits w = []" by simp
  have "length (sl (DecodeTargetIndications (wr_frame w))) > 0" using F(2,6) by (auto simp: frame_wf_def dtis_ok_def sl_def)
  then have 1: "\<not> NeedCustomDtis (bestTemplate w)" using c by (auto simp: custom_bits_def dti_bits_def val_bits_def split: if_splits)
  have 2: "\<not> NeedCustomFdiffs (bestTemplate w)" using c by (auto simp: custom_bits_def frame_fdiffs_bits_def val_bits_def split: if_splits)
  have tin: "Templates (wr_structure w) ! TemplateIdx (bestTemplate w) \<in> set (Templates (wr_structure w))" using F(4) by simp
  have len: "length (ChainDiffs (wr_frame w)) = length (ChainDiffs (Templates (wr_structure w) ! TemplateIdx (bestTemplate w)))"
    using F(1,2) tin by (auto simp: frame_wf_def structure_wf_def chains_ok_def)
  have 3: "\<not> NeedCustomChains (bestTemplate w)"
  proof
    assume n: "NeedCustomChains (bestTemplate w)"
    then have "ChainDiffs (wr_frame w) \<noteq> []" using M(3) len by auto
    then show False using c n by (auto simp: custom_bits_def frame_chains_bits_def val_bits_def split: if_splits)
  qed
  have 4: "\<not> shouldWriteActiveDecodeTargetsBitmask w" using e(3) by (simp add: shouldWriteActiveDecodeTargetsBitmask_def)
  then show "mask_bits w = []" by (simp add: mask_bits_def)
  show "after_extended w (after_mandatory w (NewDependencyDescriptorReader s d)) = after_mandatory w (NewDependencyDescriptorReader s d)"
    using 1 2 3 4 e(2) by (simp add: after_extended_def after_mandatory_def NewDependencyDescriptorReader_def)
qed

lemma reads_mask:
  assumes "ready w" and act: "activeDecodeTargetsPresentFlag r = shouldWriteActiveDecodeTargetsBitmask w"
    and before: "ActiveDecodeTargetsBitmask (rd_descriptor r) =
      (if AttachedStructure (wr_descriptor w) \<noteq> None then Some (ucast (push_bit (nat (NumDecodeTargets (wr_structure w))) (1 :: u64) - 1)) else None)"
  shows "reads (if activeDecodeTargetsPresentFlag r
       then bindR (ReadBits (NumDecodeTargets (wr_structure w))) (\<lambda>bitmask.
              returnR (r\<lparr>rd_descriptor := (rd_descriptor r)\<lparr>ActiveDecodeTargetsBitmask := Some (ucast bitmask)\<rparr>\<rparr>))
       else returnR r) (mask_bits w) (r\<lparr>rd_descriptor := (rd_descriptor r)\<lparr>ActiveDecodeTargetsBitmask := decoded_mask w\<rparr>\<rparr>)"
proof (cases "shouldWriteActiveDecodeTargetsBitmask w")
  case True
  note F = ready_facts [OF assms(1)]
  let ?n = "nat (NumDecodeTargets (wr_structure w))"
  obtain m where m: "ActiveDecodeTargetsBitmask (wr_descriptor w) = Some m" "take_bit ?n m = m"
    using mask_some [OF True] assms(1) by (auto simp: ready_def Let_def)
  have n: "?n \<le> 64" "int ?n = NumDecodeTargets (wr_structure w)" using F(6,7) by auto
  have u: "ucast (take_bit ?n (ucast m :: u64)) = m"
    by (subst (2) m(2) [symmetric], rule bit_word_eqI) (use F(7) in \<open>auto simp: bit_simps\<close>)
  have "reads (bindR (ReadBits (int ?n)) (\<lambda>bitmask.
       returnR (r\<lparr>rd_descriptor := (rd_descriptor r)\<lparr>ActiveDecodeTargetsBitmask := Some (ucast bitmask)\<rparr>\<rparr>)))
     (val_bits (ucast m) ?n @ []) (r\<lparr>rd_descriptor := (rd_descriptor r)\<lparr>ActiveDecodeTargetsBitmask := Some m\<rparr>\<rparr>)"
    by (rule reads_bind [OF reads_ReadBits [OF n(1)]]) (simp add: u reads_return)
  with True act m(1) n(2) show ?thesis by (simp add: mask_bits_def decoded_mask_def)
next
  case False
  have "ActiveDecodeTargetsBitmask (wr_descriptor w) = None" if "AttachedStructure (wr_descriptor w) = None"
    using False that by (auto simp: shouldWriteActiveDecodeTargetsBitmask_def split: option.splits)
  then have "r\<lparr>rd_descriptor := (rd_descriptor r)\<lparr>ActiveDecodeTargetsBitmask := decoded_mask w\<rparr>\<rparr> = r"
    using before False by (auto simp: decoded_mask_def)
  with False act show ?thesis by (simp add: mask_bits_def reads_return)
qed

lemma reads_fields:
  assumes "ready w" "length buf > 3 \<longleftrightarrow> hasExtendedFields w"
    and s: "s = Some (wr_structure w) \<or> AttachedStructure (wr_descriptor w) \<noteq> None"
  shows "\<exists>f r'. Clone f = Clone (wr_frame w) \<and> rd_descriptor r' = decoded w f \<and>
    reads (parseFields aliased buf (NewDependencyDescriptorReader s zeroDescriptor)) (descriptor_bits w) r'"
proof -
  let ?r0 = "NewDependencyDescriptorReader s zeroDescriptor"
  let ?r1 = "after_mandatory w ?r0"
  let ?r2 = "after_extended w ?r1"
  let ?r2' = "?r2\<lparr>rd_structure := Some (wr_structure w)\<rparr>"
  let ?r3 = "?r2'\<lparr>rd_descriptor := (rd_descriptor ?r2')\<lparr>ActiveDecodeTargetsBitmask := decoded_mask w\<rparr>\<rparr>"
  have r0: "rd_descriptor ?r0 = zeroDescriptor" "rd_structure ?r0 = s" by (simp_all add: NewDependencyDescriptorReader_def)
  have att: "AttachedStructure (rd_descriptor ?r2) = AttachedStructure (wr_descriptor w)"
    by (simp add: after_extended_def after_mandatory_def NewDependencyDescriptorReader_def zeroDescriptor_def)
  have att2: "AttachedStructure (wr_descriptor w) = None \<or> AttachedStructure (wr_descriptor w) = Some (wr_structure w)"
    using assms(1) by (simp add: ready_def Let_def)
  have str: "(case AttachedStructure (rd_descriptor ?r2) of None \<Rightarrow> ?r2 | Some st \<Rightarrow> ?r2\<lparr>rd_structure := Some st\<rparr>) = ?r2'"
    using att att2 s by (auto simp: after_extended_def after_mandatory_def NewDependencyDescriptorReader_def)
  have ext: "reads (if length buf > 3 then readExtendedFields ?r1 else returnR ?r1)
      (if hasExtendedFields w then flag_bits w @ attached_bits w else []) ?r2"
    using reads_extended [OF assms(1)] reads_return [of ?r1] not_extended(3) [OF assms(1)] assms(2) by simp
  have mask: "reads (if activeDecodeTargetsPresentFlag ?r2'
       then bindR (ReadBits (NumDecodeTargets (wr_structure w))) (\<lambda>bitmask.
              returnR (?r2'\<lparr>rd_descriptor := (rd_descriptor ?r2')\<lparr>ActiveDecodeTargetsBitmask := Some (ucast bitmask)\<rparr>\<rparr>))
       else returnR ?r2') (mask_bits w) ?r3"
    by (rule reads_mask [OF assms(1)]) (auto simp: after_extended_def after_mandatory_def NewDependencyDescriptorReader_def zeroDescriptor_def)
  have same: "?r3 = ?r3\<lparr>frameDependencyTemplateId := (int (TemplateIdx (bestTemplate w)) + StructureId (wr_structure w)) smod int MaxTemplates,
      customDtisFlag := NeedCustomDtis (bestTemplate w), customFdiffsFlag := NeedCustomFdiffs (bestTemplate w),
      customChainsFlag := NeedCustomChains (bestTemplate w)\<rparr>"
    by (simp add: after_extended_def after_mandatory_def)
  have none: "FrameDependencies (rd_descriptor ?r3) = None"
    by (simp add: after_extended_def after_mandatory_def NewDependencyDescriptorReader_def zeroDescriptor_def)
  obtain f where f: "Clone f = Clone (wr_frame w)" "reads (readFrameDependencyDefinition aliased (wr_structure w) ?r3) (custom_bits w)
      (?r3\<lparr>rd_descriptor := (rd_descriptor ?r3)\<lparr>FrameDependencies := Some f,
         Resolution := frame_resolution (wr_structure w) (wr_frame w)\<rparr>\<rparr>)"
    using reads_frame_definition [OF assms(1) same none] by blast
  let ?r4 = "?r3\<lparr>rd_descriptor := (rd_descriptor ?r3)\<lparr>FrameDependencies := Some f,
         Resolution := frame_resolution (wr_structure w) (wr_frame w)\<rparr>\<rparr>"
  have bits: "descriptor_bits w = mandatory_bits w @ (if hasExtendedFields w then flag_bits w @ attached_bits w else []) @
      mask_bits w @ custom_bits w"
    using not_extended [OF assms(1)] by (auto simp: descriptor_bits_def)
  have rs: "rd_structure ?r2' = Some (wr_structure w)" by simp
  have "reads (parseFields aliased buf ?r0) (descriptor_bits w) ?r4"
    unfolding parseFields_def bits
    by (rule reads_bind [OF reads_mandatory [OF assms(1)]], rule reads_bind [OF ext],
        unfold Let_def str rs option.case, rule reads_bind [OF mask], rule f(2))
  moreover have "rd_descriptor ?r4 = decoded w f"
    using att2 by (cases "wr_descriptor w")
      (auto simp: decoded_def after_extended_def after_mandatory_def NewDependencyDescriptorReader_def zeroDescriptor_def)
  ultimately show ?thesis using f(1) by blast
qed

text \<open>What \<open>Write\<close> produced, \<open>Unmarshal\<close> reads.\<close>

lemma BytesRead_consumed: "reader_wf b \<Longrightarrow> BytesRead b = (consumed b + 7) div 8"
proof -
  assume wf: "reader_wf b"
  then have r: "remainingBits b = int (8 * length (br_buf b)) - int (consumed b)" "br_pos b = consumed b div 8"
    by (auto simp: reader_wf_def consumed_def)
  have "(8 * int l - int c) mod 8 > 0 \<longleftrightarrow> c mod 8 \<noteq> 0" for l c :: nat by presburger
  then have "remainingBits b mod 8 > 0 \<longleftrightarrow> consumed b mod 8 \<noteq> 0" using r(1) by simp
  moreover have "(c + 7) div 8 = (if c mod 8 \<noteq> 0 then c div 8 + 1 else c div 8)" for c :: nat by presburger
  ultimately show ?thesis using r(2) by (simp add: BytesRead_def)
qed

lemma round_up: "8 * l = n + p \<Longrightarrow> p < 8 \<Longrightarrow> (n + 7) div 8 = l" for l n p :: nat
  by (rule div_nat_eqI) auto

lemma Unmarshal_ready:
  assumes "ready w" "bytes_bits out = descriptor_bits w @ pad" "length pad < 8"
    and s: "s = Some (wr_structure w) \<or> AttachedStructure (wr_descriptor w) \<noteq> None"
  shows "\<exists>f. Clone f = Clone (wr_frame w) \<and> Unmarshal aliased s zeroDescriptor out = Inr (decoded w f, length out)"
proof -
  let ?n = "length (descriptor_bits w)"
  have len: "8 * length out = ?n + length pad" using arg_cong [OF assms(2), of length] by simp
  have ext: "length out > 3 \<longleftrightarrow> hasExtendedFields w"
    using len assms(3) by (auto simp: descriptor_bits_def mandatory_bits_def flag_bits_def split: if_splits)
  obtain f r' where r': "Clone f = Clone (wr_frame w)" "rd_descriptor r' = decoded w f"
    "reads (parseFields aliased out (NewDependencyDescriptorReader s zeroDescriptor)) (descriptor_bits w) r'"
    using reads_fields [OF assms(1) ext s] by blast
  let ?b = "NewBitStreamReader out"
  have "rest ?b = descriptor_bits w @ pad" using assms(2) by (simp add: rest_def new_streams)
  then obtain b' where b': "parseFields aliased out (NewDependencyDescriptorReader s zeroDescriptor) ?b = (b', Inr r')"
    "reader_wf b'" "rest b' = pad" "br_buf b' = out"
    using r'(3) new_streams(1,5) [of out] unfolding reads_def by metis
  have "consumed b' \<le> 8 * length out" using b'(2,4) by (auto simp: reader_wf_def consumed_def)
  then have "consumed b' = ?n" using arg_cong [OF b'(3), of length] b'(4) len by (simp add: rest_def)
  then have "BytesRead b' = length out" using BytesRead_consumed [OF b'(2)] round_up [OF len assms(3)] by simp
  then show ?thesis using r'(1,2) b'(1) by (auto simp: Unmarshal_def Parse_fields bindR_def)
qed

section \<open>The template search\<close>

lemma firstSameLayerIdx_found:
  "firstSameLayerIdx f ts i = Some k \<Longrightarrow> i \<le> k \<and> k < i + length ts \<and> sameLayer f (ts ! (k - i))"
proof (induction ts arbitrary: i)
  case (Cons t ts)
  show ?case
  proof (cases "sameLayer f t")
    case False
    then have k: "firstSameLayerIdx f ts (i + 1) = Some k" using Cons.prems by simp
    have "i + 1 \<le> k \<and> k < i + 1 + length ts \<and> sameLayer f (ts ! (k - (i + 1)))" by (rule Cons.IH [OF k])
    then show ?thesis by (auto simp: nth_Cons')
  qed (use Cons.prems in auto)
qed simp

lemma firstSameLayerIdx_none: "firstSameLayerIdx f ts i = None \<longleftrightarrow> (\<forall>t \<in> set ts. \<not> sameLayer f t)"
  by (induction ts arbitrary: i) auto

lemma lastSameLayerIdx_bound: "lst < i + length ts \<or> lst = 0 \<Longrightarrow> lastSameLayerIdx f ts i lst < i + length ts \<or> lastSameLayerIdx f ts i lst = 0"
proof (induction ts arbitrary: i lst)
  case (Cons t ts)
  have "lastSameLayerIdx f ts (i + 1) l < i + 1 + length ts \<or> lastSameLayerIdx f ts (i + 1) l = 0"
    if "l = i \<or> l = lst" for l using Cons.IH [of l "i + 1"] Cons.prems that by auto
  then show ?case by simp
qed simp

lemma betterMatch_fold:
  assumes "b = foldl (betterMatch w) b0 is"
  shows "(b = b0 \<or> (\<exists>i \<in> set is. b = calculateMatch w i (Templates (wr_structure w) ! i))) \<and>
    ExtraSizeBits b \<le> ExtraSizeBits b0 \<and>
    (\<forall>i \<in> set is. ExtraSizeBits b \<le> ExtraSizeBits (calculateMatch w i (Templates (wr_structure w) ! i)))"
  using assms
proof (induction "is" arbitrary: b rule: rev_induct)
  case (snoc i "is")
  let ?b = "foldl (betterMatch w) b0 is"
  let ?m = "calculateMatch w i (Templates (wr_structure w) ! i)"
  have b: "b = (if ExtraSizeBits ?m < ExtraSizeBits ?b then ?m else ?b)" by (simp add: snoc.prems betterMatch_def [of w ?b] Let_def)
  note IH = snoc.IH [OF refl]
  show ?case
  proof (cases "ExtraSizeBits ?m < ExtraSizeBits ?b")
    case True
    then have "ExtraSizeBits ?m \<le> ExtraSizeBits x" if "ExtraSizeBits ?b \<le> ExtraSizeBits x" for x using that by simp
    with True b IH show ?thesis by auto
  next
    case False
    with b IH show ?thesis by (auto simp: not_less)
  qed
qed simp

lemma calculateMatch_idx: "TemplateIdx (calculateMatch w i t) = i"
  by (simp add: calculateMatch_def Let_def)

lemma calculateMatch_best: "calculateMatch (w\<lparr>bestTemplate := b\<rparr>) i t = calculateMatch w i t"
proof -
  have "chainDiffers (w\<lparr>bestTemplate := b\<rparr>) t = chainDiffers w t" by (rule ext) (simp add: chainDiffers_def)
  then show ?thesis by (simp add: calculateMatch_def Let_def cong: if_cong)
qed

lemma findBestTemplate_found:
  assumes "findBestTemplate w = Inr w'"
  shows "\<exists>first cands. firstSameLayerIdx (wr_frame w) (Templates (wr_structure w)) 0 = Some first \<and> first \<in> set cands \<and>
    cands = first # [first + 1..<lastSameLayerIdx (wr_frame w) (drop first (Templates (wr_structure w))) first 0 + 1] \<and>
    w' = w\<lparr>bestTemplate := bestTemplate w'\<rparr> \<and> TemplateIdx (bestTemplate w') \<in> set cands \<and>
    TemplateIdx (bestTemplate w') < length (Templates (wr_structure w)) \<and>
    bestTemplate w' = calculateMatch w (TemplateIdx (bestTemplate w')) (Templates (wr_structure w) ! TemplateIdx (bestTemplate w')) \<and>
    (\<forall>i \<in> set cands. ExtraSizeBits (bestTemplate w') \<le> ExtraSizeBits (calculateMatch w i (Templates (wr_structure w) ! i)))"
proof -
  let ?ts = "Templates (wr_structure w)" and ?f = "wr_frame w"
  obtain first where first: "firstSameLayerIdx ?f ?ts 0 = Some first"
    using assms by (auto simp: findBestTemplate_def Let_def split: option.splits)
  let ?lst = "lastSameLayerIdx ?f (drop first ?ts) first 0"
  let ?best = "foldl (betterMatch w) (calculateMatch w first (?ts ! first)) [first + 1..<?lst + 1]"
  have w': "w' = w\<lparr>bestTemplate := ?best\<rparr>" using assms first by (simp add: findBestTemplate_def Let_def)
  have "first < length ?ts" using firstSameLayerIdx_found [OF first] by simp
  moreover have "?lst < length ?ts \<or> ?lst = 0" using lastSameLayerIdx_bound [of 0 first "drop first ?ts" ?f] calculation by auto
  ultimately have "i < length ?ts" if "i \<in> set (first # [first + 1..<?lst + 1])" for i using that by auto
  moreover have "\<exists>i \<in> set (first # [first + 1..<?lst + 1]). ?best = calculateMatch w i (?ts ! i)"
    using betterMatch_fold [OF refl, of w "calculateMatch w first (?ts ! first)" "[first + 1..<?lst + 1]"] by auto
  moreover have "\<forall>i \<in> set (first # [first + 1..<?lst + 1]). ExtraSizeBits ?best \<le> ExtraSizeBits (calculateMatch w i (?ts ! i))"
    using betterMatch_fold [OF refl, of w "calculateMatch w first (?ts ! first)" "[first + 1..<?lst + 1]"] by auto
  ultimately obtain i where i: "i \<in> set (first # [first + 1..<?lst + 1])" "i < length ?ts" "?best = calculateMatch w i (?ts ! i)"
    "\<forall>i \<in> set (first # [first + 1..<?lst + 1]). ExtraSizeBits ?best \<le> ExtraSizeBits (calculateMatch w i (?ts ! i))" by blast
  have "bestTemplate w' = ?best" using w' by simp
  moreover have "TemplateIdx ?best = i" unfolding i(3) by (rule calculateMatch_idx)
  ultimately show ?thesis
    by (intro exI [of _ first] exI [of _ "first # [first + 1..<?lst + 1]"] conjI; (use first w' i in \<open>simp; fail\<close>)?)
qed
section \<open>Properties\<close>

lemma newWriter_some:
  assumes "newWriter (Some st) active d = Inr (w, n)"
  shows "\<exists>f w0. FrameDependencies d = Some f \<and> w0 = \<lparr>wr_descriptor = d, wr_frame = f, wr_structure = st, activeChains = active, bestTemplate = zeroMatch\<rparr> \<and>
    findBestTemplate w0 = Inr w \<and> n = nat ((ValueSizeBits w + 7) div 8)"
  using assms by (auto simp: newWriter_def newDependencyDescriptorWriter_def split: option.splits sum.splits prod.splits)

lemma findBestTemplate_again:
  assumes "findBestTemplate w = Inr w'"
  shows "findBestTemplate w' = Inr w'"
proof -
  obtain b where w': "w' = w\<lparr>bestTemplate := b\<rparr>" using findBestTemplate_found [OF assms] by blast
  have "betterMatch (w\<lparr>bestTemplate := b\<rparr>) = betterMatch w"
    by (intro ext) (simp add: betterMatch_def calculateMatch_best)
  then have "findBestTemplate (w\<lparr>bestTemplate := b\<rparr>) = map_sum id (\<lambda>x. x) (findBestTemplate w)"
    by (auto simp: findBestTemplate_def Let_def calculateMatch_best split: option.splits)
  then show ?thesis using assms w' by simp
qed

lemma newWriter_ready:
  assumes "newWriter (Some st) (NOT 0) d = Inr (w, n)" "FrameDependencies d = Some f" "structure_wf st" "frame_wf st f"
    and "AttachedStructure d = None \<or> AttachedStructure d = Some st"
    and "\<And>m. ActiveDecodeTargetsBitmask d = Some m \<Longrightarrow> take_bit (nat (NumDecodeTargets st)) m = m"
    and "sameLayer f (Templates st ! TemplateIdx (bestTemplate w))"
  shows "ready w" "findBestTemplate w = Inr w" "wr_descriptor w = d" "wr_frame w = f" "wr_structure w = st"
    "n = nat ((ValueSizeBits w + 7) div 8)"
proof -
  obtain w0 where w0: "w0 = \<lparr>wr_descriptor = d, wr_frame = f, wr_structure = st, activeChains = NOT 0, bestTemplate = zeroMatch\<rparr>"
    "findBestTemplate w0 = Inr w" "n = nat ((ValueSizeBits w + 7) div 8)"
    using newWriter_some [OF assms(1)] assms(2) by auto
  note found = findBestTemplate_found [OF w0(2)]
  then have upd: "w = w0\<lparr>bestTemplate := bestTemplate w\<rparr>" and idx: "TemplateIdx (bestTemplate w) < length (Templates st)"
    and best: "bestTemplate w = calculateMatch w0 (TemplateIdx (bestTemplate w)) (Templates st ! TemplateIdx (bestTemplate w))"
    using w0(1) by auto
  have sel: "wr_descriptor w = d" "wr_frame w = f" "wr_structure w = st" "activeChains w = NOT 0"
    by (subst upd, simp add: w0(1))+
  have best': "bestTemplate w = calculateMatch w (TemplateIdx (bestTemplate w)) (Templates st ! TemplateIdx (bestTemplate w))"
    using best calculateMatch_best [of "bestTemplate w" w0] upd by metis
  show "wr_descriptor w = d" "wr_frame w = f" "wr_structure w = st" "n = nat ((ValueSizeBits w + 7) div 8)"
    using sel w0(3) by auto
  show "findBestTemplate w = Inr w" by (rule findBestTemplate_again [OF w0(2)])
  show "ready w" unfolding ready_def Let_def sel using assms idx best' by auto
qed

text \<open>C12. A marshalled descriptor unmarshals to itself. For a well-formed structure and frame, when the template
  chosen is of the frame's layer, marshalling succeeds with exactly the bytes computed beforehand, and parsing
  them, with the structure known or attached, reads all of them and gives the same packet flags, frame number,
  layer, indications, frame and chain differences, the attached structure, the resolution of the layer and
  the bitmask (all decode targets when a structure comes without one).\<close>

theorem Marshal_Unmarshal:
  assumes "newWriter (Some st) (NOT 0) d = Inr (w, n)" "FrameDependencies d = Some f" "structure_wf st" "frame_wf st f"
    and "AttachedStructure d = None \<or> AttachedStructure d = Some st"
    and "\<And>m. ActiveDecodeTargetsBitmask d = Some m \<Longrightarrow> take_bit (nat (NumDecodeTargets st)) m = m"
    and "sameLayer f (Templates st ! TemplateIdx (bestTemplate w))"
    and "known = Some st \<or> AttachedStructure d \<noteq> None"
  shows "\<exists>out d' f'. Marshal (Some st) d = Inr out \<and> length out = n \<and>
    Unmarshal aliased known zeroDescriptor out = Inr (d', n) \<and>
    FirstPacketInFrame d' = FirstPacketInFrame d \<and> LastPacketInFrame d' = LastPacketInFrame d \<and>
    FrameNumber d' = FrameNumber d \<and> AttachedStructure d' = AttachedStructure d \<and>
    FrameDependencies d' = Some f' \<and> Clone f' = Clone f \<and> Resolution d' = frame_resolution st f \<and>
    (case ActiveDecodeTargetsBitmask d of
       Some m \<Rightarrow> ActiveDecodeTargetsBitmask d' = Some m
     | None \<Rightarrow> ActiveDecodeTargetsBitmask d' =
         (if AttachedStructure d = None then None else Some (mask (nat (NumDecodeTargets st)))))"
proof -
  note R = newWriter_ready [OF assms(1-7)]
  obtain out r where out: "Write w (replicate n 0) = Inr out" "length out = n" "r < 8"
    "bytes_bits out = descriptor_bits w @ val_bits 0 r"
    using Write_ready [OF R(1,2), of "replicate n 0"] R(6) by auto
  obtain f' where f': "Clone f' = Clone (wr_frame w)" "Unmarshal aliased known zeroDescriptor out = Inr (decoded w f', n)"
    using Unmarshal_ready [OF R(1) out(4)] out(2,3) assms(8) R(3,5) by auto
  have nd: "1 \<le> NumDecodeTargets st" "NumDecodeTargets st \<le> 32" using ready_facts(6,7) [OF R(1)] R(5) by auto
  have all: "ucast (push_bit (nat (NumDecodeTargets st)) (1 :: u64) - 1) = (mask (nat (NumDecodeTargets st)) :: u32)"
    by (rule bit_word_eqI) (use nd in \<open>auto simp: bit_simps simp flip: mask_eq_decr_exp mask_eq_exp_minus_1\<close>)
  have "ActiveDecodeTargetsBitmask (decoded w f') = Some m" if "ActiveDecodeTargetsBitmask d = Some m" for m
  proof (cases "AttachedStructure d \<noteq> None \<and> \<not> shouldWriteActiveDecodeTargetsBitmask w")
    case True
    then have "(ucast m :: u64) = push_bit (nat (NumDecodeTargets st)) 1 - 1"
      using that R(3,5) by (simp add: shouldWriteActiveDecodeTargetsBitmask_def Let_def)
    then have "m = ucast (push_bit (nat (NumDecodeTargets st)) (1 :: u64) - 1)" by (metis ucast_u32_back)
    with True that R(3,5) show ?thesis by (simp add: decoded_def decoded_mask_def)
  qed (use that R(3) in \<open>auto simp: decoded_def decoded_mask_def\<close>)
  moreover have "ActiveDecodeTargetsBitmask (decoded w f') = (if AttachedStructure d = None then None else Some (mask (nat (NumDecodeTargets st))))"
    if "ActiveDecodeTargetsBitmask d = None"
    using that R(3,5) all by (simp add: decoded_def decoded_mask_def shouldWriteActiveDecodeTargetsBitmask_def)
  moreover have "Marshal (Some st) d = Inr out" using assms(1) out(1) by (simp add: Marshal_def MarshalWithActiveChains_def)
  ultimately show ?thesis using f' out(2) R(3-5)
    by (intro exI [of _ out] exI [of _ "decoded w f'"] exI [of _ f']) (auto simp: decoded_def split: option.splits)
qed

definition exampleFrame :: FrameDependencyTemplate where
  "exampleFrame = \<lparr>SpatialId = 0, TemporalId = 1, DecodeTargetIndications = Some [0, 1], FrameDiffs = Some [3, 300], ChainDiffs = [1]\<rparr>"

definition exampleDescriptor :: DependencyDescriptor where
  "exampleDescriptor = \<lparr>FirstPacketInFrame = True, LastPacketInFrame = False, FrameNumber = 4711,
     FrameDependencies = Some exampleFrame, Resolution = None, ActiveDecodeTargetsBitmask = Some 1,
     AttachedStructure = Some exampleStructure\<rparr>"

lemma example_wf: "structure_wf exampleStructure" "frame_wf exampleStructure exampleFrame"
  by (rule exampleStructure_wf)
    (auto simp: exampleStructure_def exampleFrame_def dtis_ok_def fdiffs_ok_def chains_ok_def frame_wf_def sl_def)

lemma example_writer:
  "\<exists>w n. newWriter (Some exampleStructure) (NOT 0) exampleDescriptor = Inr (w, n) \<and> TemplateIdx (bestTemplate w) = 1"
  by (simp add: newWriter_def newDependencyDescriptorWriter_def exampleDescriptor_def exampleStructure_def exampleFrame_def
      findBestTemplate_def sameLayer_def calculateMatch_def chainDiffers_def sl_def Let_def fdiffSizeBits_def)

theorem Marshal_Unmarshal_witness:
  "\<exists>out d'. Marshal (Some exampleStructure) exampleDescriptor = Inr out \<and>
     Unmarshal False None zeroDescriptor out = Inr (d', length out) \<and> FrameNumber d' = 4711 \<and>
     AttachedStructure d' = Some exampleStructure \<and> ActiveDecodeTargetsBitmask d' = Some 1 \<and>
     Resolution d' = Some \<lparr>Width = 640, Height = 360\<rparr>"
proof -
  obtain w n where w: "newWriter (Some exampleStructure) (NOT 0) exampleDescriptor = Inr (w, n)" "TemplateIdx (bestTemplate w) = 1"
    using example_writer by blast
  have d: "FrameDependencies exampleDescriptor = Some exampleFrame" "ActiveDecodeTargetsBitmask exampleDescriptor = Some 1"
    "AttachedStructure exampleDescriptor = Some exampleStructure" "FrameNumber exampleDescriptor = 4711"
    by (simp_all add: exampleDescriptor_def)
  have one: "take_bit (nat (NumDecodeTargets exampleStructure)) 1 = (1 :: u32)" by (simp add: exampleStructure_def)
  have same: "sameLayer exampleFrame (Templates exampleStructure ! TemplateIdx (bestTemplate w))"
    unfolding w(2) by (simp add: sameLayer_def exampleFrame_def exampleStructure_def)
  have res: "frame_resolution exampleStructure exampleFrame = Some \<lparr>Width = 640, Height = 360\<rparr>"
    by (simp add: frame_resolution_def exampleStructure_def exampleFrame_def)
  from Marshal_Unmarshal [OF w(1) d(1) example_wf _ _ same, of None False] d one res show ?thesis by auto
qed

lemma byte_bits_inj: "byte_bits x = byte_bits y \<Longrightarrow> x = y"
proof (rule bit_word_eqI)
  fix n assume eq: "byte_bits x = byte_bits y" and "n < LENGTH(8)"
  then have n: "n < 8" by simp
  have "byte_bits z ! (7 - n) = bit z n" for z using n nth_upt [of 0 "7 - n" 8] by (simp add: byte_bits_def)
  then show "bit x n = bit y n" using eq by metis
qed

lemma bytes_bits_inj: "bytes_bits xs = bytes_bits ys \<Longrightarrow> xs = ys"
proof (induction xs arbitrary: ys)
  case Nil
  then have "8 * length ys = 8 * length ([] :: u8 list)" by (metis length_bytes_bits)
  then show ?case by simp
next
  case (Cons x xs)
  then have "8 * length ys = 8 * length (x # xs)" by (metis length_bytes_bits)
  then obtain y ys' where ys: "ys = y # ys'" by (cases ys) auto
  have "byte_bits x @ bytes_bits xs = byte_bits y @ bytes_bits ys'" using Cons.prems ys by (simp add: bytes_bits_def)
  moreover have "length (byte_bits x) = length (byte_bits y)" by (simp add: byte_bits_def)
  ultimately have "byte_bits x = byte_bits y \<and> bytes_bits xs = bytes_bits ys'" by simp
  then show ?case using Cons.IH byte_bits_inj ys by blast
qed

text \<open>C19. Marshalling into storage of the caller writes the same bytes as marshalling into a new buffer,
  whatever the storage held, leaves the storage behind them alone, and refuses storage that is too small.\<close>

theorem MarshalTo_equivalent:
  assumes "newWriter (Some st) (NOT 0) d = Inr (w, n)" "FrameDependencies d = Some f" "structure_wf st" "frame_wf st f"
    and "AttachedStructure d = None \<or> AttachedStructure d = Some st"
    and "\<And>m. ActiveDecodeTargetsBitmask d = Some m \<Longrightarrow> take_bit (nat (NumDecodeTargets st)) m = m"
    and "sameLayer f (Templates st ! TemplateIdx (bestTemplate w))"
  shows "\<exists>out. Marshal (Some st) d = Inr out \<and> length out = n \<and>
    MarshalTo (Some st) d buf = (if length buf < n then Inl ErrBufferTooSmall else Inr (out @ drop n buf, n))"
proof -
  note R = newWriter_ready [OF assms]
  have run: "\<exists>out r. Write w b = Inr out \<and> length out = n \<and> r < 8 \<and> bytes_bits out = descriptor_bits w @ val_bits 0 r"
    if "length b = n" for b using Write_ready [OF R(1,2), of b] R(6) that by auto
  obtain out r where out: "Write w (replicate n 0) = Inr out" "length out = n" "r < 8"
    "bytes_bits out = descriptor_bits w @ val_bits 0 r" using run [of "replicate n 0"] by auto
  have same: "Write w (take n buf) = Inr out" if le: "n \<le> length buf"
  proof -
    obtain out' r' where out': "Write w (take n buf) = Inr out'" "length out' = n" "bytes_bits out' = descriptor_bits w @ val_bits 0 r'"
      using run [of "take n buf"] le by auto
    have "r' = r" using arg_cong [OF out(4), of length] arg_cong [OF out'(3), of length] out(2) out'(2) by simp
    then have "out' = out" using out(4) out'(3) by (intro bytes_bits_inj) simp
    with out'(1) show ?thesis by simp
  qed
  have "Marshal (Some st) d = Inr out" using assms(1) out(1) by (simp add: Marshal_def MarshalWithActiveChains_def)
  moreover have "MarshalTo (Some st) d buf = (if length buf < n then Inl ErrBufferTooSmall else Inr (out @ drop n buf, n))"
    using assms(1) same by (simp add: MarshalTo_def)
  ultimately show ?thesis using out(2) by blast
qed

theorem MarshalTo_equivalent_witness:
  "MarshalTo (Some exampleStructure) exampleDescriptor [1, 2] = Inl ErrBufferTooSmall"
proof -
  obtain w n where w: "newWriter (Some exampleStructure) (NOT 0) exampleDescriptor = Inr (w, n)" "TemplateIdx (bestTemplate w) = 1"
    using example_writer by blast
  have d: "FrameDependencies exampleDescriptor = Some exampleFrame" "ActiveDecodeTargetsBitmask exampleDescriptor = Some 1"
    "AttachedStructure exampleDescriptor = Some exampleStructure"
    by (simp_all add: exampleDescriptor_def)
  have one: "take_bit (nat (NumDecodeTargets exampleStructure)) 1 = (1 :: u32)" by (simp add: exampleStructure_def)
  have same: "sameLayer exampleFrame (Templates exampleStructure ! TemplateIdx (bestTemplate w))"
    unfolding w(2) by (simp add: sameLayer_def exampleFrame_def exampleStructure_def)
  note R = newWriter_ready [OF w(1) d(1) example_wf _ _ same]
  have "24 \<le> ValueSizeBits w"
    using length_descriptor_bits [OF R(1)] d one by (auto simp: descriptor_bits_def mandatory_bits_def)
  then have "2 < n" using R(6) d one by auto
  with MarshalTo_equivalent [OF w(1) d(1) example_wf _ _ same, of "[1, 2]"] d one show ?thesis by auto
qed

lemma lastSameLayerIdx_ge:
  "lst \<le> i \<Longrightarrow> k < length ts \<Longrightarrow> \<not> sameLayer f (ts ! k) \<Longrightarrow> i + k \<le> lastSameLayerIdx f ts i lst"
proof (induction ts arbitrary: i lst k)
  case (Cons t ts)
  have mono: "l \<le> lastSameLayerIdx f ts (i + 1) l" if "l \<le> i" for l
  proof -
    have "l \<le> j \<Longrightarrow> l \<le> lastSameLayerIdx f ts j l" for l j
    proof (induction ts arbitrary: j l)
      case (Cons u us)
      from Cons.prems have "j \<le> lastSameLayerIdx f us (j + 1) j" "l \<le> lastSameLayerIdx f us (j + 1) l"
        using Cons.IH [of j "j + 1"] Cons.IH [of l "j + 1"] by auto
      with Cons.prems show ?case by (auto intro: order_trans)
    qed simp
    with that show ?thesis by simp
  qed
  show ?case
  proof (cases k)
    case 0
    then show ?thesis using mono [of i] Cons.prems by simp
  next
    case (Suc k')
    have "i + 1 + k' \<le> lastSameLayerIdx f ts (i + 1) l" if "l \<le> i + 1" for l
      using Cons.IH [OF that, of k'] Cons.prems Suc by simp
    then show ?thesis using Suc Cons.prems(1) by simp
  qed
qed simp

lemma firstSameLayerIdx_before:
  "firstSameLayerIdx f ts i = Some k \<Longrightarrow> j < k - i \<Longrightarrow> \<not> sameLayer f (ts ! j)"
proof (induction ts arbitrary: i j)
  case (Cons t ts)
  show ?case
  proof (cases "sameLayer f t")
    case False
    then show ?thesis using Cons.prems Cons.IH [of "i + 1" "j - 1"] by (cases j) auto
  qed (use Cons.prems in auto)
qed simp

text \<open>The template search fails exactly when no template has the frame's layer. Otherwise the chosen match is
  the one computed for its template, the chosen template is in the structure, and it costs no more extra bits
  than the first template of the layer, nor than any later one that a template of another layer follows.\<close>

theorem findBestTemplate_cheapest:
  "let ts = Templates (wr_structure w); f = wr_frame w in
   case findBestTemplate w of
      Inl err \<Rightarrow> err = ErrNoTemplateFound \<and> (\<forall>i < length ts. \<not> sameLayer f (ts ! i))
    | Inr w' \<Rightarrow>
        (let b = bestTemplate w' in
         w' = w\<lparr>bestTemplate := b\<rparr> \<and> TemplateIdx b < length ts \<and>
         b = calculateMatch w (TemplateIdx b) (ts ! TemplateIdx b) \<and>
         (\<exists>first < length ts. sameLayer f (ts ! first) \<and> (\<forall>i < first. \<not> sameLayer f (ts ! i)) \<and>
            ExtraSizeBits b \<le> ExtraSizeBits (calculateMatch w first (ts ! first)) \<and>
            (\<forall>i j. first < i \<and> i < j \<and> j < length ts \<and> sameLayer f (ts ! i) \<and> \<not> sameLayer f (ts ! j) \<longrightarrow>
               ExtraSizeBits b \<le> ExtraSizeBits (calculateMatch w i (ts ! i)))))"
proof -
  let ?ts = "Templates (wr_structure w)" and ?f = "wr_frame w"
  show ?thesis
  proof (cases "findBestTemplate w")
    case (Inl err)
    then have "firstSameLayerIdx ?f ?ts 0 = None" "err = ErrNoTemplateFound"
      by (auto simp: findBestTemplate_def Let_def split: option.splits)
    then show ?thesis using Inl by (auto simp: firstSameLayerIdx_none)
  next
    case (Inr w')
    obtain first cands where c: "firstSameLayerIdx ?f ?ts 0 = Some first" "first \<in> set cands"
      "cands = first # [first + 1..<lastSameLayerIdx ?f (drop first ?ts) first 0 + 1]"
      "w' = w\<lparr>bestTemplate := bestTemplate w'\<rparr>" "TemplateIdx (bestTemplate w') < length ?ts"
      "bestTemplate w' = calculateMatch w (TemplateIdx (bestTemplate w')) (?ts ! TemplateIdx (bestTemplate w'))"
      "\<forall>i \<in> set cands. ExtraSizeBits (bestTemplate w') \<le> ExtraSizeBits (calculateMatch w i (?ts ! i))"
      using findBestTemplate_found [OF Inr] by auto
    have first: "first < length ?ts" "sameLayer ?f (?ts ! first)" using firstSameLayerIdx_found [OF c(1)] by auto
    have before: "\<not> sameLayer ?f (?ts ! i)" if "i < first" for i
      using c(1) that firstSameLayerIdx_before [of ?f ?ts 0 first i] by simp
    have later: "i \<in> set cands" if "first < i" "i < j" "j < length ?ts" "\<not> sameLayer ?f (?ts ! j)" for i j
    proof -
      have "first + (j - first) \<le> lastSameLayerIdx ?f (drop first ?ts) first 0"
        by (rule lastSameLayerIdx_ge) (use that in auto)
      with that c(3) show ?thesis by auto
    qed
    have "ExtraSizeBits (bestTemplate w') \<le> ExtraSizeBits (calculateMatch w i (?ts ! i))"
      if "first < i" "i < j" "j < length ?ts" "\<not> sameLayer ?f (?ts ! j)" for i j using c(7) later [OF that] by blast
    with Inr c(2,4-7) first before show ?thesis by (auto simp: Let_def intro!: exI [of _ first])
  qed
qed

theorem findBestTemplate_cheapest_witness:
  "\<exists>w n. newWriter (Some exampleStructure) (NOT 0) exampleDescriptor = Inr (w, n) \<and>
     ExtraSizeBits (bestTemplate w) \<le> ExtraSizeBits (calculateMatch w 1 (Templates exampleStructure ! 1))"
proof -
  obtain w n where w: "newWriter (Some exampleStructure) (NOT 0) exampleDescriptor = Inr (w, n)"
    using example_writer by blast
  then obtain w0 where w0: "wr_structure w0 = exampleStructure" "wr_frame w0 = exampleFrame" "findBestTemplate w0 = Inr w"
  proof -
    have "FrameDependencies exampleDescriptor = Some exampleFrame" by (simp add: exampleDescriptor_def)
    with newWriter_some [OF w] obtain w1 where "w1 = \<lparr>wr_descriptor = exampleDescriptor, wr_frame = exampleFrame,
        wr_structure = exampleStructure, activeChains = NOT 0, bestTemplate = zeroMatch\<rparr>" "findBestTemplate w1 = Inr w" by auto
    then show ?thesis using that [of w1] by simp
  qed
  then obtain b where b: "w = w0\<lparr>bestTemplate := b\<rparr>" using findBestTemplate_found by blast
  have "first = 1" if "first < length (Templates exampleStructure)" "sameLayer exampleFrame (Templates exampleStructure ! first)" for first
    using that by (auto simp: exampleStructure_def exampleFrame_def sameLayer_def less_Suc_eq)
  with findBestTemplate_cheapest [of w0] w0 have
    "ExtraSizeBits (bestTemplate w) \<le> ExtraSizeBits (calculateMatch w0 1 (Templates exampleStructure ! 1))"
    by (auto simp: Let_def)
  with w b show ?thesis by (auto simp: calculateMatch_best)
qed

section \<open>Choosing a template of another layer\<close>

text \<open>C20. The second loop of \<open>findBestTemplate\<close> keeps the last template of another layer instead of the
  last one of the frame's layer, so the search runs over templates of other layers: for every structure and frame, when a
  template of another layer comes behind one of the frame's layer and costs fewer extra bits than every
  template of the frame's layer, the writer settles on a template of another layer, and the frame is announced as one of that layer.\<close>

theorem findBestTemplate_other_layer:
  assumes "i < j" "j < length (Templates (wr_structure w))"
    and "sameLayer (wr_frame w) (Templates (wr_structure w) ! i)" "\<not> sameLayer (wr_frame w) (Templates (wr_structure w) ! j)"
    and "\<forall>k < length (Templates (wr_structure w)). sameLayer (wr_frame w) (Templates (wr_structure w) ! k) \<longrightarrow>
      ExtraSizeBits (calculateMatch w j (Templates (wr_structure w) ! j)) < ExtraSizeBits (calculateMatch w k (Templates (wr_structure w) ! k))"
  shows "\<exists>w'. findBestTemplate w = Inr w' \<and> TemplateIdx (bestTemplate w') < length (Templates (wr_structure w)) \<and>
    \<not> sameLayer (wr_frame w) (Templates (wr_structure w) ! TemplateIdx (bestTemplate w'))"
proof -
  let ?ts = "Templates (wr_structure w)" and ?f = "wr_frame w"
  have "?ts ! i \<in> set ?ts" using assms(1,2) by simp
  then have "firstSameLayerIdx ?f ?ts 0 \<noteq> None" using assms(3) unfolding firstSameLayerIdx_none by blast
  then obtain w' where w': "findBestTemplate w = Inr w'" by (auto simp: findBestTemplate_def Let_def)
  from findBestTemplate_found [OF this] obtain first cands where c: "firstSameLayerIdx ?f ?ts 0 = Some first"
    "cands = first # [first + 1..<lastSameLayerIdx ?f (drop first ?ts) first 0 + 1]" "TemplateIdx (bestTemplate w') < length ?ts"
    "bestTemplate w' = calculateMatch w (TemplateIdx (bestTemplate w')) (?ts ! TemplateIdx (bestTemplate w'))"
    "\<forall>i \<in> set cands. ExtraSizeBits (bestTemplate w') \<le> ExtraSizeBits (calculateMatch w i (?ts ! i))" by blast
  have "first \<le> i" using firstSameLayerIdx_before [OF c(1), of i] assms(3) by (cases "first \<le> i") auto
  moreover from this have "first + (j - first) \<le> lastSameLayerIdx ?f (drop first ?ts) first 0"
    by (intro lastSameLayerIdx_ge) (use assms in auto)
  ultimately have "j \<in> set cands" using c(2) assms(1) by auto
  then have "ExtraSizeBits (bestTemplate w') \<le> ExtraSizeBits (calculateMatch w j (?ts ! j))" using c(5) by blast
  then have "\<not> sameLayer ?f (?ts ! TemplateIdx (bestTemplate w'))" using assms(5) c(3,4) by (metis not_le)
  with w' c(3) show ?thesis by blast
qed

text \<open>A base layer frame with the dependencies of the template of the next temporal layer.\<close>

definition misplacedWriter :: DependencyDescriptorWriter where
  "misplacedWriter = \<lparr>wr_descriptor = exampleDescriptor,
     wr_frame = (Templates exampleStructure ! 1)\<lparr>TemporalId := 0\<rparr>,
     wr_structure = exampleStructure, activeChains = NOT 0, bestTemplate = zeroMatch\<rparr>"

theorem findBestTemplate_other_layer_witness:
  "\<exists>w'. findBestTemplate misplacedWriter = Inr w' \<and> TemporalId (wr_frame misplacedWriter) = 0 \<and>
     TemporalId (Templates exampleStructure ! TemplateIdx (bestTemplate w')) = 1"
proof -
  have s: "wr_structure misplacedWriter = exampleStructure" "SpatialId (wr_frame misplacedWriter) = 0" "TemporalId (wr_frame misplacedWriter) = 0"
    by (simp_all add: misplacedWriter_def exampleStructure_def)
  have "sameLayer (wr_frame misplacedWriter) (Templates exampleStructure ! k) \<longrightarrow>
      ExtraSizeBits (calculateMatch misplacedWriter 1 (Templates exampleStructure ! 1)) <
      ExtraSizeBits (calculateMatch misplacedWriter k (Templates exampleStructure ! k))" if "k < length (Templates exampleStructure)" for k
    using that
    by (auto simp: misplacedWriter_def exampleStructure_def sameLayer_def less_Suc_eq calculateMatch_def chainDiffers_def sl_def
        Let_def fdiffSizeBits_def)
  then have "\<exists>w'. findBestTemplate misplacedWriter = Inr w' \<and> TemplateIdx (bestTemplate w') < length (Templates exampleStructure) \<and>
      \<not> sameLayer (wr_frame misplacedWriter) (Templates exampleStructure ! TemplateIdx (bestTemplate w'))"
    using findBestTemplate_other_layer [of 0 1 misplacedWriter]
    by (simp only: s) (simp add: misplacedWriter_def exampleStructure_def sameLayer_def)
  then show ?thesis
    by (auto simp: s sameLayer_def exampleStructure_def less_Suc_eq)
qed

end
