(* ===== verification/LayerSelector.thy ===== *)
theory LayerSelector
  imports ExtPacket
begin

text \<open>
  Selection of video layers: \<open>base.go\<close>, \<open>simulcast.go\<close>, \<open>vp9.go\<close> and \<open>null.go\<close> of
  \<open>pkg/sfu/videolayerselector\<close>, and the temporal layer selectors of its subpackage \<open>temporallayerselector\<close>.

  A selector embeds \<open>Base\<close> and its methods change it: they are functions from \<open>Base\<close> to \<open>Base\<close>. The interface
  \<open>TemporalLayerSelector\<close> is the datatype of its three implementations. Setters and getters of single fields are
  the record's own; log calls are left out.

  Lemmas: simulcast moves between layers on key frames only, and, where the target is not above the maximum, locks onto it
  with the first key frame of its layer; the VP9 selector never lets a layer above the current one pass; the
  temporal selector's window says which recent frames were forwarded, and it switches up only where every frame
  that is referenced was.
\<close>

section \<open>Temporal layers\<close>

definition ddFrameWindow :: u64 where
  "ddFrameWindow = 64"

record TemporalDD =
  td_initialized :: bool
  highestFrame :: u64
  forwardedMask :: u64

definition areForwarded :: "TemporalDD \<Rightarrow> u64 \<Rightarrow> int list \<Rightarrow> bool" where
  "areForwarded d frame frameDiffs =
     (td_initialized d \<and>
      list_all (\<lambda>diff.
        \<not> (diff \<le> 0 \<or> word_of_int diff > frame) \<and>
        (let ref = frame - word_of_int diff in
         \<not> (ref > highestFrame d \<or> highestFrame d - ref \<ge> ddFrameWindow \<or>
            forwardedMask d AND push_bit (unat (highestFrame d - ref)) 1 = 0))) frameDiffs)"

definition td_onFrame :: "u64 \<Rightarrow> bool \<Rightarrow> bool \<Rightarrow> TemporalDD \<Rightarrow> TemporalDD" where
  "td_onFrame frame isKeyFrame isForwarded d =
     (let mark = (\<lambda>d. if isForwarded
                      then d\<lparr>forwardedMask := forwardedMask d OR push_bit (unat (highestFrame d - frame)) 1\<rparr> else d)
      in if isKeyFrame \<or> \<not> td_initialized d \<or> frame \<ge> highestFrame d + ddFrameWindow
         then mark (d\<lparr>td_initialized := True, highestFrame := frame, forwardedMask := 0\<rparr>)
         else if frame > highestFrame d
         then mark (d\<lparr>forwardedMask := push_bit (unat (frame - highestFrame d)) (forwardedMask d), highestFrame := frame\<rparr>)
         else if highestFrame d - frame \<ge> ddFrameWindow then d
         else mark d)"

text \<open>The loop over the decode targets at a frame that starts.\<close>

fun switchTarget :: "int list \<Rightarrow> int \<Rightarrow> int \<Rightarrow> DependencyDescriptorDecodeTarget list \<Rightarrow> int option" where
  "switchTarget dtis current target [] = None"
| "switchTarget dtis current target (dt # dts) =
     (if Temporal (Layer dt) \<le> current \<or> Temporal (Layer dt) > target \<or> Target dt \<ge> int (length dtis)
      then switchTarget dtis current target dts
      else if dtis ! nat (Target dt) = DecodeTargetSwitch then Some (Temporal (Layer dt))
      else switchTarget dtis current target dts)"

definition td_Select :: "ExtPacket \<Rightarrow> int \<Rightarrow> int \<Rightarrow> TemporalDD \<Rightarrow> TemporalDD \<times> int \<times> int" where
  "td_Select extPkt current target d =
     (case ep_DependencyDescriptor extPkt of
        None \<Rightarrow> (d, current, current)
      | Some ddwdt \<Rightarrow>
      (case Descriptor ddwdt of
        None \<Rightarrow> (d, current, current)
      | Some desc \<Rightarrow>
      (case FrameDependencies desc of
        None \<Rightarrow> (d, current, current)
      | Some fd \<Rightarrow>
          let isFrameStart = (FirstPacketInFrame desc \<and> \<not> IsOutOfOrder extPkt);
              (this, next) =
                (if current < target \<and> IsKeyFrame extPkt then (target, target)
                 else if current < target \<and> isFrameStart
                 then if \<not> areForwarded d (ExtFrameNum ddwdt) (sl (FrameDiffs fd)) then (current, current)
                      else case switchTarget (sl (DecodeTargetIndications fd)) current target (DecodeTargets ddwdt) of
                             None \<Rightarrow> (current, current)
                           | Some t \<Rightarrow> (t, t)
                 else if current > target \<and> Marker extPkt then (current, target)
                 else (current, current));
              d = (if IsKeyFrame extPkt \<or> isFrameStart
                   then td_onFrame (ExtFrameNum ddwdt) (IsKeyFrame extPkt) (Temporal (ep_VideoLayer extPkt) \<le> this) d else d)
          in (d, this, next))))"

definition tv_Select :: "ExtPacket \<Rightarrow> int \<Rightarrow> int \<Rightarrow> int \<times> int" where
  "tv_Select extPkt current target =
     (if current = target then (current, current)
      else case ep_VP8 extPkt of
             None \<Rightarrow> (current, current)
           | Some vp8 \<Rightarrow>
               let tid = Temporal (ep_VideoLayer extPkt)
               in if current < target
                  then if vp8_IsKeyFrame vp8 \<and> tid \<le> target then (target, target)
                       else if tid = current + 1 \<and> tid \<le> target \<and> vp8_S vp8 \<and> vp8_Y vp8 then (tid, tid)
                       else (current, current)
                  else if Marker extPkt then (current, target) else (current, current))"

definition tn_Select :: "int \<Rightarrow> int \<Rightarrow> int \<times> int" where
  "tn_Select current target = (target, target)"

datatype TemporalLayerSelector = tlsNull | tlsVP8 | tlsDD TemporalDD

definition tls_Select :: "ExtPacket \<Rightarrow> int \<Rightarrow> int \<Rightarrow> TemporalLayerSelector \<Rightarrow> TemporalLayerSelector \<times> int \<times> int" where
  "tls_Select extPkt current target tls =
     (case tls of
        tlsNull \<Rightarrow> (tlsNull, tn_Select current target)
      | tlsVP8 \<Rightarrow> (tlsVP8, tv_Select extPkt current target)
      | tlsDD d \<Rightarrow> (case td_Select extPkt current target d of (d, r) \<Rightarrow> (tlsDD d, r)))"

section \<open>Base\<close>

record Base =
  tls :: "TemporalLayerSelector option"
  maxLayer :: VideoLayer
  maxSeenLayer :: VideoLayer
  targetLayer :: VideoLayer
  previousTargetLayer :: VideoLayer
  requestSpatial :: int
  currentLayer :: VideoLayer
  previousLayer :: VideoLayer
  enableStartAtDesiredQuality :: bool

definition NewBase :: Base where
  "NewBase = \<lparr>tls = None, maxLayer = InvalidLayer, maxSeenLayer = InvalidLayer, targetLayer = InvalidLayer,
     previousTargetLayer = InvalidLayer, requestSpatial = InvalidLayerSpatial, currentLayer = InvalidLayer,
     previousLayer = InvalidLayer, enableStartAtDesiredQuality = False\<rparr>"

definition SetMaxSpatial :: "int \<Rightarrow> Base \<Rightarrow> Base" where
  "SetMaxSpatial l b = b\<lparr>maxLayer := (maxLayer b)\<lparr>Spatial := l\<rparr>\<rparr>"

definition SetMaxTemporal :: "int \<Rightarrow> Base \<Rightarrow> Base" where
  "SetMaxTemporal l b = b\<lparr>maxLayer := (maxLayer b)\<lparr>Temporal := l\<rparr>\<rparr>"

definition SetTarget :: "VideoLayer \<Rightarrow> Base \<Rightarrow> Base" where
  "SetTarget l b = b\<lparr>previousTargetLayer := l, targetLayer := l\<rparr>"

definition base_CheckSync :: "Base \<Rightarrow> bool \<times> int" where
  "base_CheckSync b = (requestSpatial b = Spatial (currentLayer b), requestSpatial b)"

definition SetMaxSeenSpatial :: "int \<Rightarrow> Base \<Rightarrow> Base" where
  "SetMaxSeenSpatial l b = b\<lparr>maxSeenLayer := (maxSeenLayer b)\<lparr>Spatial := l\<rparr>\<rparr>"

definition SetMaxSeenTemporal :: "int \<Rightarrow> Base \<Rightarrow> Base" where
  "SetMaxSeenTemporal l b = b\<lparr>maxSeenLayer := (maxSeenLayer b)\<lparr>Temporal := l\<rparr>\<rparr>"

definition base_Rollback :: "Base \<Rightarrow> Base" where
  "base_Rollback b = b\<lparr>currentLayer := previousLayer b, targetLayer := previousTargetLayer b\<rparr>"

definition SelectTemporal :: "ExtPacket \<Rightarrow> Base \<Rightarrow> Base \<times> int" where
  "SelectTemporal extPkt b =
     (case tls b of
        None \<Rightarrow> (b, Temporal (currentLayer b))
      | Some t \<Rightarrow>
          let (t, this, next) = tls_Select extPkt (Temporal (currentLayer b)) (Temporal (targetLayer b)) t;
              b = b\<lparr>tls := Some t\<rparr>;
              b = (if next \<noteq> Temporal (currentLayer b) then b\<lparr>currentLayer := (currentLayer b)\<lparr>Temporal := next\<rparr>\<rparr> else b)
          in (b, this))"

text \<open>The result of a selection. \<open>DDBytes\<close> is a fixed array in the source.\<close>

definition MaxInlineExtensionSize :: nat where
  "MaxInlineExtensionSize = 16"

record VideoLayerSelectorResult =
  IsSelected :: bool
  IsRelevant :: bool
  IsSwitching :: bool
  IsResuming :: bool
  RTPMarker :: bool
  DDBytes :: "u8 list"
  DDBytesLen :: nat
  DDBytesSpill :: "u8 list"

definition zeroResult :: VideoLayerSelectorResult where
  "zeroResult = \<lparr>IsSelected = False, IsRelevant = False, IsSwitching = False, IsResuming = False, RTPMarker = False,
     DDBytes = replicate MaxInlineExtensionSize 0, DDBytesLen = 0, DDBytesSpill = []\<rparr>"

section \<open>Simulcast\<close>

definition populateSwitches :: "bool \<Rightarrow> VideoLayerSelectorResult \<Rightarrow> VideoLayerSelectorResult" where
  "populateSwitches isActive result =
     (let result = result\<lparr>IsSwitching := True\<rparr>
      in if \<not> isActive then result\<lparr>IsResuming := True\<rparr> else result)"

text \<open>Whether a packet of the layer starts a move towards the target.\<close>

definition simulcastFound :: "ExtPacket \<Rightarrow> int \<Rightarrow> Base \<Rightarrow> bool" where
  "simulcastFound extPkt lyr s =
     (let isActive = IsValid (currentLayer s)
      in IsKeyFrame extPkt \<and>
         (if enableStartAtDesiredQuality s \<and> \<not> isActive then lyr = Spatial (targetLayer s)
          else (lyr > Spatial (currentLayer s) \<and> lyr \<le> Spatial (targetLayer s)) \<or>
               (lyr < Spatial (currentLayer s) \<and> lyr \<ge> Spatial (targetLayer s))))"

definition simulcastMove :: "ExtPacket \<Rightarrow> int \<Rightarrow> Base \<Rightarrow> VideoLayerSelectorResult \<Rightarrow> Base \<times> VideoLayerSelectorResult" where
  "simulcastMove extPkt lyr s result =
     (if Spatial (currentLayer s) \<noteq> Spatial (targetLayer s) \<and> simulcastFound extPkt lyr s
      then
        let isActive = IsValid (currentLayer s);
            s = s\<lparr>previousLayer := currentLayer s,
                  currentLayer := \<lparr>Spatial = lyr, Temporal = Temporal (ep_VideoLayer extPkt)\<rparr>\<rparr>;
            s = s\<lparr>previousTargetLayer := targetLayer s\<rparr>;
            s = (if Spatial (currentLayer s) \<ge> Spatial (maxLayer s) \<or> Spatial (currentLayer s) = Spatial (maxSeenLayer s)
                 then s\<lparr>targetLayer := (targetLayer s)\<lparr>Spatial := Spatial (currentLayer s)\<rparr>\<rparr> else s)
        in (s, populateSwitches isActive result)
      else (s, result))"

definition simulcastOvershoot :: "ExtPacket \<Rightarrow> int \<Rightarrow> Base \<Rightarrow> VideoLayerSelectorResult \<Rightarrow> Base \<times> VideoLayerSelectorResult" where
  "simulcastOvershoot extPkt lyr s result =
     (if Spatial (currentLayer s) > Spatial (maxLayer s) \<and> lyr \<le> Spatial (maxLayer s) \<and> IsKeyFrame extPkt
      then
        let s = s\<lparr>previousLayer := currentLayer s\<rparr>;
            s = s\<lparr>currentLayer := (currentLayer s)\<lparr>Spatial := lyr\<rparr>\<rparr>;
            s = s\<lparr>previousTargetLayer := targetLayer s\<rparr>;
            s = (if Spatial (currentLayer s) \<ge> Spatial (maxLayer s) \<or> Spatial (currentLayer s) = Spatial (maxSeenLayer s)
                 then s\<lparr>targetLayer := (targetLayer s)\<lparr>Spatial := lyr\<rparr>\<rparr> else s)
        in (s, populateSwitches True result)
      else (s, result))"

definition simulcast_Select :: "ExtPacket \<Rightarrow> int \<Rightarrow> Base \<Rightarrow> Base \<times> VideoLayerSelectorResult" where
  "simulcast_Select extPkt lyr s =
     (let (s, result) = simulcastMove extPkt lyr s zeroResult;
          (s, result) = simulcastOvershoot extPkt lyr s result
      in (s, result\<lparr>RTPMarker := Marker extPkt, IsSelected := (lyr = Spatial (currentLayer s)), IsRelevant := False\<rparr>))"

section \<open>VP9\<close>

text \<open>The layers after a packet: the one the packet is compared with, and the new current one.\<close>

definition vp9Layers :: "ExtPacket \<Rightarrow> codecsVP9 \<Rightarrow> Base \<Rightarrow> VideoLayer \<times> VideoLayer" where
  "vp9Layers extPkt vp9 v =
     (let current = currentLayer v; target = targetLayer v; pkt = ep_VideoLayer extPkt;
          (cmp, upd) = (current, current);
          (cmp, upd) =
            (if Temporal current \<noteq> Temporal target
             then if Temporal current < Temporal target
                  then if Temporal pkt > Temporal current \<and> Temporal pkt \<le> Temporal target \<and> vp9_U vp9 \<and> vp9_B vp9
                       then (cmp\<lparr>Temporal := Temporal pkt\<rparr>, upd\<lparr>Temporal := Temporal pkt\<rparr>) else (cmp, upd)
                  else if vp9_E vp9 then (cmp, upd\<lparr>Temporal := Temporal target\<rparr>) else (cmp, upd)
             else (cmp, upd));
          (cmp, upd) =
            (if Spatial current \<noteq> Spatial target
             then if Spatial current < Spatial target
                  then if Spatial pkt > Spatial current \<and> Spatial pkt \<le> Spatial target \<and> \<not> vp9_P vp9 \<and> vp9_B vp9
                       then (cmp\<lparr>Spatial := Spatial pkt\<rparr>, upd\<lparr>Spatial := Spatial pkt\<rparr>) else (cmp, upd)
                  else if vp9_E vp9 then (cmp, upd\<lparr>Spatial := Spatial target\<rparr>) else (cmp, upd)
             else (cmp, upd))
      in (cmp, upd))"

definition vp9_Select :: "ExtPacket \<Rightarrow> Base \<Rightarrow> Base \<times> VideoLayerSelectorResult" where
  "vp9_Select extPkt v =
     (case ep_VP9 extPkt of
        None \<Rightarrow> (v, zeroResult)
      | Some vp9 \<Rightarrow>
          if currentLayer v \<noteq> targetLayer v \<and> \<not> IsValid (currentLayer v) \<and> \<not> IsKeyFrame extPkt then (v, zeroResult)
          else
            let (cmp, v, result) =
                  (if currentLayer v \<noteq> targetLayer v
                   then let (cmp, updatedLayer) =
                              (if \<not> IsValid (currentLayer v) then (currentLayer v, ep_VideoLayer extPkt)
                               else vp9Layers extPkt vp9 v)
                        in if updatedLayer \<noteq> currentLayer v
                           then (cmp, v\<lparr>previousLayer := currentLayer v, currentLayer := updatedLayer\<rparr>,
                                 zeroResult\<lparr>IsSwitching := True,
                                   IsResuming := (\<not> IsValid (currentLayer v) \<and> IsValid updatedLayer)\<rparr>)
                           else (cmp, v, zeroResult)
                   else (currentLayer v, v, zeroResult));
                result = result\<lparr>RTPMarker := Marker extPkt\<rparr>;
                result = (if vp9_E vp9 \<and> Spatial (ep_VideoLayer extPkt) = Spatial cmp \<and>
                             (vp9_P vp9 \<or> Spatial (targetLayer v) \<le> Spatial (currentLayer v))
                          then result\<lparr>RTPMarker := True\<rparr> else result)
            in (v, result\<lparr>IsSelected := \<not> GreaterThan (ep_VideoLayer extPkt) cmp, IsRelevant := True\<rparr>))"

section \<open>Simulcast locks onto the target\<close>

fun runSimulcast :: "(ExtPacket \<times> int) list \<Rightarrow> Base \<Rightarrow> Base \<times> VideoLayerSelectorResult list" where
  "runSimulcast [] s = (s, [])"
| "runSimulcast ((p, lyr) # ps) s =
     (let (s, r) = simulcast_Select p lyr s; (s, rs) = runSimulcast ps s in (s, r # rs))"

definition locked_at :: "int \<Rightarrow> Base \<Rightarrow> bool" where
  "locked_at l s \<longleftrightarrow> Spatial (currentLayer s) = l \<and> Spatial (targetLayer s) = l \<and> l \<le> Spatial (maxLayer s)"

lemma simulcast_max: "simulcast_Select p lyr s = (s', r) \<Longrightarrow> maxLayer s' = maxLayer s"
  by (auto simp: simulcast_Select_def simulcastMove_def simulcastOvershoot_def Let_def split: if_splits prod.splits)

lemma runSimulcast_max: "runSimulcast ps s = (s', rs) \<Longrightarrow> maxLayer s' = maxLayer s"
  by (induction ps arbitrary: s s' rs) (auto split: prod.splits dest: simulcast_max)

lemma runSimulcast_append:
  "runSimulcast (ps @ qs) s = (let (s, rs) = runSimulcast ps s; (s, rs') = runSimulcast qs s in (s, rs @ rs'))"
  by (induction ps arbitrary: s) (auto split: prod.splits)

lemma simulcast_locked:
  assumes "locked_at l s"
  shows "simulcast_Select p lyr s = (s, zeroResult\<lparr>RTPMarker := Marker p, IsSelected := (lyr = l)\<rparr>)"
  using assms by (auto simp: locked_at_def simulcast_Select_def simulcastMove_def simulcastOvershoot_def zeroResult_def)

lemma runSimulcast_locked:
  "locked_at l s \<Longrightarrow> runSimulcast ps s = (s, map (\<lambda>(p, lyr). zeroResult\<lparr>RTPMarker := Marker p, IsSelected := (lyr = l)\<rparr>) ps)"
  by (induction ps) (auto simp: simulcast_locked)

lemma simulcast_key_frame_locks:
  assumes "IsKeyFrame p" "Spatial (targetLayer s) \<le> Spatial (maxLayer s)" "simulcast_Select p (Spatial (targetLayer s)) s = (s', r)"
  shows "locked_at (Spatial (targetLayer s)) s'" "IsSelected r"
  using assms
  by (auto simp: locked_at_def simulcast_Select_def simulcastMove_def simulcastFound_def simulcastOvershoot_def Let_def split: if_splits)

section \<open>The window of forwarded frames\<close>

text \<open>What the window stands for: the highest frame, and the frames up to it that were forwarded, since the last key
  frame or jump of the size of the window.\<close>

type_synonym window = "(u64 \<times> u64 set) option"

definition note_frame :: "u64 \<times> bool \<times> bool \<Rightarrow> window \<Rightarrow> window" where
  "note_frame ev w =
     (case ev of (frame, isKeyFrame, isForwarded) \<Rightarrow>
      let fwd = (if isForwarded then {frame} else {})
      in case w of
           None \<Rightarrow> Some (frame, fwd)
         | Some (highest, F) \<Rightarrow>
             if isKeyFrame \<or> frame \<ge> highest + ddFrameWindow then Some (frame, fwd)
             else Some (max highest frame, F \<union> (if frame \<le> highest \<and> highest - frame \<ge> ddFrameWindow then {} else fwd)))"

definition in_frames :: "window \<Rightarrow> u64 \<Rightarrow> bool" where
  "in_frames w f = (case w of None \<Rightarrow> False | Some (highest, F) \<Rightarrow> f \<le> highest \<and> highest - f < ddFrameWindow \<and> f \<in> F)"

definition window_of :: "TemporalDD \<Rightarrow> window \<Rightarrow> bool" where
  "window_of d w \<longleftrightarrow> (case w of None \<Rightarrow> \<not> td_initialized d
     | Some (highest, F) \<Rightarrow> td_initialized d \<and> highestFrame d = highest \<and>
         (\<forall>f. f \<le> highest \<and> highest - f < ddFrameWindow \<longrightarrow> bit (forwardedMask d) (unat (highest - f)) = (f \<in> F)) \<and>
         (\<forall>f \<in> F. f \<le> highest))"

lemma dist_eq: "f \<le> h \<Longrightarrow> g \<le> h \<Longrightarrow> unat (h - f) = unat (h - g) \<longleftrightarrow> f = g" for f g h :: u64
  by (auto simp: word_eq_iff_unsigned [where ?'a = nat] unat_minus_wrap word_le_nat_alt)

lemma window_reset:
  assumes "td_initialized d" "highestFrame d = frame" "forwardedMask d = (if fwd then 1 else 0)"
  shows "window_of d (Some (frame, if fwd then {frame} else {}))"
  using assms dist_eq [of _ frame frame] by (auto simp: window_of_def bit_1_iff)

lemma window_mark:
  assumes "window_of d (Some (h, F))" "frame \<le> h" "h - frame < ddFrameWindow"
  shows "window_of (d\<lparr>forwardedMask := forwardedMask d OR push_bit (unat (h - frame)) 1\<rparr>) (Some (h, insert frame F))"
proof -
  have "unat (h - frame) < 64" using assms(3) by (simp add: ddFrameWindow_def word_less_nat_alt)
  then have "bit (m OR push_bit (unat (h - frame)) 1 :: u64) n = (bit m n \<or> n = unat (h - frame))" for m n
    by (auto simp: bit_simps)
  then show ?thesis using assms dist_eq [of _ h frame] by (auto simp: window_of_def)
qed

lemma window_shift:
  assumes w: "window_of d (Some (h, F))" and f: "h < frame" "\<not> h + ddFrameWindow \<le> frame"
  shows "window_of (d\<lparr>forwardedMask := push_bit (unat (frame - h)) (forwardedMask d), highestFrame := frame\<rparr>) (Some (frame, F))"
proof -
  have k: "unat (frame - h) < 64"
  proof -
    have "unat frame - unat h < 64"
      using f unsigned_less [of frame, where ?'a = nat] unsigned_less [of h, where ?'a = nat]
      by (auto simp: ddFrameWindow_def word_le_nat_alt word_less_nat_alt unat_plus_if' split: if_splits)
    then show ?thesis using f(1) by (simp add: unat_minus_wrap word_le_nat_alt word_less_nat_alt)
  qed
  have F: "f \<le> h" if "f \<in> F" for f using w that by (simp add: window_of_def)
  have "bit (push_bit (unat (frame - h)) (forwardedMask d)) (unat (frame - f)) = (f \<in> F)"
    if g: "f \<le> frame" "frame - f < ddFrameWindow" for f
  proof (cases "f \<le> h")
    case True
    have d: "unat (frame - f) = unat (frame - h) + unat (h - f)" "unat (frame - f) < 64"
      using g True f(1) by (simp_all add: ddFrameWindow_def unat_minus_wrap word_le_nat_alt word_less_nat_alt)
    have "h - f < ddFrameWindow" using d by (simp add: ddFrameWindow_def word_less_nat_alt)
    then have "bit (forwardedMask d) (unat (h - f)) = (f \<in> F)" using w True by (simp add: window_of_def)
    then show ?thesis using d by (simp add: bit_push_bit_iff)
  next
    case False
    then have "unat (frame - f) < unat (frame - h)"
      using g f(1) by (simp add: unat_minus_wrap word_le_nat_alt word_less_nat_alt)
    moreover have "f \<notin> F" using F False by blast
    ultimately show ?thesis by (simp add: bit_push_bit_iff)
  qed
  moreover have "f \<le> frame" if "f \<in> F" for f using F [OF that] f(1) by simp
  ultimately show ?thesis using w by (simp add: window_of_def)
qed

lemma window_step:
  assumes "window_of d w"
  shows "window_of (td_onFrame frame key fwd d) (note_frame (frame, key, fwd) w)"
proof (cases "key \<or> \<not> td_initialized d \<or> highestFrame d + ddFrameWindow \<le> frame")
  case True
  have "note_frame (frame, key, fwd) w = Some (frame, if fwd then {frame} else {})"
    using assms True by (auto simp: note_frame_def window_of_def Let_def split: option.splits)
  moreover have "td_initialized (td_onFrame frame key fwd d)" "highestFrame (td_onFrame frame key fwd d) = frame"
    "forwardedMask (td_onFrame frame key fwd d) = (if fwd then 1 else 0)" using True by (auto simp: td_onFrame_def Let_def)
  ultimately show ?thesis using window_reset by simp
next
  case False
  then obtain h F where w: "w = Some (h, F)" using assms by (cases w) (auto simp: window_of_def)
  have h: "td_initialized d" "highestFrame d = h" using assms w by (simp_all add: window_of_def)
  note W = assms [unfolded w]
  consider "h < frame" | "frame \<le> h" "ddFrameWindow \<le> h - frame" | "frame \<le> h" "h - frame < ddFrameWindow" by fastforce
  then show ?thesis
  proof cases
    case 1
    let ?d = "d\<lparr>forwardedMask := push_bit (unat (frame - h)) (forwardedMask d), highestFrame := frame\<rparr>"
    have sh: "window_of ?d (Some (frame, F))" by (rule window_shift [OF W 1]) (use False h in simp)
    have "td_onFrame frame key fwd d = (if fwd then ?d\<lparr>forwardedMask := forwardedMask ?d OR push_bit (unat (frame - frame)) 1\<rparr> else ?d)"
      using False 1 h by (simp add: td_onFrame_def Let_def)
    moreover have "note_frame (frame, key, fwd) w = Some (frame, if fwd then insert frame F else F)"
      using False 1 h w by (auto simp: note_frame_def Let_def max_def)
    moreover have "window_of (?d\<lparr>forwardedMask := forwardedMask ?d OR push_bit (unat (frame - frame)) 1\<rparr>) (Some (frame, insert frame F))"
      by (rule window_mark [OF sh]) (simp_all add: ddFrameWindow_def)
    ultimately show ?thesis using sh by simp
  next
    case 2
    then show ?thesis using False h w W by (auto simp: td_onFrame_def note_frame_def Let_def max_def not_less)
  next
    case 3
    have "td_onFrame frame key fwd d = (if fwd then d\<lparr>forwardedMask := forwardedMask d OR push_bit (unat (h - frame)) 1\<rparr> else d)"
      using False 3 h by (simp add: td_onFrame_def Let_def)
    moreover have "note_frame (frame, key, fwd) w = Some (h, if fwd then insert frame F else F)"
      using False 3 h w by (auto simp: note_frame_def Let_def max_def)
    ultimately show ?thesis using W window_mark [OF W 3] by simp
  qed
qed

lemma and_push_bit_one: "m AND push_bit k 1 = (0 :: u64) \<longleftrightarrow> \<not> bit m k" if "k < 64"
proof -
  have "m AND push_bit k 1 = (if bit m k then push_bit k 1 else 0)"
    by (rule bit_word_eqI) (auto simp: bit_simps)
  moreover have "bit (push_bit k (1 :: u64)) k" using that by (simp add: bit_simps)
  ultimately show ?thesis using that by auto
qed

lemma areForwarded_window:
  assumes "window_of d w"
  shows "areForwarded d frame diffs \<longleftrightarrow> w \<noteq> None \<and>
    (\<forall>diff \<in> set diffs. 0 < diff \<and> word_of_int diff \<le> frame \<and> in_frames w (frame - word_of_int diff))"
proof (cases w)
  case None
  then show ?thesis using assms by (simp add: areForwarded_def window_of_def)
next
  case (Some p)
  obtain h F where w: "w = Some (h, F)" using Some by (cases p) auto
  have "\<not> (ref > highestFrame d \<or> highestFrame d - ref \<ge> ddFrameWindow \<or> forwardedMask d AND push_bit (unat (highestFrame d - ref)) 1 = 0) \<longleftrightarrow>
      in_frames w ref" for ref
  proof (cases "ref \<le> h \<and> h - ref < ddFrameWindow")
    case True
    then have "unat (h - ref) < 64" by (simp add: ddFrameWindow_def word_less_nat_alt)
    then show ?thesis using True assms w and_push_bit_one [of "unat (h - ref)" "forwardedMask d"]
      by (auto simp: window_of_def in_frames_def not_le not_less)
  next
    case False
    then show ?thesis using assms w by (auto simp: window_of_def in_frames_def)
  qed
  then show ?thesis using assms w by (auto simp: areForwarded_def window_of_def list_all_iff Let_def not_le not_less)
qed
section \<open>Properties\<close>

text \<open>C30. Simulcast locks onto the target. Whatever packets came before, as soon as a key frame of the layer that is then
  the target arrives, provided the target is not above the maximum (no overshoot), the selector forwards it, and from there on forwards
  exactly the packets of this layer, without any further switch, until the target or the maximum is changed.\<close>

theorem simulcast_locks:
  assumes "runSimulcast before s = (s1, rs1)" "IsKeyFrame p" "Spatial (targetLayer s1) \<le> Spatial (maxLayer s)"
  shows "\<exists>s' r rs. runSimulcast (before @ (p, Spatial (targetLayer s1)) # after) s = (s', rs1 @ r # rs) \<and> IsSelected r \<and>
    Spatial (currentLayer s') = Spatial (targetLayer s1) \<and> Spatial (targetLayer s') = Spatial (targetLayer s1) \<and>
    map IsSelected rs = map (\<lambda>(q, lyr). lyr = Spatial (targetLayer s1)) after \<and> (\<forall>x \<in> set rs. \<not> IsSwitching x)"
proof -
  obtain s2 r where s2: "simulcast_Select p (Spatial (targetLayer s1)) s1 = (s2, r)" by fastforce
  have m: "Spatial (targetLayer s1) \<le> Spatial (maxLayer s1)" using assms(1,3) runSimulcast_max by metis
  note lock = simulcast_key_frame_locks [OF assms(2) m s2]
  let ?rs = "map (\<lambda>(q, lyr). zeroResult\<lparr>RTPMarker := Marker q, IsSelected := (lyr = Spatial (targetLayer s1))\<rparr>) after"
  have run: "runSimulcast (before @ (p, Spatial (targetLayer s1)) # after) s = (s2, rs1 @ r # ?rs)"
    by (simp add: runSimulcast_append assms(1) s2 runSimulcast_locked [OF lock(1)])
  show ?thesis
    by (rule exI [of _ s2], rule exI [of _ r], rule exI [of _ ?rs])
      (use run lock in \<open>auto simp: locked_at_def o_def case_prod_unfold zeroResult_def\<close>)
qed

definition examplePacket :: "bool \<Rightarrow> ExtPacket" where
  "examplePacket key = \<lparr>ep_VideoLayer = \<lparr>Spatial = 2, Temporal = 0\<rparr>, ExtSequenceNumber = 0, ExtTimestamp = 0, Payload = [], Marker = False,
     ep_VP8 = None, ep_VP9 = Some \<lparr>vp9_B = True, vp9_E = False, vp9_P = False, vp9_U = False\<rparr>, IsKeyFrame = key,
     ep_DependencyDescriptor = None, IsOutOfOrder = False\<rparr>"

definition exampleBase :: Base where
  "exampleBase = NewBase\<lparr>maxLayer := \<lparr>Spatial = 2, Temporal = 2\<rparr>, targetLayer := \<lparr>Spatial = 2, Temporal = 2\<rparr>\<rparr>"

theorem simulcast_locks_witness:
  "\<exists>s' r rs. runSimulcast [(examplePacket True, 1), (examplePacket True, 2), (examplePacket False, 2), (examplePacket True, 1)] exampleBase =
     (s', r # rs) \<and> map IsSelected rs = [True, True, False]"
proof -
  obtain s1 r1 where s1: "runSimulcast [(examplePacket True, 1)] exampleBase = (s1, [r1])" "Spatial (targetLayer s1) = 2"
    by (simp add: exampleBase_def NewBase_def examplePacket_def simulcast_Select_def simulcastMove_def simulcastFound_def
        simulcastOvershoot_def IsValid_def InvalidLayer_def InvalidLayerSpatial_def InvalidLayerTemporal_def)
  have "Spatial (targetLayer s1) \<le> Spatial (maxLayer exampleBase)" using s1(2) by (simp add: exampleBase_def)
  from simulcast_locks [OF s1(1) _ this, of "examplePacket True" "[(examplePacket False, 2), (examplePacket True, 1)]"] s1(2)
  show ?thesis by (auto simp: examplePacket_def)
qed

text \<open>C31. The window implements the set of forwarded frames. Over any series of frames, in any order, the answer of the
  64 bit mask is that of the reference: a frame may be built on exactly when every frame it references lies before
  it, inside the window, and was forwarded since the last key frame or large jump.\<close>

theorem temporal_window_refines:
  "areForwarded (foldl (\<lambda>d (frame, key, fwd). td_onFrame frame key fwd d) \<lparr>td_initialized = False, highestFrame = 0, forwardedMask = 0\<rparr> evs)
     frame diffs \<longleftrightarrow>
   (let w = foldl (\<lambda>w ev. note_frame ev w) None evs
    in w \<noteq> None \<and> list_all (\<lambda>diff. 0 < diff \<and> word_of_int diff \<le> frame \<and> in_frames w (frame - word_of_int diff)) diffs)"
proof -
  have "window_of (foldl (\<lambda>d (frame, key, fwd). td_onFrame frame key fwd d) d evs) (foldl (\<lambda>w ev. note_frame ev w) w evs)"
    if "window_of d w" for d w
    using that by (induction evs arbitrary: d w) (auto intro: window_step)
  from areForwarded_window [OF this, of _ None] show ?thesis by (simp add: window_of_def list_all_iff Let_def)
qed

text \<open>C32. A VP9 stream resumes without its key frame. When nothing is forwarded yet and a packet of a key frame of any
  valid layer arrives, the selector switches to its layer and reports that it resumes, but does not select the
  packet: it compares it with the layer before the switch.\<close>

theorem vp9_resume_drops_key_frame:
  assumes "currentLayer v = InvalidLayer" "targetLayer v \<noteq> InvalidLayer" "IsKeyFrame p" "ep_VP9 p = Some vp9"
    and "0 \<le> Spatial (ep_VideoLayer p)" "0 \<le> Temporal (ep_VideoLayer p)"
  shows "case vp9_Select p v of (v', r) \<Rightarrow> currentLayer v' = ep_VideoLayer p \<and> IsSwitching r \<and> IsResuming r \<and> \<not> IsSelected r"
  using assms by (auto simp: vp9_Select_def Let_def IsValid_def InvalidLayer_def InvalidLayerSpatial_def InvalidLayerTemporal_def GreaterThan_def)

theorem vp9_resume_drops_key_frame_witness:
  "case vp9_Select (examplePacket True) exampleBase of (v', r) \<Rightarrow> currentLayer v' = \<lparr>Spatial = 2, Temporal = 0\<rparr> \<and> IsResuming r \<and> \<not> IsSelected r"
proof -
  have "case vp9_Select (examplePacket True) exampleBase of (v', r) \<Rightarrow>
      currentLayer v' = ep_VideoLayer (examplePacket True) \<and> IsSwitching r \<and> IsResuming r \<and> \<not> IsSelected r"
    by (rule vp9_resume_drops_key_frame)
      (simp_all add: exampleBase_def NewBase_def examplePacket_def InvalidLayer_def InvalidLayerSpatial_def InvalidLayerTemporal_def)
  then show ?thesis by (auto simp: examplePacket_def)
qed

end
