(* ===== verification/CodecMunger.thy ===== *)
theory CodecMunger
  imports LayerSelector "HOL-Library.DAList"
begin

text \<open>
  The codec mungers of \<open>pkg/sfu/codecmunger\<close>: they rewrite the VP8 payload descriptor of a forwarded packet
  (\<open>vp8.go\<close>), or filter temporal layers by the dependency descriptor (\<open>ddtemporal.go\<close>), or do nothing (\<open>null.go\<close>).

  The VP8 munger uses two packages that are not part of the repository: the ordered maps of \<open>orderedmap\<close> and the VP8
  payload descriptor of \<open>codec\<close>. Their operations are the fields of \<open>vp8_env\<close>, a parameter of the munger; the laws of an
  ordered map are \<open>ordered_map\<close>. Go's \<open>int32\<close> is \<^typ>\<open>int\<close> with \<open>i32\<close> at every operation that can overflow. The header
  bytes returned beside an error are not kept.

  Lemmas: the trimming loops end and bound the caches; over a stream without gaps the VP8 munger numbers the pictures
  it forwards one by one; and the filter by dependency descriptors decides once for a whole frame.
\<close>

section \<open>Interface\<close>

definition MaxHeaderSize :: nat where
  "MaxHeaderSize = 8"

datatype 'e cm_error = ErrNotVP8 | ErrOutOfOrderVP8PictureIdCacheMiss | ErrFilteredTemporalLayer | ErrFilteredOutOfOrder | ErrCodec 'e

text \<open>The incoming header size, the bytes of the munged header and how many of them count.\<close>

type_synonym 'e munged = "'e cm_error + (int \<times> u8 list \<times> nat)"

definition noHeader :: "int \<times> u8 list \<times> nat" where
  "noHeader = (0, replicate MaxHeaderSize 0, 0)"

section \<open>What the VP8 munger is given\<close>

record ('k, 'v, 'm) omap =
  om_New :: 'm
  om_Get :: "'m \<Rightarrow> 'k \<Rightarrow> 'v option"
  om_Set :: "'k \<Rightarrow> 'v \<Rightarrow> 'm \<Rightarrow> 'm"
  om_Delete :: "'k \<Rightarrow> 'm \<Rightarrow> 'm"
  om_Front :: "'m \<Rightarrow> 'k option"
  om_Len :: "'m \<Rightarrow> nat"

record ('m, 'f, 'e) vp8_env =
  offsetMap :: "(int, int, 'm) omap"
  flagMap :: "(int, bool, 'f) omap"
  vp8_MarshalTo :: "codecVP8 \<Rightarrow> 'e + (u8 list \<times> nat)"
  vp8_Marshal :: "codecVP8 \<Rightarrow> 'e + u8 list"
  VPxPictureIdSizeDiff :: "bool \<Rightarrow> bool \<Rightarrow> int"

definition i32 :: "int \<Rightarrow> int" where
  "i32 x = signed_take_bit 31 x"

text \<open>Removing the front until the length is within the threshold; a nil front element is dereferenced.\<close>

partial_function (option) trim :: "('k, 'v, 'm) omap \<Rightarrow> nat \<Rightarrow> 'm \<Rightarrow> 'm option" where
  "trim M threshold m =
     (if om_Len M m > threshold
      then do { k \<leftarrow> om_Front M m; trim M threshold (om_Delete M k m) }
      else Some m)"

definition missingPictureIdsThreshold :: nat where
  "missingPictureIdsThreshold = 50"

definition droppedPictureIdsThreshold :: nat where
  "droppedPictureIdsThreshold = 20"

definition exemptedPictureIdsThreshold :: nat where
  "exemptedPictureIdsThreshold = 20"

section \<open>Wrapping of picture ids\<close>

definition isWrapping7Bit :: "int \<Rightarrow> int \<Rightarrow> bool" where
  "isWrapping7Bit val1 val2 \<longleftrightarrow> val2 < val1 \<and> i32 (val1 - val2) > 2 ^ 6"

definition isWrapping15Bit :: "int \<Rightarrow> int \<Rightarrow> bool" where
  "isWrapping15Bit val1 val2 \<longleftrightarrow> val2 < val1 \<and> i32 (val1 - val2) > 2 ^ 14"

record VP8PictureIdWrapHandler =
  wh_maxPictureId :: int
  maxMBit :: bool
  totalWrap :: int
  lastWrap :: int

definition wh_Init :: "int \<Rightarrow> bool \<Rightarrow> VP8PictureIdWrapHandler" where
  "wh_Init extPictureId mBit = \<lparr>wh_maxPictureId = extPictureId, maxMBit = mBit, totalWrap = 0, lastWrap = 0\<rparr>"

definition Unwrap :: "u16 \<Rightarrow> bool \<Rightarrow> VP8PictureIdWrapHandler \<Rightarrow> VP8PictureIdWrapHandler \<times> int" where
  "Unwrap pictureId mBit v =
     (let maxPictureId = (if wh_maxPictureId v > 0
                          then if maxMBit v then wh_maxPictureId v AND 0x7fff else wh_maxPictureId v AND 0x7f
                          else wh_maxPictureId v);
          newPictureId = (if mBit then uint (pictureId AND 0x7fff) else uint (pictureId AND 0x7f))
      in if totalWrap v > 0 \<and> i32 (wh_maxPictureId v + drop_bit 1 (lastWrap v)) < i32 (newPictureId + totalWrap v)
         then (v, i32 (i32 (newPictureId + totalWrap v) - lastWrap v))
         else
           let wrap = (if maxMBit v
                       then if isWrapping15Bit maxPictureId newPictureId then 2 ^ 15 else 0
                       else if isWrapping7Bit maxPictureId newPictureId then 2 ^ 7 else 0);
               v = v\<lparr>totalWrap := i32 (totalWrap v + wrap)\<rparr>;
               v = (if wrap \<noteq> 0 then v\<lparr>lastWrap := wrap\<rparr> else v)
           in (v, i32 (newPictureId + totalWrap v)))"

definition UpdateMaxPictureId :: "int \<Rightarrow> bool \<Rightarrow> VP8PictureIdWrapHandler \<Rightarrow> VP8PictureIdWrapHandler" where
  "UpdateMaxPictureId extPictureId mBit v = v\<lparr>wh_maxPictureId := extPictureId, maxMBit := mBit\<rparr>"

section \<open>VP8\<close>

record ('m, 'f) VP8 =
  pictureIdWrapHandler :: VP8PictureIdWrapHandler
  extLastPictureId :: int
  pictureIdOffset :: int
  pictureIdUsed :: bool
  lastTl0PicIdx :: u8
  tl0PicIdxOffset :: u8
  tl0PicIdxUsed :: bool
  tidUsed :: bool
  lastKeyIdx :: u8
  keyIdxOffset :: u8
  keyIdxUsed :: bool
  missingPictureIds :: 'm
  droppedPictureIds :: 'f
  exemptedPictureIds :: 'f

definition NewVP8 :: "('m, 'f, 'e) vp8_env \<Rightarrow> ('m, 'f) VP8" where
  "NewVP8 env = \<lparr>pictureIdWrapHandler = wh_Init 0 False, extLastPictureId = 0, pictureIdOffset = 0, pictureIdUsed = False,
     lastTl0PicIdx = 0, tl0PicIdxOffset = 0, tl0PicIdxUsed = False, tidUsed = False, lastKeyIdx = 0, keyIdxOffset = 0,
     keyIdxUsed = False, missingPictureIds = om_New (offsetMap env), droppedPictureIds = om_New (flagMap env),
     exemptedPictureIds = om_New (flagMap env)\<rparr>"

text \<open>The state that travels with a migrated participant: \<open>livekit.VP8MungerState\<close>.\<close>

record VP8MungerState =
  ms_ExtLastPictureId :: int
  ms_PictureIdUsed :: bool
  ms_LastTl0PicIdx :: u32
  ms_Tl0PicIdxUsed :: bool
  ms_TidUsed :: bool
  ms_LastKeyIdx :: u32
  ms_KeyIdxUsed :: bool

text \<open>A seed of type \<open>any\<close>: either of the two types with the state, or something else.\<close>

datatype munger_seed = ForwarderState "VP8MungerState option" | MungerState "VP8MungerState option" | OtherSeed

definition vp8_GetState :: "('m, 'f) VP8 \<Rightarrow> munger_seed" where
  "vp8_GetState v = MungerState (Some
     \<lparr>ms_ExtLastPictureId = extLastPictureId v, ms_PictureIdUsed = pictureIdUsed v, ms_LastTl0PicIdx = ucast (lastTl0PicIdx v),
      ms_Tl0PicIdxUsed = tl0PicIdxUsed v, ms_TidUsed = tidUsed v, ms_LastKeyIdx = ucast (lastKeyIdx v),
      ms_KeyIdxUsed = keyIdxUsed v\<rparr>)"

definition vp8_SeedState :: "munger_seed \<Rightarrow> ('m, 'f) VP8 \<Rightarrow> ('m, 'f) VP8" where
  "vp8_SeedState seed v =
     (case (case seed of ForwarderState s \<Rightarrow> s | MungerState s \<Rightarrow> s | OtherSeed \<Rightarrow> None) of
        None \<Rightarrow> v
      | Some state \<Rightarrow>
          v\<lparr>extLastPictureId := ms_ExtLastPictureId state, pictureIdUsed := ms_PictureIdUsed state,
            lastTl0PicIdx := ucast (ms_LastTl0PicIdx state), tl0PicIdxUsed := ms_Tl0PicIdxUsed state,
            tidUsed := ms_TidUsed state, lastKeyIdx := ucast (ms_LastKeyIdx state), keyIdxUsed := ms_KeyIdxUsed state\<rparr>)"

definition vp8_SetLast :: "ExtPacket \<Rightarrow> ('m, 'f) VP8 \<Rightarrow> ('m, 'f) VP8" where
  "vp8_SetLast extPkt v =
     (case ep_VP8 extPkt of
        None \<Rightarrow> v
      | Some vp8 \<Rightarrow>
          let v = v\<lparr>pictureIdUsed := vp8_I vp8\<rparr>;
              v = (if pictureIdUsed v
                   then v\<lparr>pictureIdWrapHandler := wh_Init (uint (PictureID vp8) - 1) (vp8_M vp8),
                          extLastPictureId := uint (PictureID vp8)\<rparr> else v);
              v = v\<lparr>tl0PicIdxUsed := vp8_L vp8\<rparr>;
              v = (if tl0PicIdxUsed v then v\<lparr>lastTl0PicIdx := TL0PICIDX vp8\<rparr> else v);
              v = v\<lparr>tidUsed := vp8_T vp8\<rparr>;
              v = v\<lparr>keyIdxUsed := vp8_K vp8\<rparr>
          in if keyIdxUsed v then v\<lparr>lastKeyIdx := KEYIDX vp8\<rparr> else v)"

definition vp8_UpdateOffsets :: "('m, 'f, 'e) vp8_env \<Rightarrow> ExtPacket \<Rightarrow> ('m, 'f) VP8 \<Rightarrow> ('m, 'f) VP8" where
  "vp8_UpdateOffsets env extPkt v =
     (case ep_VP8 extPkt of
        None \<Rightarrow> v
      | Some vp8 \<Rightarrow>
          let v = (if pictureIdUsed v
                   then v\<lparr>pictureIdWrapHandler := wh_Init (uint (PictureID vp8) - 1) (vp8_M vp8),
                          pictureIdOffset := i32 (i32 (uint (PictureID vp8) - extLastPictureId v) - 1)\<rparr> else v);
              v = (if tl0PicIdxUsed v then v\<lparr>tl0PicIdxOffset := TL0PICIDX vp8 - lastTl0PicIdx v - 1\<rparr> else v);
              v = (if keyIdxUsed v then v\<lparr>keyIdxOffset := (KEYIDX vp8 - lastKeyIdx v - 1) AND 0x1f\<rparr> else v)
          in v\<lparr>missingPictureIds := om_New (offsetMap env), droppedPictureIds := om_New (flagMap env),
               exemptedPictureIds := om_New (flagMap env)\<rparr>)"

text \<open>The descriptor that goes out for an incoming one.\<close>

definition mungedVP8 :: "('m, 'f, 'e) vp8_env \<Rightarrow> codecVP8 \<Rightarrow> u16 \<Rightarrow> u8 \<Rightarrow> u8 \<Rightarrow> codecVP8" where
  "mungedVP8 env vp8 mungedPictureId tl0 keyIdx =
     \<lparr>FirstByte = FirstByte vp8, vp8_S = False, vp8_I = vp8_I vp8, vp8_M = (mungedPictureId > 127), PictureID = mungedPictureId,
      vp8_L = vp8_L vp8, TL0PICIDX = tl0, vp8_T = vp8_T vp8, TID = TID vp8, vp8_Y = vp8_Y vp8, vp8_K = vp8_K vp8, KEYIDX = keyIdx,
      vp8_IsKeyFrame = vp8_IsKeyFrame vp8,
      HeaderSize = HeaderSize vp8 + VPxPictureIdSizeDiff env (mungedPictureId > 127) (vp8_M vp8)\<rparr>"

definition marshalHeader :: "('m, 'f, 'e) vp8_env \<Rightarrow> codecVP8 \<Rightarrow> codecVP8 \<Rightarrow> 'e munged" where
  "marshalHeader env vp8 vp8Packet =
     (case vp8_MarshalTo env vp8Packet of
        Inl err \<Rightarrow> Inl (ErrCodec err)
      | Inr (hdr, n) \<Rightarrow> Inr (HeaderSize vp8, hdr, n))"

text \<open>The pictures from \<open>lost\<close> to \<open>extPictureId\<close> that were not dropped may be missing.\<close>

partial_function (option) recordLost :: "('m, 'f, 'e) vp8_env \<Rightarrow> int \<Rightarrow> int \<Rightarrow> ('m, 'f) VP8 \<Rightarrow> ('m, 'f) VP8 option" where
  "recordLost env lost extPictureId v =
     (if lost \<le> extPictureId
      then recordLost env (i32 (lost + 1)) extPictureId
             (if om_Get (flagMap env) (droppedPictureIds v) lost = None
              then v\<lparr>missingPictureIds := om_Set (offsetMap env) lost (pictureIdOffset v) (missingPictureIds v)\<rparr> else v)
      else Some v)"

text \<open>What a packet behind a gap leaves in the caches.\<close>

definition recordGap ::
  "('m, 'f, 'e) vp8_env \<Rightarrow> bool \<Rightarrow> int \<Rightarrow> int \<Rightarrow> ('m, 'f) VP8 \<Rightarrow> ('m, 'f) VP8 option" where
  "recordGap env filtered prevMaxPictureId extPictureId v =
     do {
       v \<leftarrow> recordLost env prevMaxPictureId extPictureId v;
       m \<leftarrow> trim (offsetMap env) missingPictureIdsThreshold (missingPictureIds v);
       let v = v\<lparr>missingPictureIds := m\<rparr>;
       if filtered
       then do {
         x \<leftarrow> trim (flagMap env) exemptedPictureIdsThreshold (om_Set (flagMap env) extPictureId True (exemptedPictureIds v));
         Some (v\<lparr>exemptedPictureIds := x\<rparr>)
       }
       else Some v
     }"

text \<open>Filtering a packet of a temporal layer above the one wanted.\<close>

definition filterTemporal ::
  "('m, 'f, 'e) vp8_env \<Rightarrow> bool \<Rightarrow> int \<Rightarrow> int \<Rightarrow> ('m, 'f) VP8 \<Rightarrow> ('m, 'f) VP8 option" where
  "filterTemporal env i prevMaxPictureId extPictureId v =
     (if i \<and> prevMaxPictureId \<noteq> extPictureId
      then do {
        x \<leftarrow> trim (flagMap env) droppedPictureIdsThreshold (om_Set (flagMap env) extPictureId True (droppedPictureIds v));
        Some (v\<lparr>droppedPictureIds := x, pictureIdOffset := i32 (pictureIdOffset v + 1)\<rparr>)
      }
      else Some v)"

definition forwardVP8 :: "('m, 'f, 'e) vp8_env \<Rightarrow> codecVP8 \<Rightarrow> int \<Rightarrow> ('m, 'f) VP8 \<Rightarrow> ('m, 'f) VP8 \<times> 'e munged" where
  "forwardVP8 env vp8 extPictureId v =
     (let extMungedPictureId = i32 (extPictureId - pictureIdOffset v);
          mungedPictureId = word_of_int (extMungedPictureId AND 0x7fff);
          mungedTl0PicIdx = TL0PICIDX vp8 - tl0PicIdxOffset v;
          mungedKeyIdx = (KEYIDX vp8 - keyIdxOffset v) AND 0x1f;
          v = v\<lparr>extLastPictureId := extMungedPictureId, lastTl0PicIdx := mungedTl0PicIdx, lastKeyIdx := mungedKeyIdx\<rparr>
      in (v, marshalHeader env vp8 (mungedVP8 env vp8 mungedPictureId mungedTl0PicIdx mungedKeyIdx)))"

definition vp8_UpdateAndGet ::
  "('m, 'f, 'e) vp8_env \<Rightarrow> ExtPacket \<Rightarrow> bool \<Rightarrow> bool \<Rightarrow> int \<Rightarrow> ('m, 'f) VP8 \<Rightarrow> (('m, 'f) VP8 \<times> 'e munged) option" where
  "vp8_UpdateAndGet env extPkt snOutOfOrder snHasGap maxTemporalLayer v =
     (case ep_VP8 extPkt of
        None \<Rightarrow> Some (v, Inl ErrNotVP8)
      | Some vp8 \<Rightarrow>
          let (wh, extPictureId) = Unwrap (PictureID vp8) (vp8_M vp8) (pictureIdWrapHandler v);
              v = v\<lparr>pictureIdWrapHandler := wh\<rparr>;
              filtered = (Temporal (ep_VideoLayer extPkt) > maxTemporalLayer)
          in
          if snOutOfOrder
          then (case om_Get (offsetMap env) (missingPictureIds v) extPictureId of
                  None \<Rightarrow> Some (v, Inl ErrOutOfOrderVP8PictureIdCacheMiss)
                | Some offset \<Rightarrow>
                    Some (v, marshalHeader env vp8 (mungedVP8 env vp8 (word_of_int (i32 (extPictureId - offset) AND 0x7fff))
                               (TL0PICIDX vp8 - tl0PicIdxOffset v) (KEYIDX vp8 - keyIdxOffset v))))
          else
            let prevMaxPictureId = wh_maxPictureId (pictureIdWrapHandler v);
                v = v\<lparr>pictureIdWrapHandler := UpdateMaxPictureId extPictureId (vp8_M vp8) (pictureIdWrapHandler v)\<rparr>
            in
            if snHasGap
            then do {
              v \<leftarrow> recordGap env filtered prevMaxPictureId extPictureId v;
              Some (forwardVP8 env vp8 extPictureId v)
            }
            else if filtered \<and> om_Get (flagMap env) (exemptedPictureIds v) extPictureId = None
            then do {
              v \<leftarrow> filterTemporal env (vp8_I vp8) prevMaxPictureId extPictureId v;
              Some (v, Inl ErrFilteredTemporalLayer)
            }
            else Some (forwardVP8 env vp8 extPictureId v))"

definition vp8_UpdateAndGetPadding :: "('m, 'f, 'e) vp8_env \<Rightarrow> bool \<Rightarrow> ('m, 'f) VP8 \<Rightarrow> ('m, 'f) VP8 \<times> ('e + u8 list)" where
  "vp8_UpdateAndGetPadding env newPicture v =
     (let offset = (if newPicture then 1 else 0 :: int);
          headerSize = 1;
          headerSize = (if pictureIdUsed v \<or> tl0PicIdxUsed v \<or> tidUsed v \<or> keyIdxUsed v then headerSize + 1 else headerSize);
          extPictureId = (if pictureIdUsed v then i32 (extLastPictureId v + offset) else extLastPictureId v);
          headerSize = (if pictureIdUsed v then if extPictureId AND 0x7fff > 127 then headerSize + 2 else headerSize + 1 else headerSize);
          v = (if pictureIdUsed v
               then v\<lparr>extLastPictureId := extPictureId, pictureIdOffset := i32 (pictureIdOffset v - offset)\<rparr> else v);
          pictureId = word_of_int (extPictureId AND 0x7fff) :: u16;
          tl0PicIdx = (if tl0PicIdxUsed v then lastTl0PicIdx v + word_of_int offset else 0);
          v = (if tl0PicIdxUsed v
               then v\<lparr>lastTl0PicIdx := tl0PicIdx, tl0PicIdxOffset := tl0PicIdxOffset v - word_of_int offset\<rparr> else v);
          headerSize = (if tl0PicIdxUsed v then headerSize + 1 else headerSize);
          headerSize = (if tidUsed v \<or> keyIdxUsed v then headerSize + 1 else headerSize);
          keyIdx = (if keyIdxUsed v then (lastKeyIdx v + word_of_int offset) AND 0x1f else 0);
          v = (if keyIdxUsed v then v\<lparr>lastKeyIdx := keyIdx, keyIdxOffset := keyIdxOffset v - word_of_int offset\<rparr> else v)
      in (v, vp8_Marshal env
               \<lparr>FirstByte = 0x10, vp8_S = False, vp8_I = pictureIdUsed v, vp8_M = (pictureId > 127), PictureID = pictureId,
                vp8_L = tl0PicIdxUsed v, TL0PICIDX = tl0PicIdx, vp8_T = tidUsed v, TID = 0, vp8_Y = True, vp8_K = keyIdxUsed v,
                KEYIDX = keyIdx, vp8_IsKeyFrame = True, HeaderSize = headerSize\<rparr>))"

section \<open>Temporal filter by dependency descriptors\<close>

definition ddTemporalFrameWindow :: u64 where
  "ddTemporalFrameWindow = 64"

record DDTemporal =
  dt_isVP8 :: bool
  dt_initialized :: bool
  dt_highestFrame :: u64
  decidedMask :: u64
  dt_forwardedMask :: u64

definition NewDDTemporal :: "bool \<Rightarrow> DDTemporal" where
  "NewDDTemporal isVP8 = \<lparr>dt_isVP8 = isVP8, dt_initialized = False, dt_highestFrame = 0, decidedMask = 0, dt_forwardedMask = 0\<rparr>"

definition dt_SetLast :: "DDTemporal \<Rightarrow> DDTemporal" where
  "dt_SetLast v = v\<lparr>dt_initialized := False\<rparr>"

definition dt_UpdateOffsets :: "DDTemporal \<Rightarrow> DDTemporal" where
  "dt_UpdateOffsets v = v\<lparr>dt_initialized := False\<rparr>"

definition dt_decision :: "u64 \<Rightarrow> DDTemporal \<Rightarrow> bool \<times> bool" where
  "dt_decision frame v =
     (if \<not> dt_initialized v \<or> frame > dt_highestFrame v \<or> dt_highestFrame v - frame \<ge> ddTemporalFrameWindow then (False, False)
      else let bit = push_bit (unat (dt_highestFrame v - frame)) 1
           in (dt_forwardedMask v AND bit \<noteq> 0, decidedMask v AND bit \<noteq> 0))"

definition dt_record :: "u64 \<Rightarrow> bool \<Rightarrow> DDTemporal \<Rightarrow> DDTemporal \<times> bool" where
  "dt_record frame isForwarded v =
     (let mark = (\<lambda>v. let bit = push_bit (unat (dt_highestFrame v - frame)) 1;
                          v = v\<lparr>decidedMask := decidedMask v OR bit\<rparr>
                      in (if isForwarded then v\<lparr>dt_forwardedMask := dt_forwardedMask v OR bit\<rparr> else v, True))
      in if \<not> dt_initialized v \<or> frame \<ge> dt_highestFrame v + ddTemporalFrameWindow
         then mark (v\<lparr>dt_initialized := True, dt_highestFrame := frame, decidedMask := 0, dt_forwardedMask := 0\<rparr>)
         else if frame > dt_highestFrame v
         then mark (v\<lparr>decidedMask := push_bit (unat (frame - dt_highestFrame v)) (decidedMask v),
                      dt_forwardedMask := push_bit (unat (frame - dt_highestFrame v)) (dt_forwardedMask v),
                      dt_highestFrame := frame\<rparr>)
         else if dt_highestFrame v - frame \<ge> ddTemporalFrameWindow then (v, False)
         else mark v)"

definition dt_UpdateAndGet :: "ExtPacket \<Rightarrow> bool \<Rightarrow> int \<Rightarrow> DDTemporal \<Rightarrow> DDTemporal \<times> 'e munged" where
  "dt_UpdateAndGet extPkt snOutOfOrder maxTemporalLayer v =
     (case ep_DependencyDescriptor extPkt of
        None \<Rightarrow> (v, Inr noHeader)
      | Some ddwdt \<Rightarrow>
          let frame = ExtFrameNum ddwdt;
              (isForwarded, ok) = dt_decision frame v;
              (v, isForwarded) =
                (if \<not> ok
                 then let isForwarded = (Temporal (ep_VideoLayer extPkt) \<le> maxTemporalLayer);
                          (v, recorded) = dt_record frame isForwarded v
                      in (v, isForwarded \<and> recorded)
                 else (v, isForwarded))
          in (v, if isForwarded then Inr noHeader
                 else if snOutOfOrder then Inl ErrFilteredOutOfOrder
                 else Inl ErrFilteredTemporalLayer))"

definition dt_UpdateAndGetPadding :: "(codecVP8 \<Rightarrow> 'e + u8 list) \<Rightarrow> DDTemporal \<Rightarrow> 'e + u8 list" where
  "dt_UpdateAndGetPadding marshal v =
     (if \<not> dt_isVP8 v then Inr []
      else marshal \<lparr>FirstByte = 0x10, vp8_S = False, vp8_I = False, vp8_M = False, PictureID = 0, vp8_L = False, TL0PICIDX = 0,
                    vp8_T = False, TID = 0, vp8_Y = False, vp8_K = False, KEYIDX = 0, vp8_IsKeyFrame = True, HeaderSize = 1\<rparr>)"

section \<open>The mungers as one type\<close>

datatype ('m, 'f) CodecMunger = cmNull munger_seed | cmVP8 "('m, 'f) VP8" | cmDDTemporal DDTemporal

definition NewVP8FromOther :: "('m, 'f, 'e) vp8_env \<Rightarrow> ('m, 'f) CodecMunger \<Rightarrow> ('m, 'f) VP8" where
  "NewVP8FromOther env cm =
     (case cm of
        cmNull seed \<Rightarrow> vp8_SeedState seed (NewVP8 env)
      | cmVP8 v \<Rightarrow> vp8_SeedState (vp8_GetState v) (NewVP8 env)
      | cmDDTemporal _ \<Rightarrow> NewVP8 env)"

definition cm_GetState :: "('m, 'f) CodecMunger \<Rightarrow> munger_seed" where
  "cm_GetState cm = (case cm of cmNull _ \<Rightarrow> OtherSeed | cmVP8 v \<Rightarrow> vp8_GetState v | cmDDTemporal _ \<Rightarrow> OtherSeed)"

definition cm_SeedState :: "munger_seed \<Rightarrow> ('m, 'f) CodecMunger \<Rightarrow> ('m, 'f) CodecMunger" where
  "cm_SeedState seed cm =
     (case cm of cmNull _ \<Rightarrow> cmNull seed | cmVP8 v \<Rightarrow> cmVP8 (vp8_SeedState seed v) | cmDDTemporal v \<Rightarrow> cmDDTemporal v)"

definition cm_SetLast :: "ExtPacket \<Rightarrow> ('m, 'f) CodecMunger \<Rightarrow> ('m, 'f) CodecMunger" where
  "cm_SetLast extPkt cm =
     (case cm of cmNull s \<Rightarrow> cmNull s | cmVP8 v \<Rightarrow> cmVP8 (vp8_SetLast extPkt v) | cmDDTemporal v \<Rightarrow> cmDDTemporal (dt_SetLast v))"

definition cm_UpdateOffsets :: "('m, 'f, 'e) vp8_env \<Rightarrow> ExtPacket \<Rightarrow> ('m, 'f) CodecMunger \<Rightarrow> ('m, 'f) CodecMunger" where
  "cm_UpdateOffsets env extPkt cm =
     (case cm of cmNull s \<Rightarrow> cmNull s | cmVP8 v \<Rightarrow> cmVP8 (vp8_UpdateOffsets env extPkt v)
      | cmDDTemporal v \<Rightarrow> cmDDTemporal (dt_UpdateOffsets v))"

definition cm_UpdateAndGet ::
  "('m, 'f, 'e) vp8_env \<Rightarrow> ExtPacket \<Rightarrow> bool \<Rightarrow> bool \<Rightarrow> int \<Rightarrow> ('m, 'f) CodecMunger \<Rightarrow>
   (('m, 'f) CodecMunger \<times> 'e munged) option" where
  "cm_UpdateAndGet env extPkt snOutOfOrder snHasGap maxTemporal cm =
     (case cm of
        cmNull s \<Rightarrow> Some (cmNull s, Inr noHeader)
      | cmVP8 v \<Rightarrow> map_option (map_prod cmVP8 id) (vp8_UpdateAndGet env extPkt snOutOfOrder snHasGap maxTemporal v)
      | cmDDTemporal v \<Rightarrow> Some (map_prod cmDDTemporal id (dt_UpdateAndGet extPkt snOutOfOrder maxTemporal v)))"

definition cm_UpdateAndGetPadding ::
  "('m, 'f, 'e) vp8_env \<Rightarrow> bool \<Rightarrow> ('m, 'f) CodecMunger \<Rightarrow> ('m, 'f) CodecMunger \<times> ('e + u8 list)" where
  "cm_UpdateAndGetPadding env newPicture cm =
     (case cm of
        cmNull s \<Rightarrow> (cmNull s, Inr [])
      | cmVP8 v \<Rightarrow> map_prod cmVP8 id (vp8_UpdateAndGetPadding env newPicture v)
      | cmDDTemporal v \<Rightarrow> (cmDDTemporal v, dt_UpdateAndGetPadding (vp8_Marshal env) v))"

section \<open>Loops end\<close>

text \<open>What an ordered map promises: it is a list of entries with distinct keys, in the order of insertion; setting a key
  that is present keeps its place.\<close>

definition ordered_map :: "('k, 'v, 'm) omap \<Rightarrow> ('m \<Rightarrow> ('k \<times> 'v) list) \<Rightarrow> bool" where
  "ordered_map M entries \<longleftrightarrow> entries (om_New M) = [] \<and> (\<forall>m k. om_Get M m k = map_of (entries m) k) \<and>
     (\<forall>k v m. entries (om_Set M k v m) = AList.update k v (entries m)) \<and>
     (\<forall>k m. entries (om_Delete M k m) = AList.delete k (entries m)) \<and>
     (\<forall>m. om_Front M m = (case entries m of [] \<Rightarrow> None | x # _ \<Rightarrow> Some (fst x))) \<and>
     (\<forall>m. om_Len M m = length (entries m)) \<and> (\<forall>m. distinct (map fst (entries m)))"

lemma delete_front: "distinct (map fst (x # xs)) \<Longrightarrow> AList.delete (fst x) (x # xs) = xs"
  by (cases x) (auto simp: AList.delete_eq filter_id_conv rev_image_eqI split: prod.splits)

lemma trim_entries:
  assumes M: "ordered_map M entries"
  shows "\<exists>m'. trim M n m = Some m' \<and> entries m' = drop (length (entries m) - n) (entries m)"
proof (induction "length (entries m)" arbitrary: m rule: less_induct)
  case less
  show ?case
  proof (cases "length (entries m) > n")
    case True
    then obtain x xs where x: "entries m = x # xs" by (cases "entries m") auto
    have "distinct (map fst (x # xs))" using M unfolding ordered_map_def x [symmetric] by blast
    then have d: "entries (om_Delete M (fst x) m) = xs" "om_Front M m = Some (fst x)" "om_Len M m > n"
      using M True delete_front [of x xs] by (simp_all add: ordered_map_def x)
    obtain m' where "trim M n (om_Delete M (fst x) m) = Some m'" "entries m' = drop (length xs - n) xs"
      using less [of "om_Delete M (fst x) m"] d x by auto
    then show ?thesis using d(2,3) x True by (subst trim.simps) (simp add: Suc_diff_le)
  qed (use M in \<open>subst trim.simps, simp add: ordered_map_def\<close>)
qed

lemma trim_bound: "ordered_map M entries \<Longrightarrow> \<exists>m'. trim M n m = Some m' \<and> length (entries m') \<le> n"
  using trim_entries [of M entries n m] by auto

lemma i32_id: "- (2 ^ 31) \<le> x \<Longrightarrow> x < 2 ^ 31 \<Longrightarrow> i32 x = x"
  unfolding i32_def by (rule signed_take_bit_int_eq_self) simp_all

lemma i32_range: "- (2 ^ 31) \<le> i32 x" "i32 x < 2 ^ 31"
  unfolding i32_def using signed_take_bit_int_greater_eq_minus_exp [of 31 x] signed_take_bit_int_less_exp [of 31 x] by simp_all

text \<open>Recording what may be lost ends unless the last picture has the highest number of all.\<close>

lemma recordLost_ends:
  assumes "- (2 ^ 31) \<le> lost" "ext < 2 ^ 31 - 1"
  shows "\<exists>m. recordLost env lost ext v = Some (v\<lparr>missingPictureIds := m\<rparr>)"
  using assms(1)
proof (induction "nat (ext + 1 - lost)" arbitrary: lost v rule: less_induct)
  case less
  show ?case
  proof (cases "lost \<le> ext")
    case True
    then have i: "i32 (lost + 1) = lost + 1" using less.prems assms(2) by (intro i32_id) auto
    let ?v = "if om_Get (flagMap env) (droppedPictureIds v) lost = None
              then v\<lparr>missingPictureIds := om_Set (offsetMap env) lost (pictureIdOffset v) (missingPictureIds v)\<rparr> else v"
    obtain m where "recordLost env (lost + 1) ext ?v = Some (?v\<lparr>missingPictureIds := m\<rparr>)"
      using less.hyps [of "lost + 1"] less.prems True by auto
    then show ?thesis using True i by (subst recordLost.simps) auto
  next
    case False
    then show ?thesis by (subst recordLost.simps) (auto intro: exI [of _ "missingPictureIds v"])
  qed
qed

text \<open>With that number it never ends.\<close>

lemma recordLost_hangs:
  assumes "lost < 2 ^ 31"
  shows "recordLost env lost (2 ^ 31 - 1) v = None"
proof -
  have "recordLost env lost ext v = Some v' \<Longrightarrow> \<not> (ext = 2 ^ 31 - 1 \<and> lost < 2 ^ 31)" for lost ext v v'
  proof (erule recordLost.raw_induct [where P = "\<lambda>env lost ext v v'. \<not> (ext = 2 ^ 31 - 1 \<and> lost < 2 ^ 31)", rotated])
    fix f and env :: "('a, 'b, 'c) vp8_env" and lost ext v v'
    assume IH: "\<And>env lost ext v v'. f env lost ext v = Some v' \<Longrightarrow> \<not> (ext = 2 ^ 31 - 1 \<and> lost < 2 ^ 31)"
      and run: "(if lost \<le> ext then f env (i32 (lost + 1)) ext
             (if om_Get (flagMap env) (droppedPictureIds v) lost = None
              then v\<lparr>missingPictureIds := om_Set (offsetMap env) lost (pictureIdOffset v) (missingPictureIds v)\<rparr> else v) else Some v) = Some v'"
    show "\<not> (ext = 2 ^ 31 - 1 \<and> lost < 2 ^ 31)"
    proof (cases "lost \<le> ext")
      case True
      then show ?thesis using IH [of env "i32 (lost + 1)" ext] run i32_range(2) [of "lost + 1"] by (metis (no_types))
    qed simp
  qed
  then show ?thesis using assms by (cases "recordLost env lost (2 ^ 31 - 1) v") auto
qed

text \<open>The wrap handler after at most \<open>n\<close> packets.\<close>

definition handler_ok :: "nat \<Rightarrow> VP8PictureIdWrapHandler \<Rightarrow> bool" where
  "handler_ok n wh \<longleftrightarrow> 0 \<le> totalWrap wh \<and> totalWrap wh \<le> 2 ^ 15 * int n \<and> 0 \<le> lastWrap wh \<and> lastWrap wh \<le> 2 ^ 15 \<and>
     - (2 ^ 31) \<le> wh_maxPictureId wh"

lemma handler_ok_init: "handler_ok n (wh_Init (uint (p :: u16) - 1) m)" "handler_ok n (wh_Init 0 m)"
  by (auto simp: handler_ok_def wh_Init_def intro: less_le_trans [OF _ uint_ge_0])

lemma picture_range: "0 \<le> uint (p AND 0x7fff :: u16)" "uint (p AND 0x7fff :: u16) < 2 ^ 15"
  "0 \<le> uint (p AND 0x7f :: u16)" "uint (p AND 0x7f :: u16) < 2 ^ 15"
  using word_and_le1 [of p "0x7fff"] word_and_le1 [of p "0x7f"] by (simp_all add: word_le_def)

lemma Unwrap_ok:
  assumes h: "handler_ok n wh" and n: "n < 65534" and u: "Unwrap p m wh = (wh', ext)"
  shows "handler_ok (Suc n) wh'" "- (2 ^ 31) \<le> ext" "ext < 2 ^ 31 - 1" "wh_maxPictureId wh' = wh_maxPictureId wh"
proof -
  define new where "new = (if m then uint (p AND 0x7fff) else uint (p AND 0x7f))"
  have new: "0 \<le> new" "new < 2 ^ 15" using picture_range [of p] by (simp_all add: new_def)
  have tw: "0 \<le> totalWrap wh" "totalWrap wh \<le> 2 ^ 15 * int n" "0 \<le> lastWrap wh" "lastWrap wh \<le> 2 ^ 15" using h by (simp_all add: handler_ok_def)
  have le: "2 ^ 15 * int n + 2 ^ 15 \<le> 2 ^ 31 - 2 ^ 16" using n by simp
  define mx where "mx = (if wh_maxPictureId wh > 0 then if maxMBit wh then wh_maxPictureId wh AND 0x7fff else wh_maxPictureId wh AND 0x7f
      else wh_maxPictureId wh)"
  define wrap :: int where "wrap = (if maxMBit wh then if isWrapping15Bit mx new then 2 ^ 15 else 0
      else if isWrapping7Bit mx new then 2 ^ 7 else 0)"
  have w: "wrap \<in> {0, 2 ^ 15, 2 ^ 7}" by (simp add: wrap_def)
  have "Unwrap p m wh = (if totalWrap wh > 0 \<and> i32 (wh_maxPictureId wh + drop_bit 1 (lastWrap wh)) < i32 (new + totalWrap wh)
     then (wh, i32 (i32 (new + totalWrap wh) - lastWrap wh))
     else let v = wh\<lparr>totalWrap := i32 (totalWrap wh + wrap)\<rparr>; v = (if wrap \<noteq> 0 then v\<lparr>lastWrap := wrap\<rparr> else v)
       in (v, i32 (new + totalWrap v)))"
    unfolding Unwrap_def mx_def new_def wrap_def Let_def ..
  then have r: "(wh' = wh \<and> ext = i32 (i32 (new + totalWrap wh) - lastWrap wh)) \<or>
     (totalWrap wh' = i32 (totalWrap wh + wrap) \<and> lastWrap wh' = (if wrap \<noteq> 0 then wrap else lastWrap wh) \<and>
      wh_maxPictureId wh' = wh_maxPictureId wh \<and> ext = i32 (new + i32 (totalWrap wh + wrap)))"
    using u by (auto simp: Let_def split: if_splits)
  have i: "i32 (new + totalWrap wh) = new + totalWrap wh" "i32 (totalWrap wh + wrap) = totalWrap wh + wrap"
    "i32 (new + (totalWrap wh + wrap)) = new + (totalWrap wh + wrap)" "i32 (new + totalWrap wh - lastWrap wh) = new + totalWrap wh - lastWrap wh"
    using new tw le w by (intro i32_id; auto)+
  show "handler_ok (Suc n) wh'" "wh_maxPictureId wh' = wh_maxPictureId wh"
    using r w tw h unfolding i by (auto simp: handler_ok_def)
  show "- (2 ^ 31) \<le> ext" "ext < 2 ^ 31 - 1" using r w new tw le unfolding i by auto
qed

definition caches_ok :: "('m \<Rightarrow> (int \<times> int) list) \<Rightarrow> ('f \<Rightarrow> (int \<times> bool) list) \<Rightarrow> ('m, 'f) VP8 \<Rightarrow> bool" where
  "caches_ok em ef v \<longleftrightarrow> length (em (missingPictureIds v)) \<le> missingPictureIdsThreshold \<and>
     length (ef (droppedPictureIds v)) \<le> droppedPictureIdsThreshold \<and> length (ef (exemptedPictureIds v)) \<le> exemptedPictureIdsThreshold"

lemma recordGap_ok:
  assumes maps: "ordered_map (offsetMap env) em" "ordered_map (flagMap env) ef" and bounds: "- (2 ^ 31) \<le> prev" "ext < 2 ^ 31 - 1" "caches_ok em ef v"
  shows "\<exists>v'. recordGap env filtered prev ext v = Some v' \<and> caches_ok em ef v' \<and> pictureIdWrapHandler v' = pictureIdWrapHandler v"
proof -
  obtain m where r: "recordLost env prev ext v = Some (v\<lparr>missingPictureIds := m\<rparr>)" using recordLost_ends [OF bounds(1,2), of env v] by blast
  obtain m' where m: "trim (offsetMap env) missingPictureIdsThreshold m = Some m'" "length (em m') \<le> missingPictureIdsThreshold"
    using trim_bound [OF maps(1)] by blast
  obtain x where "trim (flagMap env) exemptedPictureIdsThreshold (om_Set (flagMap env) ext True (exemptedPictureIds v)) = Some x"
    "length (ef x) \<le> exemptedPictureIdsThreshold" using trim_bound [OF maps(2)] by blast
  with r m bounds(3) show ?thesis by (simp add: recordGap_def caches_ok_def Let_def)
qed

lemma filterTemporal_ok:
  assumes maps: "ordered_map (flagMap env) ef" and c: "caches_ok em ef v"
  shows "\<exists>v'. filterTemporal env i prev ext v = Some v' \<and> caches_ok em ef v' \<and> pictureIdWrapHandler v' = pictureIdWrapHandler v"
proof -
  obtain x where "trim (flagMap env) droppedPictureIdsThreshold (om_Set (flagMap env) ext True (droppedPictureIds v)) = Some x"
    "length (ef x) \<le> droppedPictureIdsThreshold" using trim_bound [OF maps] by blast
  with c show ?thesis by (simp add: filterTemporal_def caches_ok_def)
qed

lemma forwardVP8_ok:
  "caches_ok em ef (fst (forwardVP8 env vp8 ext v)) = caches_ok em ef v"
  "pictureIdWrapHandler (fst (forwardVP8 env vp8 ext v)) = pictureIdWrapHandler v"
  by (simp_all add: forwardVP8_def Let_def caches_ok_def)

lemma UpdateAndGet_ok:
  assumes maps: "ordered_map (offsetMap env) em" "ordered_map (flagMap env) ef"
    and v: "caches_ok em ef v" "handler_ok n (pictureIdWrapHandler v)" "n < 65534"
  shows "\<exists>v' r. vp8_UpdateAndGet env p late gap maxT v = Some (v', r) \<and> caches_ok em ef v' \<and> handler_ok (Suc n) (pictureIdWrapHandler v')"
proof (cases "ep_VP8 p")
  case None
  then show ?thesis using v by (auto simp: vp8_UpdateAndGet_def handler_ok_def)
next
  case (Some vp8)
  obtain wh ext where u: "Unwrap (PictureID vp8) (vp8_M vp8) (pictureIdWrapHandler v) = (wh, ext)" by fastforce
  note U = Unwrap_ok [OF v(2,3) u]
  let ?v = "v\<lparr>pictureIdWrapHandler := wh\<rparr>"
  let ?w = "?v\<lparr>pictureIdWrapHandler := UpdateMaxPictureId ext (vp8_M vp8) wh\<rparr>"
  have v': "caches_ok em ef ?v" "caches_ok em ef ?w" using v(1) by (simp_all add: caches_ok_def)
  have h: "handler_ok (Suc n) (pictureIdWrapHandler ?w)" using U by (simp add: handler_ok_def UpdateMaxPictureId_def)
  have prev: "- (2 ^ 31) \<le> wh_maxPictureId wh" using U(1) by (simp add: handler_ok_def)
  let ?filtered = "Temporal (ep_VideoLayer p) > maxT"
  obtain g where g: "recordGap env ?filtered (wh_maxPictureId wh) ext ?w = Some g" "caches_ok em ef g" "pictureIdWrapHandler g = pictureIdWrapHandler ?w"
    using recordGap_ok [OF maps prev U(3) v'(2)] by blast
  obtain f where f: "filterTemporal env (vp8_I vp8) (wh_maxPictureId wh) ext ?w = Some f" "caches_ok em ef f" "pictureIdWrapHandler f = pictureIdWrapHandler ?w"
    using filterTemporal_ok [OF maps(2) v'(2)] by blast
  have fwd: "\<exists>v' r. Some (forwardVP8 env vp8 ext x) = Some (v', r) \<and> caches_ok em ef v' \<and> handler_ok (Suc n) (pictureIdWrapHandler v')"
    if "caches_ok em ef x" "pictureIdWrapHandler x = pictureIdWrapHandler ?w" for x
    using forwardVP8_ok(1) [of em ef env vp8 ext x] forwardVP8_ok(2) [of env vp8 ext x] that h by (cases "forwardVP8 env vp8 ext x") simp
  have run: "vp8_UpdateAndGet env p late gap maxT v =
     (if late
      then (case om_Get (offsetMap env) (missingPictureIds ?v) ext of
              None \<Rightarrow> Some (?v, Inl ErrOutOfOrderVP8PictureIdCacheMiss)
            | Some offset \<Rightarrow> Some (?v, marshalHeader env vp8 (mungedVP8 env vp8 (word_of_int (i32 (ext - offset) AND 0x7fff))
                               (TL0PICIDX vp8 - tl0PicIdxOffset ?v) (KEYIDX vp8 - keyIdxOffset ?v))))
      else if gap then Some (forwardVP8 env vp8 ext g)
      else if ?filtered \<and> om_Get (flagMap env) (exemptedPictureIds ?w) ext = None then Some (f, Inl ErrFilteredTemporalLayer)
      else Some (forwardVP8 env vp8 ext ?w))"
    using Some u g(1) f(1) by (simp add: vp8_UpdateAndGet_def Let_def)
  have hv: "handler_ok (Suc n) (pictureIdWrapHandler ?v)" using U(1) by simp
  show ?thesis unfolding run
    using v' h hv f g(2,3) fwd [OF g(2,3)] fwd [OF v'(2) refl] by (cases "om_Get (offsetMap env) (missingPictureIds ?v) ext") auto
qed

text \<open>Everything that happens to a munger.\<close>

datatype vp8_op = Packet ExtPacket bool bool int | Switch ExtPacket | Restart ExtPacket | Padding bool | Seed munger_seed

fun vp8_run :: "('m, 'f, 'e) vp8_env \<Rightarrow> vp8_op list \<Rightarrow> ('m, 'f) VP8 \<Rightarrow> (('m, 'f) VP8 \<times> 'e munged list) option" where
  "vp8_run env [] v = Some (v, [])"
| "vp8_run env (Packet p late gap maxT # ops) v =
     do { (v, r) \<leftarrow> vp8_UpdateAndGet env p late gap maxT v; (v, rs) \<leftarrow> vp8_run env ops v; Some (v, r # rs) }"
| "vp8_run env (Switch p # ops) v = vp8_run env ops (vp8_UpdateOffsets env p v)"
| "vp8_run env (Restart p # ops) v = vp8_run env ops (vp8_SetLast p v)"
| "vp8_run env (Padding new # ops) v = vp8_run env ops (fst (vp8_UpdateAndGetPadding env new v))"
| "vp8_run env (Seed s # ops) v = vp8_run env ops (vp8_SeedState s v)"

lemma vp8_step_ok:
  assumes v: "caches_ok em ef v" "handler_ok n (pictureIdWrapHandler v)"
  shows "caches_ok em ef (vp8_SetLast p v)" "handler_ok n (pictureIdWrapHandler (vp8_SetLast p v))"
    "caches_ok em ef (fst (vp8_UpdateAndGetPadding env new v))" "handler_ok n (pictureIdWrapHandler (fst (vp8_UpdateAndGetPadding env new v)))"
    "caches_ok em ef (vp8_SeedState s v)" "handler_ok n (pictureIdWrapHandler (vp8_SeedState s v))"
    "handler_ok n (pictureIdWrapHandler (vp8_UpdateOffsets env p v))"
    "ordered_map (offsetMap env) em \<Longrightarrow> ordered_map (flagMap env) ef \<Longrightarrow> caches_ok em ef (vp8_UpdateOffsets env p v)"
  using v handler_ok_init(1) [of n]
  by (auto simp: caches_ok_def vp8_SetLast_def vp8_UpdateAndGetPadding_def vp8_SeedState_def vp8_UpdateOffsets_def Let_def ordered_map_def
      split: option.splits munger_seed.splits)

definition packets :: "vp8_op list \<Rightarrow> nat" where
  "packets ops = length (filter (\<lambda>x. case x of Packet _ _ _ _ \<Rightarrow> True | _ \<Rightarrow> False) ops)"

lemma packets_simps [simp]:
  "packets [] = 0" "packets (Packet p l g t # ops) = Suc (packets ops)" "packets (Switch p # ops) = packets ops"
  "packets (Restart p # ops) = packets ops" "packets (Padding b # ops) = packets ops" "packets (Seed s # ops) = packets ops"
  by (simp_all add: packets_def)

lemma vp8_run_ok:
  assumes maps: "ordered_map (offsetMap env) em" "ordered_map (flagMap env) ef"
  shows "caches_ok em ef v \<Longrightarrow> handler_ok n (pictureIdWrapHandler v) \<Longrightarrow> n + packets ops \<le> 65534 \<Longrightarrow>
    \<exists>v' rs. vp8_run env ops v = Some (v', rs) \<and> caches_ok em ef v' \<and> length rs = packets ops"
proof (induction ops arbitrary: v n)
  case (Cons op ops)
  note S = vp8_step_ok [OF Cons.prems(1,2)]
  show ?case
  proof (cases op)
    case (Packet p late gap maxT)
    obtain v' r where v': "vp8_UpdateAndGet env p late gap maxT v = Some (v', r)" "caches_ok em ef v'" "handler_ok (Suc n) (pictureIdWrapHandler v')"
      using UpdateAndGet_ok [OF maps Cons.prems(1,2)] Cons.prems(3) Packet by fastforce
    obtain w rs where "vp8_run env ops v' = Some (w, rs)" "caches_ok em ef w" "length rs = packets ops"
      using Cons.IH [OF v'(2,3)] Cons.prems(3) Packet by auto
    then show ?thesis using v'(1) Packet by simp
  next
    case (Switch p)
    then show ?thesis using Cons.IH [OF S(8) [OF maps] S(7)] Cons.prems(3) by simp
  next
    case (Restart p)
    then show ?thesis using Cons.IH [OF S(1,2)] Cons.prems(3) by simp
  next
    case (Padding new)
    then show ?thesis using Cons.IH [OF S(3,4)] Cons.prems(3) by simp
  next
    case (Seed s)
    then show ?thesis using Cons.IH [OF S(5,6)] Cons.prems(3) by simp
  qed
qed simp

section \<open>A stream that never returns\<close>

text \<open>Picture ids that alternate between the ends of their range count a wrap with every other packet.\<close>

definition pic :: "u16 \<Rightarrow> ExtPacket" where
  "pic n = \<lparr>ep_VideoLayer = \<lparr>Spatial = 0, Temporal = 0\<rparr>, ExtSequenceNumber = 0, ExtTimestamp = 0, Payload = [], Marker = False,
     ep_VP8 = Some \<lparr>FirstByte = 0, vp8_S = False, vp8_I = True, vp8_M = True, PictureID = n, vp8_L = False, TL0PICIDX = 0, vp8_T = False, TID = 0,
       vp8_Y = False, vp8_K = False, KEYIDX = 0, vp8_IsKeyFrame = False, HeaderSize = 3\<rparr>,
     ep_VP9 = None, IsKeyFrame = False, ep_DependencyDescriptor = None, IsOutOfOrder = False\<rparr>"

abbreviation inOrder :: "u16 \<Rightarrow> vp8_op" where
  "inOrder n \<equiv> Packet (pic n) False False 0"

definition alternating :: "nat \<Rightarrow> vp8_op list" where
  "alternating k = concat (replicate k [inOrder 0, inOrder 32767])"

lemma vp8_run_append:
  "vp8_run env (a @ b) v = do { (v, rs) \<leftarrow> vp8_run env a v; (v, rs') \<leftarrow> vp8_run env b v; Some (v, rs @ rs') }"
proof (induction a arbitrary: v)
  case Nil
  show ?case by (cases "vp8_run env b v") auto
next
  case (Cons op a)
  show ?case
  proof (cases op)
    case (Packet p late gap maxT)
    then show ?thesis using Cons.IH by (cases "vp8_UpdateAndGet env p late gap maxT v") (auto split: prod.splits option.splits bind_splits)
  qed (use Cons.IH in simp_all)
qed

text \<open>A handler after \<open>k\<close> wraps at the picture \<open>x\<close>.\<close>

abbreviation wrapped :: "int \<Rightarrow> int \<Rightarrow> VP8PictureIdWrapHandler" where
  "wrapped k x \<equiv> \<lparr>wh_maxPictureId = x, maxMBit = True, totalWrap = 2 ^ 15 * k, lastWrap = 2 ^ 15\<rparr>"

lemma inOrder_step:
  assumes "Unwrap n True (pictureIdWrapHandler v) = (wh, ext)"
  shows "\<exists>v' r. vp8_UpdateAndGet env (pic n) False False 0 v = Some (v', r) \<and> pictureIdWrapHandler v' = wh\<lparr>wh_maxPictureId := ext, maxMBit := True\<rparr>"
  using assms by (auto simp: vp8_UpdateAndGet_def pic_def Let_def forwardVP8_def UpdateMaxPictureId_def)

lemma low_mask: "(2 ^ 15 * k - 1) AND 0x7fff = (2 ^ 15 - 1 :: int)" "(2 ^ 15 * k) AND 0x7fff = (0 :: int)"
proof -
  have m: "x AND 0x7fff = x mod 2 ^ 15" for x :: int using take_bit_eq_mask [of 15 x] by (simp add: take_bit_eq_mod mask_eq_exp_minus_1)
  show "(2 ^ 15 * k) AND 0x7fff = (0 :: int)" unfolding m by simp
  have "2 ^ 15 * k - 1 = (2 ^ 15 - 1) + 2 ^ 15 * (k - 1)" by (simp add: algebra_simps)
  then have "(2 ^ 15 * k - 1) mod 2 ^ 15 = (2 ^ 15 - 1 :: int)" by (simp only: mod_mult_self2) simp
  then show "(2 ^ 15 * k - 1) AND 0x7fff = (2 ^ 15 - 1 :: int)" unfolding m .
qed

lemma Unwrap_down:
  assumes "1 \<le> k" "k \<le> 65535"
  shows "Unwrap 32767 True (wrapped k (2 ^ 15 * k)) = (wrapped k (2 ^ 15 * k), 2 ^ 15 * k - 1)"
proof -
  have i: "i32 (2 ^ 15 * k + 2 ^ 14) = 2 ^ 15 * k + 2 ^ 14" "i32 (32767 + 2 ^ 15 * k) = 32767 + 2 ^ 15 * k"
    "i32 (32767 + 2 ^ 15 * k - 2 ^ 15) = 32767 + 2 ^ 15 * k - 2 ^ 15"
    using assms by (intro i32_id; simp)+
  show ?thesis using assms i by (simp add: Unwrap_def Let_def)
qed

lemma Unwrap_up:
  assumes "1 \<le> k" "k \<le> 65534"
  shows "Unwrap 0 True (wrapped k (2 ^ 15 * k - 1)) =
    ((wrapped (k + 1) (2 ^ 15 * k - 1)), 2 ^ 15 * (k + 1))"
proof -
  have i: "i32 (2 ^ 15 * k - 1 + 2 ^ 14) = 2 ^ 15 * k - 1 + 2 ^ 14" "i32 (2 ^ 15 * k) = 2 ^ 15 * k"
    "i32 (2 ^ 15 * k + 2 ^ 15) = 2 ^ 15 * k + 2 ^ 15" "i32 32767 = 32767"
    using assms by (intro i32_id; simp)+
  show ?thesis using assms i low_mask(1) [of k] by (simp add: Unwrap_def Let_def isWrapping15Bit_def algebra_simps)
qed

lemma packet_down:
  assumes "pictureIdWrapHandler v = wrapped k (2 ^ 15 * k)" "1 \<le> k" "k \<le> 65535"
  shows "\<exists>v' r. vp8_UpdateAndGet env (pic 32767) False False 0 v = Some (v', r) \<and> pictureIdWrapHandler v' = wrapped k (2 ^ 15 * k - 1)"
  using inOrder_step [OF Unwrap_down [OF assms(2,3), folded assms(1)], of env] assms(1) by simp

lemma packet_up:
  assumes "pictureIdWrapHandler v = wrapped k (2 ^ 15 * k - 1)" "1 \<le> k" "k \<le> 65534"
  shows "\<exists>v' r. vp8_UpdateAndGet env (pic 0) False False 0 v = Some (v', r) \<and> pictureIdWrapHandler v' = wrapped (k + 1) (2 ^ 15 * (k + 1))"
  using inOrder_step [OF Unwrap_up [OF assms(2,3), folded assms(1)], of env] by simp

lemma alternating_wraps:
  "pictureIdWrapHandler v = wrapped i (2 ^ 15 * i - 1) \<Longrightarrow> 1 \<le> i \<Longrightarrow> i + int k \<le> 65534 \<Longrightarrow>
   \<exists>v' rs. vp8_run env (alternating k) v = Some (v', rs) \<and> pictureIdWrapHandler v' = wrapped (i + int k) (2 ^ 15 * (i + int k) - 1)"
proof (induction k arbitrary: v i)
  case 0
  then show ?case by (simp add: alternating_def)
next
  case (Suc k)
  obtain v1 r1 where 1: "vp8_UpdateAndGet env (pic 0) False False 0 v = Some (v1, r1)" "pictureIdWrapHandler v1 = wrapped (i + 1) (2 ^ 15 * (i + 1))"
    using packet_up [OF Suc.prems(1)] Suc.prems by fastforce
  obtain v2 r2 where 2: "vp8_UpdateAndGet env (pic 32767) False False 0 v1 = Some (v2, r2)" "pictureIdWrapHandler v2 = wrapped (i + 1) (2 ^ 15 * (i + 1) - 1)"
    using packet_down [OF 1(2)] Suc.prems by fastforce
  obtain v' rs where "vp8_run env (alternating k) v2 = Some (v', rs)"
    "pictureIdWrapHandler v' = wrapped (i + 1 + int k) (2 ^ 15 * (i + 1 + int k) - 1)"
    using Suc.IH [OF 2(2)] Suc.prems by auto
  then show ?case using 1(1) 2(1) by (simp add: alternating_def algebra_simps)
qed

text \<open>The first packets: one wrap is counted when the ids fall from the highest to the lowest.\<close>

lemma first_wrap:
  "\<exists>v' rs. vp8_run env [Restart (pic 32767), inOrder 32767, inOrder 0, inOrder 32767] v = Some (v', rs) \<and>
     pictureIdWrapHandler v' = wrapped 1 (2 ^ 15 - 1)"
proof -
  let ?v = "vp8_SetLast (pic 32767) v"
  have "pictureIdWrapHandler ?v = \<lparr>wh_maxPictureId = 32766, maxMBit = True, totalWrap = 0, lastWrap = 0\<rparr>"
    by (simp add: vp8_SetLast_def pic_def wh_Init_def Let_def)
  then have "Unwrap 32767 True (pictureIdWrapHandler ?v) = (pictureIdWrapHandler ?v, 32767)"
    by (simp add: Unwrap_def Let_def isWrapping15Bit_def i32_id)
  from inOrder_step [OF this, of env] obtain v1 r1 where 1: "vp8_UpdateAndGet env (pic 32767) False False 0 ?v = Some (v1, r1)"
    "pictureIdWrapHandler v1 = \<lparr>wh_maxPictureId = 32767, maxMBit = True, totalWrap = 0, lastWrap = 0\<rparr>"
    using \<open>pictureIdWrapHandler ?v = _\<close> by auto
  have "Unwrap 0 True (pictureIdWrapHandler v1) = (wrapped 1 32767, 2 ^ 15)"
    unfolding 1(2) by (simp add: Unwrap_def Let_def isWrapping15Bit_def i32_id)
  from inOrder_step [OF this, of env] obtain v2 r2 where 2: "vp8_UpdateAndGet env (pic 0) False False 0 v1 = Some (v2, r2)"
    "pictureIdWrapHandler v2 = wrapped 1 (2 ^ 15 * 1)" by auto
  from packet_down [OF this(2)] obtain v3 r3 where "vp8_UpdateAndGet env (pic 32767) False False 0 v2 = Some (v3, r3)"
    "pictureIdWrapHandler v3 = wrapped 1 (2 ^ 15 * 1 - 1)" by fastforce
  then show ?thesis using 1(1) 2(1) by simp
qed

text \<open>The last packets: the id one below the middle, and the highest id behind a gap.\<close>

lemma last_packet_hangs:
  assumes "pictureIdWrapHandler v = wrapped 65534 (2 ^ 15 * 65534 - 1)"
  shows "\<exists>v' rs. vp8_run env [inOrder 0, inOrder 16383] v = Some (v', rs) \<and> vp8_UpdateAndGet env (pic 32767) False True 0 v' = None"
proof -
  obtain v1 r1 where 1: "vp8_UpdateAndGet env (pic 0) False False 0 v = Some (v1, r1)" "pictureIdWrapHandler v1 = wrapped 65535 (2 ^ 15 * 65535)"
    using packet_up [OF assms, of env] by auto
  have "Unwrap 16383 True (pictureIdWrapHandler v1) = (pictureIdWrapHandler v1, 2 ^ 15 * 65535 + 16383)"
    unfolding 1(2) by (simp add: Unwrap_def Let_def isWrapping15Bit_def i32_id)
  from inOrder_step [OF this, of env] obtain v2 r2 where 2: "vp8_UpdateAndGet env (pic 16383) False False 0 v1 = Some (v2, r2)"
    "pictureIdWrapHandler v2 = wrapped 65535 (2 ^ 15 * 65535 + 16383)" using 1(2) by auto
  have "Unwrap 32767 True (pictureIdWrapHandler v2) = (pictureIdWrapHandler v2, 2 ^ 31 - 1)"
    unfolding 2(2) by (simp add: Unwrap_def Let_def isWrapping15Bit_def i32_id)
  then have "vp8_UpdateAndGet env (pic 32767) False True 0 v2 = None"
    using recordLost_hangs [of "2 ^ 15 * 65535 + 16383" env] 2(2)
    by (simp add: vp8_UpdateAndGet_def pic_def Let_def recordGap_def UpdateMaxPictureId_def)
  then show ?thesis using 1(1) 2(1) by simp
qed

section \<open>Numbering of pictures\<close>

text \<open>Consecutive pictures of a stream: \<open>m\<close> tells whether ids have 15 or 7 bits. \<open>E\<close> is the extended id of the picture
  last seen; the handler tracks it exactly.\<close>

definition idRange :: "bool \<Rightarrow> int" where
  "idRange m = (if m then 2 ^ 15 else 2 ^ 7)"

definition tracks :: "bool \<Rightarrow> VP8PictureIdWrapHandler \<Rightarrow> int \<Rightarrow> bool" where
  "tracks m wh E \<longleftrightarrow> wh_maxPictureId wh = E \<and> maxMBit wh = m \<and> -1 \<le> E \<and> E < 2 ^ 30 \<and>
     totalWrap wh = (if E < 0 then 0 else idRange m * (E div idRange m)) \<and> (totalWrap wh > 0 \<longrightarrow> lastWrap wh = idRange m)"

lemma mask_mod: "(x :: int) AND 0x7fff = x mod 2 ^ 15" "x AND 0x7f = x mod 2 ^ 7"
  using take_bit_eq_mask [of 15 x] take_bit_eq_mask [of 7 x] by (simp_all add: take_bit_eq_mod mask_eq_exp_minus_1)

lemma id_of:
  assumes "uint p < idRange m"
  shows "(if m then uint (p AND 0x7fff) else uint (p AND 0x7f)) = uint (p :: u16)"
  using assms by (cases m) (simp_all add: idRange_def uint_and mask_mod [simplified])

lemma Unwrap_same:
  assumes t: "tracks m wh E" "0 \<le> E" and p: "uint p = E mod idRange m"
  shows "Unwrap p m wh = (wh, E)"
proof -
  let ?W = "idRange m"
  have W: "0 < ?W" "?W \<le> 2 ^ 15" by (simp_all add: idRange_def)
  have new: "(if m then uint (p AND 0x7fff) else uint (p AND 0x7f)) = E mod ?W" using id_of [of p m] p W by simp
  have mx: "(if E > 0 then if m then E AND 0x7fff else E AND 0x7f else E) = E mod ?W"
    using t(2) by (auto simp: mask_mod idRange_def)
  have tw: "totalWrap wh = ?W * (E div ?W)" "E < 2 ^ 30" "wh_maxPictureId wh = E" "maxMBit wh = m" "totalWrap wh > 0 \<longrightarrow> lastWrap wh = ?W"
    using t by (simp_all add: tracks_def)
  have "E mod ?W + ?W * (E div ?W) = E" by simp
  moreover have "i32 E = E" using t(2) tw(2) by (intro i32_id) auto
  moreover have "0 \<le> ?W * (E div ?W)" "?W * (E div ?W) \<le> E" using t(2) W zmod_le_nonneg_dividend [of E ?W] by (simp_all add: pos_imp_zdiv_nonneg_iff minus_mod_eq_mult_div [symmetric])
  moreover have "i32 (?W * (E div ?W)) = ?W * (E div ?W)" using calculation tw(2) by (intro i32_id) auto
  moreover have "i32 (E + drop_bit 1 ?W) = E + drop_bit 1 ?W" "0 \<le> drop_bit 1 ?W"
    using t(2) tw(2) by (auto simp: idRange_def intro!: i32_id)
  ultimately have "\<not> (totalWrap wh > 0 \<and> i32 (E + drop_bit 1 (lastWrap wh)) < i32 (E mod ?W + totalWrap wh))"
    "i32 (totalWrap wh + 0) = totalWrap wh" "i32 (E mod ?W + totalWrap wh) = E"
    using tw(1,5) by auto
  then show ?thesis
    unfolding Unwrap_def Let_def tw(3,4) new mx by (auto simp: isWrapping15Bit_def isWrapping7Bit_def)
qed

lemma succ_div_mod:
  assumes "0 < (W :: int)"
  shows "(E + 1) mod W = (if E mod W = W - 1 then 0 else E mod W + 1)"
    "(E + 1) div W = (if E mod W = W - 1 then E div W + 1 else E div W)"
proof -
  have r: "0 \<le> E mod W" "E mod W < W" "E = W * (E div W) + E mod W" using assms by simp_all
  have "(E + 1) mod W = (if E mod W = W - 1 then 0 else E mod W + 1) \<and>
    (E + 1) div W = (if E mod W = W - 1 then E div W + 1 else E div W)"
  proof (cases "E mod W = W - 1")
    case True
    then have "E + 1 = W * (E div W + 1) + 0" unfolding distrib_left using r(3) by linarith
    then show ?thesis using int_div_pos_eq [of "E + 1" W "E div W + 1" 0] int_mod_pos_eq [of "E + 1" W "E div W + 1" 0] True assms by simp
  next
    case False
    have "E + 1 = W * (E div W) + (E mod W + 1)" using r(3) by simp
    then show ?thesis using int_div_pos_eq [of "E + 1" W "E div W" "E mod W + 1"] int_mod_pos_eq [of "E + 1" W "E div W" "E mod W + 1"] r False by simp
  qed
  then show "(E + 1) mod W = (if E mod W = W - 1 then 0 else E mod W + 1)"
    "(E + 1) div W = (if E mod W = W - 1 then E div W + 1 else E div W)" by simp_all
qed

lemma Unwrap_next:
  assumes t: "tracks m wh E" "E + 1 < 2 ^ 30" and p: "uint p = (E + 1) mod idRange m"
  obtains wh' where "Unwrap p m wh = (wh', E + 1)" "tracks m (UpdateMaxPictureId (E + 1) m wh') (E + 1)" "wh_maxPictureId wh' = E"
proof -
  let ?W = "idRange m"
  have W: "2 \<le> ?W" "?W \<le> 2 ^ 15" "drop_bit 1 ?W = ?W div 2" by (simp_all add: idRange_def)
  have new: "(if m then uint (p AND 0x7fff) else uint (p AND 0x7f)) = (E + 1) mod ?W" using id_of [of p m] p W by simp
  have tw: "totalWrap wh = (if E < 0 then 0 else ?W * (E div ?W))" "-1 \<le> E" "wh_maxPictureId wh = E" "maxMBit wh = m" "totalWrap wh > 0 \<longrightarrow> lastWrap wh = ?W"
    using t(1) by (simp_all add: tracks_def)
  note succ = succ_div_mod [of ?W E]
  have r: "0 \<le> E mod ?W" "E mod ?W < ?W" "?W * (E div ?W) + E mod ?W = E" using W by simp_all
  define mx where "mx = (if E > 0 then if m then E AND 0x7fff else E AND 0x7f else E)"
  have mx: "mx = (if E < 0 then E else E mod ?W)" by (auto simp: mx_def mask_mod idRange_def)
  define wrap where "wrap = (if E \<ge> 0 \<and> E mod ?W = ?W - 1 then ?W else 0)"
  have total: "totalWrap wh + wrap = ?W * ((E + 1) div ?W)" "(E + 1) mod ?W + (totalWrap wh + wrap) = E + 1"
  proof -
    show "totalWrap wh + wrap = ?W * ((E + 1) div ?W)"
    proof (cases "E < 0")
      case True
      then have "E = -1" using tw(2) by simp
      then show ?thesis using tw W by (simp add: wrap_def)
    next
      case False
      then show ?thesis using succ(2) W tw(1) by (simp add: wrap_def algebra_simps)
    qed
    then show "(E + 1) mod ?W + (totalWrap wh + wrap) = E + 1" by simp
  qed
  have wr: "(if m then if isWrapping15Bit mx ((E + 1) mod ?W) then 2 ^ 15 else 0 else if isWrapping7Bit mx ((E + 1) mod ?W) then 2 ^ 7 else 0) = wrap"
  proof (cases "E < 0 \<or> E mod ?W \<noteq> ?W - 1")
    case True
    then have "mx \<le> (E + 1) mod ?W" using mx succ(1) W r tw(2) by auto
    then show ?thesis using True by (auto simp: isWrapping15Bit_def isWrapping7Bit_def wrap_def)
  next
    case False
    then have "mx = ?W - 1" "(E + 1) mod ?W = 0" "wrap = ?W" using mx succ(1) W by (simp_all add: wrap_def)
    then show ?thesis by (cases m) (simp_all add: isWrapping15Bit_def isWrapping7Bit_def idRange_def i32_id)
  qed
  have "?W div 2 \<le> 2 ^ 14" by (simp add: idRange_def)
  note W = W this
  have le: "0 \<le> totalWrap wh" "0 \<le> wrap" "0 \<le> (E + 1) mod ?W" using tw(1) W by (simp_all add: wrap_def pos_imp_zdiv_nonneg_iff)
  have b: "totalWrap wh + wrap \<le> E + 1" "(E + 1) mod ?W + totalWrap wh \<le> E + 1" "E + 1 < 2 ^ 30" using total(2) le t(2) by linarith+
  have small: "i32 x = x" if "-1 \<le> x" "x \<le> E + 1 + 2 ^ 14" for x using that b(3) by (intro i32_id) simp_all
  have i: "i32 (totalWrap wh + wrap) = totalWrap wh + wrap" "i32 (E + 1) = E + 1"
    "i32 ((E + 1) mod ?W + totalWrap wh) = (E + 1) mod ?W + totalWrap wh" "i32 (E + ?W div 2) = E + ?W div 2"
    using b le tw(2) W by (intro small; linarith)+
  have "(E + 1) mod ?W + totalWrap wh \<le> E + ?W div 2" using total(2) le W by linarith
  then have nb: "\<not> (totalWrap wh > 0 \<and> i32 (E + drop_bit 1 (lastWrap wh)) < i32 ((E + 1) mod ?W + totalWrap wh))"
    using tw(5) W(3) i by auto
  let ?wh = "if wrap \<noteq> 0 then wh\<lparr>totalWrap := totalWrap wh + wrap, lastWrap := wrap\<rparr> else wh\<lparr>totalWrap := totalWrap wh + wrap\<rparr>"
  have "Unwrap p m wh = (?wh, E + 1)"
    unfolding Unwrap_def Let_def tw(3,4) new mx_def [symmetric] if_not_P [OF nb] wr using i(1,2) total(2) by (cases "wrap = 0") simp_all
  moreover have "tracks m (UpdateMaxPictureId (E + 1) m ?wh) (E + 1)"
    using t(2) tw total(1) by (auto simp: tracks_def UpdateMaxPictureId_def wrap_def)
  ultimately show thesis using that tw(3) by simp
qed

text \<open>Packets of a stream whose pictures are consecutive: each packet belongs to the picture of the packet before it or to
  the next one, and packets of one picture are of one temporal layer, which is wanted or not as a whole.\<close>

fun consecutive :: "bool \<Rightarrow> int \<Rightarrow> bool \<Rightarrow> (ExtPacket \<times> int) list \<Rightarrow> bool" where
  "consecutive m E wanted [] \<longleftrightarrow> True"
| "consecutive m E wanted ((p, maxT) # ps) \<longleftrightarrow>
     (case ep_VP8 p of None \<Rightarrow> False
      | Some vp8 \<Rightarrow> vp8_I vp8 \<and> vp8_M vp8 = m \<and>
          (let w = (Temporal (ep_VideoLayer p) \<le> maxT) in
           (uint (PictureID vp8) = (E + 1) mod idRange m \<and> consecutive m (E + 1) w ps) \<or>
           (0 \<le> E \<and> uint (PictureID vp8) = E mod idRange m \<and> w = wanted \<and> consecutive m E wanted ps)))"

text \<open>The reference numbering: \<open>k\<close> is the number of the picture last forwarded, \<open>prev\<close> the id of the packet before. A packet
  that is not wanted is filtered, and a wanted one that starts a picture takes the next number.\<close>

fun numbering :: "u16 option \<Rightarrow> int \<Rightarrow> (ExtPacket \<times> int) list \<Rightarrow> int option list" where
  "numbering prev k [] = []"
| "numbering prev k ((p, maxT) # ps) =
     (let n = map_option PictureID (ep_VP8 p);
          w = (Temporal (ep_VideoLayer p) \<le> maxT);
          k' = (if w \<and> n \<noteq> prev then k + 1 else k)
      in (if w then Some k' else None) # numbering n k' ps)"

definition outcome :: "('m, 'f, 'e) vp8_env \<Rightarrow> u8 \<Rightarrow> u8 \<Rightarrow> (ExtPacket \<times> int) \<times> int option \<Rightarrow> 'e munged" where
  "outcome env tl0 key = (\<lambda>((p, _), x). case x of None \<Rightarrow> Inl ErrFilteredTemporalLayer
     | Some k \<Rightarrow> (let vp8 = the (ep_VP8 p) in
         marshalHeader env vp8 (mungedVP8 env vp8 (word_of_int (k mod 2 ^ 15)) (TL0PICIDX vp8 - tl0) ((KEYIDX vp8 - key) AND 0x1f))))"

abbreviation streamed :: "(ExtPacket \<times> int) list \<Rightarrow> vp8_op list" where
  "streamed ps \<equiv> map (\<lambda>(p, maxT). Packet p False False maxT) ps"

lemma forwardVP8_number:
  assumes "i32 (E - pictureIdOffset v) = k" "ep_VP8 p = Some vp8"
  shows "snd (forwardVP8 env vp8 E v) = outcome env (tl0PicIdxOffset v) (keyIdxOffset v) ((p, t), Some k)"
    "fst (forwardVP8 env vp8 E v) = v\<lparr>extLastPictureId := k, lastTl0PicIdx := TL0PICIDX vp8 - tl0PicIdxOffset v,
       lastKeyIdx := (KEYIDX vp8 - keyIdxOffset v) AND 0x1f\<rparr>"
  using assms by (simp_all add: forwardVP8_def Let_def outcome_def mask_mod)

text \<open>The munger numbers like that as long as its offset is the distance between the two numberings.\<close>

definition numbers_from :: "bool \<Rightarrow> int \<Rightarrow> int \<Rightarrow> ('f \<Rightarrow> (int \<times> bool) list) \<Rightarrow> ('m, 'f) VP8 \<Rightarrow> bool" where
  "numbers_from m E k ef v \<longleftrightarrow> tracks m (pictureIdWrapHandler v) E \<and> pictureIdOffset v = E - k \<and> 0 \<le> k \<and> k < 2 ^ 30 \<and> ef (exemptedPictureIds v) = []"

lemma number_packet:
  assumes maps: "ordered_map (flagMap env) ef" and v: "numbers_from m E k ef v" "E + 1 < 2 ^ 30" "k + 1 < 2 ^ 30"
    and p: "ep_VP8 p = Some vp8" "vp8_I vp8" "vp8_M vp8 = m" "w = (Temporal (ep_VideoLayer p) \<le> maxT)"
    and new: "new \<longrightarrow> uint (PictureID vp8) = (E + 1) mod idRange m" "\<not> new \<longrightarrow> 0 \<le> E \<and> uint (PictureID vp8) = E mod idRange m"
    and k': "k' = (if w \<and> new then k + 1 else k)"
  shows "\<exists>v'. vp8_UpdateAndGet env p False False maxT v =
      Some (v', outcome env (tl0PicIdxOffset v) (keyIdxOffset v) ((p, maxT), if w then Some k' else None)) \<and>
    numbers_from m (if new then E + 1 else E) k' ef v' \<and> tl0PicIdxOffset v' = tl0PicIdxOffset v \<and> keyIdxOffset v' = keyIdxOffset v"
proof -
  define E' where "E' = (if new then E + 1 else E)"
  have t: "tracks m (pictureIdWrapHandler v) E" "pictureIdOffset v = E - k" "0 \<le> k" "ef (exemptedPictureIds v) = []" "-1 \<le> E"
    using v(1) by (simp_all add: numbers_from_def tracks_def)
  obtain wh where u: "Unwrap (PictureID vp8) m (pictureIdWrapHandler v) = (wh, E')" "tracks m (UpdateMaxPictureId E' m wh) E'" "wh_maxPictureId wh = E"
  proof (cases new)
    case True
    then show thesis using Unwrap_next [OF t(1) v(2)] new(1) that by (auto simp: E'_def)
  next
    case False
    then have "Unwrap (PictureID vp8) m (pictureIdWrapHandler v) = (pictureIdWrapHandler v, E)" using Unwrap_same [OF t(1)] new(2) by blast
    then show thesis using that t(1) False by (auto simp: E'_def UpdateMaxPictureId_def tracks_def)
  qed
  let ?v = "v\<lparr>pictureIdWrapHandler := UpdateMaxPictureId E' m wh\<rparr>"
  have ex: "om_Get (flagMap env) (exemptedPictureIds ?v) E' = None" using maps t(4) by (simp add: ordered_map_def)
  obtain x where x: "trim (flagMap env) droppedPictureIdsThreshold (om_Set (flagMap env) E' True (droppedPictureIds ?v)) = Some x"
    using trim_bound [OF maps] by blast
  have i: "i32 (E - k + 1) = E - k + 1" using t v by (intro i32_id) auto
  have filt: "filterTemporal env True E E' ?v = Some (if new then ?v\<lparr>droppedPictureIds := x, pictureIdOffset := E - k + 1\<rparr> else ?v)"
    using x t(2) i by (auto simp: filterTemporal_def E'_def)
  have run: "vp8_UpdateAndGet env p False False maxT v =
    (if \<not> w then Some (if new then ?v\<lparr>droppedPictureIds := x, pictureIdOffset := E - k + 1\<rparr> else ?v, Inl ErrFilteredTemporalLayer)
     else Some (forwardVP8 env vp8 E' ?v))"
    using p u ex filt by (simp add: vp8_UpdateAndGet_def Let_def not_le)
  show ?thesis
  proof (cases w)
    case False
    then show ?thesis unfolding run E'_def [symmetric] using u(2) t k' v(1) by (auto simp: numbers_from_def outcome_def E'_def)
  next
    case True
    have "i32 (E' - (E - k)) = k'" using t v(2,3) True k' by (subst i32_id) (auto simp: E'_def)
    then have n: "i32 (E' - pictureIdOffset ?v) = k'" using t(2) by simp
    show ?thesis unfolding run E'_def [symmetric] using True forwardVP8_number(1) [OF n p(1), of env maxT] forwardVP8_number(2) [OF n p(1), of env] u(2) t k' v(3)
      by (cases "forwardVP8 env vp8 E' ?v") (auto simp: numbers_from_def E'_def)
  qed
qed

lemma next_id_differs: "(E + 1) mod idRange m \<noteq> E mod idRange m"
  using succ_div_mod(1) [of "idRange m" E] by (auto simp: idRange_def split: if_splits)

lemma number_stream:
  assumes maps: "ordered_map (flagMap env) ef"
  shows "numbers_from m E k ef v \<Longrightarrow> consecutive m E wanted ps \<Longrightarrow> E + int (length ps) < 2 ^ 30 \<Longrightarrow> k + int (length ps) < 2 ^ 30 \<Longrightarrow>
    (case prev of Some q \<Rightarrow> uint q = E mod idRange m
     | None \<Rightarrow> \<forall>p t. ps \<noteq> [] \<longrightarrow> hd ps = (p, t) \<longrightarrow> map_option (uint \<circ> PictureID) (ep_VP8 p) \<noteq> Some (E mod idRange m)) \<Longrightarrow>
    \<exists>v'. vp8_run env (streamed ps) v = Some (v', map (outcome env (tl0PicIdxOffset v) (keyIdxOffset v)) (zip ps (numbering prev k ps)))"
proof (induction ps arbitrary: E k v wanted prev)
  case (Cons pt ps)
  obtain p maxT where pt: "pt = (p, maxT)" by fastforce
  obtain vp8 where p: "ep_VP8 p = Some vp8" "vp8_I vp8" "vp8_M vp8 = m" using Cons.prems(2) pt by (auto split: option.splits)
  define w where "w = (Temporal (ep_VideoLayer p) \<le> maxT)"
  define new where "new = (uint (PictureID vp8) = (E + 1) mod idRange m)"
  have new: "new \<longrightarrow> uint (PictureID vp8) = (E + 1) mod idRange m" "\<not> new \<longrightarrow> 0 \<le> E \<and> uint (PictureID vp8) = E mod idRange m"
    and rest: "consecutive m (if new then E + 1 else E) w ps"
    using Cons.prems(2) pt p next_id_differs [of E m] by (auto simp: new_def w_def Let_def)
  have prev: "new \<longleftrightarrow> Some (PictureID vp8) \<noteq> prev"
  proof (cases prev)
    case None
    then have "uint (PictureID vp8) \<noteq> E mod idRange m" using Cons.prems(5) p(1) pt by simp
    then show ?thesis using new(2) None by blast
  next
    case (Some q)
    then have "uint q = E mod idRange m" using Cons.prems(5) by simp
    then show ?thesis using new next_id_differs [of E m] Some by (metis option.inject word_uint_eqI)
  qed
  have b: "E + 1 < 2 ^ 30" "k + 1 < 2 ^ 30" using Cons.prems(3,4) by auto
  let ?k = "if w \<and> new then k + 1 else k"
  obtain v' where v': "vp8_UpdateAndGet env p False False maxT v =
      Some (v', outcome env (tl0PicIdxOffset v) (keyIdxOffset v) ((p, maxT), if w then Some ?k else None))"
    "numbers_from m (if new then E + 1 else E) ?k ef v'" "tl0PicIdxOffset v' = tl0PicIdxOffset v" "keyIdxOffset v' = keyIdxOffset v"
    using number_packet [OF maps Cons.prems(1) b p w_def new refl] by blast
  have c: "(if new then E + 1 else E) + int (length ps) < 2 ^ 30" "?k + int (length ps) < 2 ^ 30" using Cons.prems(3,4) by auto
  have q: "case Some (PictureID vp8) of Some q \<Rightarrow> uint q = (if new then E + 1 else E) mod idRange m
     | None \<Rightarrow> \<forall>p t. ps \<noteq> [] \<longrightarrow> hd ps = (p, t) \<longrightarrow> map_option (uint \<circ> PictureID) (ep_VP8 p) \<noteq> Some ((if new then E + 1 else E) mod idRange m)"
    using new by simp
  obtain v2 where "vp8_run env (streamed ps) v' =
      Some (v2, map (outcome env (tl0PicIdxOffset v') (keyIdxOffset v')) (zip ps (numbering (Some (PictureID vp8)) ?k ps)))"
    using Cons.IH [OF v'(2) rest c q] by blast
  then show ?case using v'(1,3,4) p(1) pt prev by (simp add: Let_def w_def [symmetric])
qed simp

section \<open>One decision per frame\<close>

text \<open>The two masks are windows as the temporal selector has one: the frames decided and the frames forwarded.\<close>

definition decided :: "DDTemporal \<Rightarrow> TemporalDD" where
  "decided v = \<lparr>td_initialized = dt_initialized v, highestFrame = dt_highestFrame v, forwardedMask = decidedMask v\<rparr>"

definition forwarded :: "DDTemporal \<Rightarrow> TemporalDD" where
  "forwarded v = \<lparr>td_initialized = dt_initialized v, highestFrame = dt_highestFrame v, forwardedMask = dt_forwardedMask v\<rparr>"

lemma dt_record_windows:
  assumes "dt_record f b v = (v', ok)"
  shows "decided v' = td_onFrame f False True (decided v)" "forwarded v' = td_onFrame f False b (forwarded v)"
  using assms by (auto simp: dt_record_def td_onFrame_def decided_def forwarded_def Let_def ddTemporalFrameWindow_def ddFrameWindow_def split: if_splits)

lemma dt_record_old:
  assumes "dt_record f b v = (v', ok)"
  shows "ok \<longleftrightarrow> \<not> (dt_initialized v \<and> f \<le> dt_highestFrame v \<and> ddFrameWindow \<le> dt_highestFrame v - f \<and> \<not> dt_highestFrame v + ddFrameWindow \<le> f)"
  using assms by (auto simp: dt_record_def Let_def ddTemporalFrameWindow_def ddFrameWindow_def split: if_splits)

lemma dt_decision_windows:
  assumes "window_of (decided v) D" "window_of (forwarded v) F"
  shows "dt_decision f v = (in_frames F f, in_frames D f)"
proof (cases "\<not> dt_initialized v \<or> f > dt_highestFrame v \<or> dt_highestFrame v - f \<ge> ddFrameWindow")
  case True
  then show ?thesis using assms
    by (auto simp: dt_decision_def window_of_def in_frames_def decided_def forwarded_def ddTemporalFrameWindow_def ddFrameWindow_def split: option.splits)
next
  case False
  then have "unat (dt_highestFrame v - f) < 64" by (simp add: ddFrameWindow_def word_less_nat_alt not_le)
  note A = and_push_bit_one [OF this]
  obtain FD FF where "D = Some (dt_highestFrame v, FD)" "F = Some (dt_highestFrame v, FF)"
    using False assms by (auto simp: window_of_def decided_def forwarded_def split: option.splits)
  then show ?thesis using assms False A
    by (auto simp: dt_decision_def window_of_def in_frames_def decided_def forwarded_def ddTemporalFrameWindow_def ddFrameWindow_def not_le not_less)
qed

definition dd_frame :: "ExtPacket \<Rightarrow> u64 option" where
  "dd_frame p = map_option ExtFrameNum (ep_DependencyDescriptor p)"

fun dt_run :: "(ExtPacket \<times> bool \<times> int) list \<Rightarrow> DDTemporal \<Rightarrow> 'e munged list" where
  "dt_run [] v = []"
| "dt_run ((p, late, maxT) # ps) v = (let (v, r) = dt_UpdateAndGet p late maxT v in r # dt_run ps v)"

text \<open>The windows side by side, and what they say of a frame that was decided.\<close>

definition paired :: "window \<Rightarrow> window \<Rightarrow> bool" where
  "paired D F \<longleftrightarrow> (D = None \<and> F = None) \<or>
     (\<exists>h DS FS. D = Some (h, DS) \<and> F = Some (h, FS) \<and> FS \<subseteq> DS \<and> (\<forall>f \<in> DS. f \<le> h) \<and> h < 2 ^ 63)"

definition settled :: "u64 \<Rightarrow> bool \<Rightarrow> u64 \<Rightarrow> window \<Rightarrow> window \<Rightarrow> bool" where
  "settled f b h D F \<longleftrightarrow> (\<exists>DS FS. D = Some (h, DS) \<and> F = Some (h, FS) \<and> f \<le> h \<and> (h - f < ddFrameWindow \<longrightarrow> f \<in> DS \<and> (f \<in> FS \<longleftrightarrow> b)))"

text \<open>What a packet does to the windows.\<close>

definition decide :: "u64 \<Rightarrow> bool \<Rightarrow> window \<Rightarrow> window \<Rightarrow> window \<times> window \<times> bool" where
  "decide f want D F =
     (if in_frames D f then (D, F, in_frames F f)
      else (note_frame (f, False, True) D, note_frame (f, False, want) F,
            want \<and> \<not> (case D of None \<Rightarrow> False | Some (h, _) \<Rightarrow> f \<le> h \<and> ddFrameWindow \<le> h - f \<and> \<not> h + ddFrameWindow \<le> f)))"

lemma dt_step:
  assumes w: "window_of (decided v) D" "window_of (forwarded v) F" and p: "dd_frame p = Some f"
    and d: "decide f (Temporal (ep_VideoLayer p) \<le> maxT) D F = (D', F', b)"
  obtains v' r where "dt_UpdateAndGet p late maxT v = (v', r)" "isl r \<longleftrightarrow> \<not> b" "window_of (decided v') D'" "window_of (forwarded v') F'"
proof -
  obtain e where e: "ep_DependencyDescriptor p = Some e" "ExtFrameNum e = f" using p by (auto simp: dd_frame_def)
  note dec = dt_decision_windows [OF w, of f]
  show thesis
  proof (cases "in_frames D f")
    case True
    then show thesis using that [of v] dec e d w by (auto simp: dt_UpdateAndGet_def decide_def)
  next
    case False
    obtain v' ok where r: "dt_record f (Temporal (ep_VideoLayer p) \<le> maxT) v = (v', ok)" by fastforce
    note W = window_step [OF w(1), of f False True] window_step [OF w(2), of f False "Temporal (ep_VideoLayer p) \<le> maxT"]
    have "ok \<longleftrightarrow> \<not> (case D of None \<Rightarrow> False | Some (h, _) \<Rightarrow> f \<le> h \<and> ddFrameWindow \<le> h - f \<and> \<not> h + ddFrameWindow \<le> f)"
      using dt_record_old [OF r] w(1) by (auto simp: window_of_def decided_def split: option.splits)
    then show thesis using that [of v'] dec e d False r W dt_record_windows [OF r]
      by (auto simp: dt_UpdateAndGet_def decide_def Let_def)
  qed
qed

lemma window_gap: "h < 2 ^ 63 \<Longrightarrow> unat (h + ddFrameWindow) = unat h + 64" for h :: u64
  by (subst unat_add_lem [THEN iffD1]) (simp_all add: ddFrameWindow_def word_less_nat_alt)

lemma unat_ddFrameWindow: "unat ddFrameWindow = 64"
  by (simp add: ddFrameWindow_def)

lemmas window_order = word_le_nat_alt word_less_nat_alt unat_minus_wrap window_gap unat_ddFrameWindow

lemma decide_paired:
  assumes "paired D F" "decide f want D F = (D', F', b)" "f < 2 ^ 63"
  shows "paired D' F'"
proof (cases D)
  case None
  then show ?thesis using assms by (auto simp: decide_def in_frames_def note_frame_def paired_def Let_def)
next
  case (Some x)
  then obtain h DS FS where h: "D = Some (h, DS)" "F = Some (h, FS)" "FS \<subseteq> DS" "\<forall>f \<in> DS. f \<le> h" "h < 2 ^ 63" using assms(1) by (auto simp: paired_def)
  show ?thesis
  proof (cases "in_frames D f")
    case True
    then show ?thesis using assms by (auto simp: decide_def)
  next
    case False
    then have "D' = note_frame (f, False, True) D" "F' = note_frame (f, False, want) F" using assms(2) by (simp_all add: decide_def)
    then show ?thesis using h assms(3) by (auto simp: note_frame_def paired_def Let_def max_def)
  qed
qed

lemma decide_keeps:
  assumes s: "settled f b h D F" and p: "paired D F" and d: "decide g want D F = (D', F', r)"
  shows "\<exists>h'. settled f b h' D' F' \<and> h \<le> h' \<and> (h' = h \<or> h' = g) \<and> (g = f \<longrightarrow> (r \<longleftrightarrow> b \<and> h - f < ddFrameWindow))"
proof -
  obtain DS FS where h: "D = Some (h, DS)" "F = Some (h, FS)" "f \<le> h" "h - f < ddFrameWindow \<longrightarrow> f \<in> DS \<and> (f \<in> FS \<longleftrightarrow> b)"
    using s by (auto simp: settled_def)
  have h63: "h < 2 ^ 63" using p h(1) by (auto simp: paired_def)
  show ?thesis
  proof (cases "in_frames D g")
    case True
    then have "D' = D" "F' = F" "r = in_frames F g" using d by (auto simp: decide_def)
    then show ?thesis using s h True by (auto simp: in_frames_def)
  next
    case False
    then have n: "D' = note_frame (g, False, True) D" "F' = note_frame (g, False, want) F"
      "r \<longleftrightarrow> want \<and> \<not> (g \<le> h \<and> ddFrameWindow \<le> h - g \<and> \<not> h + ddFrameWindow \<le> g)"
      using d h(1) by (auto simp: decide_def)
    consider "h + ddFrameWindow \<le> g" | "h < g" "\<not> h + ddFrameWindow \<le> g" | "g \<le> h" "\<not> h + ddFrameWindow \<le> g" by fastforce
    then show ?thesis
    proof cases
      case 1
      then have "h \<le> g" "\<not> g - f < ddFrameWindow" "g \<noteq> f"
        using h(3) window_gap [OF h63] by (auto simp: window_order)
      then show ?thesis using n 1 h by (auto simp: settled_def note_frame_def)
    next
      case 2
      then have "g - f < ddFrameWindow \<Longrightarrow> h - f < ddFrameWindow" using h(3) by (auto simp: window_order)
      then show ?thesis using n 2 h by (auto simp: settled_def note_frame_def Let_def)
    next
      case 3
      then have "g = f \<Longrightarrow> \<not> h - f < ddFrameWindow" using False h by (auto simp: in_frames_def)
      then show ?thesis using n 3 h by (auto simp: settled_def note_frame_def Let_def)
    qed
  qed
qed

lemma decide_settles:
  assumes p: "paired D F" and d: "decide f want D F = (D', F', r)" and f: "f < 2 ^ 63"
  shows "\<exists>h. settled f r h D' F' \<and> (r \<longrightarrow> h - f < ddFrameWindow)"
proof (cases D)
  case None
  then show ?thesis using assms by (auto simp: decide_def in_frames_def note_frame_def paired_def settled_def Let_def ddFrameWindow_def)
next
  case (Some x)
  then obtain h DS FS where h: "D = Some (h, DS)" "F = Some (h, FS)" "FS \<subseteq> DS" "\<forall>f \<in> DS. f \<le> h" "h < 2 ^ 63" using p by (auto simp: paired_def)
  show ?thesis
  proof (cases "in_frames D f")
    case True
    then show ?thesis using d h by (auto simp: decide_def settled_def in_frames_def)
  next
    case False
    then have n: "D' = note_frame (f, False, True) D" "F' = note_frame (f, False, want) F"
      "r \<longleftrightarrow> want \<and> \<not> (f \<le> h \<and> ddFrameWindow \<le> h - f \<and> \<not> h + ddFrameWindow \<le> f)"
      using d h(1) by (auto simp: decide_def)
    consider "h < f" | "f \<le> h" "\<not> h + ddFrameWindow \<le> f"
      using h(5) by (fastforce simp: window_order)
    then show ?thesis
    proof cases
      case 1
      then have "f \<notin> DS" using h(4) by auto
      then show ?thesis using n 1 h by (auto simp: settled_def note_frame_def Let_def max_def ddFrameWindow_def)
    next
      case 2
      then show ?thesis using n h False by (auto simp: settled_def note_frame_def Let_def in_frames_def not_less not_le)
    qed
  qed
qed

lemma dt_run_later:
  "window_of (decided v) D \<Longrightarrow> window_of (forwarded v) F \<Longrightarrow> paired D F \<Longrightarrow> settled f b h D F \<Longrightarrow>
   \<forall>(p, _) \<in> set ps. \<exists>g. dd_frame p = Some g \<and> g < 2 ^ 63 \<Longrightarrow> j < length ps \<Longrightarrow> dd_frame (fst (ps ! j)) = Some f \<Longrightarrow>
   (\<not> isl (dt_run ps v ! j :: 'e munged) \<longrightarrow> b) \<and>
   (b \<and> h - f < ddFrameWindow \<longrightarrow> \<not> isl (dt_run ps v ! j :: 'e munged) \<or> (\<exists>l < j. \<exists>g. dd_frame (fst (ps ! l)) = Some g \<and> f + ddFrameWindow \<le> g))"
proof (induction ps arbitrary: v D F h j)
  case (Cons x ps)
  obtain p late maxT where x: "x = (p, late, maxT)" by (cases x)
  obtain g where g: "dd_frame p = Some g" "g < 2 ^ 63" using Cons.prems(5) x by auto
  obtain D' F' r where d: "decide g (Temporal (ep_VideoLayer p) \<le> maxT) D F = (D', F', r)" by (metis prod_cases3)
  obtain v' res where v': "dt_UpdateAndGet p late maxT v = (v', res :: 'e munged)" "isl res \<longleftrightarrow> \<not> r" "window_of (decided v') D'" "window_of (forwarded v') F'"
    by (rule dt_step [OF Cons.prems(1,2) g(1) d])
  obtain h' where h': "settled f b h' D' F'" "h' = h \<or> h' = g" "g = f \<longrightarrow> (r \<longleftrightarrow> b \<and> h - f < ddFrameWindow)"
    using decide_keeps [OF Cons.prems(4,3) d] by blast
  show ?case
  proof (cases j)
    case 0
    then have "g = f" using Cons.prems(7) x g(1) by simp
    then show ?thesis using 0 x v'(1,2) h'(3) by auto
  next
    case (Suc i)
    have IH: "(\<not> isl (dt_run ps v' ! i :: 'e munged) \<longrightarrow> b) \<and> (b \<and> h' - f < ddFrameWindow \<longrightarrow>
        \<not> isl (dt_run ps v' ! i :: 'e munged) \<or> (\<exists>l < i. \<exists>g. dd_frame (fst (ps ! l)) = Some g \<and> f + ddFrameWindow \<le> g))"
      using Cons.IH [OF v'(3,4) decide_paired [OF Cons.prems(3) d g(2)] h'(1)] Cons.prems(5-7) Suc by auto
    have far: "f + ddFrameWindow \<le> g" if "h - f < ddFrameWindow" "\<not> h' - f < ddFrameWindow"
    proof -
      have "f \<le> h'" using h'(1) by (auto simp: settled_def)
      moreover have "h' = g" using h'(2) that by auto
      ultimately have "f \<le> g" "\<not> g - f < ddFrameWindow" using that by auto
      moreover from this g(2) have "f < 2 ^ 63" by simp
      ultimately show ?thesis by (auto simp: word_le_nat_alt word_less_nat_alt unat_minus_wrap window_gap unat_ddFrameWindow)
    qed
    have "dt_run (x # ps) v ! j = (dt_run ps v' ! i :: 'e munged)" using Suc x v'(1) by simp
    moreover have "\<exists>l < j. \<exists>g. dd_frame (fst ((x # ps) ! l)) = Some g \<and> f + ddFrameWindow \<le> g"
      if "(\<exists>l < i. \<exists>g. dd_frame (fst (ps ! l)) = Some g \<and> f + ddFrameWindow \<le> g) \<or> f + ddFrameWindow \<le> g"
      using that
    proof
      assume "\<exists>l < i. \<exists>g. dd_frame (fst (ps ! l)) = Some g \<and> f + ddFrameWindow \<le> g"
      then obtain l g where "l < i" "dd_frame (fst (ps ! l)) = Some g" "f + ddFrameWindow \<le> g" by blast
      then show ?thesis using Suc by (intro exI [of _ "Suc l"]) auto
    next
      assume "f + ddFrameWindow \<le> g"
      then show ?thesis using Suc x g(1) by (intro exI [of _ 0]) auto
    qed
    ultimately show ?thesis using IH far by metis
  qed
qed simp

lemma dt_run_whole:
  "window_of (decided v) D \<Longrightarrow> window_of (forwarded v) F \<Longrightarrow> paired D F \<Longrightarrow>
   \<forall>(p, _) \<in> set ps. \<exists>g. dd_frame p = Some g \<and> g < 2 ^ 63 \<Longrightarrow> i < j \<Longrightarrow> j < length ps \<Longrightarrow>
   dd_frame (fst (ps ! i)) = Some f \<Longrightarrow> dd_frame (fst (ps ! j)) = Some f \<Longrightarrow>
   (\<not> isl (dt_run ps v ! j :: 'e munged) \<longrightarrow> \<not> isl (dt_run ps v ! i :: 'e munged)) \<and>
   (\<not> isl (dt_run ps v ! i :: 'e munged) \<longrightarrow> \<not> isl (dt_run ps v ! j :: 'e munged) \<or> (\<exists>l < j. \<exists>g. dd_frame (fst (ps ! l)) = Some g \<and> f + ddFrameWindow \<le> g))"
proof (induction ps arbitrary: v D F i j)
  case (Cons x ps)
  obtain p late maxT where x: "x = (p, late, maxT)" by (cases x)
  obtain g where g: "dd_frame p = Some g" "g < 2 ^ 63" using Cons.prems(4) x by auto
  obtain D' F' r where d: "decide g (Temporal (ep_VideoLayer p) \<le> maxT) D F = (D', F', r)" by (metis prod_cases3)
  obtain v' res where v': "dt_UpdateAndGet p late maxT v = (v', res :: 'e munged)" "isl res \<longleftrightarrow> \<not> r" "window_of (decided v') D'" "window_of (forwarded v') F'"
    by (rule dt_step [OF Cons.prems(1,2) g(1) d])
  note P = decide_paired [OF Cons.prems(3) d g(2)]
  obtain k where k: "j = Suc k" using Cons.prems(5) by (cases j) auto
  have rest: "\<forall>(p, _) \<in> set ps. \<exists>g. dd_frame p = Some g \<and> g < 2 ^ 63" "k < length ps" "dd_frame (fst (ps ! k)) = Some f"
    using Cons.prems(4,6,8) k by auto
  have run: "dt_run (x # ps) v = (res # dt_run ps v' :: 'e munged list)" using x v'(1) by simp
  have shift: "\<exists>l < j. \<exists>g. dd_frame (fst ((x # ps) ! l)) = Some g \<and> f + ddFrameWindow \<le> g"
    if "\<exists>l < k. \<exists>g. dd_frame (fst (ps ! l)) = Some g \<and> f + ddFrameWindow \<le> g"
    using that k by (metis Suc_mono nth_Cons_Suc)
  show ?case
  proof (cases i)
    case 0
    then have "g = f" using Cons.prems(7) x g(1) by simp
    then obtain h where h: "settled f r h D' F'" "r \<longrightarrow> h - f < ddFrameWindow" using decide_settles [OF Cons.prems(3) d g(2)] by blast
    from dt_run_later [where ?'e = 'e, OF v'(3,4) P h(1) rest] show ?thesis
      unfolding run 0 k nth_Cons_0 nth_Cons_Suc using h(2) v'(2) shift k by metis
  next
    case (Suc i')
    then have "i' < k" "dd_frame (fst (ps ! i')) = Some f" using Cons.prems(5,7) k by auto
    from Cons.IH [OF v'(3,4) P rest(1) this(1) rest(2) this(2) rest(3)] show ?thesis
      unfolding run Suc k nth_Cons_Suc using shift [unfolded k] by blast
  qed
qed simp

section \<open>Properties\<close>

text \<open>C35. The VP8 munger ends and stays small. Through any series of packets in or out of order, with or without gaps, switches,
  restarts, padding and seeds, as long as it has fewer than \<open>65535\<close> packets, every call returns: the loops that record
  and trim picture ids end, no front element of an empty cache is dereferenced, and the three caches stay within
  their thresholds.\<close>

theorem VP8_returns:
  assumes "ordered_map (offsetMap env) em" "ordered_map (flagMap env) ef" "packets ops < 65535"
  shows "\<exists>v rs. vp8_run env ops (NewVP8 env) = Some (v, rs) \<and> length rs = packets ops \<and>
    length (em (missingPictureIds v)) \<le> 50 \<and> length (ef (droppedPictureIds v)) \<le> 20 \<and> length (ef (exemptedPictureIds v)) \<le> 20"
proof -
  have "caches_ok em ef (NewVP8 env)" "handler_ok 0 (pictureIdWrapHandler (NewVP8 env))"
    using assms(1,2) handler_ok_init(2) by (simp_all add: caches_ok_def NewVP8_def ordered_map_def)
  from vp8_run_ok [OF assms(1,2) this, of ops] assms(3) show ?thesis
    by (auto simp: caches_ok_def missingPictureIdsThreshold_def droppedPictureIdsThreshold_def exemptedPictureIdsThreshold_def)
qed

text \<open>C36. A publisher can make the VP8 munger loop for ever. Picture ids that alternate between their lowest and highest value
  count a wrap with every other packet; after about \<open>131000\<close> packets, all of which are forwarded, the sum of the wraps
  is so high that the next picture gets the highest 32 bit number, and when it follows a gap, the loop over the
  pictures that may be lost never ends, because its counter wraps around below its bound.\<close>

theorem VP8_gap_loop_hangs:
  "\<exists>v' rs. vp8_run env ([Restart (pic 32767), inOrder 32767, inOrder 0, inOrder 32767] @ alternating 65533 @ [inOrder 0, inOrder 16383]) v = Some (v', rs) \<and>
     vp8_UpdateAndGet env (pic 32767) False True 0 v' = None"
proof -
  obtain v1 rs1 where 1: "vp8_run env [Restart (pic 32767), inOrder 32767, inOrder 0, inOrder 32767] v = Some (v1, rs1)"
    "pictureIdWrapHandler v1 = wrapped 1 (2 ^ 15 * 1 - 1)" using first_wrap [of env v] by auto
  obtain v2 rs2 where 2: "vp8_run env (alternating 65533) v1 = Some (v2, rs2)" "pictureIdWrapHandler v2 = wrapped 65534 (2 ^ 15 * 65534 - 1)"
    using alternating_wraps [OF 1(2), of 65533 env] by auto
  obtain v3 rs3 where 3: "vp8_run env [inOrder 0, inOrder 16383] v2 = Some (v3, rs3)" "vp8_UpdateAndGet env (pic 32767) False True 0 v3 = None"
    using last_packet_hangs [OF 2(2)] by blast
  show ?thesis unfolding vp8_run_append 1(1) 2(1) 3(1) bind.simps prod.case using 3(2) by simp
qed

text \<open>C11. The pictures that go out are numbered without gaps. After a switch to a stream whose pictures are consecutive, with
  ids of 7 or 15 bits that wrap around, when no packet is lost and each picture is wanted or filtered as a whole,
  the munger filters exactly what is not wanted, and each picture it forwards takes the number behind that of the
  picture forwarded before it, starting behind the last one before the switch.\<close>

theorem VP8_numbers_pictures:
  assumes "ordered_map (flagMap env) ef" "ep_VP8 p = Some vp8" "vp8_M vp8 = m" "pictureIdUsed v"
    and "consecutive m (uint (PictureID vp8) - 1) wanted ((p, maxT) # ps)" "uint (PictureID vp8) < idRange m"
    and "0 \<le> extLastPictureId v" "extLastPictureId v + int (length ps) < 2 ^ 29" "length ps < 2 ^ 29"
  shows "\<exists>v'. vp8_run env (Switch p # streamed ((p, maxT) # ps)) v =
    Some (v', map (outcome env (tl0PicIdxOffset (vp8_UpdateOffsets env p v)) (keyIdxOffset (vp8_UpdateOffsets env p v)))
      (zip ((p, maxT) # ps) (numbering None (extLastPictureId v) ((p, maxT) # ps))))"
proof -
  let ?E = "uint (PictureID vp8) - 1" and ?v = "vp8_UpdateOffsets env p v"
  have id: "0 \<le> uint (PictureID vp8)" "uint (PictureID vp8) < 2 ^ 15" using assms(6) by (auto simp: idRange_def split: if_splits)
  have small: "i32 x = x" if "- (2 ^ 29) - 1 \<le> x" "x < 2 ^ 15" for x using that by (intro i32_id) simp_all
  have e: "extLastPictureId v < 2 ^ 29" using assms(8) by simp
  have "i32 (uint (PictureID vp8) - extLastPictureId v) = uint (PictureID vp8) - extLastPictureId v"
    "i32 (uint (PictureID vp8) - extLastPictureId v - 1) = uint (PictureID vp8) - extLastPictureId v - 1"
    using id assms(7) e by (intro small; linarith)+
  moreover have "?E div idRange m = 0" if "0 \<le> ?E" using that assms(6) by (intro div_pos_pos_trivial) auto
  ultimately have n: "numbers_from m ?E (extLastPictureId v) ef ?v"
    using assms(1-4,7,8) id
    by (auto simp: numbers_from_def tracks_def vp8_UpdateOffsets_def Let_def wh_Init_def ordered_map_def intro: less_le_trans [OF _ uint_ge_0])
  have first: "(?E + 1) mod idRange m \<noteq> ?E mod idRange m" by (rule next_id_differs)
  show ?thesis
    using number_stream [OF assms(1) n assms(5), of None] assms(2,6,8,9) id first by simp
qed

text \<open>C37. A frame is filtered as a whole. The filter by dependency descriptors decides once per frame: when a packet of a frame
  is filtered, every later packet of it is, whatever temporal layer is wanted by then and however packets are
  reordered; and when a packet is forwarded, every later packet of its frame is, unless a frame came in
  between that is \<open>64\<close> or more ahead.\<close>

theorem DDTemporal_whole_frames:
  assumes "\<forall>(p, _) \<in> set ps. \<exists>g. dd_frame p = Some g \<and> g < 2 ^ 63" "i < j" "j < length ps"
    and "dd_frame (fst (ps ! i)) = Some f" "dd_frame (fst (ps ! j)) = Some f"
    and "rs = (dt_run ps (NewDDTemporal isVP8) :: 'e munged list)"
  shows "(isl (rs ! i) \<longrightarrow> isl (rs ! j)) \<and>
    (\<not> isl (rs ! i) \<longrightarrow> \<not> isl (rs ! j) \<or> (\<exists>l < j. \<exists>g. dd_frame (fst (ps ! l)) = Some g \<and> f + 64 \<le> g))"
proof -
  have w: "window_of (decided (NewDDTemporal isVP8)) None" "window_of (forwarded (NewDDTemporal isVP8)) None" "paired None None"
    by (simp_all add: window_of_def decided_def forwarded_def NewDDTemporal_def paired_def)
  from dt_run_whole [where ?'e = 'e, OF w assms(1-5)] show ?thesis unfolding assms(6) ddFrameWindow_def by blast
qed

subsection \<open>Witnesses\<close>

text \<open>Ordered maps as lists of entries with distinct keys.\<close>

definition listMap :: "('k, 'v, ('k, 'v) alist) omap" where
  "listMap = \<lparr>om_New = DAList.empty, om_Get = DAList.lookup, om_Set = DAList.update, om_Delete = DAList.delete,
     om_Front = (\<lambda>m. case DAList.impl_of m of [] \<Rightarrow> None | x # _ \<Rightarrow> Some (fst x)), om_Len = (\<lambda>m. length (DAList.impl_of m))\<rparr>"

lemma listMap_ordered: "ordered_map listMap DAList.impl_of"
  by (simp add: ordered_map_def listMap_def DAList.lookup.rep_eq DAList.empty.rep_eq DAList.update.rep_eq DAList.delete.rep_eq)

definition exampleEnv :: "((int, int) alist, (int, bool) alist, unit) vp8_env" where
  "exampleEnv = \<lparr>offsetMap = listMap, flagMap = listMap, vp8_MarshalTo = (\<lambda>d. Inr ([ucast (PictureID d)], 1)), vp8_Marshal = (\<lambda>_. Inr []),
     VPxPictureIdSizeDiff = (\<lambda>_ _. 0)\<rparr>"

lemma exampleEnv_maps: "ordered_map (offsetMap exampleEnv) DAList.impl_of" "ordered_map (flagMap exampleEnv) DAList.impl_of"
  using listMap_ordered by (simp_all add: exampleEnv_def)

theorem VP8_returns_witness:
  "\<exists>v rs. vp8_run exampleEnv [Restart (pic 7), inOrder 7, Packet (pic 9) False True 0, Packet (pic 8) True False 0, Padding True] (NewVP8 exampleEnv) = Some (v, rs) \<and>
     length rs = 3 \<and> length (DAList.impl_of (missingPictureIds v)) \<le> 50"
  using VP8_returns [OF exampleEnv_maps, of "[Restart (pic 7), inOrder 7, Packet (pic 9) False True 0, Packet (pic 8) True False 0, Padding True]"] by auto

theorem VP8_numbers_pictures_witness:
  "\<exists>v'. vp8_run exampleEnv (Switch (pic 32767) # streamed [(pic 32767, 0), (pic 0, - 1), (pic 1, 0)]) (vp8_SetLast (pic 100) (NewVP8 exampleEnv)) =
     Some (v', [Inr (3, [101], 1), Inl ErrFilteredTemporalLayer, Inr (3, [102], 1)])"
proof -
  let ?v = "vp8_SetLast (pic 100) (NewVP8 exampleEnv)"
  have v: "pictureIdUsed ?v" "extLastPictureId ?v = 100" by (simp_all add: vp8_SetLast_def pic_def Let_def)
  have c: "consecutive True (uint (PictureID (the (ep_VP8 (pic 32767)))) - 1) True [(pic 32767, 0), (pic 0, - 1), (pic 1, 0)]"
    by (simp add: pic_def idRange_def Let_def)
  have n: "numbering None 100 [(pic 32767, 0), (pic 0, - 1), (pic 1, 0)] = [Some 101, None, Some 102]" by (simp add: pic_def Let_def)
  obtain v' where "vp8_run exampleEnv (Switch (pic 32767) # streamed [(pic 32767, 0), (pic 0, - 1), (pic 1, 0)]) ?v =
      Some (v', map (outcome exampleEnv (tl0PicIdxOffset (vp8_UpdateOffsets exampleEnv (pic 32767) ?v)) (keyIdxOffset (vp8_UpdateOffsets exampleEnv (pic 32767) ?v)))
        (zip [(pic 32767, 0), (pic 0, - 1), (pic 1, 0)] (numbering None 100 [(pic 32767, 0), (pic 0, - 1), (pic 1, 0)])))"
    using VP8_numbers_pictures [OF exampleEnv_maps(2) _ _ v(1), of "pic 32767" "the (ep_VP8 (pic 32767))" True True 0 "[(pic 0, - 1), (pic 1, 0)]"] c v(2)
    by (auto simp: pic_def idRange_def)
  then show ?thesis unfolding n by (simp add: outcome_def pic_def marshalHeader_def exampleEnv_def mungedVP8_def)
qed

definition framed :: "u64 \<Rightarrow> ExtPacket" where
  "framed n = (pic 0)\<lparr>ep_DependencyDescriptor := Some \<lparr>Descriptor = None, DecodeTargets = [], StructureUpdated = False,
     ActiveDecodeTargetsUpdated = False, ActiveDecodeTargetsMask = 0, Integrity = False, ExtFrameNum = n, ExtKeyFrameNum = 0, RestartGeneration = 0\<rparr>\<rparr>"

theorem DDTemporal_whole_frames_witness:
  "(dt_run [(framed 7, False, - 1), (framed 8, False, 0), (framed 7, True, 0)] (NewDDTemporal False) :: unit munged list) =
     [Inl ErrFilteredTemporalLayer, Inr noHeader, Inl ErrFilteredOutOfOrder]"
proof -
  let ?ps = "[(framed 7, False, - 1), (framed 8, False, 0), (framed 7, True, 0)]"
  have f: "dd_frame (framed n) = Some n" for n by (simp add: dd_frame_def framed_def)
  define rs where "rs = (dt_run ?ps (NewDDTemporal False) :: unit munged list)"
  have run: "rs ! 0 = Inl ErrFilteredTemporalLayer" "rs ! 1 = Inr noHeader" "rs ! 2 = Inr noHeader \<or> rs ! 2 = Inl ErrFilteredOutOfOrder" "length rs = 3"
    unfolding rs_def
    by (auto simp: framed_def pic_def dt_UpdateAndGet_def dt_decision_def dt_record_def NewDDTemporal_def Let_def ddTemporalFrameWindow_def
        split: prod.splits)
  have "isl (rs ! 2)"
    using DDTemporal_whole_frames [of ?ps 0 2 7 rs False] f run(1) rs_def by simp
  then have "rs ! 2 = Inl ErrFilteredOutOfOrder" using run(3) by auto
  moreover obtain a b c where "rs = [a, b, c]" using run(4) by (auto simp: numeral_3_eq_3 length_Suc_conv)
  ultimately show ?thesis using run(1,2) unfolding rs_def [symmetric] by simp
qed

end
