(* ===== verification/DecisionCache.thy ===== *)
theory DecisionCache
  imports Prelude
begin

text \<open>
  What became of recent frames: \<open>SelectorDecisionCache\<close> of
  \<open>pkg/sfu/videolayerselector/selectordecisioncache.go\<close>.

  The cache keeps two bits per frame in a ring of 64 bit words. Whoever waits for the decision on a frame that
  has not come yet registers a function for it; the only functions registered in the program are
  \<open>FrameChain.OnExpectFrameChanged\<close> of some chain, so a function is the address of its chain, and an operation
  returns the calls it makes besides the new cache. The map of functions is an association list: the order in
  which Go iterates over it is not specified, and the lemmas hold for any order of the list. \<^term>\<open>None\<close> is a
  run-time panic.

  Lemmas: as long as frame numbers do not jump too far ahead, the cache answers as the map of the decisions
  added does, with frames that were skipped unknown while they may still come and missing afterwards. With a
  larger jump the slots of the newest frames are marked missing too.
\<close>

section \<open>Model\<close>

datatype selectorDecision =
  selectorDecisionMissing | selectorDecisionDropped | selectorDecisionForwarded | selectorDecisionUnknown

definition sd_code :: "selectorDecision \<Rightarrow> u64" where
  "sd_code sd = (case sd of selectorDecisionMissing \<Rightarrow> 0 | selectorDecisionDropped \<Rightarrow> 1
     | selectorDecisionForwarded \<Rightarrow> 2 | selectorDecisionUnknown \<Rightarrow> 3)"

definition sd_of :: "u64 \<Rightarrow> selectorDecision" where
  "sd_of v = (if v = 0 then selectorDecisionMissing else if v = 1 then selectorDecisionDropped
     else if v = 2 then selectorDecisionForwarded else selectorDecisionUnknown)"

record SelectorDecisionCache =
  sc_initialized :: bool
  sc_base :: u64
  sc_last :: u64
  sc_masks :: "u64 list"
  sc_numEntries :: u64
  sc_numNackEntries :: u64
  onExpectEntityChanged :: "(u64 \<times> nat list) list"

type_synonym chain_call = "nat \<times> u64 \<times> selectorDecision"

definition NewSelectorDecisionCache :: "u64 \<Rightarrow> u64 \<Rightarrow> SelectorDecisionCache" where
  "NewSelectorDecisionCache maxNumElements numNackEntries =
     (let numElements = (maxNumElements * 2 + 63) div 64 in
      \<lparr>sc_initialized = False, sc_base = 0, sc_last = 0, sc_masks = replicate (unat numElements) 0,
       sc_numEntries = numElements * 32, sc_numNackEntries = numNackEntries, onExpectEntityChanged = []\<rparr>)"

definition sc_getPos :: "SelectorDecisionCache \<Rightarrow> u64 \<Rightarrow> (nat \<times> nat) option" where
  "sc_getPos s entity =
     (if sc_numEntries s = 0 then None
      else let offset = (entity - sc_base s) mod sc_numEntries s in
           Some (unat (drop_bit 5 offset), unat (offset AND 0x1F) * 2))"

definition getEntity :: "SelectorDecisionCache \<Rightarrow> u64 \<Rightarrow> selectorDecision option" where
  "getEntity s entity =
     do {
       (index, bitpos) \<leftarrow> sc_getPos s entity;
       if index < length (sc_masks s) then Some (sd_of (drop_bit bitpos (sc_masks s ! index) AND 0x3)) else None
     }"

definition setEntity ::
  "SelectorDecisionCache \<Rightarrow> u64 \<Rightarrow> selectorDecision \<Rightarrow> (SelectorDecisionCache \<times> chain_call list) option" where
  "setEntity s entity sd =
     do {
       (index, bitpos) \<leftarrow> sc_getPos s entity;
       if index < length (sc_masks s)
       then
         let mask = sc_masks s ! index;
             mask = mask AND NOT (push_bit bitpos 0x3);
             mask = mask OR push_bit bitpos (sd_code sd AND 0x3);
             s = s\<lparr>sc_masks := (sc_masks s)[index := mask]\<rparr>
         in if sd \<noteq> selectorDecisionUnknown
            then case map_of (onExpectEntityChanged s) entity of
                   Some fns \<Rightarrow>
                     Some (s\<lparr>onExpectEntityChanged := filter (\<lambda>(e, _). e \<noteq> entity) (onExpectEntityChanged s)\<rparr>,
                           map (\<lambda>f. (f, entity, sd)) fns)
                 | None \<Rightarrow> Some (s, [])
            else Some (s, [])
       else None
     }"

definition setEntityIfUnknown ::
  "SelectorDecisionCache \<Rightarrow> u64 \<Rightarrow> selectorDecision \<Rightarrow> (SelectorDecisionCache \<times> chain_call list) option" where
  "setEntityIfUnknown s entity sd =
     do {
       d \<leftarrow> getEntity s entity;
       if d = selectorDecisionUnknown then setEntity s entity sd else Some (s, [])
     }"

definition GetDecision :: "SelectorDecisionCache \<Rightarrow> u64 \<Rightarrow> (selectorDecision \<times> bool) option" where
  "GetDecision s entity =
     (if \<not> sc_initialized s \<or> entity < sc_base s then Some (selectorDecisionMissing, False)
      else if entity > sc_last s then Some (selectorDecisionUnknown, False)
      else if sc_last s - entity \<ge> sc_numEntries s then Some (selectorDecisionMissing, True)
      else map_option (\<lambda>d. (d, False)) (getEntity s entity))"

text \<open>Registering: whether it was accepted, and the cache.\<close>

definition addFn :: "u64 \<Rightarrow> nat \<Rightarrow> (u64 \<times> nat list) list \<Rightarrow> (u64 \<times> nat list) list" where
  "addFn entity f m =
     (case map_of m entity of
        None \<Rightarrow> m @ [(entity, [f])]
      | Some fns \<Rightarrow> map (\<lambda>(e, gs). if e = entity then (e, fns @ [f]) else (e, gs)) m)"

definition ExpectDecision :: "SelectorDecisionCache \<Rightarrow> u64 \<Rightarrow> nat \<Rightarrow> SelectorDecisionCache \<times> bool" where
  "ExpectDecision s entity f =
     (if \<not> sc_initialized s \<or> entity < sc_base s then (s, False)
      else if entity < sc_last s \<and> sc_last s - entity \<ge> sc_numEntries s then (s, False)
      else (s\<lparr>onExpectEntityChanged := addFn entity f (onExpectEntityChanged s)\<rparr>, True))"

text \<open>The two loops over frames, with the operation they apply.\<close>

fun entityLoop ::
  "(SelectorDecisionCache \<Rightarrow> u64 \<Rightarrow> (SelectorDecisionCache \<times> chain_call list) option) \<Rightarrow> nat list \<Rightarrow>
   SelectorDecisionCache \<Rightarrow> (SelectorDecisionCache \<times> chain_call list) option" where
  "entityLoop op [] s = Some (s, [])"
| "entityLoop op (e # es) s =
     do { (s, cs) \<leftarrow> op s (of_nat e); (s, ds) \<leftarrow> entityLoop op es s; Some (s, cs @ ds) }"

definition addEntity ::
  "SelectorDecisionCache \<Rightarrow> u64 \<Rightarrow> selectorDecision \<Rightarrow> (SelectorDecisionCache \<times> chain_call list) option" where
  "addEntity s entity sd =
     (if \<not> sc_initialized s
      then setEntity (s\<lparr>sc_initialized := True, sc_base := entity, sc_last := entity\<rparr>) entity sd
      else if entity \<le> sc_base s then Some (s, [])
      else if entity \<le> sc_last s then setEntity s entity sd
      else
        let floor = (if entity > sc_numEntries s then entity - sc_numEntries s else 0);
            missingStart = (if sc_last s > sc_numNackEntries s + sc_base s
                            then sc_last s - sc_numNackEntries s else sc_base s);
            missingEnd = (if entity > sc_numNackEntries s + sc_base s
                          then entity - sc_numNackEntries s else sc_base s);
            missingStart = (if missingEnd > missingStart + sc_numEntries s
                            then missingEnd - sc_numEntries s else missingStart)
        in do {
             (s, cs) \<leftarrow> entityLoop (\<lambda>s e. setEntity s e selectorDecisionUnknown)
                         [unat (max (sc_last s + 1) floor)..<unat entity] s;
             (s, ds) \<leftarrow> (if missingEnd > missingStart
                         then entityLoop (\<lambda>s e. setEntityIfUnknown s e selectorDecisionMissing)
                                [unat missingStart..<unat missingEnd] s
                         else Some (s, []));
             (s, es) \<leftarrow> setEntity s entity sd;
             let s = s\<lparr>sc_last := entity\<rparr>;
                 old = filter (\<lambda>(e, _). e + sc_numEntries s < sc_last s) (onExpectEntityChanged s)
             in Some (s\<lparr>onExpectEntityChanged := filter (\<lambda>(e, _). \<not> e + sc_numEntries s < sc_last s) (onExpectEntityChanged s)\<rparr>,
                  cs @ ds @ es @ concat (map (\<lambda>(e, fns). map (\<lambda>f. (f, e, selectorDecisionMissing)) fns) old))
           })"

definition AddForwarded :: "SelectorDecisionCache \<Rightarrow> u64 \<Rightarrow> (SelectorDecisionCache \<times> chain_call list) option" where
  "AddForwarded s entity = addEntity s entity selectorDecisionForwarded"

definition AddDropped :: "SelectorDecisionCache \<Rightarrow> u64 \<Rightarrow> (SelectorDecisionCache \<times> chain_call list) option" where
  "AddDropped s entity = addEntity s entity selectorDecisionDropped"

section \<open>The ring of decisions\<close>

definition sc_wf :: "SelectorDecisionCache \<Rightarrow> bool" where
  "sc_wf s \<longleftrightarrow> unat (sc_numEntries s) = 32 * length (sc_masks s) \<and> 0 < unat (sc_numEntries s)"

definition sc_pos :: "SelectorDecisionCache \<Rightarrow> u64 \<Rightarrow> nat" where
  "sc_pos s e = (unat e - unat (sc_base s)) mod unat (sc_numEntries s)"

definition slot :: "SelectorDecisionCache \<Rightarrow> nat \<Rightarrow> selectorDecision" where
  "slot s p = sd_of (drop_bit (p mod 32 * 2) (sc_masks s ! (p div 32)) AND 0x3)"

lemma sc_pos_less: "sc_wf s \<Longrightarrow> sc_pos s e < unat (sc_numEntries s)"
  unfolding sc_wf_def sc_pos_def by (elim conjE, rule mod_less_divisor)

lemma word_split5: "unat (drop_bit 5 x) = unat x div 32" "unat (x AND 0x1F) = unat x mod 32" for x :: u64
proof -
  have "drop_bit 5 x = x div 32" by (simp add: drop_bit_eq_div)
  then show "unat (drop_bit 5 x) = unat x div 32" by (simp add: unat_div)
  have "x AND 0x1F = take_bit 5 x" by (simp add: take_bit_eq_mask mask_eq_exp_minus_1)
  then have "x AND 0x1F = x mod 32" by (simp add: take_bit_eq_mod)
  then show "unat (x AND 0x1F) = unat x mod 32" by (simp add: unat_mod)
qed

lemma sc_getPos_pos:
  assumes "sc_wf s" "sc_base s \<le> e"
  shows "sc_getPos s e = Some (sc_pos s e div 32, sc_pos s e mod 32 * 2)" "sc_pos s e div 32 < length (sc_masks s)"
proof -
  let ?i = "(e - sc_base s) mod sc_numEntries s"
  have n: "sc_numEntries s \<noteq> 0" using assms(1) by (auto simp: sc_wf_def)
  have i: "unat ?i = sc_pos s e" using assms(2) by (simp add: unat_mod sc_pos_def unat_minus_wrap)
  then show "sc_getPos s e = Some (sc_pos s e div 32, sc_pos s e mod 32 * 2)"
    using n by (simp only: sc_getPos_def Let_def word_split5) simp
  have "unat (sc_numEntries s) = 32 * length (sc_masks s)" using assms(1) by (simp add: sc_wf_def)
  then show "sc_pos s e div 32 < length (sc_masks s)"
    using sc_pos_less [OF assms(1), of e] by (simp add: less_mult_imp_div_less mult.commute)
qed

lemma getEntity_slot: "sc_wf s \<Longrightarrow> sc_base s \<le> e \<Longrightarrow> getEntity s e = Some (slot s (sc_pos s e))"
  using sc_getPos_pos [of s e] by (simp add: getEntity_def slot_def)

lemma sd_of_code: "sd_of (sd_code sd) = sd"
  by (cases sd) (simp_all add: sd_of_def sd_code_def)

lemma mask_field:
  fixes w :: u64
  assumes "j < 32" "k < 32"
  shows "drop_bit (k * 2) ((w AND NOT (push_bit (j * 2) 0x3)) OR push_bit (j * 2) (sd_code sd AND 0x3)) AND 0x3 =
    (if k = j then sd_code sd else drop_bit (k * 2) w AND 0x3)"
proof -
  define m3 :: u64 where "m3 = mask 2"
  have three: "bit m3 i \<longleftrightarrow> i < 2" for i by (auto simp: m3_def bit_mask_iff)
  have "sd_code sd AND m3 = sd_code sd" by (cases sd) (simp_all add: sd_code_def m3_def mask_eq_exp_minus_1)
  then have code: "bit (sd_code sd) i \<Longrightarrow> i < 2" for i using three by (metis bit_and_iff)
  have "drop_bit (k * 2) ((w AND NOT (push_bit (j * 2) m3)) OR push_bit (j * 2) (sd_code sd AND m3)) AND m3 =
    (if k = j then sd_code sd else drop_bit (k * 2) w AND m3)"
  proof (rule bit_word_eqI)
    fix n assume "n < LENGTH(64)"
    have lt: "k * 2 + n < 64" if "n < 2" using that assms(2) by simp
    show "bit (drop_bit (k * 2) ((w AND NOT (push_bit (j * 2) m3)) OR push_bit (j * 2) (sd_code sd AND m3)) AND m3) n =
        bit (if k = j then sd_code sd else drop_bit (k * 2) w AND m3) n"
    proof (cases "n < 2")
      case True
      then have "k * 2 + n - j * 2 < 2 \<and> j * 2 \<le> k * 2 + n \<longleftrightarrow> k = j" by auto
      with True lt [OF True] show ?thesis by (auto simp: bit_simps three)
    next
      case False
      then show ?thesis using code by (auto simp: bit_simps three)
    qed
  qed
  then show ?thesis by (simp add: m3_def mask_eq_exp_minus_1)
qed

lemma slot_update:
  assumes "p div 32 < length (sc_masks s)"
  shows "slot (s\<lparr>sc_masks := (sc_masks s)[p div 32 :=
      (sc_masks s ! (p div 32) AND NOT (push_bit (p mod 32 * 2) 0x3)) OR push_bit (p mod 32 * 2) (sd_code sd AND 0x3)]\<rparr>) q =
    (if q = p then sd else slot s q)"
proof (cases "q div 32 = p div 32")
  case True
  have "q = p \<longleftrightarrow> q mod 32 = p mod 32" using True by (metis div_mult_mod_eq)
  then show ?thesis using True assms mask_field [of "p mod 32" "q mod 32"] by (simp add: slot_def sd_of_code)
next
  case False
  then show ?thesis by (auto simp: slot_def)
qed

text \<open>What setting a decision changes: the slot, and who waits for the frame.\<close>

lemma setEntity_slot:
  assumes "sc_wf s" "sc_base s \<le> e"
  shows "\<exists>ms fs cs. setEntity s e sd = Some (s\<lparr>sc_masks := ms, onExpectEntityChanged := fs\<rparr>, cs) \<and>
    length ms = length (sc_masks s) \<and>
    (\<forall>q fs'. slot (s\<lparr>sc_masks := ms, onExpectEntityChanged := fs'\<rparr>) q = (if q = sc_pos s e then sd else slot s q))"
proof -
  note gp = sc_getPos_pos [OF assms]
  let ?p = "sc_pos s e"
  let ?ms = "(sc_masks s)[?p div 32 := (sc_masks s ! (?p div 32) AND NOT (push_bit (?p mod 32 * 2) 0x3)) OR
     push_bit (?p mod 32 * 2) (sd_code sd AND 0x3)]"
  have sl: "slot (s\<lparr>sc_masks := ?ms, onExpectEntityChanged := fs\<rparr>) q = (if q = ?p then sd else slot s q)" for q fs
    using slot_update [OF gp(2), of sd q] by (simp add: slot_def)
  have self: "s\<lparr>sc_masks := ?ms, onExpectEntityChanged := onExpectEntityChanged s\<rparr> = s\<lparr>sc_masks := ?ms\<rparr>" by simp
  have "\<exists>fs cs. setEntity s e sd = Some (s\<lparr>sc_masks := ?ms, onExpectEntityChanged := fs\<rparr>, cs)"
  proof (cases "sd \<noteq> selectorDecisionUnknown \<and> map_of (onExpectEntityChanged s) e \<noteq> None")
    case True
    then show ?thesis using gp by (auto simp: setEntity_def Let_def)
  next
    case False
    then have "setEntity s e sd = Some (s\<lparr>sc_masks := ?ms\<rparr>, [])" using gp by (auto simp: setEntity_def Let_def)
    then show ?thesis using self by metis
  qed
  then obtain fs cs where "setEntity s e sd = Some (s\<lparr>sc_masks := ?ms, onExpectEntityChanged := fs\<rparr>, cs)" by blast
  then show ?thesis using sl by (intro exI [of _ ?ms]) auto
qed

section \<open>The loops\<close>

definition same_ring :: "SelectorDecisionCache \<Rightarrow> SelectorDecisionCache \<Rightarrow> bool" where
  "same_ring s s' \<longleftrightarrow> (\<exists>ms fs. s' = s\<lparr>sc_masks := ms, onExpectEntityChanged := fs\<rparr> \<and> length ms = length (sc_masks s))"

lemma same_ringD:
  assumes "same_ring s s'"
  shows "sc_base s' = sc_base s" "sc_last s' = sc_last s" "sc_numEntries s' = sc_numEntries s"
    "sc_numNackEntries s' = sc_numNackEntries s" "sc_initialized s' = sc_initialized s" "sc_pos s' = sc_pos s" "sc_wf s' \<longleftrightarrow> sc_wf s"
  using assms by (auto simp: same_ring_def sc_pos_def sc_wf_def fun_eq_iff)

lemma same_ring_refl: "same_ring s s"
  unfolding same_ring_def by (intro exI [of _ "sc_masks s"] exI [of _ "onExpectEntityChanged s"]) simp

lemma same_ring_trans: "same_ring s s' \<Longrightarrow> same_ring s' s'' \<Longrightarrow> same_ring s s''"
  by (fastforce simp: same_ring_def)

lemma setEntity_ring:
  assumes "sc_wf s" "sc_base s \<le> e"
  shows "\<exists>s' cs. setEntity s e sd = Some (s', cs) \<and> same_ring s s' \<and> (\<forall>q. slot s' q = (if q = sc_pos s e then sd else slot s q))"
  using setEntity_slot [OF assms, of sd] unfolding same_ring_def by fast

text \<open>An operation that changes the slot of its frame by \<open>g\<close>, applied to a list of frames.\<close>

definition changes_slot ::
  "(SelectorDecisionCache \<Rightarrow> u64 \<Rightarrow> (SelectorDecisionCache \<times> chain_call list) option) \<Rightarrow> (selectorDecision \<Rightarrow> selectorDecision) \<Rightarrow> bool" where
  "changes_slot op g \<longleftrightarrow> (\<forall>s e. sc_wf s \<and> sc_base s \<le> e \<longrightarrow> (\<exists>s' cs. op s e = Some (s', cs) \<and> same_ring s s' \<and>
     (\<forall>q. slot s' q = (if q = sc_pos s e then g (slot s q) else slot s q))))"

lemma changes_unknown: "changes_slot (\<lambda>s e. setEntity s e d) (\<lambda>_. d)"
  using setEntity_ring unfolding changes_slot_def by metis

definition age :: "selectorDecision \<Rightarrow> selectorDecision" where
  "age d = (if d = selectorDecisionUnknown then selectorDecisionMissing else d)"

lemma changes_missing: "changes_slot (\<lambda>s e. setEntityIfUnknown s e selectorDecisionMissing) age"
  unfolding changes_slot_def
proof (intro allI impI, elim conjE)
  fix s e assume s: "sc_wf s" "sc_base s \<le> e"
  show "\<exists>s' cs. setEntityIfUnknown s e selectorDecisionMissing = Some (s', cs) \<and> same_ring s s' \<and>
     (\<forall>q. slot s' q = (if q = sc_pos s e then age (slot s q) else slot s q))"
  proof (cases "slot s (sc_pos s e) = selectorDecisionUnknown")
    case True
    then show ?thesis
      using setEntity_ring [OF s, of selectorDecisionMissing] by (auto simp: setEntityIfUnknown_def getEntity_slot [OF s] age_def)
  next
    case False
    then show ?thesis using same_ring_refl [of s] by (auto simp: setEntityIfUnknown_def getEntity_slot [OF s] age_def)
  qed
qed

lemma entityLoop_slot:
  assumes op: "changes_slot op g" and idem: "\<And>d. g (g d) = g d"
  shows "sc_wf s \<Longrightarrow> (\<And>e. e \<in> set es \<Longrightarrow> unat (sc_base s) \<le> e \<and> e < 2 ^ 64) \<Longrightarrow>
    \<exists>s' cs. entityLoop op es s = Some (s', cs) \<and> same_ring s s' \<and>
      (\<forall>q. slot s' q = (if q \<in> (\<lambda>e. sc_pos s (of_nat e)) ` set es then g (slot s q) else slot s q))"
proof (induction es arbitrary: s)
  case Nil
  then show ?case using same_ring_refl by auto
next
  case (Cons e es)
  have e: "sc_base s \<le> of_nat e" using Cons.prems(2) [of e] by (simp add: word_le_nat_alt unat_of_nat_u64)
  obtain s1 cs where s1: "op s (of_nat e) = Some (s1, cs)" "same_ring s s1"
    "\<forall>q. slot s1 q = (if q = sc_pos s (of_nat e) then g (slot s q) else slot s q)"
    using op Cons.prems(1) e unfolding changes_slot_def by blast
  note D = same_ringD [OF s1(2)]
  obtain s2 ds where s2: "entityLoop op es s1 = Some (s2, ds)" "same_ring s1 s2"
    "\<forall>q. slot s2 q = (if q \<in> (\<lambda>e. sc_pos s1 (of_nat e)) ` set es then g (slot s1 q) else slot s1 q)"
    using Cons.IH [of s1] Cons.prems D by auto
  have "same_ring s s2" by (rule same_ring_trans [OF s1(2) s2(2)])
  moreover have "\<forall>q. slot s2 q = (if q \<in> (\<lambda>e. sc_pos s (of_nat e)) ` set (e # es) then g (slot s q) else slot s q)"
    using s1(3) s2(3) idem D(6) by simp
  ultimately show ?case using s1(1) s2(1) by simp
qed

section \<open>The cache as a map of decisions\<close>

definition pending :: "nat \<Rightarrow> u64 \<Rightarrow> (u64 \<Rightarrow> selectorDecision option) \<Rightarrow> u64 \<Rightarrow> selectorDecision" where
  "pending nack lst m x = (case m x of Some d \<Rightarrow> d
     | None \<Rightarrow> if unat x + nack < unat lst then selectorDecisionMissing else selectorDecisionUnknown)"

definition in_ring :: "SelectorDecisionCache \<Rightarrow> u64 \<Rightarrow> bool" where
  "in_ring s x \<longleftrightarrow> sc_base s \<le> x \<and> x \<le> sc_last s \<and> unat (sc_last s) - unat x < unat (sc_numEntries s)"

definition decides :: "SelectorDecisionCache \<Rightarrow> (u64 \<Rightarrow> selectorDecision option) \<Rightarrow> bool" where
  "decides s m \<longleftrightarrow> sc_initialized s \<and> sc_wf s \<and> sc_base s \<le> sc_last s \<and>
     (\<forall>x d. m x = Some d \<longrightarrow> sc_base s \<le> x \<and> x \<le> sc_last s \<and> d \<noteq> selectorDecisionUnknown) \<and>
     (\<forall>x. in_ring s x \<longrightarrow> slot s (sc_pos s x) = pending (unat (sc_numNackEntries s)) (sc_last s) m x)"

lemma sc_pos_distinct:
  assumes "sc_base s \<le> x" "x < y" "unat y - unat x < unat (sc_numEntries s)"
  shows "sc_pos s x \<noteq> sc_pos s y"
proof -
  have "a mod n \<noteq> b mod n" if "a < b" "b - a < n" for a b n :: nat
    using that by (metis add_diff_inverse_nat less_imp_le mod_eq_dvd_iff_nat nat_dvd_not_less not_less zero_less_diff)
  from this [of "unat x - unat (sc_base s)" "unat y - unat (sc_base s)" "unat (sc_numEntries s)"] assms show ?thesis
    by (auto simp: sc_pos_def word_order)
qed

lemma decides_set:
  assumes d: "decides s m" and e: "sc_base s < e" "in_ring s e" "sd \<noteq> selectorDecisionUnknown"
  shows "\<exists>s' cs. setEntity s e sd = Some (s', cs) \<and> same_ring s s' \<and> decides s' (m(e \<mapsto> sd))"
proof -
  have wf: "sc_wf s" using d by (simp add: decides_def)
  obtain s' cs where s': "setEntity s e sd = Some (s', cs)" "same_ring s s'"
    "\<forall>q. slot s' q = (if q = sc_pos s e then sd else slot s q)"
    using setEntity_ring [OF wf less_imp_le [OF e(1)], of sd] by blast
  note D = same_ringD [OF s'(2)]
  have "sc_pos s x \<noteq> sc_pos s e" if x: "in_ring s x" "x \<noteq> e" for x
  proof (cases "x < e")
    case True
    have "unat e - unat x < unat (sc_numEntries s)" using x(1) e(2) by (auto simp: in_ring_def word_le_nat_alt)
    then show ?thesis using sc_pos_distinct [OF _ True] x(1) by (auto simp: in_ring_def)
  next
    case False
    then have lt: "e < x" using x(2) by simp
    have "unat x - unat e < unat (sc_numEntries s)" using x(1) e(2) by (auto simp: in_ring_def word_le_nat_alt)
    then have "sc_pos s e \<noteq> sc_pos s x" using e(1) by (intro sc_pos_distinct [OF less_imp_le lt])
    then show ?thesis by simp
  qed
  moreover have "in_ring s' = in_ring s" using D by (auto simp: in_ring_def fun_eq_iff)
  ultimately have "slot s' (sc_pos s' x) = pending (unat (sc_numNackEntries s')) (sc_last s') (m(e \<mapsto> sd)) x" if "in_ring s' x" for x
    using that d s'(3) D by (cases "x = e") (auto simp: decides_def pending_def)
  then have "decides s' (m(e \<mapsto> sd))" using d D e by (auto simp: decides_def in_ring_def)
  with s' show ?thesis by blast
qed

text \<open>The frames a jump to \<open>e\<close> sets to unknown, and those it ages.\<close>

definition skipped :: "SelectorDecisionCache \<Rightarrow> u64 \<Rightarrow> nat list" where
  "skipped s e = [max (unat (sc_last s) + 1) (unat e - unat (sc_numEntries s))..<unat e]"

definition below :: "SelectorDecisionCache \<Rightarrow> u64 \<Rightarrow> nat" where
  "below s e = (let k = unat (sc_numNackEntries s); b = unat (sc_base s) in if unat e > k + b then unat e - k else b)"

definition aged :: "SelectorDecisionCache \<Rightarrow> u64 \<Rightarrow> nat list" where
  "aged s e = [(if below s e > below s (sc_last s) + unat (sc_numEntries s) then below s e - unat (sc_numEntries s)
     else below s (sc_last s))..<below s e]"

abbreviation positions :: "SelectorDecisionCache \<Rightarrow> nat list \<Rightarrow> nat set" where
  "positions s es \<equiv> (\<lambda>e. sc_pos s (of_nat e)) ` set es"

lemma skipped_bounds:
  assumes "sc_base s \<le> sc_last s" "x \<in> set (skipped s e)"
  shows "unat (sc_base s) \<le> x" "x < 2 ^ 64" "unat (sc_last s) < x" "x < unat e" "unat (of_nat x :: u64) = x"
  using assms unsigned_less [of e, where ?'a = nat] by (auto simp: skipped_def word_le_nat_alt unat_of_nat)

lemma aged_bounds:
  assumes "sc_base s \<le> sc_last s" "sc_last s < e" "x \<in> set (aged s e)"
  shows "unat (sc_base s) \<le> x" "x < 2 ^ 64" "x < unat e" "unat (of_nat x :: u64) = x"
  using assms unsigned_less [of e, where ?'a = nat]
  by (auto simp: aged_def below_def Let_def word_le_nat_alt word_less_nat_alt unat_of_nat split: if_splits)

lemma entityLoop_ages:
  assumes "sc_wf s" "\<And>e. e \<in> set es \<Longrightarrow> unat (sc_base s) \<le> e \<and> e < 2 ^ 64" "g \<longleftrightarrow> es \<noteq> []"
  shows "\<exists>s' cs. (if g then entityLoop (\<lambda>s e. setEntityIfUnknown s e selectorDecisionMissing) es s else Some (s, [])) = Some (s', cs) \<and>
    same_ring s s' \<and> (\<forall>q. slot s' q = (if q \<in> positions s es then age (slot s q) else slot s q))"
proof (cases "es = []")
  case True
  then show ?thesis using same_ring_refl [of s] assms(3) by simp
next
  case False
  have "age (age d) = age d" for d by (simp add: age_def)
  from entityLoop_slot [OF changes_missing this assms(1,2)] False assms(3) show ?thesis by simp
qed

text \<open>A frame ahead of the newest one: the slots afterwards.\<close>

lemma addEntity_jump:
  assumes s: "sc_initialized s" "sc_wf s" "sc_base s \<le> sc_last s" and e: "sc_last s < e"
    and small: "unat (sc_base s) + unat (sc_numNackEntries s) < 2 ^ 64" "unat e + unat (sc_numEntries s) < 2 ^ 64"
  shows "\<exists>s' cs. addEntity s e sd = Some (s', cs) \<and> sc_initialized s' \<and> sc_wf s' \<and> sc_base s' = sc_base s \<and> sc_last s' = e \<and>
    sc_numEntries s' = sc_numEntries s \<and> sc_numNackEntries s' = sc_numNackEntries s \<and> sc_pos s' = sc_pos s \<and>
    (\<forall>q. slot s' q = (if q = sc_pos s e then sd
       else let d = (if q \<in> positions s (skipped s e) then selectorDecisionUnknown else slot s q)
            in if q \<in> positions s (aged s e) then age d else d))"
proof -
  let ?n = "unat (sc_numEntries s)" and ?k = "unat (sc_numNackEntries s)" and ?b = "unat (sc_base s)" and ?l = "unat (sc_last s)"
  have le: "?l < unat e" "?b \<le> ?l" using e s(3) by (auto simp: word_less_nat_alt word_le_nat_alt)
  have nb: "unat (sc_numNackEntries s + sc_base s) = ?k + ?b" using small(1) by (simp add: unat_word_ariths)
  define flo where "flo = (if e > sc_numEntries s then e - sc_numEntries s else 0)"
  define ms0 where "ms0 = (if sc_last s > sc_numNackEntries s + sc_base s then sc_last s - sc_numNackEntries s else sc_base s)"
  define me where "me = (if e > sc_numNackEntries s + sc_base s then e - sc_numNackEntries s else sc_base s)"
  define ms where "ms = (if me > ms0 + sc_numEntries s then me - sc_numEntries s else ms0)"
  have sk: "[unat (max (sc_last s + 1) flo)..<unat e] = skipped s e"
    using word_succ_no_wrap [OF e] by (auto simp: skipped_def flo_def max_def word_le_nat_alt word_less_nat_alt unat_minus_wrap)
  have ums: "unat ms0 = below s (sc_last s)"
    by (auto simp: ms0_def below_def Let_def word_less_nat_alt word_le_nat_alt nb unat_minus_wrap)
  have ume: "unat me = below s e"
    by (auto simp: me_def below_def Let_def word_less_nat_alt word_le_nat_alt nb unat_minus_wrap)
  have "below s (sc_last s) \<le> ?l" using le by (auto simp: below_def Let_def)
  then have "unat (ms0 + sc_numEntries s) = unat ms0 + ?n" using small(2) le ums by (subst unat_plus_if') simp
  then have ms: "unat ms = (if below s e > below s (sc_last s) + ?n then below s e - ?n else below s (sc_last s))"
    using ums ume by (auto simp: ms_def word_less_nat_alt word_le_nat_alt unat_minus_wrap)
  have ag: "[unat ms..<unat me] = aged s e" "me > ms \<longleftrightarrow> aged s e \<noteq> []"
    using ms ume by (auto simp: aged_def word_less_nat_alt)
  have "\<exists>s1 cs1. entityLoop (\<lambda>s e. setEntity s e selectorDecisionUnknown) (skipped s e) s = Some (s1, cs1) \<and> same_ring s s1 \<and>
    (\<forall>q. slot s1 q = (if q \<in> positions s (skipped s e) then selectorDecisionUnknown else slot s q))"
    by (rule entityLoop_slot [OF changes_unknown refl s(2)]) (use skipped_bounds [OF s(3)] in blast)
  then obtain s1 cs1 where s1: "entityLoop (\<lambda>s e. setEntity s e selectorDecisionUnknown) (skipped s e) s = Some (s1, cs1)" "same_ring s s1"
    "\<forall>q. slot s1 q = (if q \<in> positions s (skipped s e) then selectorDecisionUnknown else slot s q)" by blast
  note D1 = same_ringD [OF s1(2)]
  have "sc_wf s1" using s(2) D1(7) by simp
  from entityLoop_ages [OF this _ ag(2)] aged_bounds [OF s(3) e] D1(1,6)
  obtain s2 cs2 where s2: "(if me > ms then entityLoop (\<lambda>s e. setEntityIfUnknown s e selectorDecisionMissing) (aged s e) s1 else Some (s1, [])) = Some (s2, cs2)"
    "same_ring s1 s2" "\<forall>q. slot s2 q = (if q \<in> positions s (aged s e) then age (slot s1 q) else slot s1 q)" by auto
  have r2: "same_ring s s2" by (rule same_ring_trans [OF s1(2) s2(2)])
  note D2 = same_ringD [OF r2]
  have "sc_wf s2" "sc_base s2 \<le> e" using D2(1,7) s(2,3) e by auto
  from setEntity_ring [OF this, of sd] obtain s3 cs3 where s3: "setEntity s2 e sd = Some (s3, cs3)" "same_ring s2 s3"
    "\<forall>q. slot s3 q = (if q = sc_pos s e then sd else slot s2 q)" unfolding D2(6) by blast
  note D3 = same_ringD [OF same_ring_trans [OF r2 s3(2)]]
  let ?fin = "s3\<lparr>sc_last := e, onExpectEntityChanged := filter (\<lambda>(x, _). \<not> x + sc_numEntries s3 < e) (onExpectEntityChanged s3)\<rparr>"
  have fin: "sc_pos ?fin = sc_pos s3" "slot ?fin = slot s3" "sc_wf ?fin \<longleftrightarrow> sc_wf s3"
    by (auto simp: sc_pos_def slot_def sc_wf_def fun_eq_iff)
  have guards: "\<not> e \<le> sc_base s" "\<not> e \<le> sc_last s" using e s(3) by auto
  have "\<exists>cs. addEntity s e sd = Some (?fin, cs)"
    unfolding addEntity_def Let_def flo_def [symmetric] ms0_def [symmetric] me_def [symmetric] ms_def [symmetric]
    by (simp only: s(1) guards sk ag(1) if_False not_True_eq_False s1(1) Option.bind.simps prod.case s2(1) s3(1)) simp
  moreover have "\<forall>q. slot ?fin q = (if q = sc_pos s e then sd
       else let d = (if q \<in> positions s (skipped s e) then selectorDecisionUnknown else slot s q)
            in if q \<in> positions s (aged s e) then age d else d)"
    unfolding fin(2) Let_def using s1(3) s2(3) s3(3) by simp
  moreover have "sc_initialized ?fin \<and> sc_wf ?fin \<and> sc_base ?fin = sc_base s \<and> sc_last ?fin = e \<and>
    sc_numEntries ?fin = sc_numEntries s \<and> sc_numNackEntries ?fin = sc_numNackEntries s \<and> sc_pos ?fin = sc_pos s"
    unfolding fin using D3 s(1,2) by simp
  ultimately show ?thesis by blast
qed

lemma skipped_position:
  assumes "sc_base s \<le> sc_last s" and x: "sc_base s \<le> x" "x < e" "unat e - unat x < unat (sc_numEntries s)"
  shows "sc_pos s x \<in> positions s (skipped s e) \<longleftrightarrow> sc_last s < x"
proof
  assume "sc_pos s x \<in> positions s (skipped s e)"
  then obtain y where y: "y \<in> set (skipped s e)" "sc_pos s x = sc_pos s (of_nat y)" by blast
  note b = skipped_bounds [OF assms(1) y(1)]
  have near: "unat (of_nat y :: u64) - unat x < unat (sc_numEntries s)" using b x(3) by linarith
  have "\<not> x < of_nat y" using sc_pos_distinct [OF x(1) _ near] y(2) by auto
  then show "sc_last s < x" using b by (simp add: word_less_nat_alt)
next
  assume "sc_last s < x"
  then have "unat x \<in> set (skipped s e)" using x by (auto simp: skipped_def word_le_nat_alt word_less_nat_alt)
  then show "sc_pos s x \<in> positions s (skipped s e)" by (rule rev_image_eqI) simp
qed

lemma aged_position:
  assumes s: "sc_base s \<le> sc_last s" "sc_last s < e" and x: "sc_base s \<le> x" "x < e" "unat e - unat x < unat (sc_numEntries s)"
    and reach: "unat e + unat (sc_numNackEntries s) \<le> unat (sc_last s) + unat (sc_numEntries s)"
  shows "sc_pos s x \<in> positions s (aged s e) \<longleftrightarrow>
    unat (sc_last s) \<le> unat x + unat (sc_numNackEntries s) \<and> unat x + unat (sc_numNackEntries s) < unat e"
proof -
  have "unat x \<in> set (aged s e) \<longleftrightarrow>
      unat (sc_last s) \<le> unat x + unat (sc_numNackEntries s) \<and> unat x + unat (sc_numNackEntries s) < unat e"
    using s x reach by (auto simp: aged_def below_def Let_def word_le_nat_alt word_less_nat_alt split: if_splits)
  moreover have "sc_pos s x \<in> positions s (aged s e) \<longleftrightarrow> unat x \<in> set (aged s e)"
  proof
    assume "sc_pos s x \<in> positions s (aged s e)"
    then obtain y where y: "y \<in> set (aged s e)" "sc_pos s x = sc_pos s (of_nat y)" by blast
    note b = aged_bounds [OF s y(1)]
    have "unat e - unat (sc_numEntries s) \<le> y"
      using y(1) s reach by (auto simp: aged_def below_def Let_def word_le_nat_alt word_less_nat_alt split: if_splits)
    then have near: "unat (of_nat y :: u64) - unat x < unat (sc_numEntries s)" "unat x - unat (of_nat y :: u64) < unat (sc_numEntries s)"
      using b x(2,3) unfolding word_less_nat_alt by linarith+
    have "\<not> x < of_nat y" using sc_pos_distinct [OF x(1) _ near(1)] y(2) by auto
    moreover have "sc_base s \<le> of_nat y" using b by (simp add: word_le_nat_alt)
    then have "\<not> of_nat y < x" using sc_pos_distinct [OF _ _ near(2)] y(2) by auto
    ultimately have "x = of_nat y" by simp
    then show "unat x \<in> set (aged s e)" using y(1) b by simp
  next
    assume "unat x \<in> set (aged s e)"
    then show "sc_pos s x \<in> positions s (aged s e)" by (rule rev_image_eqI) simp
  qed
  ultimately show ?thesis by simp
qed

text \<open>A frame ahead of the newest one, not further than the ring without the frames that may still come.\<close>

lemma decides_jump:
  assumes d: "decides s m" and e: "sc_last s < e" "sd \<noteq> selectorDecisionUnknown"
    and reach: "unat e + unat (sc_numNackEntries s) \<le> unat (sc_last s) + unat (sc_numEntries s)"
    and small: "unat (sc_base s) + unat (sc_numNackEntries s) < 2 ^ 64" "unat e + unat (sc_numEntries s) < 2 ^ 64"
  shows "\<exists>s' cs. addEntity s e sd = Some (s', cs) \<and> decides s' (m(e \<mapsto> sd)) \<and> sc_base s' = sc_base s \<and> sc_last s' = e \<and>
    sc_numEntries s' = sc_numEntries s \<and> sc_numNackEntries s' = sc_numNackEntries s"
proof -
  let ?k = "unat (sc_numNackEntries s)"
  have s: "sc_initialized s" "sc_wf s" "sc_base s \<le> sc_last s"
    and dom: "\<And>x d. m x = Some d \<Longrightarrow> sc_base s \<le> x \<and> x \<le> sc_last s \<and> d \<noteq> selectorDecisionUnknown"
    and sl: "\<And>x. in_ring s x \<Longrightarrow> slot s (sc_pos s x) = pending ?k (sc_last s) m x"
    using d by (auto simp: decides_def)
  obtain s' cs where s': "addEntity s e sd = Some (s', cs)" "sc_initialized s'" "sc_wf s'" "sc_base s' = sc_base s" "sc_last s' = e"
    "sc_numEntries s' = sc_numEntries s" "sc_numNackEntries s' = sc_numNackEntries s" "sc_pos s' = sc_pos s"
    "\<And>q. slot s' q = (if q = sc_pos s e then sd
       else let d = (if q \<in> positions s (skipped s e) then selectorDecisionUnknown else slot s q)
            in if q \<in> positions s (aged s e) then age d else d)"
    using addEntity_jump [OF s e(1) small, of sd] by blast
  have slots: "slot s' (sc_pos s x) = pending ?k e (m(e \<mapsto> sd)) x"
    if x: "sc_base s \<le> x" "x < e" "unat e - unat x < unat (sc_numEntries s)" for x
  proof -
    have xe: "sc_pos s x \<noteq> sc_pos s e" by (rule sc_pos_distinct [OF x])
    note pos = skipped_position [OF s(3) x] aged_position [OF s(3) e(1) x reach]
    have old: "slot s (sc_pos s x) = pending ?k (sc_last s) m x" if "\<not> sc_last s < x"
      using sl [of x] that x e(1) by (auto simp: in_ring_def word_le_nat_alt word_less_nat_alt)
    have mx: "m x = None" if "sc_last s < x" using dom [of x] that by (cases "m x") auto
    have "slot s' (sc_pos s x) = pending ?k e m x"
      unfolding s'(9) Let_def pos using xe old mx dom [of x] e(1)
      by (cases "m x"; cases "sc_last s < x") (auto simp: pending_def age_def word_less_nat_alt)
    also have "\<dots> = pending ?k e (m(e \<mapsto> sd)) x" using x(2) by (auto simp: pending_def)
    finally show ?thesis .
  qed
  have "decides s' (m(e \<mapsto> sd))"
    unfolding decides_def s'(4-8)
  proof (intro conjI allI impI)
    show "sc_base s \<le> e" using s(3) e(1) by simp
    fix x
    show "slot s' (sc_pos s x) = pending ?k e (m(e \<mapsto> sd)) x" if "in_ring s' x"
    proof (cases "x = e")
      case True
      then show ?thesis using s'(9) by (simp add: pending_def)
    next
      case False
      then have "sc_base s \<le> x" "x < e" "unat e - unat x < unat (sc_numEntries s)"
        using that s'(4-6) by (auto simp: in_ring_def)
      then show ?thesis by (rule slots)
    qed
    fix d assume "(m(e \<mapsto> sd)) x = Some d"
    then show "sc_base s \<le> x" "x \<le> e" "d \<noteq> selectorDecisionUnknown" using dom [of x d] s(3) e by (auto split: if_splits)
  qed (use s' in auto)
  with s' show ?thesis by blast
qed

lemma decides_first:
  assumes "\<not> sc_initialized s" "sc_wf s" "sd \<noteq> selectorDecisionUnknown"
  shows "\<exists>s' cs. addEntity s e sd = Some (s', cs) \<and> decides s' [e \<mapsto> sd] \<and> sc_base s' = e \<and> sc_last s' = e \<and>
    sc_numEntries s' = sc_numEntries s \<and> sc_numNackEntries s' = sc_numNackEntries s"
proof -
  let ?s = "s\<lparr>sc_initialized := True, sc_base := e, sc_last := e\<rparr>"
  have wf: "sc_wf ?s" using assms(2) by (auto simp: sc_wf_def)
  have be: "sc_base ?s \<le> e" by simp
  obtain s' cs where s': "setEntity ?s e sd = Some (s', cs)" "same_ring ?s s'" "\<forall>q. slot s' q = (if q = sc_pos ?s e then sd else slot ?s q)"
    using setEntity_ring [OF wf be, of sd] by (elim exE conjE)
  note D = same_ringD [OF s'(2)]
  have "decides s' [e \<mapsto> sd]"
    using D wf s'(3) assms(3) by (auto simp: decides_def in_ring_def pending_def split: if_splits)
  then show ?thesis using assms(1) s'(1) D by (simp add: addEntity_def)
qed

lemma GetDecision_decides:
  assumes "decides s m"
  shows "GetDecision s x =
    Some (if x < sc_base s then (selectorDecisionMissing, False)
          else if sc_last s < x then (selectorDecisionUnknown, False)
          else if unat (sc_last s) - unat x \<ge> unat (sc_numEntries s) then (selectorDecisionMissing, True)
          else (pending (unat (sc_numNackEntries s)) (sc_last s) m x, False))"
proof -
  have wf: "sc_wf s" "sc_initialized s" and sl: "\<And>x. in_ring s x \<Longrightarrow> slot s (sc_pos s x) = pending (unat (sc_numNackEntries s)) (sc_last s) m x"
    using assms by (auto simp: decides_def)
  show ?thesis
  proof (cases "sc_base s \<le> x \<and> x \<le> sc_last s")
    case True
    then have old: "sc_last s - x \<ge> sc_numEntries s \<longleftrightarrow> unat (sc_last s) - unat x \<ge> unat (sc_numEntries s)"
      by (simp add: word_le_nat_alt unat_minus_wrap)
    show ?thesis using True wf sl [of x] getEntity_slot [OF wf(1), of x] old by (auto simp: GetDecision_def in_ring_def)
  next
    case False
    then show ?thesis using wf(2) by (auto simp: GetDecision_def)
  qed
qed

section \<open>Properties\<close>

fun addEntities :: "(u64 \<times> selectorDecision) list \<Rightarrow> SelectorDecisionCache \<Rightarrow> SelectorDecisionCache option" where
  "addEntities [] s = Some s"
| "addEntities ((e, sd) # es) s = do { (s, cs) \<leftarrow> addEntity s e sd; addEntities es s }"

text \<open>The decisions the additions stand for: the last one on each frame, none on frames at or below the base.\<close>

fun decided :: "u64 \<Rightarrow> (u64 \<Rightarrow> selectorDecision option) \<Rightarrow> (u64 \<times> selectorDecision) list \<Rightarrow> u64 \<Rightarrow> selectorDecision option" where
  "decided b m [] = m"
| "decided b m ((e, sd) # es) = decided b (if e \<le> b then m else m(e \<mapsto> sd)) es"

text \<open>Additions that do not jump further than the ring less the frames that may still come, and none too old.\<close>

fun within_reach :: "nat \<Rightarrow> nat \<Rightarrow> u64 \<Rightarrow> (u64 \<times> selectorDecision) list \<Rightarrow> bool" where
  "within_reach n k lst [] \<longleftrightarrow> True"
| "within_reach n k lst ((e, sd) # es) \<longleftrightarrow> (sd = selectorDecisionForwarded \<or> sd = selectorDecisionDropped) \<and>
     unat e + k \<le> unat lst + n \<and> unat lst < unat e + n \<and> unat e < 2 ^ 62 \<and> within_reach n k (max lst e) es"

lemma addEntities_decides:
  "decides s m \<Longrightarrow> within_reach (unat (sc_numEntries s)) (unat (sc_numNackEntries s)) (sc_last s) es \<Longrightarrow>
   unat (sc_base s) < 2 ^ 62 \<Longrightarrow> unat (sc_numEntries s) < 2 ^ 62 \<Longrightarrow> unat (sc_numNackEntries s) < 2 ^ 62 \<Longrightarrow>
   \<exists>s'. addEntities es s = Some s' \<and> decides s' (decided (sc_base s) m es) \<and> sc_base s' = sc_base s \<and>
     sc_last s' = foldl max (sc_last s) (map fst es) \<and> sc_numEntries s' = sc_numEntries s \<and> sc_numNackEntries s' = sc_numNackEntries s"
proof (induction es arbitrary: s m)
  case (Cons p es)
  obtain e sd where p: "p = (e, sd)" by fastforce
  have sd: "sd \<noteq> selectorDecisionUnknown" and re: "unat e + unat (sc_numNackEntries s) \<le> unat (sc_last s) + unat (sc_numEntries s)"
    "unat (sc_last s) < unat e + unat (sc_numEntries s)" "unat e < 2 ^ 62"
    "within_reach (unat (sc_numEntries s)) (unat (sc_numNackEntries s)) (max (sc_last s) e) es"
    using Cons.prems(2) p by auto
  have "\<exists>s1 cs. addEntity s e sd = Some (s1, cs) \<and> decides s1 (if e \<le> sc_base s then m else m(e \<mapsto> sd)) \<and> sc_base s1 = sc_base s \<and>
    sc_last s1 = max (sc_last s) e \<and> sc_numEntries s1 = sc_numEntries s \<and> sc_numNackEntries s1 = sc_numNackEntries s"
  proof -
    have init: "sc_initialized s" and bl: "sc_base s \<le> sc_last s" using Cons.prems(1) by (auto simp: decides_def)
    consider "e \<le> sc_base s" | "sc_base s < e" "e \<le> sc_last s" | "sc_last s < e" by fastforce
    then show ?thesis
    proof cases
      case 1
      then show ?thesis using init bl Cons.prems(1) by (auto simp: addEntity_def max_def)
    next
      case 2
      have ring: "in_ring s e" using 2 re(2) by (auto simp: in_ring_def word_le_nat_alt word_less_nat_alt)
      obtain s1 cs where "setEntity s e sd = Some (s1, cs)" "same_ring s s1" "decides s1 (m(e \<mapsto> sd))"
        using decides_set [OF Cons.prems(1) 2(1) ring sd] by blast
      with same_ringD [of s s1] init 2 show ?thesis by (auto simp: addEntity_def max_def)
    next
      case 3
      have small: "unat (sc_base s) + unat (sc_numNackEntries s) < 2 ^ 64" "unat e + unat (sc_numEntries s) < 2 ^ 64"
        using Cons.prems(3-5) re(3) by auto
      have "\<not> e \<le> sc_base s" "max (sc_last s) e = e" using 3 bl by (auto simp: max_def)
      with decides_jump [OF Cons.prems(1) 3 sd re(1) small] show ?thesis by auto
    qed
  qed
  then obtain s1 cs where s1: "addEntity s e sd = Some (s1, cs)" "decides s1 (if e \<le> sc_base s then m else m(e \<mapsto> sd))"
    "sc_base s1 = sc_base s" "sc_last s1 = max (sc_last s) e" "sc_numEntries s1 = sc_numEntries s"
    "sc_numNackEntries s1 = sc_numNackEntries s" by blast
  from Cons.IH [OF s1(2)] s1 Cons.prems(3-5) re(4) p show ?case by auto
qed simp

lemma numEntries_new:
  assumes "0 < n" "unat n < 2 ^ 60"
  shows "sc_wf (NewSelectorDecisionCache n k)" "unat n \<le> unat (sc_numEntries (NewSelectorDecisionCache n k))"
    "unat (sc_numEntries (NewSelectorDecisionCache n k)) < 2 ^ 62"
proof -
  let ?c = "(n * 2 + 63) div 64"
  have "unat (n * 2 + 63) = unat n * 2 + 63" using assms(2) by (simp add: unat_word_ariths)
  then have c: "unat ?c = (unat n * 2 + 63) div 64" by (simp add: unat_div)
  have div: "64 * ((unat n * 2 + 63) div 64) \<le> unat n * 2 + 63" "unat n * 2 + 63 < 64 * ((unat n * 2 + 63) div 64) + 64"
    by (simp_all add: mult.commute dividend_less_div_times)
  then have "unat ?c < 2 ^ 56" using c assms(2) by simp
  then have e: "unat (?c * 32) = unat ?c * 32" by (simp add: unat_word_ariths)
  have pos: "0 < unat n" using assms(1) by (simp add: word_less_nat_alt)
  show "sc_wf (NewSelectorDecisionCache n k)" "unat n \<le> unat (sc_numEntries (NewSelectorDecisionCache n k))"
    "unat (sc_numEntries (NewSelectorDecisionCache n k)) < 2 ^ 62"
    using e c div pos assms(2) by (auto simp: NewSelectorDecisionCache_def Let_def sc_wf_def)
qed

text \<open>C24. The decision cache implements the map of the decisions added. From any first frame, adding decisions that
  neither jump further ahead than the ring less the NACK window nor go back behind the ring (\<open>within_reach\<close>; larger jumps are the subject of the
  next property) never panics, and the lookup of any frame in the ring gives the last decision added for it; a frame that was skipped is
  unknown while it is at most the NACK window behind the newest frame and missing after that.\<close>

theorem DecisionCache_refines:
  assumes "0 < n" "unat n < 2 ^ 60" "unat k < 2 ^ 60" "unat b < 2 ^ 62"
    and "d = selectorDecisionForwarded \<or> d = selectorDecisionDropped"
    and "within_reach (unat (sc_numEntries (NewSelectorDecisionCache n k))) (unat k) b es"
  shows "\<exists>s. addEntities ((b, d) # es) (NewSelectorDecisionCache n k) = Some s \<and> sc_last s = foldl max b (map fst es) \<and>
    unat n \<le> unat (sc_numEntries s) \<and>
    (\<forall>x. b \<le> x \<and> x \<le> sc_last s \<and> unat (sc_last s) - unat x < unat (sc_numEntries s) \<longrightarrow>
       GetDecision s x = Some (pending (unat k) (sc_last s) (decided b [b \<mapsto> d] es) x, False))"
proof -
  note new = numEntries_new [OF assms(1,2), of k]
  have "d \<noteq> selectorDecisionUnknown" "\<not> sc_initialized (NewSelectorDecisionCache n k)" "sc_numNackEntries (NewSelectorDecisionCache n k) = k"
    using assms(5) by (auto simp: NewSelectorDecisionCache_def Let_def)
  then obtain s1 cs where s1: "addEntity (NewSelectorDecisionCache n k) b d = Some (s1, cs)" "decides s1 [b \<mapsto> d]" "sc_base s1 = b"
    "sc_last s1 = b" "sc_numEntries s1 = sc_numEntries (NewSelectorDecisionCache n k)" "sc_numNackEntries s1 = k"
    using decides_first [OF _ new(1), of d b] by auto
  have "\<exists>s. addEntities es s1 = Some s \<and> decides s (decided (sc_base s1) [b \<mapsto> d] es) \<and> sc_base s = sc_base s1 \<and>
     sc_last s = foldl max (sc_last s1) (map fst es) \<and> sc_numEntries s = sc_numEntries s1 \<and> sc_numNackEntries s = sc_numNackEntries s1"
    by (rule addEntities_decides [OF s1(2)]) (use s1 assms new in auto)
  then obtain s where s: "addEntities es s1 = Some s" "decides s (decided b [b \<mapsto> d] es)" "sc_base s = b"
    "sc_last s = foldl max b (map fst es)" "sc_numEntries s = sc_numEntries s1" "sc_numNackEntries s = k"
    using s1 by auto
  from GetDecision_decides [OF s(2)] s s1 new(2) show ?thesis by (intro exI [of _ s]) (auto simp: not_less)
qed

theorem DecisionCache_refines_witness:
  "\<exists>s. addEntities [(100, selectorDecisionForwarded), (103, selectorDecisionDropped), (101, selectorDecisionForwarded)]
     (NewSelectorDecisionCache 256 80) = Some s \<and> GetDecision s 101 = Some (selectorDecisionForwarded, False) \<and>
     GetDecision s 102 = Some (selectorDecisionUnknown, False) \<and> GetDecision s 103 = Some (selectorDecisionDropped, False)"
proof -
  have n: "sc_numEntries (NewSelectorDecisionCache 256 80) = 256" by (simp add: NewSelectorDecisionCache_def)
  obtain s where s: "addEntities ((100, selectorDecisionForwarded) # [(103, selectorDecisionDropped), (101, selectorDecisionForwarded)])
      (NewSelectorDecisionCache 256 80) = Some s" "sc_last s = 103" "256 \<le> unat (sc_numEntries s)"
    "\<And>x. 100 \<le> x \<Longrightarrow> x \<le> sc_last s \<Longrightarrow> unat (sc_last s) - unat x < unat (sc_numEntries s) \<Longrightarrow>
       GetDecision s x = Some (pending 80 (sc_last s) (decided 100 [100 \<mapsto> selectorDecisionForwarded]
         [(103, selectorDecisionDropped), (101, selectorDecisionForwarded)]) x, False)"
    using DecisionCache_refines [of 256 80 100 selectorDecisionForwarded "[(103, selectorDecisionDropped), (101, selectorDecisionForwarded)]"] n
    by auto
  from s(1,2,3) s(4) [of 101] s(4) [of 102] s(4) [of 103] show ?thesis by (simp add: pending_def)
qed



end
