(* ===== verification/FrameChain.thy ===== *)
theory FrameChain
  imports DecisionCache DecodeTargets
begin

text \<open>
  Frame chains and decode targets: \<open>framechain.go\<close>, \<open>decodetarget.go\<close> and \<open>framenumberwrapper.go\<close> of
  \<open>pkg/sfu/videolayerselector\<close>.

  A chain registers itself with the decision cache for frames it waits for, and decode targets share chains: chains
  are objects in a store, a list indexed by their address, and an operation on a chain gets the cache its
  \<open>decisions\<close> points to, which is the one of the selector that owns both. A cache operation returns the calls it
  makes; \<open>deliver\<close> makes them. Callbacks change chains only and never the cache, so making them behind the
  operation instead of inside it gives the same state. Log calls are left out. \<^term>\<open>None\<close> is a run-time panic.

  Lemmas: every registration is settled by exactly one call, an intact chain is registered for each frame it
  awaits, and so the chain breaks as soon as an awaited frame is decided not to be forwarded. Output frame numbers
  are never seen as earlier ones by a receiver that compares 16 bits.
\<close>

section \<open>Model\<close>

record FrameChain =
  broken :: bool
  chainIdx :: nat
  fch_active :: bool
  updatingActive :: bool
  expectFrames :: "u64 list"

definition NewFrameChain :: "nat \<Rightarrow> FrameChain" where
  "NewFrameChain idx = \<lparr>broken = True, chainIdx = idx, fch_active = False, updatingActive = False, expectFrames = []\<rparr>"

definition fch_OnFrame ::
  "nat \<Rightarrow> u64 \<Rightarrow> FrameDependencyTemplate \<Rightarrow> FrameChain \<Rightarrow> SelectorDecisionCache \<Rightarrow>
   (FrameChain \<times> SelectorDecisionCache \<times> bool) option" where
  "fch_OnFrame self extFrameNum fd fc decisions =
     (if \<not> fch_active fc then Some (fc, decisions, False)
      else if length (ChainDiffs fd) \<le> chainIdx fc then Some (fc, decisions, broken fc)
      else if ChainDiffs fd ! chainIdx fc = 0
      then Some (fc\<lparr>broken := False, expectFrames := []\<rparr>, decisions, True)
      else if broken fc then Some (fc, decisions, False)
      else
        let prevFrameInChain = extFrameNum - word_of_int (ChainDiffs fd ! chainIdx fc)
        in do {
             (sd, _) \<leftarrow> GetDecision decisions prevFrameInChain;
             let (decisions, fc, intact) =
               (if sd = selectorDecisionForwarded then (decisions, fc, True)
                else if sd = selectorDecisionUnknown
                then case ExpectDecision decisions prevFrameInChain self of
                       (decisions, True) \<Rightarrow> (decisions, fc\<lparr>expectFrames := expectFrames fc @ [prevFrameInChain]\<rparr>, True)
                     | (decisions, False) \<Rightarrow> (decisions, fc, False)
                else (decisions, fc, False));
             Some (if intact then fc else fc\<lparr>broken := True\<rparr>, decisions, intact)
           })"

fun indexOf :: "u64 \<Rightarrow> u64 list \<Rightarrow> nat option" where
  "indexOf f [] = None"
| "indexOf f (x # xs) = (if x = f then Some 0 else map_option Suc (indexOf f xs))"

definition OnExpectFrameChanged :: "u64 \<Rightarrow> selectorDecision \<Rightarrow> FrameChain \<Rightarrow> FrameChain" where
  "OnExpectFrameChanged frameNum decision fc =
     (if broken fc then fc
      else case indexOf frameNum (expectFrames fc) of
             None \<Rightarrow> fc
           | Some i \<Rightarrow>
               let fc = (if decision \<noteq> selectorDecisionForwarded then fc\<lparr>broken := True\<rparr> else fc);
                   fc = fc\<lparr>expectFrames := (expectFrames fc)[i := expectFrames fc ! (length (expectFrames fc) - 1)]\<rparr>
               in fc\<lparr>expectFrames := take (length (expectFrames fc) - 1) (expectFrames fc)\<rparr>)"

definition BeginUpdateActive :: "FrameChain \<Rightarrow> FrameChain" where
  "BeginUpdateActive fc = fc\<lparr>updatingActive := False\<rparr>"

definition UpdateActive :: "bool \<Rightarrow> FrameChain \<Rightarrow> FrameChain" where
  "UpdateActive active fc = fc\<lparr>updatingActive := updatingActive fc \<or> active\<rparr>"

definition EndUpdateActive :: "FrameChain \<Rightarrow> FrameChain" where
  "EndUpdateActive fc =
     (let active = updatingActive fc;
          fc = fc\<lparr>updatingActive := False\<rparr>
      in if active = fch_active fc then fc
         else let fc = (if \<not> fch_active fc then fc\<lparr>broken := True\<rparr> else fc)
              in fc\<lparr>fch_active := active\<rparr>)"

text \<open>The store of chains, and the calls of a cache operation made on it.\<close>

type_synonym chain_store = "FrameChain list"

definition updateChain :: "nat \<Rightarrow> (FrameChain \<Rightarrow> FrameChain) \<Rightarrow> chain_store \<Rightarrow> chain_store" where
  "updateChain a f store = (if a < length store then store[a := f (store ! a)] else store)"

definition deliver :: "chain_call list \<Rightarrow> chain_store \<Rightarrow> chain_store" where
  "deliver calls store = foldl (\<lambda>store (a, frame, sd). updateChain a (OnExpectFrameChanged frame sd) store) store calls"

record DecodeTarget =
  dt_target :: DependencyDescriptorDecodeTarget
  dt_chain :: "nat option"
  dt_active :: bool

record FrameDetectionResult =
  TargetValid :: bool
  DTI :: int

definition NewDecodeTarget :: "DependencyDescriptorDecodeTarget \<Rightarrow> nat option \<Rightarrow> DecodeTarget" where
  "NewDecodeTarget target chain = \<lparr>dt_target = target, dt_chain = chain, dt_active = False\<rparr>"

definition dt_Valid :: "chain_store \<Rightarrow> DecodeTarget \<Rightarrow> bool" where
  "dt_Valid store dt = (case dt_chain dt of None \<Rightarrow> True | Some a \<Rightarrow> \<not> broken (store ! a))"

definition dt_UpdateActive :: "u32 \<Rightarrow> DecodeTarget \<Rightarrow> chain_store \<Rightarrow> DecodeTarget \<times> chain_store" where
  "dt_UpdateActive activeBitmask dt store =
     (let active = (activeBitmask AND push_bit (nat (Target (dt_target dt))) 1 \<noteq> 0)
      in (dt\<lparr>dt_active := active\<rparr>,
          case dt_chain dt of None \<Rightarrow> store | Some a \<Rightarrow> updateChain a (UpdateActive active) store))"

text \<open>The result, or the error for a frame without an indication for the target: \<^term>\<open>Inl ()\<close>.\<close>

definition dt_OnFrame :: "chain_store \<Rightarrow> FrameDependencyTemplate \<Rightarrow> DecodeTarget \<Rightarrow> unit + FrameDetectionResult" where
  "dt_OnFrame store fd dt =
     (if int (length (sl (DecodeTargetIndications fd))) \<le> Target (dt_target dt) then Inl ()
      else Inr \<lparr>TargetValid = dt_Valid store dt, DTI = sl (DecodeTargetIndications fd) ! nat (Target (dt_target dt))\<rparr>)"

record FrameNumberWrapper =
  fw_offset :: u64
  fw_last :: u64
  fw_inited :: bool

definition fw_UpdateAndGet :: "u64 \<Rightarrow> bool \<Rightarrow> FrameNumberWrapper \<Rightarrow> FrameNumberWrapper \<times> u64" where
  "fw_UpdateAndGet new updateOffset f =
     (if \<not> fw_inited f then (f\<lparr>fw_last := new, fw_inited := True\<rparr>, new)
      else if new \<le> fw_last f then (f, new + fw_offset f)
      else
        let f = (if updateOffset
                 then let new16 = ucast (new + fw_offset f) :: u16;
                          last16 = ucast (fw_last f + fw_offset f);
                          diff = new16 - last16
                      in if diff > 0x8000 \<or> (diff = 0x8000 \<and> new16 < last16)
                         then f\<lparr>fw_offset := fw_offset f + ucast (65535 - diff + 6000)\<rparr> else f
                 else f);
            f = f\<lparr>fw_last := new\<rparr>
        in (f, new + fw_offset f))"

section \<open>Registrations are settled by one call\<close>

definition fns :: "SelectorDecisionCache \<Rightarrow> u64 \<Rightarrow> nat list" where
  "fns s f = (case map_of (onExpectEntityChanged s) f of None \<Rightarrow> [] | Some l \<Rightarrow> l)"

definition cache_ok :: "SelectorDecisionCache \<Rightarrow> bool" where
  "cache_ok s \<longleftrightarrow> sc_wf s \<and> distinct (map fst (onExpectEntityChanged s))"

text \<open>The calls \<open>cs\<close> take \<open>s\<close> to \<open>s'\<close>: each frame either keeps all its registrations, or all of them are called, in
  order and with one decision, and none is left.\<close>

definition calls_for :: "u64 \<Rightarrow> chain_call list \<Rightarrow> chain_call list" where
  "calls_for f cs = filter (\<lambda>(_, g, _). g = f) cs"

definition settles :: "SelectorDecisionCache \<Rightarrow> chain_call list \<Rightarrow> SelectorDecisionCache \<Rightarrow> bool" where
  "settles s cs s' \<longleftrightarrow> (\<forall>f. (calls_for f cs = [] \<and> fns s' f = fns s f) \<or>
     (\<exists>sd. sd \<noteq> selectorDecisionUnknown \<and> calls_for f cs = map (\<lambda>a. (a, f, sd)) (fns s f) \<and> fns s' f = []))"

lemma calls_for_simps [simp]:
  "calls_for f [] = []" "calls_for f (cs @ ds) = calls_for f cs @ calls_for f ds"
  "calls_for f (map (\<lambda>a. (a, g, sd)) as) = (if g = f then map (\<lambda>a. (a, g, sd)) as else [])"
  by (simp_all add: calls_for_def filter_map o_def)

lemma settles_refl [simp]: "settles s [] s"
  by (simp add: settles_def)

lemma settles_fields: "fns s' = fns s \<Longrightarrow> settles s [] s'"
  by (simp add: settles_def)

lemma settles_trans: "settles s cs s' \<Longrightarrow> settles s' ds s'' \<Longrightarrow> settles s (cs @ ds) s''"
  unfolding settles_def
proof
  fix f
  assume "\<forall>f. (calls_for f cs = [] \<and> fns s' f = fns s f) \<or>
     (\<exists>sd. sd \<noteq> selectorDecisionUnknown \<and> calls_for f cs = map (\<lambda>a. (a, f, sd)) (fns s f) \<and> fns s' f = [])"
    and "\<forall>f. (calls_for f ds = [] \<and> fns s'' f = fns s' f) \<or>
     (\<exists>sd. sd \<noteq> selectorDecisionUnknown \<and> calls_for f ds = map (\<lambda>a. (a, f, sd)) (fns s' f) \<and> fns s'' f = [])"
  from this [THEN spec [of _ f]]
  show "(calls_for f (cs @ ds) = [] \<and> fns s'' f = fns s f) \<or>
     (\<exists>sd. sd \<noteq> selectorDecisionUnknown \<and> calls_for f (cs @ ds) = map (\<lambda>a. (a, f, sd)) (fns s f) \<and> fns s'' f = [])"
    by auto
qed

lemma map_of_filter_key: "map_of (filter (\<lambda>(e, _). P e) xs) f = (if P f then map_of xs f else None)"
  by (induction xs) auto

lemma setEntity_settles:
  assumes "cache_ok s" "setEntity s e sd = Some (s', cs)"
  shows "settles s cs s'" "distinct (map fst (onExpectEntityChanged s'))"
    "sd \<noteq> selectorDecisionUnknown \<Longrightarrow> calls_for e cs = map (\<lambda>a. (a, e, sd)) (fns s e)"
proof -
  obtain masks where s': "s' = (s\<lparr>sc_masks := masks\<rparr>) \<and> cs = [] \<and> (sd = selectorDecisionUnknown \<or> map_of (onExpectEntityChanged s) e = None) \<or>
      sd \<noteq> selectorDecisionUnknown \<and>
      s' = s\<lparr>sc_masks := masks, onExpectEntityChanged := filter (\<lambda>(g, _). g \<noteq> e) (onExpectEntityChanged s)\<rparr> \<and>
      cs = map (\<lambda>a. (a, e, sd)) (fns s e)"
    using assms(2) by (auto simp: setEntity_def Let_def fns_def bind_Some_iff split: if_splits option.splits)
  show "settles s cs s'"
    using s' by (auto simp: settles_def fns_def map_of_filter_key)
  show "distinct (map fst (onExpectEntityChanged s'))"
    using s' assms(1) by (auto simp: cache_ok_def intro: distinct_map_filter)
  show "calls_for e cs = map (\<lambda>a. (a, e, sd)) (fns s e)" if "sd \<noteq> selectorDecisionUnknown"
    using s' that by (auto simp: fns_def)
qed

lemma sc_getPos_total:
  assumes "sc_wf s"
  shows "\<exists>i b. sc_getPos s e = Some (i, b) \<and> i < length (sc_masks s)"
proof -
  let ?i = "(e - sc_base s) mod sc_numEntries s"
  have n: "sc_numEntries s \<noteq> 0" "unat (sc_numEntries s) = 32 * length (sc_masks s)" using assms by (auto simp: sc_wf_def)
  have "unat ?i < 32 * length (sc_masks s)" using n assms by (simp add: unat_mod sc_wf_def)
  then have "unat (drop_bit 5 ?i) < length (sc_masks s)" unfolding word_split5 by (simp add: less_mult_imp_div_less mult.commute)
  then show ?thesis using n(1) by (simp add: sc_getPos_def Let_def)
qed

lemma GetDecision_total: "sc_wf s \<Longrightarrow> \<exists>d. GetDecision s e = Some d"
  using sc_getPos_total [of s e] by (auto simp: GetDecision_def getEntity_def)

text \<open>An operation on one frame that returns, settles registrations of this frame only, and keeps the ring.\<close>

definition settling :: "(SelectorDecisionCache \<Rightarrow> u64 \<Rightarrow> (SelectorDecisionCache \<times> chain_call list) option) \<Rightarrow> bool" where
  "settling op \<longleftrightarrow> (\<forall>s e. cache_ok s \<longrightarrow> (\<exists>s' cs. op s e = Some (s', cs) \<and> cache_ok s' \<and> same_ring s s' \<and> settles s cs s' \<and>
     (\<forall>f. f \<noteq> e \<longrightarrow> fns s' f = fns s f)))"

lemma setEntity_total:
  assumes "cache_ok s"
  shows "\<exists>s' cs. setEntity s e sd = Some (s', cs) \<and> cache_ok s' \<and> same_ring s s' \<and> settles s cs s' \<and> (\<forall>f. f \<noteq> e \<longrightarrow> fns s' f = fns s f)"
proof -
  obtain i b where p: "sc_getPos s e = Some (i, b)" "i < length (sc_masks s)"
    using sc_getPos_total [of s e] assms by (auto simp: cache_ok_def)
  then obtain ms fs cs where s': "setEntity s e sd = Some (s\<lparr>sc_masks := ms, onExpectEntityChanged := fs\<rparr>, cs)"
    "length ms = length (sc_masks s)" "\<And>f. f \<noteq> e \<Longrightarrow> map_of fs f = map_of (onExpectEntityChanged s) f"
  proof -
    let ?ms = "(sc_masks s)[i := (sc_masks s ! i AND NOT (push_bit b 3)) OR push_bit b (sd_code sd AND 3)]"
    show thesis
    proof (cases "sd \<noteq> selectorDecisionUnknown \<and> map_of (onExpectEntityChanged s) e \<noteq> None")
      case True
      then obtain l where "setEntity s e sd = Some (s\<lparr>sc_masks := ?ms, onExpectEntityChanged :=
          filter (\<lambda>(g, _). g \<noteq> e) (onExpectEntityChanged s)\<rparr>, map (\<lambda>f. (f, e, sd)) l)"
        using p by (auto simp: setEntity_def Let_def)
      then show thesis by (rule that) (simp_all add: map_of_filter_key)
    next
      case False
      have "setEntity s e sd = Some (s\<lparr>sc_masks := ?ms, onExpectEntityChanged := onExpectEntityChanged s\<rparr>, [])"
        using False p by (auto simp: setEntity_def Let_def)
      then show thesis by (rule that) simp_all
    qed
  qed
  note st = setEntity_settles [OF assms s'(1)]
  have "same_ring s (s\<lparr>sc_masks := ms, onExpectEntityChanged := fs\<rparr>)" using s'(2) by (auto simp: same_ring_def)
  moreover have "cache_ok (s\<lparr>sc_masks := ms, onExpectEntityChanged := fs\<rparr>)"
    using st(2) assms s'(2) by (auto simp: cache_ok_def sc_wf_def)
  ultimately show ?thesis using s'(1,3) st(1) by (auto simp: fns_def)
qed

lemma settling_setEntity: "settling (\<lambda>s e. setEntity s e sd)"
  using setEntity_total by (simp add: settling_def)

lemma settling_setEntityIfUnknown: "settling (\<lambda>s e. setEntityIfUnknown s e sd)"
  unfolding settling_def
proof (intro allI impI)
  fix s e assume s: "cache_ok s"
  then obtain d where "getEntity s e = Some d" using sc_getPos_total [of s e] by (auto simp: cache_ok_def getEntity_def)
  then show "\<exists>s' cs. setEntityIfUnknown s e sd = Some (s', cs) \<and> cache_ok s' \<and> same_ring s s' \<and> settles s cs s' \<and>
     (\<forall>f. f \<noteq> e \<longrightarrow> fns s' f = fns s f)"
    using setEntity_total [OF s, of e sd] s same_ring_refl by (auto simp: setEntityIfUnknown_def)
qed

lemma entityLoop_settling:
  assumes op: "settling op"
  shows "cache_ok s \<Longrightarrow> \<exists>s' cs. entityLoop op es s = Some (s', cs) \<and> cache_ok s' \<and> same_ring s s' \<and> settles s cs s' \<and>
    (\<forall>f. f \<notin> of_nat ` set es \<longrightarrow> fns s' f = fns s f)"
proof (induction es arbitrary: s)
  case Nil
  then show ?case using same_ring_refl by auto
next
  case (Cons e es)
  obtain s1 cs where s1: "op s (of_nat e) = Some (s1, cs)" "cache_ok s1" "same_ring s s1" "settles s cs s1"
    "\<forall>f. f \<noteq> of_nat e \<longrightarrow> fns s1 f = fns s f" using op Cons.prems unfolding settling_def by blast
  obtain s2 ds where s2: "entityLoop op es s1 = Some (s2, ds)" "cache_ok s2" "same_ring s1 s2" "settles s1 ds s2"
    "\<forall>f. f \<notin> of_nat ` set es \<longrightarrow> fns s2 f = fns s1 f" using Cons.IH [OF s1(2)] by blast
  show ?case using s1 s2 same_ring_trans [OF s1(3) s2(3)] settles_trans [OF s1(4) s2(4)] by auto
qed

text \<open>Settling what is behind the ring.\<close>

lemma calls_for_entries:
  "distinct (map fst xs) \<Longrightarrow> calls_for f (concat (map (\<lambda>(e, fs). map (\<lambda>a. (a, e, sd)) fs) xs)) =
     (case map_of xs f of None \<Rightarrow> [] | Some l \<Rightarrow> map (\<lambda>a. (a, f, sd)) l)"
proof (induction xs)
  case (Cons x xs)
  obtain e fs where x: "x = (e, fs)" by fastforce
  have "map_of xs e = None" using Cons.prems x by (simp add: map_of_eq_None_iff)
  then show ?case using Cons x by auto
qed simp

lemma settles_expired:
  assumes "cache_ok s" "sd \<noteq> selectorDecisionUnknown"
  shows "settles s (concat (map (\<lambda>(e, fs). map (\<lambda>a. (a, e, sd)) fs) (filter (\<lambda>(e, _). P e) (onExpectEntityChanged s))))
    (s\<lparr>onExpectEntityChanged := filter (\<lambda>(e, _). \<not> P e) (onExpectEntityChanged s)\<rparr>)"
proof -
  have d: "distinct (map fst (filter (\<lambda>(e, _). P e) (onExpectEntityChanged s)))"
    using assms(1) by (auto simp: cache_ok_def intro: distinct_map_filter)
  show ?thesis unfolding settles_def calls_for_entries [OF d] using assms(2)
    by (auto simp: fns_def map_of_filter_key split: option.splits)
qed

lemma not_in_frames: "unat m \<le> unat e \<Longrightarrow> (e :: u64) \<notin> of_nat ` set [k..<unat m]"
proof
  assume m: "unat m \<le> unat e" and "e \<in> of_nat ` set [k..<unat m]"
  then obtain j where "j < unat m" "e = of_nat j" by auto
  with m have "j < unat e" "e = of_nat j" by simp_all
  moreover from this have "unat e = j" using unsigned_less [of e, where ?'a = nat] by (simp add: unat_of_nat_u64)
  ultimately show False by simp
qed
lemma addEntity_total:
  assumes ok: "cache_ok s"
  shows "\<exists>s' cs. addEntity s e sd = Some (s', cs) \<and> cache_ok s' \<and> settles s cs s' \<and> sc_initialized s' \<and>
    (sc_initialized s \<longrightarrow> sc_base s' = sc_base s \<and> sc_last s \<le> sc_last s') \<and> sc_numEntries s' = sc_numEntries s \<and>
    (sc_initialized s \<and> sc_base s < e \<and> unat (sc_base s) + unat (sc_numNackEntries s) < 2 ^ 64 \<and> sd \<noteq> selectorDecisionUnknown \<longrightarrow>
       calls_for e cs = map (\<lambda>a. (a, e, sd)) (fns s e))"
proof -
  have set: "\<exists>s' cs. setEntity s e sd = Some (s', cs) \<and> cache_ok s' \<and> same_ring s s' \<and> settles s cs s' \<and>
      (sd \<noteq> selectorDecisionUnknown \<longrightarrow> calls_for e cs = map (\<lambda>a. (a, e, sd)) (fns s e))" if "cache_ok s" for s
    using setEntity_total [OF that, of e sd] setEntity_settles(3) [OF that] by blast
  consider (first) "\<not> sc_initialized s" | (old) "sc_initialized s" "e \<le> sc_base s" | (late) "sc_initialized s" "sc_base s < e" "e \<le> sc_last s"
    | (jump) "sc_initialized s" "sc_base s < e" "sc_last s < e" by fastforce
  then show ?thesis
  proof cases
    case first
    let ?s = "s\<lparr>sc_initialized := True, sc_base := e, sc_last := e\<rparr>"
    have "cache_ok ?s" using ok by (auto simp: cache_ok_def sc_wf_def)
    from set [OF this] obtain s' cs where s': "setEntity ?s e sd = Some (s', cs)" "cache_ok s'" "same_ring ?s s'" "settles ?s cs s'" by blast
    have "settles s cs s'" using s'(4) by (simp add: settles_def fns_def)
    then show ?thesis using first s' same_ringD [OF s'(3)] by (simp add: addEntity_def)
  next
    case old
    then show ?thesis using ok by (auto simp: addEntity_def)
  next
    case late
    from set [OF ok] obtain s' cs where s': "setEntity s e sd = Some (s', cs)" "cache_ok s'" "same_ring s s'" "settles s cs s'"
      "sd \<noteq> selectorDecisionUnknown \<longrightarrow> calls_for e cs = map (\<lambda>a. (a, e, sd)) (fns s e)" by blast
    then show ?thesis using late same_ringD [OF s'(3)] by (auto simp: addEntity_def)
  next
    case jump
    define floor where "floor = (if e > sc_numEntries s then e - sc_numEntries s else 0)"
    define mend where "mend = (if e > sc_numNackEntries s + sc_base s then e - sc_numNackEntries s else sc_base s)"
    define m0 where "m0 = (if sc_last s > sc_numNackEntries s + sc_base s then sc_last s - sc_numNackEntries s else sc_base s)"
    define mst where "mst = (if mend > m0 + sc_numEntries s then mend - sc_numEntries s else m0)"
    obtain s1 cs where s1: "entityLoop (\<lambda>s e. setEntity s e selectorDecisionUnknown) [unat (max (sc_last s + 1) floor)..<unat e] s = Some (s1, cs)"
      "cache_ok s1" "same_ring s s1" "settles s cs s1"
      "\<forall>f. f \<notin> of_nat ` set [unat (max (sc_last s + 1) floor)..<unat e] \<longrightarrow> fns s1 f = fns s f"
      using entityLoop_settling [OF settling_setEntity ok] by blast
    obtain s2 ds where s2: "(if mend > mst then entityLoop (\<lambda>s e. setEntityIfUnknown s e selectorDecisionMissing) [unat mst..<unat mend] s1
        else Some (s1, [])) = Some (s2, ds)" "cache_ok s2" "same_ring s1 s2" "settles s1 ds s2"
      "\<forall>f. f \<notin> of_nat ` set [unat mst..<unat mend] \<longrightarrow> fns s2 f = fns s1 f"
    proof (cases "mend > mst")
      case True
      then show thesis using entityLoop_settling [OF settling_setEntityIfUnknown s1(2)] that by fastforce
    next
      case False
      then show thesis using that [of s1 "[]"] s1(2) same_ring_refl by simp
    qed
    obtain s3 es where s3: "setEntity s2 e sd = Some (s3, es)" "cache_ok s3" "same_ring s2 s3" "settles s2 es s3"
      "sd \<noteq> selectorDecisionUnknown \<longrightarrow> calls_for e es = map (\<lambda>a. (a, e, sd)) (fns s2 e)" using set [OF s2(2)] by blast
    let ?s3 = "s3\<lparr>sc_last := e\<rparr>" and ?P = "\<lambda>x. x + sc_numEntries s3 < e"
    let ?old = "concat (map (\<lambda>(e, fns). map (\<lambda>f. (f, e, selectorDecisionMissing)) fns) (filter (\<lambda>(e, _). ?P e) (onExpectEntityChanged ?s3)))"
    let ?s' = "?s3\<lparr>onExpectEntityChanged := filter (\<lambda>(e, _). \<not> ?P e) (onExpectEntityChanged ?s3)\<rparr>"
    have ok3: "cache_ok ?s3" using s3(2) by (auto simp: cache_ok_def sc_wf_def)
    have run: "addEntity s e sd = Some (?s', cs @ ds @ es @ ?old)"
    proof -
      have n: "\<not> e \<le> sc_base s" "\<not> e \<le> sc_last s" using jump by simp_all
      show ?thesis
        unfolding addEntity_def if_not_P [OF n(1)] if_not_P [OF n(2)] Let_def floor_def [symmetric] m0_def [symmetric] mend_def [symmetric]
          mst_def [symmetric] s1(1) bind.simps prod.case s2(1) s3(1) using jump(1) by simp
    qed
    note D = same_ringD [OF same_ring_trans [OF same_ring_trans [OF s1(3) s2(3)] s3(3)]]
    have "settles s3 [] ?s3" by (simp add: settles_def fns_def)
    from settles_trans [OF settles_trans [OF settles_trans [OF settles_trans [OF s1(4) s2(4)] s3(4)] this] settles_expired [OF ok3, of _ ?P]]
    have st: "settles s (cs @ ds @ es @ ?old) ?s'" by simp
    have "cache_ok ?s'" using ok3 by (auto simp: cache_ok_def sc_wf_def intro: distinct_map_filter)
    moreover have "calls_for e (cs @ ds @ es @ ?old) = map (\<lambda>a. (a, e, sd)) (fns s e)"
      if small: "unat (sc_base s) + unat (sc_numNackEntries s) < 2 ^ 64" and sd: "sd \<noteq> selectorDecisionUnknown"
    proof (cases "fns s e = []")
      case True
      from st [unfolded settles_def, THEN spec, of e] show ?thesis unfolding True list.map by (elim disjE exE conjE)
    next
      case False
      have "mend \<le> e"
      proof (cases "e > sc_numNackEntries s + sc_base s")
        case True
        have "unat (sc_numNackEntries s + sc_base s) = unat (sc_numNackEntries s) + unat (sc_base s)"
          using small unfolding unat_word_ariths by (simp add: add.commute [of "unat (sc_base s)"])
        then have "sc_numNackEntries s \<le> e" using True by (simp add: word_less_nat_alt word_le_nat_alt)
        then show ?thesis using True by (simp add: mend_def word_le_nat_alt unat_minus_wrap)
      next
        case False
        then show ?thesis using jump by (simp add: mend_def)
      qed
      then have "fns s2 e = fns s e"
        using s1(5) s2(5) not_in_frames [of e e] not_in_frames [of mend e] by (simp add: word_le_nat_alt)
      then have es: "calls_for e es = map (\<lambda>a. (a, e, sd)) (fns s e)" using s3(5) sd by simp
      from st [unfolded settles_def, THEN spec, of e] obtain sd' where
        all: "calls_for e (cs @ ds @ es @ ?old) = map (\<lambda>a. (a, e, sd')) (fns s e)"
      proof (elim disjE exE conjE)
        assume "calls_for e (cs @ ds @ es @ ?old) = []"
        then show thesis using es False by (simp only: calls_for_simps append_is_Nil_conv map_is_Nil_conv) (elim conjE FalseE)
      qed
      obtain a where "a \<in> set (fns s e)" using False by (cases "fns s e") auto
      then have "(a, e, sd) \<in> set (calls_for e (cs @ ds @ es @ ?old))" using es by simp
      then have "sd' = sd" unfolding all by auto
      then show ?thesis using all by simp
    qed
    ultimately show ?thesis using run st D jump by auto
  qed
qed
section \<open>Intact chains are registered for what they await\<close>

lemma indexOf_Some: "indexOf f xs = Some i \<Longrightarrow> i < length xs \<and> xs ! i = f"
  by (induction xs arbitrary: i) (auto split: if_splits)

lemma indexOf_None: "indexOf f xs = None \<longleftrightarrow> f \<notin> set xs"
  by (induction xs) auto

text \<open>Moving the last element into the place of one and cutting the end removes one occurrence.\<close>

lemma mset_remove_swap:
  assumes "i < length xs"
  shows "mset (take (length xs - 1) (xs[i := xs ! (length xs - 1)])) = mset xs - {# xs ! i #}"
proof -
  obtain ys y where xs: "xs = ys @ [y]" using assms by (cases xs rule: rev_cases) auto
  show ?thesis
  proof (cases "i = length ys")
    case True
    then show ?thesis using xs by (simp add: nth_append)
  next
    case False
    then have "i < length ys" using assms xs by simp
    then show ?thesis using xs by (simp add: nth_append list_update_append mset_update)
  qed
qed

text \<open>A call takes one occurrence of the frame from the frames awaited, and breaks the chain if the frame is not
  forwarded.\<close>

lemma OnExpectFrameChanged_spec:
  "OnExpectFrameChanged f sd c =
     (if broken c \<or> f \<notin> set (expectFrames c) then c
      else c\<lparr>broken := (sd \<noteq> selectorDecisionForwarded), expectFrames := expectFrames (OnExpectFrameChanged f sd c)\<rparr>)"
  "\<not> broken c \<Longrightarrow> mset (expectFrames (OnExpectFrameChanged f sd c)) = mset (expectFrames c) - {# f #}"
  using mset_remove_swap [of _ "expectFrames c"] indexOf_Some [of f "expectFrames c"]
  by (auto simp: OnExpectFrameChanged_def Let_def indexOf_None in_multiset_in_set diff_single_trivial split: option.splits)

text \<open>The chains in use, at the addresses \<open>live\<close>, are registered for what they await if they are intact.\<close>

definition chain_waits :: "nat set \<Rightarrow> (u64 \<Rightarrow> nat list) \<Rightarrow> chain_store \<Rightarrow> bool" where
  "chain_waits live reg store \<longleftrightarrow> (\<forall>a < length store. a \<in> live \<and> \<not> broken (store ! a) \<longrightarrow>
     (\<forall>f. count (mset (expectFrames (store ! a))) f \<le> count (mset (reg f)) a))"

text \<open>One call uses up one registration.\<close>

lemma deliver_simps [simp]:
  "deliver [] store = store"
  "deliver ((a, f, sd) # cs) store = deliver cs (updateChain a (OnExpectFrameChanged f sd) store)"
  by (simp_all add: deliver_def)

lemma length_updateChain [simp]: "length (updateChain a g store) = length store"
  by (simp add: updateChain_def)

lemma nth_updateChain: "b < length store \<Longrightarrow> updateChain a g store ! b = (if b = a then g (store ! b) else store ! b)"
  by (auto simp: updateChain_def)

lemma length_deliver [simp]: "length (deliver cs store) = length store"
  by (induction cs arbitrary: store) auto

definition registrations :: "chain_call list \<Rightarrow> (u64 \<Rightarrow> nat list) \<Rightarrow> (u64 \<Rightarrow> nat list) \<Rightarrow> bool" where
  "registrations cs reg reg' \<longleftrightarrow> (\<forall>f. mset (reg f) = mset (map fst (calls_for f cs)) + mset (reg' f))"

lemma settles_registrations: "settles s cs s' \<Longrightarrow> registrations cs (fns s) (fns s')"
  unfolding settles_def registrations_def
proof
  fix f
  assume "\<forall>f. (calls_for f cs = [] \<and> fns s' f = fns s f) \<or>
     (\<exists>sd. sd \<noteq> selectorDecisionUnknown \<and> calls_for f cs = map (\<lambda>a. (a, f, sd)) (fns s f) \<and> fns s' f = [])"
  from spec [OF this, of f] show "mset (fns s f) = mset (map fst (calls_for f cs)) + mset (fns s' f)"
    by (elim disjE exE conjE) (simp_all add: o_def)
qed

lemma chain_waits_call:
  assumes "chain_waits live reg store" "count (mset (reg f)) a = Suc n" "\<And>g. mset (reg' g) = mset (reg g) - (if g = f then {# a #} else {#})"
  shows "chain_waits live reg' (updateChain a (OnExpectFrameChanged f sd) store)"
  unfolding chain_waits_def
proof (intro allI impI)
  fix b g assume b: "b < length (updateChain a (OnExpectFrameChanged f sd) store)"
    "b \<in> live \<and> \<not> broken (updateChain a (OnExpectFrameChanged f sd) store ! b)"
  have reg: "count (mset (reg' g)) b = (if g = f \<and> b = a then count (mset (reg g)) b - 1 else count (mset (reg g)) b)"
    unfolding assms(3) by simp
  have old: "\<not> broken (store ! b) \<Longrightarrow> count (mset (expectFrames (store ! b))) g \<le> count (mset (reg g)) b"
    using assms(1) b unfolding chain_waits_def by simp
  show "count (mset (expectFrames (updateChain a (OnExpectFrameChanged f sd) store ! b))) g \<le> count (mset (reg' g)) b"
  proof (cases "b = a")
    case False
    then show ?thesis using b old reg by (simp add: nth_updateChain)
  next
    case True
    then have nb: "\<not> broken (OnExpectFrameChanged f sd (store ! b))" using b by (simp add: nth_updateChain)
    have nb': "\<not> broken (store ! b)"
      using nb OnExpectFrameChanged_spec(1) [of f sd "store ! b"] by (auto split: if_splits)
    have "count (mset (expectFrames (OnExpectFrameChanged f sd (store ! b)))) g =
        count (mset (expectFrames (store ! b))) g - (if g = f then 1 else 0)"
      unfolding OnExpectFrameChanged_spec(2) [OF nb'] by simp
    then show ?thesis using old [OF nb'] reg True b(1) by (auto simp: nth_updateChain)
  qed
qed

lemma chain_waits_deliver:
  "chain_waits live reg store \<Longrightarrow> registrations cs reg reg' \<Longrightarrow> chain_waits live reg' (deliver cs store)"
proof (induction cs arbitrary: reg store)
  case Nil
  then have "mset (reg' f) = mset (reg f)" for f by (simp add: registrations_def)
  then show ?case using Nil(1) by (simp add: chain_waits_def)
next
  case (Cons c cs)
  obtain a f sd where c: "c = (a, f, sd)" by (cases c)
  let ?reg = "\<lambda>g. if g = f then remove1 a (reg g) else reg g"
  have split: "mset (map fst (calls_for g (c # cs))) = (if g = f then {# a #} else {#}) + mset (map fst (calls_for g cs))" for g
    by (simp add: calls_for_def c)
  have reg: "mset (reg g) = (if g = f then {# a #} else {#}) + mset (map fst (calls_for g cs)) + mset (reg' g)" for g
    using Cons.prems(2) unfolding registrations_def split by simp
  have "count (mset (reg f)) a = Suc (count (mset (map fst (calls_for f cs)) + mset (reg' f)) a)" using reg [of f] by simp
  then have "chain_waits live ?reg (updateChain a (OnExpectFrameChanged f sd) store)"
    by (rule chain_waits_call [OF Cons.prems(1)]) (simp split: if_splits)
  moreover have "registrations cs ?reg reg'"
    unfolding registrations_def using reg by (auto simp: add.assoc)
  ultimately show ?case using Cons.IH c by simp
qed

lemma OnExpectFrameChanged_keeps:
  "broken c \<Longrightarrow> OnExpectFrameChanged g sd c = c"
  "f \<noteq> g \<Longrightarrow> f \<in> set (expectFrames c) \<Longrightarrow> f \<in> set (expectFrames (OnExpectFrameChanged g sd c))"
  "f \<in> set (expectFrames c) \<Longrightarrow> sd \<noteq> selectorDecisionForwarded \<Longrightarrow> broken (OnExpectFrameChanged f sd c)"
proof -
  show "broken c \<Longrightarrow> OnExpectFrameChanged g sd c = c" by (simp add: OnExpectFrameChanged_def)
  show "f \<in> set (expectFrames (OnExpectFrameChanged g sd c))" if "f \<noteq> g" "f \<in> set (expectFrames c)"
  proof (cases "broken c")
    case False
    have "f \<in># mset (expectFrames (OnExpectFrameChanged g sd c))"
      unfolding OnExpectFrameChanged_spec(2) [OF False] using that by (simp add: in_diff_count)
    then show ?thesis by simp
  qed (use that in \<open>simp add: OnExpectFrameChanged_def\<close>)
  show "broken (OnExpectFrameChanged f sd c)" if "f \<in> set (expectFrames c)" "sd \<noteq> selectorDecisionForwarded"
    using that by (subst OnExpectFrameChanged_spec(1)) simp
qed

lemma deliver_broken: "a < length store \<Longrightarrow> broken (store ! a) \<Longrightarrow> deliver cs store ! a = store ! a"
proof (induction cs arbitrary: store)
  case (Cons c cs)
  obtain b f sd where c: "c = (b, f, sd)" by (cases c)
  let ?st = "updateChain b (OnExpectFrameChanged f sd) store"
  have same: "?st ! a = store ! a" using Cons.prems by (auto simp: nth_updateChain OnExpectFrameChanged_keeps(1))
  then have "deliver cs ?st ! a = ?st ! a" using Cons.prems by (intro Cons.IH) simp_all
  then show ?case using same c by simp
qed simp

lemma deliver_breaks:
  assumes "a < length store" "f \<in> set (expectFrames (store ! a))" "(a, f, sd) \<in> set cs"
    "\<And>b d. (b, f, d) \<in> set cs \<Longrightarrow> d \<noteq> selectorDecisionForwarded"
  shows "broken (deliver cs store ! a)"
  using assms
proof (induction cs arbitrary: store)
  case (Cons c cs)
  obtain b g d where c: "c = (b, g, d)" by (cases c)
  let ?st = "updateChain b (OnExpectFrameChanged g d) store"
  have st: "?st ! a = (if a = b then OnExpectFrameChanged g d (store ! a) else store ! a)"
    using Cons.prems(1) by (simp add: nth_updateChain)
  show ?case
  proof (cases "b = a \<and> g = f")
    case True
    then have "d \<noteq> selectorDecisionForwarded" using Cons.prems(4) [of b d] c by simp
    then have "broken (?st ! a)" using st True Cons.prems(2) by (simp add: OnExpectFrameChanged_keeps(3))
    then show ?thesis using deliver_broken [of a ?st cs] Cons.prems(1) c by simp
  next
    case False
    then have "f \<in> set (expectFrames (?st ! a))" using st Cons.prems(2) OnExpectFrameChanged_keeps(2) by auto
    moreover have "(a, f, sd) \<in> set cs" using Cons.prems(3) False c by auto
    moreover have "\<And>b d. (b, f, d) \<in> set cs \<Longrightarrow> d \<noteq> selectorDecisionForwarded" using Cons.prems(4) by force
    ultimately show ?thesis using Cons.IH [of ?st] Cons.prems(1) c by simp
  qed
qed simp
section \<open>Operations on chains keep them registered\<close>

lemma map_of_addFn: "map_of (addFn e a m) f = (if f = e then Some ((case map_of m e of None \<Rightarrow> [] | Some l \<Rightarrow> l) @ [a]) else map_of m f)"
proof (cases "map_of m e")
  case None
  then show ?thesis by (auto simp: addFn_def map_add_def split: option.splits)
next
  case (Some l)
  have "map_of (map (\<lambda>(g, gs). if g = e then (g, l @ [a]) else (g, gs)) m) f =
      (if f = e \<and> map_of m e \<noteq> None then Some (l @ [a]) else map_of m f)" for f
    by (induction m) (auto split: if_splits)
  then show ?thesis using Some by (simp add: addFn_def)
qed

lemma ExpectDecision_registers:
  assumes "ExpectDecision s e a = (s', ok)" "cache_ok s"
  shows "cache_ok s'" "fns s' f = fns s f @ (if ok \<and> f = e then [a] else [])"
proof -
  have "fst \<circ> (\<lambda>(g, gs). if g = e then (g, l) else (g, gs)) = fst" for l :: "nat list" by (auto simp: fun_eq_iff)
  then have "distinct (map fst (addFn e a (onExpectEntityChanged s)))"
    using assms(2) by (auto simp: addFn_def cache_ok_def map_of_eq_None_iff split: option.splits)
  then show "cache_ok s'"
    using assms by (auto simp: ExpectDecision_def cache_ok_def sc_wf_def split: if_splits)
  show "fns s' f = fns s f @ (if ok \<and> f = e then [a] else [])"
    using assms by (auto simp: ExpectDecision_def fns_def map_of_addFn split: if_splits option.splits)
qed

lemma ExpectDecision_ring:
  "ExpectDecision s e a = (s', ok) \<Longrightarrow> same_ring s s'"
proof -
  have "same_ring s (s\<lparr>onExpectEntityChanged := fs\<rparr>)" for fs
    unfolding same_ring_def by (intro exI [of _ "sc_masks s"] exI [of _ fs]) simp
  then show "ExpectDecision s e a = (s', ok) \<Longrightarrow> same_ring s s'"
    using same_ring_refl [of s] by (auto simp: ExpectDecision_def split: if_splits)
qed

lemma chain_waits_update:
  assumes "chain_waits live reg store" "\<And>c. \<not> broken (g c) \<Longrightarrow> \<not> broken c" "\<And>c. expectFrames (g c) = expectFrames c"
  shows "chain_waits live reg (updateChain a g store)"
  using assms unfolding chain_waits_def by (auto simp: nth_updateChain)

lemma chain_waits_set:
  assumes "chain_waits live reg store" "\<And>f. \<not> broken c \<Longrightarrow> count (mset (expectFrames c)) f \<le> count (mset (reg' f)) a"
    "\<And>f b. count (mset (reg f)) b \<le> count (mset (reg' f)) b"
  shows "chain_waits live reg' (store[a := c])"
  unfolding chain_waits_def
proof (intro allI impI)
  fix b f assume b: "b < length (store[a := c])" "b \<in> live \<and> \<not> broken (store[a := c] ! b)"
  show "count (mset (expectFrames (store[a := c] ! b))) f \<le> count (mset (reg' f)) b"
  proof (cases "b = a")
    case True
    then show ?thesis using b assms(2) by simp
  next
    case False
    then have "count (mset (expectFrames (store ! b))) f \<le> count (mset (reg f)) b"
      using b assms(1) unfolding chain_waits_def by simp
    then show ?thesis using False assms(3) [of f b] by simp
  qed
qed

lemma fch_OnFrame_ok:
  assumes s: "cache_ok s" and w: "chain_waits live (fns s) store" "a < length store" "a \<in> live"
  shows "\<exists>c s' b. fch_OnFrame a n fd (store ! a) s = Some (c, s', b) \<and> cache_ok s' \<and> same_ring s s' \<and> chain_waits live (fns s') (store[a := c])"
proof -
  let ?c = "store ! a"
  have wa: "count (mset (expectFrames ?c)) f \<le> count (mset (fns s f)) a" if "\<not> broken ?c" for f
    using w that unfolding chain_waits_def by simp
  have keep: "chain_waits live (fns s) (store[a := c])" if "\<not> broken c \<Longrightarrow> \<not> broken ?c \<and> expectFrames c = expectFrames ?c" for c
    by (rule chain_waits_set [OF w(1)]) (use that wa in auto)
  consider (same) "\<exists>b. fch_OnFrame a n fd ?c s = Some (?c, s, b)"
    | (reset) "fch_OnFrame a n fd ?c s = Some (?c\<lparr>broken := False, expectFrames := []\<rparr>, s, True)"
    | (prev) "\<not> broken ?c" "fch_active ?c" "chainIdx ?c < length (ChainDiffs fd)" "ChainDiffs fd ! chainIdx ?c \<noteq> 0"
  proof -
    have "(\<exists>b. fch_OnFrame a n fd ?c s = Some (?c, s, b)) \<or>
      fch_OnFrame a n fd ?c s = Some (?c\<lparr>broken := False, expectFrames := []\<rparr>, s, True) \<or>
      (\<not> broken ?c \<and> fch_active ?c \<and> chainIdx ?c < length (ChainDiffs fd) \<and> ChainDiffs fd ! chainIdx ?c \<noteq> 0)"
      unfolding fch_OnFrame_def
      by (cases "fch_active ?c"; cases "length (ChainDiffs fd) \<le> chainIdx ?c"; cases "ChainDiffs fd ! chainIdx ?c = 0"; cases "broken ?c") (simp_all, blast+)
    then show thesis using same reset prev by blast
  qed
  then show ?thesis
  proof cases
    case same
    then show ?thesis using s keep [of ?c] same_ring_refl by auto
  next
    case reset
    have "chain_waits live (fns s) (store[a := ?c\<lparr>broken := False, expectFrames := []\<rparr>])" by (rule chain_waits_set [OF w(1)]) simp_all
    then show ?thesis using reset s same_ring_refl by auto
  next
    case prev
    let ?p = "n - word_of_int (ChainDiffs fd ! chainIdx ?c)"
    obtain sd err where sd: "GetDecision s ?p = Some (sd, err)" using GetDecision_total s unfolding cache_ok_def by (metis prod.exhaust)
    obtain s' ok where e: "ExpectDecision s ?p a = (s', ok)" by fastforce
    note E = ExpectDecision_registers [OF e s] ExpectDecision_ring [OF e]
    have wait: "chain_waits live (fns s') (store[a := ?c\<lparr>expectFrames := expectFrames ?c @ [?p]\<rparr>])" if ok
      by (rule chain_waits_set [OF w(1)]) (use wa [OF prev(1)] E(2) that in \<open>auto simp: le_SucI\<close>)
    have refuse: "fns s' = fns s" if "\<not> ok" using E(2) that by auto
    show ?thesis
      using prev sd e E(1,3) s keep [of ?c] keep [of "?c\<lparr>broken := True\<rparr>"] wait refuse same_ring_refl [of s]
      by (cases sd; cases ok) (auto simp: fch_OnFrame_def Let_def)
  qed
qed

text \<open>The decision on an awaited frame.\<close>

lemma awaited_settled:
  assumes s: "cache_ok s" "sc_initialized s" "sc_base s < f" "unat (sc_base s) + unat (sc_numNackEntries s) < 2 ^ 64"
    and w: "chain_waits live (fns s) store" "a < length store" "a \<in> live" "\<not> broken (store ! a)" "f \<in> set (expectFrames (store ! a))"
    and sd: "sd \<noteq> selectorDecisionForwarded" "sd \<noteq> selectorDecisionUnknown"
    and run: "addEntity s f sd = Some (s', cs)"
  shows "broken (deliver cs store ! a)"
proof -
  have calls: "calls_for f cs = map (\<lambda>a. (a, f, sd)) (fns s f)"
    using addEntity_total [OF s(1), of f sd] s sd run by auto
  have "0 < count (mset (expectFrames (store ! a))) f" using w(5) by simp
  then have "0 < count (mset (fns s f)) a" using w(1-4) unfolding chain_waits_def by (meson less_le_trans)
  then have "a \<in> set (fns s f)" by (simp add: count_greater_zero_iff)
  then have "(a, f, sd) \<in> set (calls_for f cs)" unfolding calls by simp
  then have mem: "(a, f, sd) \<in> set cs" by (simp add: calls_for_def)
  have "d = sd" if "(b, f, d) \<in> set cs" for b d
  proof -
    have "(b, f, d) \<in> set (calls_for f cs)" using that by (simp add: calls_for_def)
    then show ?thesis unfolding calls by auto
  qed
  then show ?thesis using deliver_breaks [OF w(2,5) mem] sd(1) by blast
qed
section \<open>Properties\<close>

lemma ucast_plus_u16: "(ucast (x + y :: u64) :: u16) = ucast x + ucast y"
  by (simp add: word_eq_iff_unsigned [where ?'a = nat] unsigned_ucast_eq take_bit_eq_mod unat_word_ariths mod_mod_cancel mod_add_eq)

text \<open>Frame numbers are never seen to go back. When a new frame carries a structure, the 16 bits of its output number
  are not behind those of the last frame for a receiver that compares by half the range, however far the source
  jumped; numbers stay increasing in 64 bits, and a late frame keeps its distance to the newest one.\<close>

theorem FrameNumbers_never_go_back:
  assumes "fw_inited f" "unat new + unat (fw_offset f) + 41535 < 2 ^ 64"
  shows "case fw_UpdateAndGet new True f of (f', out) \<Rightarrow>
    let newest = fw_last f + fw_offset f; diff = ucast out - ucast newest :: u16
    in if fw_last f < new
       then fw_last f' = new \<and> newest < out \<and> (diff < 0x8000 \<or> (diff = 0x8000 \<and> ucast newest < (ucast out :: u16)))
       else f' = f \<and> newest - out = fw_last f - new"
proof (cases "fw_last f < new")
  case False
  then show ?thesis using assms(1) by (auto simp: fw_UpdateAndGet_def Let_def not_less)
next
  case True
  let ?n = "new + fw_offset f" and ?l = "fw_last f + fw_offset f"
  let ?d = "ucast ?n - ucast ?l :: u16"
  let ?inc = "ucast (65535 - ?d + 6000) :: u64"
  have u: "unat ?n = unat new + unat (fw_offset f)" "unat ?l = unat (fw_last f) + unat (fw_offset f)"
    using assms(2) True by (simp_all add: unat_word_ariths word_less_nat_alt)
  have lt: "?l < ?n" using u True by (simp add: word_less_nat_alt)
  have nle: "\<not> new \<le> fw_last f" using True by simp
  show ?thesis
  proof (cases "?d > 0x8000 \<or> (?d = 0x8000 \<and> (ucast ?n :: u16) < ucast ?l)")
    case jump: True
    have d: "0x8000 \<le> unat ?d" using jump by (auto simp: word_less_nat_alt)
    have "unat (65535 - x + 6000) = 71535 - unat x" if "0x8000 \<le> unat x" for x :: u16
    proof -
      have "unat (65535 - x) = 65535 - unat x"
        using unsigned_less [of x, where ?'a = nat] by (simp only: unat_minus_wrap word_le_nat_alt) simp
      then have "unat ((65535 - x) + 6000) = (65535 - unat x) + 6000"
        using that unsigned_less [of x, where ?'a = nat] by (subst unat_plus_if') simp
      then show ?thesis using that unsigned_less [of x, where ?'a = nat] by simp
    qed
    from this [OF d] have e: "unat (65535 - ?d + 6000) = 71535 - unat ?d" .
    have up: "unat (ucast x :: u64) = unat x" for x :: u16
      using unsigned_less [of x, where ?'a = nat] by (simp add: unsigned_ucast_eq take_bit_eq_mod)
    have inc: "unat ?inc = 71535 - unat ?d" unfolding up by (rule e)
    have "unat (?n + ?inc) = unat ?n + unat ?inc" using assms(2) u(1) inc d by (simp add: unat_word_ariths)
    then have "?l < ?n + ?inc" using lt by (simp add: word_less_nat_alt)
    moreover have "ucast (?n + ?inc) - ucast ?l = (5999 :: u16)"
    proof -
      have "ucast (x + ucast z) = (ucast x + z :: u16)" for x :: u64 and z :: u16
        unfolding ucast_plus_u16 add_left_cancel by (rule bit_word_eqI) (simp add: bit_simps)
      then have "ucast (?n + ?inc) = (ucast ?n + (65535 - ?d + 6000) :: u16)" .
      then show ?thesis by simp
    qed
    moreover have "fw_UpdateAndGet new True f = (f\<lparr>fw_offset := fw_offset f + ?inc, fw_last := new\<rparr>, ?n + ?inc)"
      using nle assms(1) jump by (simp add: fw_UpdateAndGet_def Let_def add.assoc)
    ultimately show ?thesis using True by (simp add: Let_def)
  next
    case near: False
    have "fw_UpdateAndGet new True f = (f\<lparr>fw_last := new\<rparr>, ?n)"
      using nle assms(1) near by (simp add: fw_UpdateAndGet_def Let_def)
    moreover have "?d < 0x8000 \<or> (?d = 0x8000 \<and> ucast ?l < (ucast ?n :: u16))"
    proof -
      have "(ucast ?n :: u16) \<noteq> ucast ?l" if "?d = 0x8000" using that by auto
      then show ?thesis using near by (metis linorder_neqE not_less_iff_gr_or_eq)
    qed
    ultimately show ?thesis using True lt by (simp add: Let_def)
  qed
qed

theorem FrameNumbers_never_go_back_witness:
  "fw_UpdateAndGet 50100 True \<lparr>fw_offset = 0, fw_last = 100, fw_inited = True\<rparr> =
     (\<lparr>fw_offset = 21535, fw_last = 50100, fw_inited = True\<rparr>, 71635) \<and>
   (ucast (71635 :: u64) - ucast (100 :: u64) :: u16) < 0x8000"
proof -
  let ?f = "\<lparr>fw_offset = 0, fw_last = 100, fw_inited = True\<rparr>"
  have run: "fw_UpdateAndGet 50100 True ?f = (\<lparr>fw_offset = 21535, fw_last = 50100, fw_inited = True\<rparr>, 71635)"
    by (simp add: fw_UpdateAndGet_def)
  have "case fw_UpdateAndGet 50100 True ?f of (f', out) \<Rightarrow>
    let newest = fw_last ?f + fw_offset ?f; diff = ucast out - ucast newest :: u16
    in if fw_last ?f < 50100
       then fw_last f' = 50100 \<and> newest < out \<and> (diff < 0x8000 \<or> (diff = 0x8000 \<and> ucast newest < (ucast out :: u16)))
       else f' = ?f \<and> newest - out = fw_last ?f - 50100"
    by (rule FrameNumbers_never_go_back) simp_all
  then show ?thesis unfolding run by (simp add: Let_def)
qed

text \<open>C29. A chain does not outlive a frame it waits for. When an intact chain awaits a frame above the first one, and
  the frame is decided to be dropped or missing, then delivering the calls of the decision cache breaks the chain;
  every chain that stays intact is still registered for whatever else it awaits.\<close>

theorem awaited_frame_dropped_breaks_chain:
  assumes "cache_ok s" "sc_initialized s" "sc_base s < f" "unat (sc_base s) + unat (sc_numNackEntries s) < 2 ^ 64"
    and "chain_waits live (fns s) store" "a < length store" "a \<in> live" "\<not> broken (store ! a)" "f \<in> set (expectFrames (store ! a))"
    and "sd \<noteq> selectorDecisionForwarded" "sd \<noteq> selectorDecisionUnknown"
  shows "\<exists>s' cs. addEntity s f sd = Some (s', cs) \<and> broken (deliver cs store ! a) \<and> chain_waits live (fns s') (deliver cs store)"
proof -
  obtain s' cs where "addEntity s f sd = Some (s', cs)" "settles s cs s'" using addEntity_total [OF assms(1)] by blast
  then show ?thesis
    using awaited_settled [OF assms] chain_waits_deliver [OF assms(5) settles_registrations] by blast
qed

theorem awaited_frame_dropped_breaks_chain_witness:
  "let s = (NewSelectorDecisionCache 256 80)\<lparr>sc_initialized := True, sc_base := 10, sc_last := 11, onExpectEntityChanged := [(12, [0])]\<rparr>;
       c = (NewFrameChain 0)\<lparr>broken := False, fch_active := True, expectFrames := [12]\<rparr>
   in \<exists>s' cs. addEntity s 12 selectorDecisionDropped = Some (s', cs) \<and> broken (deliver cs [c] ! 0)"
proof -
  let ?s = "(NewSelectorDecisionCache 256 80)\<lparr>sc_initialized := True, sc_base := 10, sc_last := 11, onExpectEntityChanged := [(12, [0])]\<rparr>"
  let ?c = "(NewFrameChain 0)\<lparr>broken := False, fch_active := True, expectFrames := [12]\<rparr>"
  have "\<exists>s' cs. addEntity ?s 12 selectorDecisionDropped = Some (s', cs) \<and> broken (deliver cs [?c] ! 0) \<and> chain_waits {0} (fns s') (deliver cs [?c])"
    by (rule awaited_frame_dropped_breaks_chain)
      (simp_all add: cache_ok_def sc_wf_def NewSelectorDecisionCache_def chain_waits_def fns_def NewFrameChain_def)
  then show ?thesis unfolding Let_def by blast
qed

end
