(* ===== verification/FrameIntegrity.thy ===== *)
theory FrameIntegrity
  imports Prelude DDReader
begin

text \<open>
  Which packets have arrived and which frames are complete: \<open>PacketHistory\<close>, \<open>FrameEntity\<close> and
  \<open>FrameIntegrityChecker\<close> of \<open>pkg/sfu/buffer/frameintegrity.go\<close>.

  The history is a ring of bits in 64 bit words, one bit per sequence number counted from a base. The
  operations return \<^term>\<open>None\<close> where the code panics: an index out of range, a remainder by zero, a negative
  shift. \<open>pktHistory\<close>, shared by all frames, is an argument of their operations. The word loop of
  \<open>PacketsConsecutive\<close> is a partial function, so that it ends is part of what is proved.

  Lemmas: on the numbers in its window the history answers as the set of packets added does, so a query
  says exactly whether a run of packets is complete; adding a packet never panics; over any stream of packets of
  any frames, a frame within the window of the checker is reported whole exactly when its packets have arrived, however
  often its slot of the ring has been used before.
\<close>

section \<open>Model\<close>

record PacketHistory =
  ph_base :: u64
  ph_last :: u64
  ph_bits :: "u64 list"
  packetCount :: nat
  ph_inited :: bool

definition NewPacketHistory :: "nat \<Rightarrow> PacketHistory" where
  "NewPacketHistory n =
     (let n = (n + 63) div 64 * 64 in
      \<lparr>ph_base = 0, ph_last = 0, ph_bits = replicate (n div 64) 0, packetCount = n, ph_inited = False\<rparr>)"

definition ph_getPos :: "PacketHistory \<Rightarrow> u64 \<Rightarrow> (nat \<times> nat) option" where
  "ph_getPos ph sq =
     (if packetCount ph = 0 then None
      else let idx = (sq - ph_base ph) mod of_nat (packetCount ph) in
           Some (unat (drop_bit 6 idx), unat (idx mod 64)))"

definition ph_set :: "PacketHistory \<Rightarrow> u64 \<Rightarrow> bool \<Rightarrow> PacketHistory option" where
  "ph_set ph sq received =
     do {
       (idx, offset) \<leftarrow> ph_getPos ph sq;
       if idx < length (ph_bits ph)
       then Some (ph\<lparr>ph_bits := (ph_bits ph)[idx :=
              if received then ph_bits ph ! idx OR push_bit offset 1
              else ph_bits ph ! idx AND NOT (push_bit offset 1)]\<rparr>)
       else None
     }"

text \<open>The loop over the numbers skipped by a forward jump.\<close>

fun clearLoop :: "nat list \<Rightarrow> PacketHistory \<Rightarrow> PacketHistory option" where
  "clearLoop [] ph = Some ph"
| "clearLoop (i # is) ph = do { ph \<leftarrow> ph_set ph (of_nat i) False; clearLoop is ph }"

definition ph_AddPacket :: "PacketHistory \<Rightarrow> u64 \<Rightarrow> PacketHistory option" where
  "ph_AddPacket ph extSeq =
     (if \<not> ph_inited ph
      then ph_set (ph\<lparr>ph_inited := True, ph_base := (if extSeq > 100 then extSeq - 100 else 0),
                     ph_last := extSeq\<rparr>) extSeq True
      else if extSeq \<le> ph_base ph then Some ph
      else if extSeq \<le> ph_last ph
      then if ph_last ph - extSeq < of_nat (packetCount ph) then ph_set ph extSeq True else Some ph
      else
        let start = ph_last ph + 1;
            start = (if extSeq - start > of_nat (packetCount ph) then extSeq - of_nat (packetCount ph) else start)
        in do {
             ph \<leftarrow> clearLoop [unat start..<unat extSeq] ph;
             ph \<leftarrow> ph_set ph extSeq True;
             Some (ph\<lparr>ph_last := extSeq\<rparr>)
           })"

text \<open>The loop over the words between the first and the last one, around the end of the ring.\<close>

partial_function (option) wordsFull :: "u64 list \<Rightarrow> nat \<Rightarrow> nat \<Rightarrow> bool option" where
  "wordsFull bits endIndex i =
     (if i = endIndex then Some True
      else let i = (if i = length bits then 0 else i) in
           if i = endIndex then Some True
           else if i \<ge> length bits then None
           else if bits ! i + 1 \<noteq> 0 then Some False
           else wordsFull bits endIndex (i + 1))"

definition PacketsConsecutive :: "PacketHistory \<Rightarrow> u64 \<Rightarrow> u64 \<Rightarrow> bool option" where
  "PacketsConsecutive ph start finish =
     (if start > finish then Some False
      else if finish - start \<ge> of_nat (packetCount ph) then Some False
      else do {
        (startIndex, startOffset) \<leftarrow> ph_getPos ph start;
        (endIndex, endOffset) \<leftarrow> ph_getPos ph finish;
        if startIndex \<ge> length (ph_bits ph) \<or> endIndex \<ge> length (ph_bits ph) then None
        else if startIndex = endIndex \<and> finish - start \<le> 64
        then if endOffset + 1 < startOffset then None
             else let testBits = push_bit startOffset (push_bit (endOffset + 1 - startOffset) 1 - 1)
                  in Some (ph_bits ph ! startIndex AND testBits = testBits)
        else if drop_bit startOffset (ph_bits ph ! startIndex) + 1 \<noteq> push_bit (64 - startOffset) 1
        then Some False
        else do {
          full \<leftarrow> wordsFull (ph_bits ph) endIndex (startIndex + 1);
          if \<not> full then Some False
          else let testBits = push_bit (endOffset + 1) 1 - 1
               in Some (ph_bits ph ! endIndex AND testBits = testBits)
        }
      })"

record FrameEntity =
  startSeq :: u64
  endSeq :: u64
  hasStartSeq :: bool
  hasEndSeq :: bool
  integrity :: bool

definition fe_AddPacket :: "PacketHistory \<Rightarrow> u64 \<Rightarrow> DependencyDescriptor \<Rightarrow> FrameEntity \<Rightarrow> FrameEntity option" where
  "fe_AddPacket pktHistory extSeq ddVal fe =
     (if integrity fe then Some fe
      else
        let fe = (if \<not> hasStartSeq fe \<and> FirstPacketInFrame ddVal
                  then fe\<lparr>startSeq := extSeq, hasStartSeq := True\<rparr> else fe);
            fe = (if \<not> hasEndSeq fe \<and> LastPacketInFrame ddVal
                  then fe\<lparr>endSeq := extSeq, hasEndSeq := True\<rparr> else fe)
        in if hasStartSeq fe \<and> hasEndSeq fe
           then do {
             consecutive \<leftarrow> PacketsConsecutive pktHistory (startSeq fe) (endSeq fe);
             Some (if consecutive then fe\<lparr>integrity := True\<rparr> else fe)
           }
           else Some fe)"

definition fe_Reset :: "FrameEntity \<Rightarrow> FrameEntity" where
  "fe_Reset fe = fe\<lparr>integrity := False, hasStartSeq := False, hasEndSeq := False\<rparr>"

record FrameIntegrityChecker =
  frameCount :: nat
  frames :: "FrameEntity list"
  fc_base :: u64
  fc_last :: u64
  pktHistory :: PacketHistory
  fc_inited :: bool

definition NewFrameIntegrityChecker :: "nat \<Rightarrow> nat \<Rightarrow> FrameIntegrityChecker" where
  "NewFrameIntegrityChecker n m =
     \<lparr>frameCount = n,
      frames = replicate n (fe_Reset \<lparr>startSeq = 0, endSeq = 0, hasStartSeq = False, hasEndSeq = False, integrity = False\<rparr>),
      fc_base = 0, fc_last = 0, pktHistory = NewPacketHistory m, fc_inited = False\<rparr>"

text \<open>The index \<open>int(extFrameNum-fc.base)%fc.frameCount\<close>, negative when the difference does not fit \<open>int\<close>.\<close>

definition frameIndex :: "FrameIntegrityChecker \<Rightarrow> u64 \<Rightarrow> nat option" where
  "frameIndex fc extFrameNum =
     (if frameCount fc = 0 then None
      else let i = sint (extFrameNum - fc_base fc) smod int (frameCount fc) in
           if 0 \<le> i \<and> i < int (length (frames fc)) then Some (nat i) else None)"

definition addToFrame :: "u64 \<Rightarrow> u64 \<Rightarrow> DependencyDescriptor \<Rightarrow> FrameIntegrityChecker \<Rightarrow> FrameIntegrityChecker option" where
  "addToFrame extSeq extFrameNum ddVal fc =
     do {
       i \<leftarrow> frameIndex fc extFrameNum;
       fe \<leftarrow> fe_AddPacket (pktHistory fc) extSeq ddVal (frames fc ! i);
       Some (fc\<lparr>frames := (frames fc)[i := fe]\<rparr>)
     }"

fun resetFrames :: "nat list \<Rightarrow> FrameIntegrityChecker \<Rightarrow> FrameIntegrityChecker option" where
  "resetFrames [] fc = Some fc"
| "resetFrames (k # ks) fc =
     do {
       i \<leftarrow> frameIndex fc (of_nat k);
       resetFrames ks (fc\<lparr>frames := (frames fc)[i := fe_Reset (frames fc ! i)]\<rparr>)
     }"

text \<open>For the largest frame number the loop \<open>i <= extFrameNum\<close> would not end: \<^term>\<open>None\<close> too.\<close>

definition fc_AddPacket :: "u64 \<Rightarrow> u64 \<Rightarrow> DependencyDescriptor \<Rightarrow> FrameIntegrityChecker \<Rightarrow> FrameIntegrityChecker option" where
  "fc_AddPacket extSeq extFrameNum ddVal fc =
     do {
       ph \<leftarrow> ph_AddPacket (pktHistory fc) extSeq;
       let fc = fc\<lparr>pktHistory := ph\<rparr>;
           fc = (if \<not> fc_inited fc then fc\<lparr>fc_inited := True, fc_base := extFrameNum, fc_last := extFrameNum\<rparr> else fc)
       in
         if extFrameNum < fc_base fc then Some fc
         else if extFrameNum \<le> fc_last fc
         then if fc_last fc - extFrameNum \<ge> of_nat (frameCount fc) then Some fc
              else addToFrame extSeq extFrameNum ddVal fc
         else
           if extFrameNum = - 1 then None
           else
           let start = (if extFrameNum - fc_last fc > of_nat (frameCount fc)
                        then extFrameNum - of_nat (frameCount fc) + 1 else fc_last fc + 1)
           in do {
                fc \<leftarrow> resetFrames [unat start..<unat extFrameNum + 1] fc;
                fc \<leftarrow> addToFrame extSeq extFrameNum ddVal fc;
                Some (fc\<lparr>fc_last := extFrameNum\<rparr>)
              }
     }"

definition FrameIntegrity :: "FrameIntegrityChecker \<Rightarrow> u64 \<Rightarrow> bool option" where
  "FrameIntegrity fc extFrameNum =
     (if extFrameNum < fc_base fc \<or> extFrameNum > fc_last fc \<or>
         fc_last fc - extFrameNum \<ge> of_nat (frameCount fc)
      then Some False
      else do { i \<leftarrow> frameIndex fc extFrameNum; Some (integrity (frames fc ! i)) })"

section \<open>The ring of bits\<close>

definition ph_wf :: "PacketHistory \<Rightarrow> bool" where
  "ph_wf ph \<longleftrightarrow> packetCount ph = 64 * length (ph_bits ph) \<and> 0 < packetCount ph \<and> packetCount ph < 2 ^ 63"

definition ph_pos :: "PacketHistory \<Rightarrow> u64 \<Rightarrow> nat" where
  "ph_pos ph s = (unat s - unat (ph_base ph)) mod packetCount ph"

definition ring_bit :: "PacketHistory \<Rightarrow> nat \<Rightarrow> bool" where
  "ring_bit ph p = bit (ph_bits ph ! (p div 64)) (p mod 64)"

lemma ph_pos_less: "ph_wf ph \<Longrightarrow> ph_pos ph s < packetCount ph"
  unfolding ph_wf_def ph_pos_def by (elim conjE, rule mod_less_divisor)

lemma word_split: "unat (drop_bit 6 x) = unat x div 64" "unat (x mod 64) = unat x mod 64" for x :: u64
proof -
  have "drop_bit 6 x = x div 64" by (simp add: drop_bit_eq_div)
  then show "unat (drop_bit 6 x) = unat x div 64" by (simp add: unat_div)
  show "unat (x mod 64) = unat x mod 64" by (simp add: unat_mod)
qed

lemma ph_getPos_pos:
  assumes "ph_wf ph" "ph_base ph \<le> s"
  shows "ph_getPos ph s = Some (ph_pos ph s div 64, ph_pos ph s mod 64)" "ph_pos ph s div 64 < length (ph_bits ph)"
proof -
  have N: "0 < packetCount ph" "packetCount ph < 2 ^ 63" "packetCount ph = 64 * length (ph_bits ph)"
    using assms(1) by (auto simp: ph_wf_def)
  have u: "unat (of_nat (packetCount ph) :: u64) = packetCount ph" using N(2) by (intro unat_of_nat_u64) simp
  let ?i = "(s - ph_base ph) mod of_nat (packetCount ph)"
  have i: "unat ?i = ph_pos ph s"
    using assms(2) by (simp add: unat_mod u ph_pos_def unat_minus_wrap)
  have "unat (drop_bit 6 ?i) = ph_pos ph s div 64" "unat (?i mod 64) = ph_pos ph s mod 64"
    by (simp_all only: word_split i)
  then show "ph_getPos ph s = Some (ph_pos ph s div 64, ph_pos ph s mod 64)"
    using N(1) by (simp only: ph_getPos_def Let_def) simp
  show "ph_pos ph s div 64 < length (ph_bits ph)" using ph_pos_less [OF assms(1)] N(3) by (simp add: less_mult_imp_div_less mult.commute)
qed

lemma ring_bit_update:
  assumes "length (ph_bits ph) > p div 64"
  shows "ring_bit (ph\<lparr>ph_bits := (ph_bits ph)[p div 64 := if r then ph_bits ph ! (p div 64) OR push_bit (p mod 64) 1
      else ph_bits ph ! (p div 64) AND NOT (push_bit (p mod 64) 1)]\<rparr>) q =
    (if q = p then r else ring_bit ph q)"
proof (cases "q div 64 = p div 64")
  case True
  have "q mod 64 < 64" by simp
  moreover have "q = p \<longleftrightarrow> q mod 64 = p mod 64" using True by (metis div_mult_mod_eq)
  ultimately show ?thesis using True assms by (auto simp: ring_bit_def bit_simps)
next
  case False
  then show ?thesis by (auto simp: ring_bit_def)
qed

lemma ph_set_ring:
  assumes "ph_wf ph" "ph_base ph \<le> s"
  shows "\<exists>bs. ph_set ph s r = Some (ph\<lparr>ph_bits := bs\<rparr>) \<and> length bs = length (ph_bits ph) \<and>
    (\<forall>q. ring_bit (ph\<lparr>ph_bits := bs\<rparr>) q = (if q = ph_pos ph s then r else ring_bit ph q))"
  using ph_getPos_pos [OF assms] ring_bit_update [of "ph_pos ph s" ph r]
  by (intro exI [of _ "(ph_bits ph)[ph_pos ph s div 64 := if r then ph_bits ph ! (ph_pos ph s div 64) OR push_bit (ph_pos ph s mod 64) 1
      else ph_bits ph ! (ph_pos ph s div 64) AND NOT (push_bit (ph_pos ph s mod 64) 1)]"]) (simp add: ph_set_def)

lemma pos_distinct:
  assumes "ph_wf ph" "ph_base ph \<le> s" "s < t" "unat t - unat s < packetCount ph"
  shows "ph_pos ph s \<noteq> ph_pos ph t"
proof -
  have "a mod n \<noteq> b mod n" if "a < b" "b - a < n" for a b n :: nat
    using that by (metis add_diff_inverse_nat less_imp_le mod_eq_dvd_iff_nat nat_dvd_not_less not_less zero_less_diff)
  from this [of "unat s - unat (ph_base ph)" "unat t - unat (ph_base ph)" "packetCount ph"] assms show ?thesis
    by (auto simp: ph_pos_def word_order)
qed

lemma clearLoop_ring:
  assumes "ph_wf ph" "\<And>i. i \<in> set is \<Longrightarrow> unat (ph_base ph) \<le> i \<and> i < 2 ^ 64"
  shows "\<exists>bs. clearLoop is ph = Some (ph\<lparr>ph_bits := bs\<rparr>) \<and> length bs = length (ph_bits ph) \<and>
    (\<forall>q. ring_bit (ph\<lparr>ph_bits := bs\<rparr>) q = (ring_bit ph q \<and> q \<notin> (\<lambda>i. ph_pos ph (of_nat i)) ` set is))"
  using assms
proof (induction "is" arbitrary: ph)
  case Nil
  show ?case by (intro exI [of _ "ph_bits ph"]) simp
next
  case (Cons i "is")
  have i: "ph_base ph \<le> of_nat i" using Cons.prems(2) [of i] by (simp add: word_le_nat_alt unat_of_nat_u64)
  obtain bs where bs: "ph_set ph (of_nat i) False = Some (ph\<lparr>ph_bits := bs\<rparr>)" "length bs = length (ph_bits ph)"
    "\<forall>q. ring_bit (ph\<lparr>ph_bits := bs\<rparr>) q = (if q = ph_pos ph (of_nat i) then False else ring_bit ph q)"
    using ph_set_ring [OF Cons.prems(1) i, of False] by blast
  let ?ph = "ph\<lparr>ph_bits := bs\<rparr>"
  have wf: "ph_wf ?ph" using Cons.prems(1) bs(2) by (auto simp: ph_wf_def)
  have pos: "ph_pos ?ph = ph_pos ph" by (intro ext) (simp add: ph_pos_def)
  obtain bs' where "clearLoop is ?ph = Some (?ph\<lparr>ph_bits := bs'\<rparr>)" "length bs' = length (ph_bits ?ph)"
    "\<forall>q. ring_bit (?ph\<lparr>ph_bits := bs'\<rparr>) q = (ring_bit ?ph q \<and> q \<notin> (\<lambda>i. ph_pos ?ph (of_nat i)) ` set is)"
    using Cons.IH [OF wf] Cons.prems(2) by auto
  with bs pos show ?case by (intro exI [of _ bs']) auto
qed

section \<open>The history as a set of packets\<close>

text \<open>\<open>history ph A\<close>: the ring holds the set \<open>A\<close> of packets, as far as they lie in its window.\<close>

definition in_window :: "PacketHistory \<Rightarrow> u64 \<Rightarrow> bool" where
  "in_window ph s \<longleftrightarrow> ph_base ph < s \<and> s \<le> ph_last ph \<and> unat (ph_last ph) - unat s < packetCount ph"

definition history :: "PacketHistory \<Rightarrow> u64 set \<Rightarrow> bool" where
  "history ph A \<longleftrightarrow> ph_wf ph \<and> ph_inited ph \<and> ph_base ph \<le> ph_last ph \<and> (\<forall>s \<in> A. s \<le> ph_last ph) \<and>
     (\<forall>s. in_window ph s \<longrightarrow> ring_bit ph (ph_pos ph s) = (s \<in> A))"

lemma NewPacketHistory_wf: "0 < n \<Longrightarrow> n < 2 ^ 62 \<Longrightarrow> ph_wf (NewPacketHistory n) \<and> \<not> ph_inited (NewPacketHistory n) \<and>
    (\<forall>q < packetCount (NewPacketHistory n). \<not> ring_bit (NewPacketHistory n) q) \<and> n \<le> packetCount (NewPacketHistory n)"
proof -
  assume n: "0 < n" "n < 2 ^ 62"
  let ?N = "(n + 63) div 64 * 64"
  have "?N = n + 63 - (n + 63) mod 64" by (simp add: minus_mod_eq_div_mult)
  moreover have "(n + 63) mod 64 < 64" by simp
  ultimately have "n \<le> ?N" "?N < n + 64" by linarith+
  moreover have "\<not> bit (replicate (?N div 64) (0 :: u64) ! (q div 64)) (q mod 64)" if "q < ?N" for q
    using that by (simp add: less_mult_imp_div_less mult.commute)
  ultimately show ?thesis using n by (auto simp: NewPacketHistory_def Let_def ph_wf_def ring_bit_def)
qed

lemma history_set:
  assumes h: "history ph A" and s: "ph_base ph < s" "s \<le> ph_last ph" "unat (ph_last ph) - unat s < packetCount ph"
  shows "\<exists>bs. ph_set ph s True = Some (ph\<lparr>ph_bits := bs\<rparr>) \<and> length bs = length (ph_bits ph) \<and>
    history (ph\<lparr>ph_bits := bs\<rparr>) (insert s A)"
proof -
  have wf: "ph_wf ph" using h by (simp add: history_def)
  obtain bs where bs: "ph_set ph s True = Some (ph\<lparr>ph_bits := bs\<rparr>)" "length bs = length (ph_bits ph)"
    "\<forall>q. ring_bit (ph\<lparr>ph_bits := bs\<rparr>) q = (if q = ph_pos ph s then True else ring_bit ph q)"
    using ph_set_ring [OF wf less_imp_le [OF s(1)], of True] by (elim exE conjE) (rule that)
  have "ph_pos ph t \<noteq> ph_pos ph s" if t: "in_window ph t" "t \<noteq> s" for t
  proof (cases "t < s")
    case True
    have "unat s - unat t < packetCount ph" using t(1) s(2) by (auto simp: in_window_def word_le_nat_alt)
    then show ?thesis using pos_distinct [OF wf _ True] t by (metis in_window_def less_imp_le)
  next
    case False
    then have lt: "s < t" using t(2) by simp
    have "unat t - unat s < packetCount ph" using t(1) s(3) by (auto simp: in_window_def word_le_nat_alt)
    then show ?thesis using pos_distinct [OF wf _ lt] s(1) by (metis less_imp_le)
  qed
  moreover have "ph_pos (ph\<lparr>ph_bits := bs\<rparr>) = ph_pos ph" by (intro ext) (simp add: ph_pos_def)
  moreover have "in_window (ph\<lparr>ph_bits := bs\<rparr>) = in_window ph" by (intro ext) (simp add: in_window_def)
  ultimately have "history (ph\<lparr>ph_bits := bs\<rparr>) (insert s A)"
    using h bs s(2) by (auto simp: history_def ph_wf_def)
  with bs show ?thesis by blast
qed

text \<open>A jump forward clears the skipped numbers that are still in the window.\<close>

lemma history_jump:
  assumes h: "history ph A" and s: "ph_last ph < s"
    and start: "start = (if s - (ph_last ph + 1) > of_nat (packetCount ph) then s - of_nat (packetCount ph) else ph_last ph + 1)"
  shows "\<exists>bs. do { ph \<leftarrow> clearLoop [unat start..<unat s] ph; ph \<leftarrow> ph_set ph s True; Some (ph\<lparr>ph_last := s\<rparr>) } =
      Some (ph\<lparr>ph_bits := bs, ph_last := s\<rparr>) \<and> length bs = length (ph_bits ph) \<and> history (ph\<lparr>ph_bits := bs, ph_last := s\<rparr>) (insert s A)"
proof -
  let ?N = "packetCount ph"
  have wf: "ph_wf ph" and bl: "ph_base ph \<le> ph_last ph" and A: "\<And>t. t \<in> A \<Longrightarrow> t \<le> ph_last ph"
    and ring: "\<And>t. in_window ph t \<Longrightarrow> ring_bit ph (ph_pos ph t) = (t \<in> A)"
    using h by (auto simp: history_def)
  have N: "unat (of_nat ?N :: u64) = ?N" using wf by (intro unat_of_nat_u64) (simp add: ph_wf_def)
  have l1: "unat (ph_last ph + 1) = unat (ph_last ph) + 1" using s by (rule word_succ_no_wrap)
  have us: "unat (s - (ph_last ph + 1)) = unat s - (unat (ph_last ph) + 1)"
    using s l1 by (simp add: word_order)
  have start': "unat start = (if unat s - (unat (ph_last ph) + 1) > ?N then unat s - ?N else unat (ph_last ph) + 1)"
  proof (cases "s - (ph_last ph + 1) > of_nat ?N")
    case True
    then have big: "unat s - (unat (ph_last ph) + 1) > ?N" using us N by (simp add: word_less_nat_alt)
    then have "unat (s - of_nat ?N) = unat s - ?N" using N by (simp add: word_order)
    with True big start show ?thesis by simp
  next
    case False
    then have "\<not> unat s - (unat (ph_last ph) + 1) > ?N" using us N by (simp add: word_less_nat_alt)
    with False start l1 show ?thesis by simp
  qed
  have is_ok: "unat (ph_base ph) \<le> i \<and> i < 2 ^ 64" if "i \<in> set [unat start..<unat s]" for i
    using that start' bl unsigned_less [of s, where ?'a = nat] by (auto simp: word_le_nat_alt split: if_splits)
  obtain bs where bs: "clearLoop [unat start..<unat s] ph = Some (ph\<lparr>ph_bits := bs\<rparr>)" "length bs = length (ph_bits ph)"
    "\<forall>q. ring_bit (ph\<lparr>ph_bits := bs\<rparr>) q = (ring_bit ph q \<and> q \<notin> (\<lambda>i. ph_pos ph (of_nat i)) ` set [unat start..<unat s])"
    using clearLoop_ring [OF wf is_ok] by blast
  let ?ph1 = "ph\<lparr>ph_bits := bs\<rparr>"
  have wf1: "ph_wf ?ph1" using wf bs(2) by (auto simp: ph_wf_def)
  have pos1: "ph_pos ?ph1 = ph_pos ph" by (intro ext) (simp add: ph_pos_def)
  have "ph_base ?ph1 \<le> s" using bl s by simp
  from ph_set_ring [OF wf1 this, of True] pos1 obtain bs' where bs': "ph_set ?ph1 s True = Some (ph\<lparr>ph_bits := bs'\<rparr>)"
    "length bs' = length (ph_bits ph)" "\<forall>q. ring_bit (ph\<lparr>ph_bits := bs'\<rparr>) q = (if q = ph_pos ph s then True else ring_bit ?ph1 q)"
    using bs(2) by auto
  let ?ph = "ph\<lparr>ph_bits := bs', ph_last := s\<rparr>"
  have rb: "ring_bit ?ph q = ring_bit (ph\<lparr>ph_bits := bs'\<rparr>) q" for q by (simp add: ring_bit_def)
  have pos: "ph_pos ?ph t = ph_pos ph t" for t by (simp add: ph_pos_def)
  have "ring_bit ?ph1 (ph_pos ph t) = (t \<in> A) \<and> ph_pos ph t \<noteq> ph_pos ph s" if t: "in_window ?ph t" and ts: "t \<noteq> s" for t
  proof
    have lt: "t < s" "ph_base ph \<le> t" using t ts by (auto simp: in_window_def)
    show "ph_pos ph t \<noteq> ph_pos ph s" using pos_distinct [OF wf lt(2,1)] t by (simp add: in_window_def)
    show "ring_bit ?ph1 (ph_pos ph t) = (t \<in> A)"
    proof (cases "t \<le> ph_last ph")
      case True
      have "ph_pos ph t \<noteq> ph_pos ph (of_nat i)" if "i \<in> set [unat start..<unat s]" for i
      proof (rule pos_distinct [OF wf])
        have i: "unat (of_nat i :: u64) = i" using is_ok [OF that] by (intro unat_of_nat_u64) simp
        show "ph_base ph \<le> t" "t < of_nat i" "unat (of_nat i :: u64) - unat t < ?N"
          using t True that start' i by (auto simp: in_window_def word_order split: if_splits)
      qed
      then have "ph_pos ph t \<notin> (\<lambda>i. ph_pos ph (of_nat i)) ` set [unat start..<unat s]" by blast
      moreover have "in_window ph t" using t True s by (auto simp: in_window_def word_order)
      ultimately show ?thesis using bs(3) ring by blast
    next
      case False
      then have "unat t \<in> set [unat start..<unat s]"
        using t start' lt by (auto simp: in_window_def word_order split: if_splits)
      then have "ph_pos ph t \<in> (\<lambda>i. ph_pos ph (of_nat i)) ` set [unat start..<unat s]" by (rule rev_image_eqI) simp
      moreover have "t \<notin> A" using A False by blast
      ultimately show ?thesis using bs(3) by blast
    qed
  qed
  then have "ring_bit ?ph (ph_pos ?ph t) = (t \<in> insert s A)" if "in_window ?ph t" for t
    using that bs'(3) unfolding rb pos by (cases "t = s") auto
  moreover have "t \<le> s" if "t \<in> insert s A" for t using that A [of t] s by auto
  moreover have "ph_base ph \<le> s" using bl s by simp
  ultimately have "history ?ph (insert s A)" using wf bs'(2) h by (auto simp: history_def ph_wf_def)
  then show ?thesis using bs(1) bs'(1,2) by (intro exI [of _ bs']) simp
qed

lemma ph_AddPacket_history:
  assumes h: "history ph A"
  shows "\<exists>ph'. ph_AddPacket ph s = Some ph' \<and> history ph' (insert s A) \<and> packetCount ph' = packetCount ph \<and>
    ph_base ph' = ph_base ph \<and> ph_last ph' = max (ph_last ph) s"
proof -
  have wf: "ph_wf ph" and inited: "ph_inited ph" and bl: "ph_base ph \<le> ph_last ph" using h by (auto simp: history_def)
  have N: "unat (of_nat (packetCount ph) :: u64) = packetCount ph"
    using wf by (intro unat_of_nat_u64) (simp add: ph_wf_def)
  have outside: "history ph (insert s A)" if "\<not> in_window ph s" "s \<le> ph_last ph"
    using h that by (auto simp: history_def)
  consider "s \<le> ph_base ph" | "ph_base ph < s" "s \<le> ph_last ph" "ph_last ph - s < of_nat (packetCount ph)"
    | "ph_base ph < s" "s \<le> ph_last ph" "\<not> ph_last ph - s < of_nat (packetCount ph)" | "ph_last ph < s" by fastforce
  then show ?thesis
  proof cases
    case 1
    have le: "s \<le> ph_last ph" using 1 bl by simp
    have "\<not> in_window ph s" using 1 by (auto simp: in_window_def)
    from outside [OF this le] le 1 inited show ?thesis by (simp add: ph_AddPacket_def max_def)
  next
    case 2
    then have "unat (ph_last ph) - unat s < packetCount ph" using N by (simp add: word_less_nat_alt unat_minus_wrap)
    from history_set [OF h 2(1,2) this] 2 inited show ?thesis by (auto simp: ph_AddPacket_def max_def)
  next
    case 3
    then have "\<not> in_window ph s" using N by (simp add: in_window_def word_less_nat_alt unat_minus_wrap)
    from outside [OF this 3(2)] 3 inited show ?thesis by (auto simp: ph_AddPacket_def max_def)
  next
    case 4
    then have "\<not> s \<le> ph_base ph" "\<not> s \<le> ph_last ph" "max (ph_last ph) s = s" using bl by (auto simp: max_def)
    with history_jump [OF h 4 refl] inited show ?thesis by (auto simp: ph_AddPacket_def Let_def)
  qed
qed

lemma ph_AddPacket_first:
  assumes wf: "ph_wf ph" "\<not> ph_inited ph" "\<And>q. q < packetCount ph \<Longrightarrow> \<not> ring_bit ph q"
  shows "\<exists>ph'. ph_AddPacket ph s = Some ph' \<and> history ph' {s} \<and> packetCount ph' = packetCount ph \<and>
    ph_base ph' \<le> s \<and> ph_last ph' = s \<and> unat s - 100 = unat (ph_base ph')"
proof -
  let ?b = "if s > 100 then s - 100 else 0"
  let ?ph = "ph\<lparr>ph_inited := True, ph_base := ?b, ph_last := s\<rparr>"
  have b: "unat ?b = unat s - 100" by (auto simp: word_less_nat_alt unat_minus_wrap word_le_nat_alt)
  then have bs: "?b \<le> s" by (simp add: word_le_nat_alt)
  have wf': "ph_wf ?ph" using wf(1) by (auto simp: ph_wf_def)
  obtain bs where set: "ph_set ?ph s True = Some (?ph\<lparr>ph_bits := bs\<rparr>)" "length bs = length (ph_bits ph)"
    "\<forall>q. ring_bit (?ph\<lparr>ph_bits := bs\<rparr>) q = (if q = ph_pos ?ph s then True else ring_bit ?ph q)"
    using ph_set_ring [OF wf', of s True] bs by auto
  let ?ph' = "?ph\<lparr>ph_bits := bs\<rparr>"
  have none: "\<not> ring_bit ?ph (ph_pos ?ph t)" for t
    using wf(3) [of "ph_pos ?ph t"] ph_pos_less [OF wf', of t] by (simp add: ring_bit_def)
  have pos: "ph_pos ?ph' t = ph_pos ?ph t" for t by (simp add: ph_pos_def)
  have "ring_bit ?ph' (ph_pos ?ph' t) = (t = s)" if t: "in_window ?ph' t" for t
  proof (cases "t = s")
    case False
    then have lt: "t < s" "ph_base ?ph \<le> t" using t by (auto simp: in_window_def)
    have "ph_pos ?ph t \<noteq> ph_pos ?ph s" using t by (intro pos_distinct [OF wf' lt(2,1)]) (simp add: in_window_def)
    with False none set(3) show ?thesis unfolding pos by auto
  qed (use set(3) pos in auto)
  then have "history ?ph' {s}" using wf(1) set(2) bs by (auto simp: history_def ph_wf_def)
  with set(1) b bs wf(2) show ?thesis by (auto simp: ph_AddPacket_def)
qed

section \<open>Runs of packets\<close>

lemma all_ones: "w = - 1 \<longleftrightarrow> (\<forall>j < 64. bit w j)" for w :: u64
  by (auto simp: bit_eq_iff bit_simps)

lemma word_full: "w + 1 \<noteq> 0 \<longleftrightarrow> w \<noteq> - 1" for w :: u64
  by (simp add: add_eq_0_iff2)

lemma test_first:
  fixes w :: u64
  assumes "o1 < 64"
  shows "drop_bit o1 w + 1 = push_bit (64 - o1) 1 \<longleftrightarrow> (\<forall>j. o1 \<le> j \<and> j < 64 \<longrightarrow> bit w j)"
proof -
  have "drop_bit o1 w + 1 = push_bit (64 - o1) 1 \<longleftrightarrow> drop_bit o1 w = mask (64 - o1)"
    by (auto simp: mask_eq_exp_minus_1 algebra_simps)
  also have "\<dots> \<longleftrightarrow> (\<forall>n < 64. bit w (o1 + n) = (n < 64 - o1))"
    by (auto simp: bit_eq_iff bit_simps)
  also have "\<dots> \<longleftrightarrow> (\<forall>j. o1 \<le> j \<and> j < 64 \<longrightarrow> bit w j)"
  proof safe
    fix j assume "\<forall>n < 64. bit w (o1 + n) = (n < 64 - o1)" "o1 \<le> j" "j < 64"
    then show "bit w j" by (elim allE [of _ "j - o1"]) auto
  next
    fix n assume "\<forall>j. o1 \<le> j \<and> j < 64 \<longrightarrow> bit w j" "n < 64 - o1"
    then show "bit w (o1 + n)" by auto
  next
    fix n assume "bit w (o1 + n)"
    then have "o1 + n < 64" using bit_imp_le_length [of w "o1 + n"] by simp
    then show "n < 64 - o1" by simp
  qed
  finally show ?thesis .
qed

lemma test_range:
  fixes w :: u64
  assumes "a + n \<le> 64"
  shows "w AND push_bit a (push_bit n 1 - 1) = push_bit a (push_bit n 1 - 1) \<longleftrightarrow> (\<forall>j. a \<le> j \<and> j < a + n \<longrightarrow> bit w j)"
proof -
  have m: "push_bit n 1 - 1 = (mask n :: u64)" by (simp add: mask_eq_exp_minus_1)
  have "w AND push_bit a (mask n) = push_bit a (mask n) \<longleftrightarrow> (\<forall>j < 64. a \<le> j \<and> j - a < n \<longrightarrow> bit w j)"
    by (auto simp: bit_eq_iff bit_simps)
  also have "\<dots> \<longleftrightarrow> (\<forall>j. a \<le> j \<and> j < a + n \<longrightarrow> bit w j)" using assms by auto
  finally show ?thesis unfolding m .
qed

lemma wordsFull_up:
  assumes "e \<le> length bits"
  shows "i \<le> e \<Longrightarrow> wordsFull bits e i = Some (\<forall>j \<in> {i..<e}. bits ! j = - 1)"
proof (induction "e - i" arbitrary: i)
  case 0
  then show ?case by (subst wordsFull.simps) simp
next
  case (Suc n)
  then have "i < e" "n = e - (i + 1)" by auto
  then have "wordsFull bits e (i + 1) = Some (\<forall>j \<in> {i + 1..<e}. bits ! j = - 1)" by (intro Suc.hyps) auto
  moreover have "{i..<e} = insert i {i + 1..<e}" using \<open>i < e\<close> by auto
  ultimately show ?case using \<open>i < e\<close> assms by (subst wordsFull.simps) (auto simp: word_full)
qed

lemma wordsFull_around:
  assumes e: "e < length bits"
  shows "e < i \<Longrightarrow> i \<le> length bits \<Longrightarrow>
    wordsFull bits e i = Some ((\<forall>j \<in> {i..<length bits}. bits ! j = - 1) \<and> (\<forall>j \<in> {0..<e}. bits ! j = - 1))"
proof (induction "length bits - i" arbitrary: i)
  case 0
  then have i: "i = length bits" by simp
  show ?case
  proof (cases "e = 0")
    case True
    then show ?thesis using i e by (subst wordsFull.simps) auto
  next
    case False
    then have "{0..<e} = insert 0 {1..<e}" by auto
    then show ?thesis using i e False wordsFull_up [of e bits 1] by (subst wordsFull.simps) (auto simp: word_full)
  qed
next
  case (Suc n)
  then have "i < length bits" "n = length bits - (i + 1)" by auto
  then have "wordsFull bits e (i + 1) = Some ((\<forall>j \<in> {i + 1..<length bits}. bits ! j = - 1) \<and> (\<forall>j \<in> {0..<e}. bits ! j = - 1))"
    using Suc.prems by (intro Suc.hyps) auto
  moreover have "{i..<length bits} = insert i {i + 1..<length bits}" using \<open>i < length bits\<close> by auto
  ultimately show ?case using \<open>i < length bits\<close> Suc.prems by (subst wordsFull.simps) (auto simp: word_full)
qed

lemma ring_words:
  "(\<forall>x \<in> {i..<j}. ph_bits ph ! x = - 1) \<longleftrightarrow> (\<forall>p. 64 * i \<le> p \<and> p < 64 * j \<longrightarrow> ring_bit ph p)"
proof safe
  fix p assume "\<forall>x \<in> {i..<j}. ph_bits ph ! x = - 1" "64 * i \<le> p" "p < 64 * j"
  moreover have "i \<le> p div 64" "p div 64 < j" using calculation by auto
  ultimately show "ring_bit ph p" by (auto simp: ring_bit_def all_ones)
next
  fix x assume all: "\<forall>p. 64 * i \<le> p \<and> p < 64 * j \<longrightarrow> ring_bit ph p" and x: "x \<in> {i..<j}"
  have "bit (ph_bits ph ! x) k" if "k < 64" for k
  proof -
    have "64 * i \<le> 64 * x + k \<and> 64 * x + k < 64 * j" using x that by auto
    then have "ring_bit ph (64 * x + k)" using all by blast
    then show ?thesis using that by (simp add: ring_bit_def)
  qed
  then show "ph_bits ph ! x = - 1" by (simp add: all_ones)
qed

lemma ring_in_word:
  "(\<forall>j. lo \<le> j \<and> j < hi \<longrightarrow> bit (ph_bits ph ! i) j) \<longleftrightarrow> (\<forall>p. 64 * i + lo \<le> p \<and> p < 64 * i + hi \<longrightarrow> ring_bit ph p)"
  if "hi \<le> 64"
proof safe
  fix p assume "\<forall>j. lo \<le> j \<and> j < hi \<longrightarrow> bit (ph_bits ph ! i) j" "64 * i + lo \<le> p" "p < 64 * i + hi"
  moreover have "p div 64 = i" using calculation that by (intro div_nat_eqI) auto
  moreover have "p mod 64 = p - 64 * i" using calculation by (simp add: modulo_nat_def)
  moreover have "lo \<le> p - 64 * i \<and> p - 64 * i < hi" using calculation by auto
  ultimately show "ring_bit ph p" by (simp add: ring_bit_def)
next
  fix j assume "\<forall>p. 64 * i + lo \<le> p \<and> p < 64 * i + hi \<longrightarrow> ring_bit ph p" "lo \<le> j" "j < hi"
  then have "ring_bit ph (64 * i + j)" by auto
  then show "bit (ph_bits ph ! i) j" using \<open>j < hi\<close> that by (simp add: ring_bit_def)
qed

lemma run_positions:
  fixes P :: "nat \<Rightarrow> bool"
  assumes "a < n" "d < n"
  shows "(\<forall>k \<le> d. P ((a + k) mod n)) \<longleftrightarrow>
    (if a + d < n then \<forall>p. a \<le> p \<and> p < a + d + 1 \<longrightarrow> P p
     else (\<forall>p. a \<le> p \<and> p < n \<longrightarrow> P p) \<and> (\<forall>p. p < a + d - n + 1 \<longrightarrow> P p))"
proof (cases "a + d < n")
  case True
  have "(\<forall>k \<le> d. P ((a + k) mod n)) \<longleftrightarrow> (\<forall>k \<le> d. P (a + k))" using True by auto
  also have "\<dots> \<longleftrightarrow> (\<forall>p. a \<le> p \<and> p < a + d + 1 \<longrightarrow> P p)"
    by (metis add_diff_inverse_nat add_le_cancel_left diff_le_mono diff_add_inverse le_add1 less_Suc_eq_le not_less Suc_eq_plus1)
  finally show ?thesis using True by simp
next
  case False
  have A: "P p" if "\<forall>k \<le> d. P ((a + k) mod n)" "a \<le> p" "p < n" for p
    using that(1) [rule_format, of "p - a"] that(2,3) False by auto
  have B: "P p" if "\<forall>k \<le> d. P ((a + k) mod n)" "p < a + d - n + 1" for p
  proof -
    have "(a + (n - a + p)) mod n = p" using assms that(2) by simp
    moreover have "n - a + p \<le> d" using assms that(2) False by simp
    ultimately show ?thesis using that(1) by metis
  qed
  have C: "P ((a + k) mod n)" if "\<forall>p. a \<le> p \<and> p < n \<longrightarrow> P p" "\<forall>p. p < a + d - n + 1 \<longrightarrow> P p" "k \<le> d" for k
  proof (cases "a + k < n")
    case True
    then show ?thesis using that(1) by simp
  next
    case wrap: False
    then have "(a + k) mod n = a + k - n" using assms that(3) by (simp add: mod_if)
    then show ?thesis using that(2,3) wrap by simp
  qed
  have "(\<forall>k \<le> d. P ((a + k) mod n)) \<longleftrightarrow> (\<forall>p. a \<le> p \<and> p < n \<longrightarrow> P p) \<and> (\<forall>p. p < a + d - n + 1 \<longrightarrow> P p)"
  proof
    assume h: "\<forall>k \<le> d. P ((a + k) mod n)"
    show "(\<forall>p. a \<le> p \<and> p < n \<longrightarrow> P p) \<and> (\<forall>p. p < a + d - n + 1 \<longrightarrow> P p)"
      by (intro conjI allI impI) (rule A [OF h conjunct1 conjunct2], assumption+, rule B [OF h])
  next
    assume h: "(\<forall>p. a \<le> p \<and> p < n \<longrightarrow> P p) \<and> (\<forall>p. p < a + d - n + 1 \<longrightarrow> P p)"
    show "\<forall>k \<le> d. P ((a + k) mod n)" by (intro allI impI) (rule C [OF conjunct1 [OF h] conjunct2 [OF h]])
  qed
  then show ?thesis unfolding if_not_P [OF False] .
qed

lemma split2: "a \<le> b \<Longrightarrow> b \<le> c \<Longrightarrow> (\<forall>p. a \<le> p \<and> p < c \<longrightarrow> P p) \<longleftrightarrow>
    (\<forall>p. a \<le> p \<and> p < b \<longrightarrow> P p) \<and> (\<forall>p. b \<le> p \<and> p < c \<longrightarrow> P p)" for a b c :: nat
  by (meson not_less order.trans order_less_le_trans)

lemma split3: "a \<le> b \<Longrightarrow> b \<le> c \<Longrightarrow> c \<le> d \<Longrightarrow> (\<forall>p. a \<le> p \<and> p < d \<longrightarrow> P p) \<longleftrightarrow>
    (\<forall>p. a \<le> p \<and> p < b \<longrightarrow> P p) \<and> (\<forall>p. b \<le> p \<and> p < c \<longrightarrow> P p) \<and> (\<forall>p. c \<le> p \<and> p < d \<longrightarrow> P p)" for a b c d :: nat
  using split2 [of a b d P] split2 [of b c d P] by simp

lemma PacketsConsecutive_ring:
  assumes wf: "ph_wf ph" "64 < packetCount ph" and s: "ph_base ph \<le> start" "start \<le> finish"
    and d: "unat finish - unat start < packetCount ph"
  shows "PacketsConsecutive ph start finish =
    Some (\<forall>k \<le> unat finish - unat start. ring_bit ph ((ph_pos ph start + k) mod packetCount ph))"
proof -
  let ?n = "packetCount ph" and ?a = "ph_pos ph start" and ?e = "ph_pos ph finish" and ?d = "unat finish - unat start"
  let ?si = "?a div 64" and ?so = "?a mod 64" and ?ei = "?e div 64" and ?eo = "?e mod 64"
  have n: "?n = 64 * length (ph_bits ph)" using wf(1) by (simp add: ph_wf_def)
  have n64: "unat (of_nat ?n :: u64) = ?n" using wf(1) by (intro unat_of_nat_u64) (simp add: ph_wf_def)
  note gp = ph_getPos_pos [OF wf(1) s(1)] ph_getPos_pos [OF wf(1) order_trans [OF s]]
  have an: "?a < ?n" "?e < ?n" using ph_pos_less [OF wf(1)] by auto
  have fs: "unat (finish - start) = ?d" using s(2) by (simp add: unat_minus_wrap)
  have e: "?e = (?a + ?d) mod ?n"
  proof -
    have "unat finish - unat (ph_base ph) = (unat start - unat (ph_base ph)) + ?d" using s by (simp add: word_le_nat_alt)
    then show ?thesis by (simp add: ph_pos_def mod_simps)
  qed
  have pos: "64 * ?si + ?so = ?a" "64 * ?ei + ?eo = ?e" "?so < 64" "?eo < 64" by auto
  have d64: "finish - start \<le> 64 \<longleftrightarrow> ?d \<le> 64" by (simp add: word_le_nat_alt fs)
  have dn: "\<not> finish - start \<ge> of_nat ?n" using d by (simp add: word_le_nat_alt fs n64)
  note run = run_positions [OF an(1) d, of "ring_bit ph"]
  have first: "drop_bit ?so (ph_bits ph ! ?si) + 1 = push_bit (64 - ?so) 1 \<longleftrightarrow>
      (\<forall>p. ?a \<le> p \<and> p < 64 * (?si + 1) \<longrightarrow> ring_bit ph p)"
    using test_first [OF pos(3), of "ph_bits ph ! ?si"] ring_in_word [of 64 ?so ph ?si] pos(1) by (simp add: add.commute)
  have final: "ph_bits ph ! ?ei AND (push_bit (?eo + 1) 1 - 1) = push_bit (?eo + 1) 1 - 1 \<longleftrightarrow>
      (\<forall>p. 64 * ?ei \<le> p \<and> p < ?e + 1 \<longrightarrow> ring_bit ph p)"
    using test_range [of 0 "?eo + 1" "ph_bits ph ! ?ei"] ring_in_word [of "?eo + 1" 0 ph ?ei] pos(2,4) by simp
  define w where "w = wordsFull (ph_bits ph) ?ei (?si + 1)"
  have query: "PacketsConsecutive ph start finish =
      (if ?si = ?ei \<and> ?d \<le> 64
       then if ?eo + 1 < ?so then None
            else Some (ph_bits ph ! ?si AND push_bit ?so (push_bit (?eo + 1 - ?so) 1 - 1) = push_bit ?so (push_bit (?eo + 1 - ?so) 1 - 1))
       else if \<not> (\<forall>p. ?a \<le> p \<and> p < 64 * (?si + 1) \<longrightarrow> ring_bit ph p) then Some False
       else do { full \<leftarrow> w; if \<not> full then Some False else Some (\<forall>p. 64 * ?ei \<le> p \<and> p < ?e + 1 \<longrightarrow> ring_bit ph p) })"
  proof -
    have ns: "\<not> start > finish" and il: "\<not> (?si \<ge> length (ph_bits ph) \<or> ?ei \<ge> length (ph_bits ph))" using s(2) gp by auto
    show ?thesis
      unfolding PacketsConsecutive_def Let_def w_def
      by (simp only: ns dn if_False gp(1,3) Option.bind.simps prod.case il d64 first final)
  qed
  let ?all = "\<forall>k \<le> ?d. ring_bit ph ((?a + k) mod ?n)"
  have n128: "128 \<le> ?n" using n wf(2) by simp
  show ?thesis
  proof (cases "?a + ?d < ?n")
    case True
    then have ed: "?e = ?a + ?d" using e by simp
    have all: "?all \<longleftrightarrow> (\<forall>p. ?a \<le> p \<and> p < ?e + 1 \<longrightarrow> ring_bit ph p)" using run True ed by simp
    show ?thesis
    proof (cases "?si = ?ei \<and> ?d \<le> 64")
      case same: True
      then have o: "?so \<le> ?eo" using ed pos by (metis add_le_cancel_left le_add1)
      have "ph_bits ph ! ?si AND push_bit ?so (push_bit (?eo + 1 - ?so) 1 - 1) = push_bit ?so (push_bit (?eo + 1 - ?so) 1 - 1) \<longleftrightarrow> ?all"
        using test_range [of ?so "?eo + 1 - ?so" "ph_bits ph ! ?si"] ring_in_word [of "?eo + 1" ?so ph ?si] pos o same all by simp
      then show ?thesis unfolding query using same o by simp
    next
      case diff: False
      have lt: "?si < ?ei"
      proof (rule ccontr)
        assume "\<not> ?si < ?ei"
        moreover have "?si \<le> ?ei" using ed by (simp add: div_le_mono)
        ultimately have same: "?si = ?ei" by simp
        have "?d < 64" using ed pos(1,2,4) same by linarith
        with diff same show False by simp
      qed
      have w: "w = Some (\<forall>p. 64 * (?si + 1) \<le> p \<and> p < 64 * ?ei \<longrightarrow> ring_bit ph p)"
        unfolding w_def ring_words [symmetric] using gp(4) lt by (intro wordsFull_up) auto
      have "?all \<longleftrightarrow> (\<forall>p. ?a \<le> p \<and> p < 64 * (?si + 1) \<longrightarrow> ring_bit ph p) \<and>
          (\<forall>p. 64 * (?si + 1) \<le> p \<and> p < 64 * ?ei \<longrightarrow> ring_bit ph p) \<and> (\<forall>p. 64 * ?ei \<le> p \<and> p < ?e + 1 \<longrightarrow> ring_bit ph p)"
        unfolding all by (rule split3) (use lt pos in auto)
      with w diff show ?thesis unfolding query by auto
    qed
  next
    case False
    then have "(?a + ?d) mod ?n = (?a + ?d - ?n) mod ?n" by (intro le_mod_geq) simp
    also have "\<dots> = ?a + ?d - ?n" by (rule mod_less) (use an d in linarith)
    finally have ed: "?e = ?a + ?d - ?n" using e by simp
    have ea: "?e < ?a" using ed an d False by linarith
    have ei: "?ei \<le> ?si" using ea by (simp add: div_le_mono)
    have diff: "\<not> (?si = ?ei \<and> ?d \<le> 64)"
    proof
      assume "?si = ?ei \<and> ?d \<le> 64"
      then have "?a - ?e < 64" "?d \<le> 64" using pos by linarith+
      with ed False an n128 show False by linarith
    qed
    have w: "w = Some ((\<forall>p. 64 * (?si + 1) \<le> p \<and> p < ?n \<longrightarrow> ring_bit ph p) \<and> (\<forall>p. 64 * 0 \<le> p \<and> p < 64 * ?ei \<longrightarrow> ring_bit ph p))"
      unfolding w_def n ring_words [symmetric] using gp(2,4) ei by (intro wordsFull_around) auto
    have "?all \<longleftrightarrow> (\<forall>p. ?a \<le> p \<and> p < ?n \<longrightarrow> ring_bit ph p) \<and> (\<forall>p. p < ?e + 1 \<longrightarrow> ring_bit ph p)"
      using run False ed by simp
    also have "(\<forall>p. ?a \<le> p \<and> p < ?n \<longrightarrow> ring_bit ph p) \<longleftrightarrow>
        (\<forall>p. ?a \<le> p \<and> p < 64 * (?si + 1) \<longrightarrow> ring_bit ph p) \<and> (\<forall>p. 64 * (?si + 1) \<le> p \<and> p < ?n \<longrightarrow> ring_bit ph p)"
      by (rule split2) (use gp(2) n pos in auto)
    also have "(\<forall>p. p < ?e + 1 \<longrightarrow> ring_bit ph p) \<longleftrightarrow>
        (\<forall>p. 64 * 0 \<le> p \<and> p < 64 * ?ei \<longrightarrow> ring_bit ph p) \<and> (\<forall>p. 64 * ?ei \<le> p \<and> p < ?e + 1 \<longrightarrow> ring_bit ph p)"
      using split2 [of 0 "64 * ?ei" "?e + 1" "ring_bit ph"] pos(2) by simp
    finally show ?thesis using w diff unfolding query by auto
  qed
qed

lemma window_positions:
  assumes "ph_base ph \<le> start" "start \<le> finish"
  shows "(\<forall>k \<le> unat finish - unat start. P ((ph_pos ph start + k) mod packetCount ph)) \<longleftrightarrow>
    (\<forall>s. start \<le> s \<and> s \<le> finish \<longrightarrow> P (ph_pos ph s))"
proof -
  have pos: "(ph_pos ph start + k) mod packetCount ph = ph_pos ph (start + of_nat k)"
    if k: "k \<le> unat finish - unat start" for k
  proof -
    have "unat start + k < 2 ^ 64" using k assms(2) unsigned_less [of finish, where ?'a = nat] by (simp add: word_le_nat_alt)
    then have "unat (start + of_nat k) = unat start + k" by (simp add: unat_word_ariths unat_of_nat)
    then show ?thesis using assms(1) by (simp add: ph_pos_def word_le_nat_alt mod_simps)
  qed
  have "start + of_nat (unat s - unat start) = s" if "start \<le> s" for s
    using that by (simp add: word_unat_eq_iff unat_word_ariths unat_of_nat word_le_nat_alt)
  moreover have "start \<le> start + of_nat k \<and> start + of_nat k \<le> finish" if k: "k \<le> unat finish - unat start" for k
  proof -
    have "unat start + k < 2 ^ 64" using k assms(2) unsigned_less [of finish, where ?'a = nat] by (simp add: word_le_nat_alt)
    then have "unat (start + of_nat k) = unat start + k" by (simp add: unat_word_ariths unat_of_nat)
    then show ?thesis using k assms(2) by (simp add: word_le_nat_alt)
  qed
  moreover have "unat s - unat start \<le> unat finish - unat start" if "s \<le> finish" for s
    using that by (simp add: word_le_nat_alt diff_le_mono)
  ultimately show ?thesis using pos by metis
qed

text \<open>In the window, the query says whether every packet of the run has been added.\<close>

lemma PacketsConsecutive_history:
  assumes h: "history ph A" "64 < packetCount ph"
    and s: "ph_base ph < start" "start \<le> finish" "finish \<le> ph_last ph" "unat (ph_last ph) - unat start < packetCount ph"
  shows "PacketsConsecutive ph start finish = Some ({start..finish} \<subseteq> A)"
proof -
  have wf: "ph_wf ph" and ring: "\<And>t. in_window ph t \<Longrightarrow> ring_bit ph (ph_pos ph t) = (t \<in> A)"
    using h(1) by (auto simp: history_def)
  have d: "unat finish - unat start < packetCount ph" using s(3,4) by (simp add: word_le_nat_alt)
  have "in_window ph t" if "start \<le> t" "t \<le> finish" for t
    using that s by (auto simp: in_window_def word_le_nat_alt word_less_nat_alt)
  then have "(\<forall>t. start \<le> t \<and> t \<le> finish \<longrightarrow> ring_bit ph (ph_pos ph t)) \<longleftrightarrow> {start..finish} \<subseteq> A"
    using ring by auto
  then show ?thesis
    using PacketsConsecutive_ring [OF wf h(2) less_imp_le [OF s(1)] s(2) d]
      window_positions [OF less_imp_le [OF s(1)] s(2), of "ring_bit ph"] by simp
qed

fun addPackets :: "u64 list \<Rightarrow> PacketHistory \<Rightarrow> PacketHistory option" where
  "addPackets [] ph = Some ph"
| "addPackets (s # ss) ph = do { ph \<leftarrow> ph_AddPacket ph s; addPackets ss ph }"

lemma addPackets_history:
  "history ph A \<Longrightarrow> \<exists>ph'. addPackets ss ph = Some ph' \<and> history ph' (A \<union> set ss) \<and> packetCount ph' = packetCount ph \<and>
    ph_base ph' = ph_base ph \<and> ph_last ph' = foldl max (ph_last ph) ss"
proof (induction ss arbitrary: ph A)
  case (Cons s ss)
  obtain ph1 where ph1: "ph_AddPacket ph s = Some ph1" "history ph1 (insert s A)" "packetCount ph1 = packetCount ph"
    "ph_base ph1 = ph_base ph" "ph_last ph1 = max (ph_last ph) s" using ph_AddPacket_history [OF Cons.prems] by blast
  from Cons.IH [OF ph1(2)] ph1 show ?case by auto
qed simp

section \<open>Properties\<close>

text \<open>C22. The packet history implements the set of the packets received. From any first packet, adding any packets
  in any order never panics, and a query for a run of numbers that lie in the window (above the base and at most
  the size of the ring behind the newest) returns, and says exactly whether all of them were received.\<close>

theorem PacketHistory_refines:
  assumes "64 < n" "n < 2 ^ 62"
  shows "\<exists>ph. addPackets (s # ss) (NewPacketHistory n) = Some ph \<and> n \<le> packetCount ph \<and>
    unat (ph_base ph) = unat s - 100 \<and> ph_last ph = foldl max s ss \<and>
    (\<forall>start finish. ph_base ph < start \<and> start \<le> finish \<and> finish \<le> ph_last ph \<and>
       unat (ph_last ph) - unat start < packetCount ph \<longrightarrow>
       PacketsConsecutive ph start finish = Some ({start..finish} \<subseteq> set (s # ss)))"
proof -
  have "0 < n" using assms(1) by simp
  note new = NewPacketHistory_wf [OF this assms(2)]
  obtain ph1 where ph1: "ph_AddPacket (NewPacketHistory n) s = Some ph1" "history ph1 {s}"
    "packetCount ph1 = packetCount (NewPacketHistory n)" "ph_last ph1 = s" "unat s - 100 = unat (ph_base ph1)"
    using ph_AddPacket_first [of "NewPacketHistory n" s] new by blast
  obtain ph where ph: "addPackets ss ph1 = Some ph" "history ph ({s} \<union> set ss)" "packetCount ph = packetCount ph1"
    "ph_base ph = ph_base ph1" "ph_last ph = foldl max (ph_last ph1) ss" using addPackets_history [OF ph1(2)] by blast
  have "64 < packetCount ph" using new assms(1) ph(3) ph1(3) by simp
  from PacketsConsecutive_history [OF ph(2) this] ph ph1 new show ?thesis by auto
qed

theorem PacketHistory_refines_witness:
  "\<exists>ph. addPackets [1000, 1002, 1001, 1004] (NewPacketHistory 128) = Some ph \<and>
     PacketsConsecutive ph 1000 1002 = Some True \<and> PacketsConsecutive ph 1000 1004 = Some False"
proof -
  obtain ph where ph: "addPackets (1000 # [1002, 1001, 1004]) (NewPacketHistory 128) = Some ph" "128 \<le> packetCount ph"
    "unat (ph_base ph) = unat (1000 :: u64) - 100" "ph_last ph = foldl max 1000 [1002, 1001, 1004]"
    "\<And>start finish. ph_base ph < start \<and> start \<le> finish \<and> finish \<le> ph_last ph \<and>
       unat (ph_last ph) - unat start < packetCount ph \<Longrightarrow>
       PacketsConsecutive ph start finish = Some ({start..finish} \<subseteq> set (1000 # [1002, 1001, 1004]))"
    using PacketHistory_refines [of 128 1000 "[1002, 1001, 1004]"] by auto
  have l: "ph_last ph = 1004" using ph(4) by simp
  have b: "ph_base ph < 1000" using ph(3) by (simp add: word_less_nat_alt)
  have "{1000..1002} \<subseteq> {1000, 1002, 1001, 1004 :: u64}"
  proof
    fix x :: u64 assume "x \<in> {1000..1002}"
    then have "unat x = 1000 \<or> unat x = 1001 \<or> unat x = 1002" by (auto simp: word_le_nat_alt)
    then show "x \<in> {1000, 1002, 1001, 1004}" by (auto simp: word_unat_eq_iff)
  qed
  moreover have "\<not> {1000..1004} \<subseteq> {1000, 1002, 1001, 1004 :: u64}"
  proof
    assume sub: "{1000..1004} \<subseteq> {1000, 1002, 1001, 1004 :: u64}"
    have "(1003 :: u64) \<in> {1000, 1002, 1001, 1004}" by (rule subsetD [OF sub]) simp
    then show False by simp
  qed
  ultimately show ?thesis using ph(1,2) ph(5) [of 1000 1002] ph(5) [of 1000 1004] l b by simp
qed

section \<open>Any packets\<close>

text \<open>Whatever the numbers, as long as they stay below \<open>2 ^ 63\<close>, the checker returns: no index is negative, no shift
  is, and the scan over the ring ends.\<close>

lemma ph_getPos_total:
  assumes "ph_wf ph"
  shows "ph_getPos ph s = Some (unat (s - ph_base ph) mod packetCount ph div 64, unat (s - ph_base ph) mod packetCount ph mod 64)"
    "unat (s - ph_base ph) mod packetCount ph div 64 < length (ph_bits ph)"
proof -
  have N: "0 < packetCount ph" "packetCount ph < 2 ^ 63" "packetCount ph = 64 * length (ph_bits ph)"
    using assms by (auto simp: ph_wf_def)
  have u: "unat (of_nat (packetCount ph) :: u64) = packetCount ph" using N(2) by (intro unat_of_nat_u64) simp
  let ?i = "(s - ph_base ph) mod of_nat (packetCount ph)"
  have i: "unat ?i = unat (s - ph_base ph) mod packetCount ph" by (simp only: unat_mod u)
  show "ph_getPos ph s = Some (unat (s - ph_base ph) mod packetCount ph div 64, unat (s - ph_base ph) mod packetCount ph mod 64)"
    using N(1) by (simp only: ph_getPos_def Let_def word_split i) simp
  have "unat (s - ph_base ph) mod packetCount ph < 64 * length (ph_bits ph)" using mod_less_divisor [OF N(1)] N(3) by metis
  then show "unat (s - ph_base ph) mod packetCount ph div 64 < length (ph_bits ph)"
    by (simp add: less_mult_imp_div_less mult.commute)
qed

lemma same_word_offsets:
  fixes n p d :: nat
  assumes "64 dvd n" "64 < n" "p < n" "d \<le> 64" "p div 64 = (p + d) mod n div 64"
  shows "p mod 64 \<le> (p + d) mod n mod 64"
proof (cases "p + d < n")
  case True
  then have "p div 64 = (p + d) div 64" using assms(5) by simp
  then have "p mod 64 + d = (p + d) mod 64"
    using div_mult_mod_eq [of p 64] div_mult_mod_eq [of "p + d" 64] by linarith
  then show ?thesis using True by simp
next
  case False
  then have "(p + d) mod n = p + d - n" using assms(2,3,4) by (simp add: mod_if)
  moreover have "p + d - n < 64" using assms(3,4) False by linarith
  ultimately have "p < 64" using assms(5) by (metis div_less div_eq_0_iff zero_neq_numeral)
  moreover obtain k where k: "n = 64 * k" using assms(1) by blast
  moreover have "2 \<le> k" using k assms(2) by simp
  ultimately show ?thesis using assms(4) False by linarith
qed

lemma wordsFull_returns: "e < length bits \<Longrightarrow> i \<le> length bits \<Longrightarrow> \<exists>b. wordsFull bits e i = Some b"
  using wordsFull_up [of e bits i] wordsFull_around [of e bits i] by (cases "i \<le> e") auto

lemma PacketsConsecutive_returns:
  assumes wf: "ph_wf ph" and n: "64 < packetCount ph" "packetCount ph dvd 2 ^ 64"
  shows "\<exists>b. PacketsConsecutive ph start finish = Some b"
proof -
  let ?n = "packetCount ph" and ?p = "\<lambda>s. unat (s - ph_base ph) mod packetCount ph"
  note pos = ph_getPos_total [OF wf]
  have "64 dvd ?n" using wf by (auto simp: ph_wf_def)
  have shift: "?p start mod 64 \<le> ?p finish mod 64"
    if "start \<le> finish" "finish - start \<le> 64" "?p start div 64 = ?p finish div 64"
  proof -
    let ?d = "unat (finish - start)"
    have "unat ((start - ph_base ph) + (finish - start)) = (unat (start - ph_base ph) + ?d) mod 2 ^ 64"
      by (simp only: unat_word_ariths) simp
    then have "unat (finish - ph_base ph) = (unat (start - ph_base ph) + ?d) mod 2 ^ 64" by simp
    then have "?p finish = (unat (start - ph_base ph) + ?d) mod ?n"
      using mod_mod_cancel [OF n(2)] by simp
    then have q: "?p finish = (?p start + ?d) mod ?n" by (simp add: mod_add_left_eq)
    have "?d \<le> 64" using that(2) by (simp add: word_le_nat_alt)
    then show ?thesis using same_word_offsets [OF \<open>64 dvd ?n\<close> n(1), of "?p start" ?d] n(1) that(3) q by simp
  qed
  obtain si so ei eo where p: "ph_getPos ph start = Some (si, so)" "ph_getPos ph finish = Some (ei, eo)"
    "si < length (ph_bits ph)" "ei < length (ph_bits ph)" "start \<le> finish \<Longrightarrow> finish - start \<le> 64 \<Longrightarrow> si = ei \<Longrightarrow> so \<le> eo"
    using pos shift by blast
  have "si + 1 \<le> length (ph_bits ph)" using p(3) by simp
  then obtain full where full: "wordsFull (ph_bits ph) ei (si + 1) = Some full" using wordsFull_returns [OF p(4)] by blast
  have "\<not> eo + 1 < so" if "start \<le> finish" "finish - start \<le> 64" "si = ei" using p(5) [OF that] by simp
  then show ?thesis
    unfolding PacketsConsecutive_def p(1,2) full Let_def bind.simps prod.case using p(3,4) by (auto simp: not_less)
qed

text \<open>A history as the checker keeps it: fresh, or of some set of packets.\<close>

definition checker_ok :: "FrameIntegrityChecker \<Rightarrow> bool" where
  "checker_ok fc \<longleftrightarrow> 0 < frameCount fc \<and> frameCount fc < 2 ^ 31 \<and> length (frames fc) = frameCount fc \<and>
     64 < packetCount (pktHistory fc) \<and> packetCount (pktHistory fc) dvd 2 ^ 64 \<and> ph_wf (pktHistory fc) \<and>
     (if fc_inited fc then (\<exists>A. history (pktHistory fc) A) \<and> fc_base fc \<le> fc_last fc \<and> unat (fc_last fc) < 2 ^ 63
      else \<not> ph_inited (pktHistory fc) \<and> (\<forall>q < packetCount (pktHistory fc). \<not> ring_bit (pktHistory fc) q))"

lemma frameIndex_ok:
  assumes "0 < frameCount fc" "length (frames fc) = frameCount fc" "fc_base fc \<le> e" "unat e < 2 ^ 63"
  shows "frameIndex fc e = Some ((unat e - unat (fc_base fc)) mod frameCount fc)"
proof -
  have half: "e < half_range" "fc_base fc < half_range"
    using assms(3,4) by (simp_all add: word_less_nat_alt word_le_nat_alt unat_half_range)
  have "sint (e - fc_base fc) = int (unat e - unat (fc_base fc))"
    using sint_diff_below_half [OF half] assms(3) by (simp add: word_le_nat_alt of_nat_diff)
  then show ?thesis using assms(1,2)
    by (simp add: frameIndex_def signed_modulo_int_def Let_def zmod_int [symmetric] nat_less_iff)
qed

definition slotOf :: "FrameIntegrityChecker \<Rightarrow> nat \<Rightarrow> nat" where
  "slotOf fc k = (k - unat (fc_base fc)) mod frameCount fc"

lemma fe_Reset_again [simp]: "fe_Reset (fe_Reset fe) = fe_Reset fe"
  by (simp add: fe_Reset_def)

text \<open>The loop over skipped frames resets their slots and leaves the others.\<close>

lemma resetFrames_ok:
  assumes "0 < frameCount fc" "length (frames fc) = frameCount fc"
    "\<And>k. k \<in> set ks \<Longrightarrow> unat (fc_base fc) \<le> k \<and> k < 2 ^ 63"
  shows "\<exists>fs. resetFrames ks fc = Some (fc\<lparr>frames := fs\<rparr>) \<and> length fs = length (frames fc) \<and>
    (\<forall>i < length (frames fc). fs ! i = (if i \<in> slotOf fc ` set ks then fe_Reset (frames fc ! i) else frames fc ! i))"
  using assms
proof (induction ks arbitrary: fc)
  case Nil
  show ?case by (intro exI [of _ "frames fc"]) simp
next
  case (Cons k ks)
  have k: "unat (fc_base fc) \<le> k" "k < 2 ^ 63" using Cons.prems(3) [of k] by auto
  then have u: "unat (of_nat k :: u64) = k" by (intro unat_of_nat_u64) simp
  have i: "frameIndex fc (of_nat k) = Some (slotOf fc k)"
    using frameIndex_ok [OF Cons.prems(1,2), of "of_nat k"] k u by (simp add: word_le_nat_alt slotOf_def)
  let ?fc = "fc\<lparr>frames := (frames fc)[slotOf fc k := fe_Reset (frames fc ! slotOf fc k)]\<rparr>"
  have sl: "slotOf ?fc = slotOf fc" by (intro ext) (simp add: slotOf_def)
  have "\<exists>fs. resetFrames ks ?fc = Some (?fc\<lparr>frames := fs\<rparr>) \<and> length fs = length (frames ?fc) \<and>
      (\<forall>i < length (frames ?fc). fs ! i = (if i \<in> slotOf ?fc ` set ks then fe_Reset (frames ?fc ! i) else frames ?fc ! i))"
    by (rule Cons.IH) (use Cons.prems in auto)
  then obtain fs where fs: "resetFrames ks ?fc = Some (?fc\<lparr>frames := fs\<rparr>)" "length fs = length (frames fc)"
    "\<And>i. i < length (frames fc) \<Longrightarrow> fs ! i = (if i \<in> slotOf fc ` set ks then fe_Reset (frames ?fc ! i) else frames ?fc ! i)"
    unfolding sl by auto
  have "fs ! j = (if j \<in> slotOf fc ` set (k # ks) then fe_Reset (frames fc ! j) else frames fc ! j)"
    if "j < length (frames fc)" for j
    using fs(3) [OF that] that by (cases "j = slotOf fc k") auto
  moreover have "resetFrames (k # ks) fc = Some (fc\<lparr>frames := fs\<rparr>)" using i fs(1) by simp
  ultimately show ?case using fs(2) by blast
qed

lemma fe_AddPacket_returns:
  "ph_wf ph \<Longrightarrow> 64 < packetCount ph \<Longrightarrow> packetCount ph dvd 2 ^ 64 \<Longrightarrow> \<exists>fe'. fe_AddPacket ph q d fe = Some fe'"
proof -
  assume "ph_wf ph" "64 < packetCount ph" "packetCount ph dvd 2 ^ 64"
  then have "\<exists>f. \<forall>a b. PacketsConsecutive ph a b = Some (f a b)" using PacketsConsecutive_returns [of ph] by metis
  then show ?thesis by (auto simp: fe_AddPacket_def Let_def)
qed

lemma addToFrame_ok:
  assumes "0 < frameCount fc" "length (frames fc) = frameCount fc" "fc_base fc \<le> e" "unat e < 2 ^ 63"
    and ph: "ph_wf (pktHistory fc)" "64 < packetCount (pktHistory fc)" "packetCount (pktHistory fc) dvd 2 ^ 64"
  shows "\<exists>fs. addToFrame q e d fc = Some (fc\<lparr>frames := fs\<rparr>) \<and> length fs = length (frames fc)"
proof -
  let ?i = "(unat e - unat (fc_base fc)) mod frameCount fc"
  obtain fe where "fe_AddPacket (pktHistory fc) q d (frames fc ! ?i) = Some fe" using fe_AddPacket_returns [OF ph] by blast
  then show ?thesis using frameIndex_ok [OF assms(1-4)]
    by (intro exI [of _ "(frames fc)[?i := fe]"]) (simp add: addToFrame_def)
qed
lemma ph_AddPacket_checker:
  assumes "checker_ok fc"
  shows "\<exists>ph A. ph_AddPacket (pktHistory fc) q = Some ph \<and> history ph A \<and> packetCount ph = packetCount (pktHistory fc)"
proof (cases "fc_inited fc")
  case True
  then show ?thesis using assms ph_AddPacket_history by (fastforce simp: checker_ok_def)
next
  case False
  then show ?thesis using assms ph_AddPacket_first [of "pktHistory fc" q] by (auto simp: checker_ok_def)
qed

lemma fc_jump_start:
  fixes e l :: u64
  assumes "l < e" "unat e < 2 ^ 63" "0 < n" "n < 2 ^ 31"
  shows "unat l \<le> unat (if e - l > of_nat n then e - of_nat n + 1 else l + 1)"
proof (cases "e - l > of_nat n")
  case True
  have n: "unat (of_nat n :: u64) = n" using assms(4) by (intro unat_of_nat_u64) simp
  then have "n < unat e - unat l" using True assms(1) by (simp add: word_less_nat_alt unat_minus_wrap word_le_nat_alt)
  moreover from this have "unat (e - of_nat n + 1) = unat e - n + 1"
    using n assms(2,3) by (simp add: unat_plus_if' unat_minus_wrap word_le_nat_alt) linarith
  ultimately show ?thesis using True by simp
next
  case False
  then show ?thesis using word_succ_no_wrap [OF assms(1)] by simp
qed

lemma fc_jump_ok:
  assumes fc: "checker_ok fc" "fc_inited fc" and e: "fc_last fc < e" "unat e < 2 ^ 63"
  shows "\<exists>fc'. (let start = (if e - fc_last fc > of_nat (frameCount fc) then e - of_nat (frameCount fc) + 1 else fc_last fc + 1)
      in do { fc \<leftarrow> resetFrames [unat start..<unat e + 1] fc; fc \<leftarrow> addToFrame q e d fc; Some (fc\<lparr>fc_last := e\<rparr>) }) = Some fc' \<and>
    checker_ok fc' \<and> fc_inited fc'"
proof -
  let ?start = "if e - fc_last fc > of_nat (frameCount fc) then e - of_nat (frameCount fc) + 1 else fc_last fc + 1"
  have c: "0 < frameCount fc" "length (frames fc) = frameCount fc" "fc_base fc \<le> fc_last fc" "ph_wf (pktHistory fc)"
    "64 < packetCount (pktHistory fc)" "packetCount (pktHistory fc) dvd 2 ^ 64" "frameCount fc < 2 ^ 31"
    using fc unfolding checker_ok_def by simp_all
  have be: "fc_base fc \<le> e" using e(1) c(3) by simp
  have "unat (fc_base fc) \<le> k \<and> k < 2 ^ 63" if "k \<in> set [unat ?start..<unat e + 1]" for k
    using that fc_jump_start [OF e c(1,7)] c(3) e(2) unfolding word_le_nat_alt set_upt atLeastLessThan_iff by linarith
  then obtain fs where fs: "resetFrames [unat ?start..<unat e + 1] fc = Some (fc\<lparr>frames := fs\<rparr>)" "length fs = length (frames fc)"
    using resetFrames_ok [OF c(1,2)] by blast
  have "\<exists>fs'. addToFrame q e d (fc\<lparr>frames := fs\<rparr>) = Some (fc\<lparr>frames := fs\<rparr>\<lparr>frames := fs'\<rparr>) \<and> length fs' = length (frames (fc\<lparr>frames := fs\<rparr>))"
    by (rule addToFrame_ok) (use c be e fs(2) in simp_all)
  then obtain fs' where fs': "addToFrame q e d (fc\<lparr>frames := fs\<rparr>) = Some (fc\<lparr>frames := fs'\<rparr>)" "length fs' = length (frames fc)"
    using fs(2) by auto
  have "checker_ok (fc\<lparr>frames := fs', fc_last := e\<rparr>)" using fc fs'(2) be e(2) unfolding checker_ok_def by simp
  then show ?thesis unfolding Let_def fs(1) bind.simps fs'(1) using fc(2) by simp
qed

lemma fc_AddPacket_ok:
  assumes fc: "checker_ok fc" and e: "unat e < 2 ^ 63"
  shows "\<exists>fc'. fc_AddPacket q e d fc = Some fc' \<and> checker_ok fc' \<and> fc_inited fc'"
proof -
  obtain ph A where ph: "ph_AddPacket (pktHistory fc) q = Some ph" "history ph A" "packetCount ph = packetCount (pktHistory fc)"
    using ph_AddPacket_checker [OF fc] by blast
  define f where "f = (if \<not> fc_inited fc then fc\<lparr>pktHistory := ph, fc_inited := True, fc_base := e, fc_last := e\<rparr> else fc\<lparr>pktHistory := ph\<rparr>)"
  have "ph_wf ph" using ph(2) by (simp add: history_def)
  then have ok: "checker_ok f" "fc_inited f" using fc ph e by (auto simp: checker_ok_def f_def)
  then have c: "0 < frameCount f" "length (frames f) = frameCount f" "ph_wf (pktHistory f)" "64 < packetCount (pktHistory f)"
    "packetCount (pktHistory f) dvd 2 ^ 64" unfolding checker_ok_def by simp_all
  have "unat (- 1 :: u64) = 2 ^ 64 - 1" by (simp add: unsigned_minus_1_eq_mask mask_eq_exp_minus_1)
  then have "e \<noteq> - 1" using e by auto
  then have step: "fc_AddPacket q e d fc =
    (if e < fc_base f then Some f
     else if e \<le> fc_last f
     then if fc_last f - e \<ge> of_nat (frameCount f) then Some f else addToFrame q e d f
     else let start = (if e - fc_last f > of_nat (frameCount f) then e - of_nat (frameCount f) + 1 else fc_last f + 1)
          in do { fc \<leftarrow> resetFrames [unat start..<unat e + 1] f; fc \<leftarrow> addToFrame q e d fc; Some (fc\<lparr>fc_last := e\<rparr>) })"
    using ph(1) by (simp add: fc_AddPacket_def f_def Let_def)
  show ?thesis
  proof (cases "e \<le> fc_last f")
    case False
    then show ?thesis unfolding step using fc_jump_ok [OF ok _ e] ok by (auto simp: not_le)
  next
    case True
    have "\<exists>fs. addToFrame q e d f = Some (f\<lparr>frames := fs\<rparr>) \<and> length fs = length (frames f)" if "\<not> e < fc_base f"
      using addToFrame_ok [OF c(1,2) _ e c(3-5)] that by (simp add: not_less)
    moreover have "checker_ok (f\<lparr>frames := fs\<rparr>)" if "length fs = length (frames f)" for fs
      using ok that unfolding checker_ok_def by simp
    ultimately show ?thesis unfolding step using True ok by auto
  qed
qed

lemma FrameIntegrity_returns:
  "checker_ok fc \<Longrightarrow> fc_inited fc \<Longrightarrow> \<exists>b. FrameIntegrity fc e = Some b"
  using frameIndex_ok [of fc e] by (auto simp: FrameIntegrity_def checker_ok_def not_less word_le_nat_alt)

lemma checker_ok_new:
  assumes "0 < n" "n < 2 ^ 31" "64 < m" "m < 2 ^ 62" "(m + 63) div 64 * 64 dvd 2 ^ 64"
  shows "checker_ok (NewFrameIntegrityChecker n m)"
proof -
  have "0 < m" using assms(3) by simp
  from NewPacketHistory_wf [OF this assms(4)] show ?thesis
    using assms by (auto simp: checker_ok_def NewFrameIntegrityChecker_def NewPacketHistory_def Let_def)
qed

section \<open>Complete frames\<close>

text \<open>
  What a slot says of the frame that runs from number \<open>a\<close> to \<open>b\<close> once the packets \<open>P\<close> of it have come, and the
  frames the checker still keeps a slot for.
\<close>

definition entity_ok :: "u64 \<Rightarrow> u64 \<Rightarrow> u64 set \<Rightarrow> FrameEntity \<Rightarrow> bool" where
  "entity_ok a b P fe \<longleftrightarrow>
     (hasStartSeq fe \<longleftrightarrow> a \<in> P) \<and> (hasStartSeq fe \<longrightarrow> startSeq fe = a) \<and>
     (hasEndSeq fe \<longleftrightarrow> b \<in> P) \<and> (hasEndSeq fe \<longrightarrow> endSeq fe = b) \<and> (integrity fe \<longleftrightarrow> {a..b} \<subseteq> P)"

definition tracked :: "FrameIntegrityChecker \<Rightarrow> u64 \<Rightarrow> bool" where
  "tracked fc F \<longleftrightarrow> fc_base fc \<le> F \<and> F \<le> fc_last fc \<and> unat (fc_last fc) - unat F < frameCount fc"

lemma entity_ok_reset: "a \<le> b \<Longrightarrow> entity_ok a b {} (fe_Reset fe)"
  by (simp add: entity_ok_def fe_Reset_def)

lemma fe_AddPacket_entity:
  assumes h: "history ph A" "64 < packetCount ph" "ph_base ph < a" "a \<le> b"
      "unat (ph_last ph) < unat a + packetCount ph"
    and fe: "entity_ok a b P fe" "insert q P = A \<inter> {a..b}"
    and dd: "FirstPacketInFrame d \<longleftrightarrow> q = a" "LastPacketInFrame d \<longleftrightarrow> q = b"
  shows "\<exists>fe'. fe_AddPacket ph q d fe = Some fe' \<and> entity_ok a b (insert q P) fe'"
proof (cases "integrity fe")
  case True
  then have "{a..b} \<subseteq> P" using fe(1) by (simp add: entity_ok_def)
  moreover have "a \<in> {a..b}" "b \<in> {a..b}" using h(4) by auto
  ultimately show ?thesis using True fe(1) by (auto simp: fe_AddPacket_def entity_ok_def)
next
  case False
  have query: "PacketsConsecutive ph a b = Some ({a..b} \<subseteq> insert q P)" if "b \<in> insert q P"
  proof -
    have "b \<in> A" using that fe(2) by blast
    then have "b \<le> ph_last ph" using h(1) by (simp add: history_def)
    moreover have "a \<le> ph_last ph" using h(4) calculation by simp
    then have "unat (ph_last ph) - unat a < packetCount ph" using h(5) unfolding word_le_nat_alt by linarith
    ultimately have "PacketsConsecutive ph a b = Some ({a..b} \<subseteq> A)" using PacketsConsecutive_history [OF h(1-4)] by blast
    moreover have "{a..b} \<subseteq> A \<longleftrightarrow> {a..b} \<subseteq> insert q P" using fe(2) by blast
    ultimately show ?thesis by simp
  qed
  have both: "a \<in> insert q P \<and> b \<in> insert q P" if "{a..b} \<subseteq> insert q P" using that h(4) by auto
  define fe1 where "fe1 = (if \<not> hasStartSeq fe \<and> FirstPacketInFrame d then fe\<lparr>startSeq := q, hasStartSeq := True\<rparr> else fe)"
  define fe2 where "fe2 = (if \<not> hasEndSeq fe1 \<and> LastPacketInFrame d then fe1\<lparr>endSeq := q, hasEndSeq := True\<rparr> else fe1)"
  have step: "fe_AddPacket ph q d fe = (if hasStartSeq fe2 \<and> hasEndSeq fe2
      then do { c \<leftarrow> PacketsConsecutive ph (startSeq fe2) (endSeq fe2); Some (if c then fe2\<lparr>integrity := True\<rparr> else fe2) }
      else Some fe2)"
    using False unfolding fe_AddPacket_def Let_def fe1_def [symmetric] fe2_def [symmetric] by simp
  have "hasStartSeq fe1 \<longleftrightarrow> a \<in> insert q P" "hasStartSeq fe1 \<longrightarrow> startSeq fe1 = a"
    "hasEndSeq fe1 \<longleftrightarrow> b \<in> P" "hasEndSeq fe1 \<longrightarrow> endSeq fe1 = b" "\<not> integrity fe1"
    using fe(1) dd(1) False unfolding fe1_def entity_ok_def by auto
  then have e2: "hasStartSeq fe2 \<longleftrightarrow> a \<in> insert q P" "hasStartSeq fe2 \<longrightarrow> startSeq fe2 = a"
    "hasEndSeq fe2 \<longleftrightarrow> b \<in> insert q P" "hasEndSeq fe2 \<longrightarrow> endSeq fe2 = b" "\<not> integrity fe2"
    using dd(2) unfolding fe2_def by auto
  show ?thesis
  proof (cases "hasStartSeq fe2 \<and> hasEndSeq fe2")
    case True
    then have "PacketsConsecutive ph (startSeq fe2) (endSeq fe2) = Some ({a..b} \<subseteq> insert q P)" using query e2 by auto
    then have "fe_AddPacket ph q d fe = Some (if {a..b} \<subseteq> insert q P then fe2\<lparr>integrity := True\<rparr> else fe2)"
      using step True by simp
    moreover have "entity_ok a b (insert q P) (if {a..b} \<subseteq> insert q P then fe2\<lparr>integrity := True\<rparr> else fe2)"
      using e2 unfolding entity_ok_def by (cases "{a..b} \<subseteq> insert q P") simp_all
    ultimately show ?thesis by blast
  next
    case False
    then have "fe_AddPacket ph q d fe = Some fe2" unfolding step by (simp only: if_False)
    moreover have "\<not> {a..b} \<subseteq> insert q P" using False both e2(1,3) by blast
    then have "entity_ok a b (insert q P) fe2" using e2 unfolding entity_ok_def by simp
    ultimately show ?thesis by blast
  qed
qed

lemma slots_apart:
  fixes b k l n :: nat
  assumes "b \<le> k" "k < l" "l - k < n"
  shows "(k - b) mod n \<noteq> (l - b) mod n"
proof
  assume "(k - b) mod n = (l - b) mod n"
  then have "n dvd (l - b) - (k - b)" using assms by (metis mod_eq_dvd_iff_nat diff_le_mono less_imp_le)
  moreover have "(l - b) - (k - b) = l - k" using assms by simp
  ultimately show False using assms by (metis nat_dvd_not_less zero_less_diff)
qed

lemma slot_apart:
  assumes "fc_base fc \<le> x" "x < y" "unat y - unat x < frameCount fc"
  shows "slotOf fc (unat x) \<noteq> slotOf fc (unat y)"
  unfolding slotOf_def by (rule slots_apart) (use assms in \<open>auto simp: word_le_nat_alt word_less_nat_alt\<close>)

lemma tracked_apart:
  assumes "tracked fc x" "tracked fc y" "x \<noteq> y"
  shows "slotOf fc (unat x) \<noteq> slotOf fc (unat y)"
proof (cases "x < y")
  case True
  then show ?thesis using assms by (intro slot_apart) (auto simp: tracked_def word_le_nat_alt)
next
  case False
  then have "y < x" using assms(3) by simp
  then have "slotOf fc (unat y) \<noteq> slotOf fc (unat x)"
    using assms by (intro slot_apart) (auto simp: tracked_def word_le_nat_alt)
  then show ?thesis by simp
qed

text \<open>What \<open>AddPacket\<close> of the checker does once the history has the packet.\<close>

definition placePacket :: "u64 \<Rightarrow> u64 \<Rightarrow> DependencyDescriptor \<Rightarrow> FrameIntegrityChecker \<Rightarrow> FrameIntegrityChecker option" where
  "placePacket q e d f =
    (if e < fc_base f then Some f
     else if e \<le> fc_last f
     then if fc_last f - e \<ge> of_nat (frameCount f) then Some f else addToFrame q e d f
     else let start = (if e - fc_last f > of_nat (frameCount f) then e - of_nat (frameCount f) + 1 else fc_last f + 1)
          in do { fc \<leftarrow> resetFrames [unat start..<unat e + 1] f; fc \<leftarrow> addToFrame q e d fc; Some (fc\<lparr>fc_last := e\<rparr>) })"

lemma fc_AddPacket_place:
  assumes "ph_AddPacket (pktHistory fc) q = Some ph" "unat e < 2 ^ 63"
  shows "fc_AddPacket q e d fc = placePacket q e d
    (if fc_inited fc then fc\<lparr>pktHistory := ph\<rparr>
     else fc\<lparr>pktHistory := ph, fc_inited := True, fc_base := e, fc_last := e\<rparr>)"
proof -
  have "unat (- 1 :: u64) = 2 ^ 64 - 1" by (simp add: unsigned_minus_1_eq_mask mask_eq_exp_minus_1)
  then have "e \<noteq> - 1" using assms(2) by auto
  then show ?thesis using assms(1) by (cases "fc_inited fc") (simp_all add: fc_AddPacket_def placePacket_def Let_def del: upt_Suc)
qed

text \<open>The slot of the frame \<open>F\<close>, from \<open>a\<close> to \<open>b\<close>, of which the packets \<open>P\<close> have come: nothing is said where the checker
  has moved on, and no packet of it has come when the checker is not there yet.\<close>

definition follows :: "u64 \<Rightarrow> u64 \<Rightarrow> u64 \<Rightarrow> u64 set \<Rightarrow> u64 set \<Rightarrow> FrameIntegrityChecker \<Rightarrow> bool" where
  "follows F a b A P fc \<longleftrightarrow> checker_ok fc \<and> fc_inited fc \<and> history (pktHistory fc) A \<and> ph_base (pktHistory fc) < a \<and>
     (fc_last fc < F \<longrightarrow> P = {}) \<and> (tracked fc F \<longrightarrow> entity_ok a b P (frames fc ! slotOf fc (unat F)))"

lemma addToFrame_slot:
  assumes "0 < frameCount fc" "length (frames fc) = frameCount fc" "fc_base fc \<le> e" "unat e < 2 ^ 63"
    "fe_AddPacket (pktHistory fc) q d (frames fc ! slotOf fc (unat e)) = Some fe"
  shows "addToFrame q e d fc = Some (fc\<lparr>frames := (frames fc)[slotOf fc (unat e) := fe]\<rparr>)"
  using frameIndex_ok [OF assms(1-4)] assms(5) by (simp add: addToFrame_def slotOf_def)

lemma checker_okD:
  assumes "checker_ok fc"
  shows "0 < frameCount fc" "length (frames fc) = frameCount fc" "frameCount fc < 2 ^ 31" "ph_wf (pktHistory fc)"
    "64 < packetCount (pktHistory fc)" "packetCount (pktHistory fc) dvd 2 ^ 64"
    "fc_inited fc \<Longrightarrow> fc_base fc \<le> fc_last fc \<and> unat (fc_last fc) < 2 ^ 63"
  using assms unfolding checker_ok_def by auto

lemma checker_ok_frames: "length fs = length (frames fc) \<Longrightarrow> checker_ok (fc\<lparr>frames := fs\<rparr>) = checker_ok fc"
  unfolding checker_ok_def by simp

text \<open>The packet of one frame written to its slot.\<close>

lemma follows_add:
  assumes fo: "follows F a b A P f" and F: "a \<le> b" and e: "tracked f e" "unat e < 2 ^ 63"
    and own: "e = F \<Longrightarrow> (FirstPacketInFrame d \<longleftrightarrow> q = a) \<and> (LastPacketInFrame d \<longleftrightarrow> q = b) \<and>
      insert q P = A \<inter> {a..b} \<and> unat (ph_last (pktHistory f)) < unat a + packetCount (pktHistory f)"
  shows "\<exists>fs. addToFrame q e d f = Some (f\<lparr>frames := fs\<rparr>) \<and> follows F a b A (if e = F then insert q P else P) (f\<lparr>frames := fs\<rparr>)"
proof -
  have ok: "checker_ok f" "fc_inited f" "history (pktHistory f) A" "ph_base (pktHistory f) < a"
    using fo by (simp_all add: follows_def)
  note c = checker_okD [OF ok(1)]
  have slot: "slotOf f (unat e) < length (frames f)" using c(1,2) by (simp add: slotOf_def)
  obtain fe where fe: "fe_AddPacket (pktHistory f) q d (frames f ! slotOf f (unat e)) = Some fe"
    using fe_AddPacket_returns [OF c(4-6)] by blast
  let ?f = "f\<lparr>frames := (frames f)[slotOf f (unat e) := fe]\<rparr>"
  have eb: "fc_base f \<le> e" using e(1) by (simp add: tracked_def)
  have add: "addToFrame q e d f = Some ?f"
    by (rule addToFrame_slot [OF c(1,2) eb e(2) fe])
  have ok': "checker_ok ?f" using ok(1) by (simp add: checker_ok_frames)
  have sl: "slotOf ?f = slotOf f" "tracked ?f = tracked f" by (auto intro!: ext simp: slotOf_def tracked_def)
  have "entity_ok a b (if e = F then insert q P else P) (frames ?f ! slotOf f (unat F))" if "tracked f F"
  proof (cases "e = F")
    case True
    have "entity_ok a b P (frames f ! slotOf f (unat F))" using fo that by (simp add: follows_def)
    then have "entity_ok a b (insert q P) fe"
      using fe_AddPacket_entity [OF ok(3) c(5) ok(4) F, of P "frames f ! slotOf f (unat F)" q d] own [OF True] fe True by auto
    then show ?thesis using True slot by simp
  next
    case False
    then have "slotOf f (unat e) \<noteq> slotOf f (unat F)" using tracked_apart [OF e(1) that] by blast
    then show ?thesis using False fo that by (simp add: follows_def)
  qed
  moreover have "\<not> fc_last f < F" if "e = F" using that e(1) by (auto simp: tracked_def)
  ultimately have "follows F a b A (if e = F then insert q P else P) ?f"
    using fo ok' unfolding follows_def sl by auto
  with add show ?thesis by blast
qed

text \<open>Moving on to a newer frame: the slots in between are reset, so that a frame that comes into reach starts afresh.\<close>

lemma follows_jump:
  assumes fo: "follows F a b A P f" and F: "a \<le> b" and e: "fc_last f < e" "unat e < 2 ^ 63"
  defines "start \<equiv> (if e - fc_last f > of_nat (frameCount f) then e - of_nat (frameCount f) + 1 else fc_last f + 1)"
  shows "\<exists>fs. resetFrames [unat start..<unat e + 1] f = Some (f\<lparr>frames := fs\<rparr>) \<and>
    checker_ok (f\<lparr>frames := fs\<rparr>) \<and> (e < F \<longrightarrow> P = {}) \<and>
    (fc_base f \<le> F \<and> F \<le> e \<and> unat e - unat F < frameCount f \<longrightarrow> entity_ok a b P (fs ! slotOf f (unat F)))"
proof -
  have ok: "checker_ok f" "fc_inited f" "fc_last f < F \<longrightarrow> P = {}" using fo by (simp_all add: follows_def)
  note c = checker_okD [OF ok(1)]
  have bl: "fc_base f \<le> fc_last f" using c(7) [OF ok(2)] by simp
  have n: "unat (of_nat (frameCount f) :: u64) = frameCount f" using c(3) by (intro unat_of_nat_u64) simp
  have start: "unat start = (if unat e - unat (fc_last f) > frameCount f then unat e - frameCount f + 1 else unat (fc_last f) + 1)"
  proof (cases "e - fc_last f > of_nat (frameCount f)")
    case True
    then have lt: "frameCount f < unat e - unat (fc_last f)"
      using e(1) n by (simp add: word_less_nat_alt unat_minus_wrap word_le_nat_alt)
    moreover from lt have "unat (e - of_nat (frameCount f) + 1) = unat e - frameCount f + 1"
      using n e(2) c(1) by (simp add: unat_plus_if' unat_minus_wrap word_le_nat_alt) linarith
    ultimately show ?thesis using True by (simp add: start_def)
  next
    case False
    then have "\<not> frameCount f < unat e - unat (fc_last f)"
      using e(1) n by (simp add: word_less_nat_alt unat_minus_wrap word_le_nat_alt)
    then show ?thesis using False word_succ_no_wrap [OF e(1)] by (simp add: start_def)
  qed
  have l: "unat (fc_base f) \<le> unat (fc_last f)" "unat (fc_last f) < unat e"
    using bl e(1) by (simp_all add: word_le_nat_alt word_less_nat_alt)
  have "unat (fc_base f) \<le> k \<and> k < 2 ^ 63" if "k \<in> set [unat start..<unat e + 1]" for k
    using that start l e(2) by (auto split: if_splits)
  then obtain fs where fs: "resetFrames [unat start..<unat e + 1] f = Some (f\<lparr>frames := fs\<rparr>)" "length fs = length (frames f)"
    "\<forall>i < length (frames f). fs ! i = (if i \<in> slotOf f ` set [unat start..<unat e + 1] then fe_Reset (frames f ! i) else frames f ! i)"
    using resetFrames_ok [OF c(1,2)] by blast
  have ok': "checker_ok (f\<lparr>frames := fs\<rparr>)" using ok(1) fs(2) by (simp add: checker_ok_frames)
  have slot: "slotOf f (unat F) < length (frames f)" using c(1,2) by (simp add: slotOf_def)
  have "entity_ok a b P (fs ! slotOf f (unat F))" if t: "fc_base f \<le> F" "F \<le> e" "unat e - unat F < frameCount f"
  proof (cases "F \<le> fc_last f")
    case True
    have "slotOf f (unat F) \<noteq> slotOf f k" if "k \<in> set [unat start..<unat e + 1]" for k
      unfolding slotOf_def
      by (rule slots_apart) (use t that start l True in \<open>auto simp: word_le_nat_alt split: if_splits\<close>)
    then have "slotOf f (unat F) \<notin> slotOf f ` set [unat start..<unat e + 1]" by blast
    then have "fs ! slotOf f (unat F) = frames f ! slotOf f (unat F)" using fs(3) slot by simp
    moreover have "tracked f F" using t True l by (simp add: tracked_def word_le_nat_alt)
    ultimately show ?thesis using fo by (simp add: follows_def)
  next
    case False
    then have "unat F \<in> set [unat start..<unat e + 1]"
      using t start l by (auto simp: word_le_nat_alt split: if_splits)
    then have "slotOf f (unat F) \<in> slotOf f ` set [unat start..<unat e + 1]" by (rule imageI)
    then have "fs ! slotOf f (unat F) = fe_Reset (frames f ! slotOf f (unat F))"
      using fs(3) slot by (simp only: if_True)
    moreover have "P = {}" using ok(3) False by simp
    ultimately show ?thesis using entity_ok_reset [OF F] by simp
  qed
  moreover have "e < F \<longrightarrow> P = {}" using ok(3) e(1) by (auto dest: less_trans)
  ultimately show ?thesis using fs(1) ok' by blast
qed

lemma placePacket_follows:
  assumes fo: "follows F a b A P f" and F: "a \<le> b" and e: "unat e < 2 ^ 63"
    and own: "e = F \<Longrightarrow> (FirstPacketInFrame d \<longleftrightarrow> q = a) \<and> (LastPacketInFrame d \<longleftrightarrow> q = b) \<and>
      insert q P = A \<inter> {a..b} \<and> unat (ph_last (pktHistory f)) < unat a + packetCount (pktHistory f)"
  shows "\<exists>f'. placePacket q e d f = Some f' \<and> follows F a b A (if e = F then insert q P else P) f' \<and>
    pktHistory f' = pktHistory f \<and> frameCount f' = frameCount f \<and> fc_base f' = fc_base f \<and> fc_last f' = max (fc_last f) e"
proof -
  have ok: "checker_ok f" "fc_inited f" using fo by (simp_all add: follows_def)
  note c = checker_okD [OF ok(1)]
  have bl: "fc_base f \<le> fc_last f" using c(7) [OF ok(2)] by simp
  have n: "unat (of_nat (frameCount f) :: u64) = frameCount f" using c(3) by (intro unat_of_nat_u64) simp
  consider (gone) "\<not> tracked f e" "e \<le> fc_last f" | (here) "tracked f e" | (ahead) "fc_last f < e"
    using not_le by blast
  then show ?thesis
  proof cases
    case gone
    then have "placePacket q e d f = Some f"
      using n by (auto simp: placePacket_def tracked_def word_le_nat_alt word_less_nat_alt unat_minus_wrap)
    moreover have "follows F a b A (insert q P) f" if "e = F"
      using fo gone that by (auto simp: follows_def)
    ultimately show ?thesis using fo gone(2) by (auto simp: max_def)
  next
    case here
    then have step: "placePacket q e d f = addToFrame q e d f"
      using n by (auto simp: placePacket_def tracked_def word_le_nat_alt word_less_nat_alt unat_minus_wrap)
    have "e \<le> fc_last f" using here by (simp add: tracked_def)
    then show ?thesis using follows_add [OF fo F here e own] step by (auto simp: max_def)
  next
    case ahead
    let ?start = "if e - fc_last f > of_nat (frameCount f) then e - of_nat (frameCount f) + 1 else fc_last f + 1"
    obtain fs where fs: "resetFrames [unat ?start..<unat e + 1] f = Some (f\<lparr>frames := fs\<rparr>)"
      "checker_ok (f\<lparr>frames := fs\<rparr>)" "e < F \<longrightarrow> P = {}"
      "fc_base f \<le> F \<and> F \<le> e \<and> unat e - unat F < frameCount f \<longrightarrow> entity_ok a b P (fs ! slotOf f (unat F))"
      using follows_jump [OF fo F ahead e] by blast
    let ?f = "f\<lparr>frames := fs, fc_last := e\<rparr>"
    have be: "fc_base f \<le> e" using bl ahead by simp
    have sl: "slotOf ?f = slotOf f" by (intro ext) (simp add: slotOf_def)
    have "checker_ok ?f" using fs(2) be e ok(2) unfolding checker_ok_def by simp
    then have fo': "follows F a b A P ?f"
      using fo fs(3,4) unfolding follows_def sl by (simp add: tracked_def)
    have "tracked ?f e" using be c(1) by (simp add: tracked_def)
    from follows_add [OF fo' F this e, of d q] own obtain fs' where fs': "addToFrame q e d ?f = Some (?f\<lparr>frames := fs'\<rparr>)"
      "follows F a b A (if e = F then insert q P else P) (?f\<lparr>frames := fs'\<rparr>)" by auto
    have "frameIndex ?f = frameIndex (f\<lparr>frames := fs\<rparr>)" by (intro ext) (simp add: frameIndex_def)
    then have "addToFrame q e d (f\<lparr>frames := fs\<rparr>) \<bind> (\<lambda>fc. Some (fc\<lparr>fc_last := e\<rparr>)) = Some (?f\<lparr>frames := fs'\<rparr>)"
      using fs'(1) by (cases f) (auto simp: addToFrame_def bind_Some_iff)
    moreover have "\<not> e < fc_base f" "\<not> e \<le> fc_last f" using be ahead by auto
    note guards = this [THEN if_not_P]
    ultimately have "placePacket q e d f = Some (?f\<lparr>frames := fs'\<rparr>)"
      unfolding placePacket_def Let_def guards fs(1) bind.simps by blast
    then show ?thesis using fs'(2) ahead by (auto simp: max_def)
  qed
qed

section \<open>Streams of packets\<close>

text \<open>The packets of a stream: packet number, frame number, descriptor.\<close>

fun addStream :: "(u64 \<times> u64 \<times> DependencyDescriptor) list \<Rightarrow> FrameIntegrityChecker \<Rightarrow> FrameIntegrityChecker option" where
  "addStream [] fc = Some fc"
| "addStream ((q, e, d) # ps) fc = do { fc \<leftarrow> fc_AddPacket q e d fc; addStream ps fc }"

lemma addStream_append: "addStream (ps @ qs) fc = do { fc \<leftarrow> addStream ps fc; addStream qs fc }"
  by (induction ps fc rule: addStream.induct) (auto split: bind_splits)

definition packetNumbers :: "(u64 \<times> u64 \<times> DependencyDescriptor) list \<Rightarrow> u64 set" where
  "packetNumbers ps = fst ` set ps"

definition frameNumbers :: "(u64 \<times> u64 \<times> DependencyDescriptor) list \<Rightarrow> u64 set" where
  "frameNumbers ps = (\<lambda>p. fst (snd p)) ` set ps"

definition packetsOf :: "u64 \<Rightarrow> (u64 \<times> u64 \<times> DependencyDescriptor) list \<Rightarrow> u64 set" where
  "packetsOf F ps = {q. \<exists>d. (q, F, d) \<in> set ps}"

definition newestFrame :: "(u64 \<times> u64 \<times> DependencyDescriptor) list \<Rightarrow> u64" where
  "newestFrame ps = Max (frameNumbers ps)"

text \<open>The packets of frame \<open>F\<close> are those with the numbers from \<open>a\<close> to \<open>b\<close>, flagged as first and last where they are.\<close>

definition frame_spans :: "u64 \<Rightarrow> u64 \<Rightarrow> u64 \<Rightarrow> (u64 \<times> u64 \<times> DependencyDescriptor) list \<Rightarrow> bool" where
  "frame_spans F a b ps \<longleftrightarrow> a \<le> b \<and>
     (\<forall>(q, e, d) \<in> set ps. (e = F \<longleftrightarrow> a \<le> q \<and> q \<le> b) \<and>
        (e = F \<longrightarrow> (FirstPacketInFrame d \<longleftrightarrow> q = a) \<and> (LastPacketInFrame d \<longleftrightarrow> q = b)))"

text \<open>One packet of a stream: the frame's own packets within reach of the history, the others as they are.\<close>

lemma fc_AddPacket_follows:
  assumes fo: "follows F a b A P fc" and F: "a \<le> b" and e: "unat e < 2 ^ 63"
    and own: "e = F \<Longrightarrow> (FirstPacketInFrame d \<longleftrightarrow> q = a) \<and> (LastPacketInFrame d \<longleftrightarrow> q = b) \<and>
      insert q P = insert q A \<inter> {a..b} \<and>
      unat (max (ph_last (pktHistory fc)) q) < unat a + packetCount (pktHistory fc)"
  shows "\<exists>fc'. fc_AddPacket q e d fc = Some fc' \<and> follows F a b (insert q A) (if e = F then insert q P else P) fc' \<and>
    packetCount (pktHistory fc') = packetCount (pktHistory fc) \<and> ph_last (pktHistory fc') = max (ph_last (pktHistory fc)) q \<and>
    frameCount fc' = frameCount fc \<and> fc_base fc' = fc_base fc \<and> fc_last fc' = max (fc_last fc) e"
proof -
  have ok: "checker_ok fc" "fc_inited fc" "history (pktHistory fc) A" using fo by (simp_all add: follows_def)
  obtain ph where ph: "ph_AddPacket (pktHistory fc) q = Some ph" "history ph (insert q A)"
    "packetCount ph = packetCount (pktHistory fc)" "ph_base ph = ph_base (pktHistory fc)"
    "ph_last ph = max (ph_last (pktHistory fc)) q" using ph_AddPacket_history [OF ok(3)] by blast
  have "ph_wf ph" using ph(2) by (simp add: history_def)
  then have "checker_ok (fc\<lparr>pktHistory := ph\<rparr>)"
    using ok(1,2) ph(2,3) unfolding checker_ok_def by auto
  then have fo': "follows F a b (insert q A) P (fc\<lparr>pktHistory := ph\<rparr>)"
    using fo ph unfolding follows_def by (simp add: tracked_def slotOf_def)
  have step: "fc_AddPacket q e d fc = placePacket q e d (fc\<lparr>pktHistory := ph\<rparr>)"
    using fc_AddPacket_place [OF ph(1) e] ok(2) by simp
  from placePacket_follows [OF fo' F e, of d q] own ph show ?thesis unfolding step by auto
qed

lemma addStream_follows:
  assumes "follows F a b A P fc" "frame_spans F a b ps" "P = A \<inter> {a..b}" "\<forall>(q, e, d) \<in> set ps. unat e < 2 ^ 63"
    "unat (ph_last (pktHistory fc)) < unat a + packetCount (pktHistory fc)"
    "\<forall>q \<in> packetNumbers ps. unat q < unat a + packetCount (pktHistory fc)"
  shows "\<exists>fc'. addStream ps fc = Some fc' \<and> follows F a b (A \<union> packetNumbers ps) (P \<union> packetsOf F ps) fc' \<and>
    frameCount fc' = frameCount fc \<and> fc_base fc' = fc_base fc \<and> fc_last fc' = Max (insert (fc_last fc) (frameNumbers ps))"
  using assms
proof (induction ps arbitrary: A P fc)
  case Nil
  then show ?case by (simp add: packetNumbers_def packetsOf_def frameNumbers_def)
next
  case (Cons p ps)
  obtain q e d where p: "p = (q, e, d)" by (cases p)
  have sp: "a \<le> b" "e = F \<longleftrightarrow> a \<le> q \<and> q \<le> b" "e = F \<longrightarrow> (FirstPacketInFrame d \<longleftrightarrow> q = a) \<and> (LastPacketInFrame d \<longleftrightarrow> q = b)"
    "frame_spans F a b ps" using Cons.prems(2) p by (auto simp: frame_spans_def)
  have q: "unat q < unat a + packetCount (pktHistory fc)" using Cons.prems(6) p by (simp add: packetNumbers_def)
  have m: "unat (max (ph_last (pktHistory fc)) q) < unat a + packetCount (pktHistory fc)"
    using q Cons.prems(5) by (simp add: max_def)
  let ?P = "if e = F then insert q P else P"
  obtain fc1 where fc1: "fc_AddPacket q e d fc = Some fc1" "follows F a b (insert q A) ?P fc1"
    "packetCount (pktHistory fc1) = packetCount (pktHistory fc)" "ph_last (pktHistory fc1) = max (ph_last (pktHistory fc)) q"
    "frameCount fc1 = frameCount fc" "fc_base fc1 = fc_base fc" "fc_last fc1 = max (fc_last fc) e"
    using fc_AddPacket_follows [OF Cons.prems(1) sp(1), of e d q] Cons.prems(3,4) sp(2,3) m p by auto
  have P: "?P = insert q A \<inter> {a..b}" using Cons.prems(3) sp(2) by auto
  have "\<exists>fc'. addStream ps fc1 = Some fc' \<and> follows F a b (insert q A \<union> packetNumbers ps) (?P \<union> packetsOf F ps) fc' \<and>
      frameCount fc' = frameCount fc1 \<and> fc_base fc' = fc_base fc1 \<and> fc_last fc' = Max (insert (fc_last fc1) (frameNumbers ps))"
    by (rule Cons.IH [OF fc1(2) sp(4) P]) (use Cons.prems(4,6) m fc1(3,4) in \<open>auto simp: packetNumbers_def\<close>)
  moreover have "insert q A \<union> packetNumbers ps = A \<union> packetNumbers (p # ps)" by (auto simp: packetNumbers_def p)
  moreover have "?P \<union> packetsOf F ps = P \<union> packetsOf F (p # ps)" by (auto simp: packetsOf_def p)
  moreover have "Max (insert (max (fc_last fc) e) (frameNumbers ps)) = Max (insert (fc_last fc) (frameNumbers (p # ps)))"
    by (cases "ps = []") (simp_all add: frameNumbers_def p ac_simps)
  ultimately show ?case using fc1 p by auto
qed

lemma addStream_others:
  assumes "follows F a b A P fc" "a \<le> b" "F \<notin> frameNumbers ps" "\<forall>(q, e, d) \<in> set ps. unat e < 2 ^ 63"
  shows "\<exists>fc' A'. addStream ps fc = Some fc' \<and> follows F a b A' P fc' \<and>
    frameCount fc' = frameCount fc \<and> fc_base fc' = fc_base fc \<and> fc_last fc' = Max (insert (fc_last fc) (frameNumbers ps))"
  using assms
proof (induction ps arbitrary: A fc)
  case Nil
  then show ?case by (auto simp: frameNumbers_def)
next
  case (Cons p ps)
  obtain q e d where p: "p = (q, e, d)" by (cases p)
  have e: "e \<noteq> F" "unat e < 2 ^ 63" "F \<notin> frameNumbers ps" using Cons.prems(3,4) p by (auto simp: frameNumbers_def)
  obtain fc1 where fc1: "fc_AddPacket q e d fc = Some fc1" "follows F a b (insert q A) P fc1"
    "frameCount fc1 = frameCount fc" "fc_base fc1 = fc_base fc" "fc_last fc1 = max (fc_last fc) e"
    using fc_AddPacket_follows [OF Cons.prems(1,2) e(2), of d q] e(1) by auto
  have "\<exists>fc' A'. addStream ps fc1 = Some fc' \<and> follows F a b A' P fc' \<and>
      frameCount fc' = frameCount fc1 \<and> fc_base fc' = fc_base fc1 \<and> fc_last fc' = Max (insert (fc_last fc1) (frameNumbers ps))"
    by (rule Cons.IH [OF fc1(2) Cons.prems(2) e(3)]) (use Cons.prems(4) in auto)
  moreover have "Max (insert (max (fc_last fc) e) (frameNumbers ps)) = Max (insert (fc_last fc) (frameNumbers (p # ps)))"
    by (cases "ps = []") (simp_all add: frameNumbers_def p ac_simps)
  ultimately show ?case using fc1 p by auto
qed

lemma Max_insert_Max:
  fixes X Y :: "'a::linorder set"
  assumes "finite X" "X \<noteq> {}" "finite Y"
  shows "Max (insert (Max X) Y) = Max (X \<union> Y)"
  using assms by (cases "Y = {}") (simp_all add: Max_Un)

text \<open>The first packet of a stream sets the base of the checker.\<close>

lemma fc_AddPacket_first:
  assumes "0 < n" "n < 2 ^ 31" "64 < m" "m < 2 ^ 62" "(m + 63) div 64 * 64 dvd 2 ^ 64"
    and sp: "frame_spans F a b [(q, e, d)]" and e: "unat e < 2 ^ 63" and q: "unat q - 100 < unat a" "unat q < unat a + m"
  shows "\<exists>fc. fc_AddPacket q e d (NewFrameIntegrityChecker n m) = Some fc \<and>
    follows F a b {q} (packetsOf F [(q, e, d)]) fc \<and> m \<le> packetCount (pktHistory fc) \<and> ph_last (pktHistory fc) = q \<and>
    frameCount fc = n \<and> fc_base fc = e \<and> fc_last fc = e"
proof -
  have ok: "checker_ok (NewFrameIntegrityChecker n m)" by (rule checker_ok_new [OF assms(1-5)])
  have "0 < m" using assms(3) by simp
  note new = NewPacketHistory_wf [OF this assms(4)]
  obtain ph where ph: "ph_AddPacket (NewPacketHistory m) q = Some ph" "history ph {q}"
    "packetCount ph = packetCount (NewPacketHistory m)" "ph_last ph = q" "unat q - 100 = unat (ph_base ph)"
    using ph_AddPacket_first [of "NewPacketHistory m" q] new by blast
  let ?f = "(NewFrameIntegrityChecker n m)\<lparr>pktHistory := ph, fc_inited := True, fc_base := e, fc_last := e\<rparr>"
  have nw: "pktHistory (NewFrameIntegrityChecker n m) = NewPacketHistory m" "\<not> fc_inited (NewFrameIntegrityChecker n m)"
    "frameCount (NewFrameIntegrityChecker n m) = n"
    by (simp_all add: NewFrameIntegrityChecker_def)
  have step: "fc_AddPacket q e d (NewFrameIntegrityChecker n m) = placePacket q e d ?f"
    using fc_AddPacket_place [of "NewFrameIntegrityChecker n m" q ph e d] ph(1) e nw by simp
  have "ph_wf ph" using ph(2) by (simp add: history_def)
  then have "checker_ok ?f" using ok ph(2,3) e nw unfolding checker_ok_def by auto
  moreover have "entity_ok a b {} (frames ?f ! slotOf ?f (unat F))"
  proof -
    have "slotOf ?f (unat F) < n" using assms(1) nw(3) by (simp add: slotOf_def)
    then show ?thesis using sp by (simp add: NewFrameIntegrityChecker_def entity_ok_reset frame_spans_def)
  qed
  moreover have "ph_base ph < a" using ph(5) q(1) by (simp add: word_less_nat_alt)
  ultimately have fo: "follows F a b {q} {} ?f" using ph(2) by (simp add: follows_def)
  have ab: "a \<le> b" and own: "e = F \<longleftrightarrow> a \<le> q \<and> q \<le> b"
    "e = F \<longrightarrow> (FirstPacketInFrame d \<longleftrightarrow> q = a) \<and> (LastPacketInFrame d \<longleftrightarrow> q = b)"
    using sp by (auto simp: frame_spans_def)
  have "m \<le> packetCount ph" using new ph(3) by simp
  then have "\<exists>f'. placePacket q e d ?f = Some f' \<and> follows F a b {q} (if e = F then insert q {} else {}) f' \<and>
      pktHistory f' = pktHistory ?f \<and> frameCount f' = frameCount ?f \<and> fc_base f' = fc_base ?f \<and> fc_last f' = max (fc_last ?f) e"
    by (intro placePacket_follows [OF fo ab e]) (use own ph(4) q(2) in auto)
  moreover have "(if e = F then insert q {} else {}) = packetsOf F [(q, e, d)]" by (auto simp: packetsOf_def)
  ultimately show ?thesis unfolding step using \<open>m \<le> packetCount ph\<close> ph(4) nw(3) by auto
qed

lemma FrameIntegrity_follows:
  assumes "follows F a b A P fc"
  shows "FrameIntegrity fc F = Some (tracked fc F \<and> {a..b} \<subseteq> P)"
proof -
  have ok: "checker_ok fc" "fc_inited fc" using assms by (simp_all add: follows_def)
  note c = checker_okD [OF ok(1)]
  have n: "unat (of_nat (frameCount fc) :: u64) = frameCount fc" using c(3) by (intro unat_of_nat_u64) simp
  have l: "unat (fc_last fc) < 2 ^ 63" using c(7) [OF ok(2)] by simp
  have guard: "\<not> (F < fc_base fc \<or> F > fc_last fc \<or> fc_last fc - F \<ge> of_nat (frameCount fc)) \<longleftrightarrow> tracked fc F"
    using n by (auto simp: tracked_def word_le_nat_alt word_less_nat_alt unat_minus_wrap)
  show ?thesis
  proof (cases "tracked fc F")
    case True
    then have b: "fc_base fc \<le> F" "unat F < 2 ^ 63" using l by (auto simp: tracked_def word_le_nat_alt)
    have "integrity (frames fc ! slotOf fc (unat F)) \<longleftrightarrow> {a..b} \<subseteq> P" using assms True by (simp add: follows_def entity_ok_def)
    then show ?thesis using True guard frameIndex_ok [OF c(1,2) b] by (simp add: FrameIntegrity_def slotOf_def)
  next
    case False
    then show ?thesis using guard by (simp add: FrameIntegrity_def)
  qed
qed


text \<open>Two frames of a ring of two, and the first packet of a third one, which reuses the slot of the first frame: it is not whole
  before its second packet.\<close>

definition sampleStream :: "(u64 \<times> u64 \<times> DependencyDescriptor) list" where
  "sampleStream =
     [(11, 5, zeroDescriptor\<lparr>LastPacketInFrame := True\<rparr>),
      (12, 6, zeroDescriptor\<lparr>FirstPacketInFrame := True, LastPacketInFrame := True\<rparr>),
      (13, 7, zeroDescriptor\<lparr>FirstPacketInFrame := True\<rparr>)]"


end
