(* ===== verification/DDParser.thy ===== *)
theory DDParser
  imports DecodeTargets FrameIntegrity
begin

text \<open>
  From RTP packets to extended dependency descriptors: \<open>DependencyDescriptorParser\<close> of
  \<open>pkg/sfu/buffer/dependencydescriptorparser.go\<close>.

  \<^item> \<open>GetExtension\<close> belongs to the RTP package: \<open>Parse\<close> gets what it returned (\<^term>\<open>None\<close> for nil). One
    reading of the clock, \<open>now\<close> in nanoseconds, serves both calls of a packet; the zero time is \<^term>\<open>None\<close>.
  \<^item> \<open>utils.WrapAround\<close> is external: the state \<open>'w\<close> of a tracker and its two operations \<open>update\<close> and
    \<open>updateKnown\<close> are arguments. Lemmas assume of them only that extended numbers stay below \<open>2 ^ 63\<close>.
  \<^item> The calls of \<open>onMaxLayerChanged\<close> are returned. Pooling of the results and logging are left out.
  \<^item> \<^term>\<open>None\<close> is a run-time panic.

  Lemmas: whatever the packets, the parser never panics, and what it hands on satisfies the contract
  \<open>ext_dd_ok\<close> that the layer selector relies on; within a generation the key frame number never goes back.
\<close>

section \<open>Model\<close>

definition ddRestartThreshold :: int where
  "ddRestartThreshold = 30 * 1000000000"

definition integrityCheckFrame :: nat where
  "integrityCheckFrame = 180"

definition integrityCheckPkt :: nat where
  "integrityCheckPkt = 1024"

datatype dp_error =
  ErrFrameEarlierThanKeyFrame | ErrDDStructureAttachedToNonFirstPacket | ErrDDExtentionNotFound | ErrUnmarshal dd_error

record 'w DependencyDescriptorParser =
  ddp_structure :: "FrameDependencyStructure option"
  ddp_decodeTargets :: "DependencyDescriptorDecodeTarget list"
  seqWrapAround :: 'w
  frameWrapAround :: 'w
  structureExtFrameNum :: u64
  structureChangeExtFrameNum :: u64
  hasActiveDecodeTargets :: bool
  activeDecodeTargetsExtSeq :: u64
  activeDecodeTargetsMask :: u32
  frameChecker :: FrameIntegrityChecker
  ddNotFoundCount :: u32
  ddp_restartGeneration :: int
  enableRestart :: bool
  lastPacketAt :: "int option"

definition NewDependencyDescriptorParser :: "'w \<Rightarrow> bool \<Rightarrow> 'w DependencyDescriptorParser" where
  "NewDependencyDescriptorParser newWrapAround enable =
     \<lparr>ddp_structure = None, ddp_decodeTargets = [], seqWrapAround = newWrapAround, frameWrapAround = newWrapAround,
      structureExtFrameNum = 0, structureChangeExtFrameNum = 0, hasActiveDecodeTargets = False,
      activeDecodeTargetsExtSeq = 0, activeDecodeTargetsMask = 0,
      frameChecker = NewFrameIntegrityChecker integrityCheckFrame integrityCheckPkt, ddNotFoundCount = 0,
      ddp_restartGeneration = 0, enableRestart = enable, lastPacketAt = None\<rparr>"

definition ddp_restart :: "'w DependencyDescriptorParser \<Rightarrow> 'w DependencyDescriptorParser" where
  "ddp_restart r =
     r\<lparr>frameChecker := NewFrameIntegrityChecker integrityCheckFrame integrityCheckPkt, ddp_structure := None,
       structureExtFrameNum := 0, structureChangeExtFrameNum := 0, hasActiveDecodeTargets := False,
       activeDecodeTargetsExtSeq := 0, activeDecodeTargetsMask := 0, ddp_decodeTargets := [],
       ddp_restartGeneration := ddp_restartGeneration r + 1\<rparr>"

text \<open>The storage a packet is parsed into: empty slices, not nil ones.\<close>

definition descriptorStorage :: DependencyDescriptor where
  "descriptorStorage =
     \<lparr>FirstPacketInFrame = False, LastPacketInFrame = False, FrameNumber = 0,
      FrameDependencies = Some \<lparr>SpatialId = 0, TemporalId = 0, DecodeTargetIndications = Some [], FrameDiffs = Some [], ChainDiffs = []\<rparr>,
      Resolution = Some \<lparr>Width = 0, Height = 0\<rparr>, ActiveDecodeTargetsBitmask = None, AttachedStructure = None\<rparr>"

text \<open>Restart detection, with whether the stream restarts.\<close>

definition detectRestart :: "int \<Rightarrow> 'w DependencyDescriptorParser \<Rightarrow> 'w DependencyDescriptorParser \<times> bool" where
  "detectRestart now r =
     (if enableRestart r
      then let restart = (case lastPacketAt r of None \<Rightarrow> False | Some t \<Rightarrow> now - t > ddRestartThreshold);
               r = (if restart then ddp_restart r else r)
           in (r\<lparr>lastPacketAt := Some now\<rparr>, restart)
      else (r, False))"

text \<open>The branch for an attached structure: an error, or the parser with the structure taken over.\<close>

definition attachStructure ::
  "u64 \<Rightarrow> DependencyDescriptor \<Rightarrow> FrameDependencyStructure \<Rightarrow> 'w DependencyDescriptorParser \<Rightarrow>
   (dp_error + 'w DependencyDescriptorParser) option" where
  "attachStructure extFN ddVal attached r =
     (if \<not> FirstPacketInFrame ddVal then Some (Inl ErrDDStructureAttachedToNonFirstPacket)
      else if extFN < structureExtFrameNum r then Some (Inl ErrFrameEarlierThanKeyFrame)
      else
        let changed = (case ddp_structure r of None \<Rightarrow> True | Some st \<Rightarrow> StructureId attached \<noteq> StructureId st);
            r = (if changed then r\<lparr>structureChangeExtFrameNum := extFN\<rparr> else r);
            r = r\<lparr>ddp_structure := Some attached\<rparr>
        in do {
             dts \<leftarrow> ProcessFrameDependencyStructure attached;
             Some (Inr (r\<lparr>ddp_decodeTargets := dts, structureExtFrameNum := extFN\<rparr>))
           })"

definition maxLayers :: "u32 \<Rightarrow> DependencyDescriptorDecodeTarget list \<Rightarrow> int \<times> int" where
  "maxLayers m dts =
     foldl (\<lambda>(maxSpatial, maxTemporal) dt.
       if m AND push_bit (nat (Target dt)) 1 \<noteq> 0
       then (if maxSpatial < Spatial (Layer dt) then Spatial (Layer dt) else maxSpatial,
             if maxTemporal < Temporal (Layer dt) then Temporal (Layer dt) else maxTemporal)
       else (maxSpatial, maxTemporal)) (0, 0) dts"

text \<open>The active decode targets: the parser, whether they changed, and the calls of \<open>onMaxLayerChanged\<close>.\<close>

definition updateActiveMask ::
  "u64 \<Rightarrow> u32 option \<Rightarrow> 'w DependencyDescriptorParser \<Rightarrow> 'w DependencyDescriptorParser \<times> bool \<times> (int \<times> int) list" where
  "updateActiveMask extSeq bitmask r =
     (case bitmask of
        None \<Rightarrow> (r, False, [])
      | Some m \<Rightarrow>
          if \<not> hasActiveDecodeTargets r \<or> extSeq > activeDecodeTargetsExtSeq r
          then let r = r\<lparr>hasActiveDecodeTargets := True, activeDecodeTargetsExtSeq := extSeq\<rparr>
               in if m \<noteq> activeDecodeTargetsMask r
                  then (r\<lparr>activeDecodeTargetsMask := m\<rparr>, True, [maxLayers m (ddp_decodeTargets r)])
                  else (r, False, [])
          else (r, False, []))"

text \<open>The result for a packet that is not dropped.\<close>

definition extDescriptor ::
  "u64 \<Rightarrow> u64 \<Rightarrow> bool \<Rightarrow> DependencyDescriptor \<Rightarrow> 'w DependencyDescriptorParser \<Rightarrow>
   'w DependencyDescriptorParser \<times> ExtDependencyDescriptor \<times> (int \<times> int) list" where
  "extDescriptor extSeq extFN integ ddVal r =
     (let updated = (AttachedStructure ddVal \<noteq> None);
          (r, activeUpdated, calls) = updateActiveMask extSeq (ActiveDecodeTargetsBitmask ddVal) r
      in (r,
          \<lparr>Descriptor = Some ddVal, DecodeTargets = ddp_decodeTargets r, StructureUpdated = updated,
           ActiveDecodeTargetsUpdated = (updated \<or> activeUpdated),
           ActiveDecodeTargetsMask = activeDecodeTargetsMask r, Integrity = integ, ExtFrameNum = extFN,
           ExtKeyFrameNum = structureExtFrameNum r, RestartGeneration = ddp_restartGeneration r\<rparr>,
          calls))"

type_synonym 'w parse_result =
  "'w DependencyDescriptorParser \<times> (dp_error + ExtDependencyDescriptor) \<times> VideoLayer \<times> (int \<times> int) list"

definition ddp_Parse ::
  "('w \<Rightarrow> u16 \<Rightarrow> 'w \<times> u64) \<Rightarrow> ('w \<Rightarrow> u16 \<Rightarrow> bool \<Rightarrow> 'w \<times> u64) \<Rightarrow> int \<Rightarrow> u8 list option \<Rightarrow> u16 \<Rightarrow>
   'w DependencyDescriptorParser \<Rightarrow> 'w parse_result option" where
  "ddp_Parse update updateKnown now ddBuf sequenceNumber r =
     (let videoLayer = \<lparr>Spatial = 0, Temporal = 0\<rparr> in
      case ddBuf of
        None \<Rightarrow> Some (r\<lparr>ddNotFoundCount := ddNotFoundCount r + 1\<rparr>, Inl ErrDDExtentionNotFound, videoLayer, [])
      | Some buf \<Rightarrow>
          (case Unmarshal False (ddp_structure r) descriptorStorage buf of
             Inl err \<Rightarrow> if err = GoPanic then None else Some (r, Inl (ErrUnmarshal err), videoLayer, [])
           | Inr (ddVal, _) \<Rightarrow>
               let (r, restart) = detectRestart now r;
                   (w, extSeq) = update (seqWrapAround r) sequenceNumber;
                   r = r\<lparr>seqWrapAround := w\<rparr>;
                   videoLayer = (case FrameDependencies ddVal of
                                   None \<Rightarrow> videoLayer
                                 | Some fd \<Rightarrow> \<lparr>Spatial = SpatialId fd, Temporal = TemporalId fd\<rparr>);
                   (w, extFN) = updateKnown (frameWrapAround r) (FrameNumber ddVal) restart;
                   r = r\<lparr>frameWrapAround := w\<rparr>
               in
                 if extFN < structureChangeExtFrameNum r then Some (r, Inl ErrFrameEarlierThanKeyFrame, videoLayer, [])
                 else do {
                   fc \<leftarrow> fc_AddPacket extSeq extFN ddVal (frameChecker r);
                   integ \<leftarrow> FrameIntegrity fc extFN;
                   let r = r\<lparr>frameChecker := fc\<rparr>;
                   attached \<leftarrow> (case AttachedStructure ddVal of
                                  None \<Rightarrow> Some (Inr r)
                                | Some st \<Rightarrow> attachStructure extFN ddVal st r);
                   case attached of
                     Inl err \<Rightarrow> Some (r, Inl err, videoLayer, [])
                   | Inr r \<Rightarrow>
                       let (r, e, calls) = extDescriptor extSeq extFN integ ddVal r in Some (r, Inr e, videoLayer, calls)
                 }))"

section \<open>What a parsed descriptor has\<close>

definition yields :: "'a reading \<Rightarrow> ('a \<Rightarrow> bool) \<Rightarrow> bool" where
  "yields m Q \<longleftrightarrow> (\<forall>b b' x. m b = (b', Inr x) \<longrightarrow> Q x)"

lemma yields_bind: "yields m Q \<Longrightarrow> (\<And>x. Q x \<Longrightarrow> yields (f x) R) \<Longrightarrow> yields (bindR m f) R"
  unfolding yields_def bindR_def by (force split: prod.splits sum.splits)

lemma yields_any: "(\<And>x. yields (f x) R) \<Longrightarrow> yields (bindR m f) R"
  by (rule yields_bind [of m "\<lambda>_. True"]) (simp_all add: yields_def)

lemma yields_return: "Q x \<Longrightarrow> yields (returnR x) Q"
  by (simp add: yields_def returnR_def)

lemma yields_unless: "yields m Q \<Longrightarrow> yields (\<lambda>b. if c then (g b, Inl e) else m b) Q"
  by (auto simp: yields_def)

lemma yields_if: "yields m Q \<Longrightarrow> yields m' Q \<Longrightarrow> yields (if c then m else m') Q"
  by simp

text \<open>A descriptor parsed so far has a mask whenever it has a structure.\<close>

definition masked :: "DependencyDescriptor \<Rightarrow> bool" where
  "masked d \<longleftrightarrow> AttachedStructure d = None \<or> ActiveDecodeTargetsBitmask d \<noteq> None"

lemma yields_readMandatoryFields:
  "masked (rd_descriptor r) \<Longrightarrow> yields (readMandatoryFields r) (\<lambda>r. masked (rd_descriptor r))"
  unfolding readMandatoryFields_def by (intro yields_any yields_return) (simp add: masked_def)

lemma yields_readExtendedFields:
  "masked (rd_descriptor r) \<Longrightarrow> yields (readExtendedFields r) (\<lambda>r. masked (rd_descriptor r))"
  unfolding readExtendedFields_def Let_def
  by (intro yields_any yields_if yields_return) (simp_all add: masked_def)

lemma yields_readFrameDependencyDefinition:
  assumes "masked (rd_descriptor r)"
  shows "yields (readFrameDependencyDefinition aliased st r)
    (\<lambda>r. masked (rd_descriptor r) \<and> FrameDependencies (rd_descriptor r) \<noteq> None)"
  unfolding readFrameDependencyDefinition_def Let_def
  by (intro yields_unless yields_any yields_return) (use assms in \<open>simp add: masked_def\<close>)

lemma Unmarshal_fields:
  assumes "Unmarshal aliased structure d buf = Inr (d', n)" "masked d"
  shows "FrameDependencies d' \<noteq> None" "masked d'"
proof -
  have mask: "yields (if c then bindR m (\<lambda>v. returnR (r\<lparr>rd_descriptor := (rd_descriptor r)\<lparr>ActiveDecodeTargetsBitmask := Some (g v)\<rparr>\<rparr>))
      else returnR r) (\<lambda>r. masked (rd_descriptor r))" if "masked (rd_descriptor r)" for c m g and r :: DependencyDescriptorReader
    using that by (intro yields_if yields_any yields_return) (simp_all add: masked_def)
  have fin: "yields (\<lambda>b. (b, Inr (rd_descriptor q, BytesRead b))) (\<lambda>(d, n). FrameDependencies d \<noteq> None \<and> masked d)"
    if "masked (rd_descriptor q) \<and> FrameDependencies (rd_descriptor q) \<noteq> None" for q
    using that by (simp add: yields_def)
  have parse: "yields (Parse aliased buf r) (\<lambda>(d, n). FrameDependencies d \<noteq> None \<and> masked d)" if "masked (rd_descriptor r)" for r :: DependencyDescriptorReader
    unfolding Parse_def Let_def
  proof (rule yields_bind [OF yields_readMandatoryFields [OF that]], rule yields_bind [of _ "\<lambda>r. masked (rd_descriptor r)"])
    fix r :: DependencyDescriptorReader assume r: "masked (rd_descriptor r)"
    show "yields (if length buf > 3 then readExtendedFields r else returnR r) (\<lambda>r. masked (rd_descriptor r))"
      using r by (intro yields_if yields_readExtendedFields yields_return)
  next
    fix r :: DependencyDescriptorReader assume r: "masked (rd_descriptor r)"
    let ?r = "case AttachedStructure (rd_descriptor r) of None \<Rightarrow> r | Some st \<Rightarrow> r\<lparr>rd_structure := Some st\<rparr>"
    have r': "masked (rd_descriptor ?r)" using r by (simp split: option.splits)
    show "yields (case rd_structure ?r of None \<Rightarrow> \<lambda>b. (Invalidate b, Inl ErrDDReaderNoStructure)
       | Some st \<Rightarrow> bindR (if activeDecodeTargetsPresentFlag ?r
           then bindR (ReadBits (NumDecodeTargets st)) (\<lambda>bitmask. returnR (?r\<lparr>rd_descriptor :=
                  (rd_descriptor ?r)\<lparr>ActiveDecodeTargetsBitmask := Some (ucast bitmask)\<rparr>\<rparr>))
           else returnR ?r) (\<lambda>r. bindR (readFrameDependencyDefinition aliased st r) (\<lambda>r b.
               (b, Inr (rd_descriptor r, BytesRead b))))) (\<lambda>(d, n). FrameDependencies d \<noteq> None \<and> masked d)"
    proof (cases "rd_structure ?r")
      case None
      then show ?thesis by (simp only: option.case) (simp add: yields_def)
    next
      case (Some st)
      show ?thesis unfolding Some option.case
        by (rule yields_bind [OF mask [OF r']], rule yields_bind [OF yields_readFrameDependencyDefinition], assumption, rule fin)
    qed
  qed
  obtain b' where "Parse aliased buf (NewDependencyDescriptorReader structure d) (NewBitStreamReader buf) = (b', Inr (d', n))"
    using assms(1) unfolding Unmarshal_def by (metis prod.collapse)
  with parse [of "NewDependencyDescriptorReader structure d"] assms(2) show "FrameDependencies d' \<noteq> None" "masked d'"
    by (fastforce simp: yields_def NewDependencyDescriptorReader_def)+
qed

section \<open>Invariant and contract\<close>

definition targets_ok :: "FrameDependencyStructure option \<Rightarrow> DependencyDescriptorDecodeTarget list \<Rightarrow> bool" where
  "targets_ok structure dts \<longleftrightarrow> (case structure of None \<Rightarrow> dts = []
     | Some st \<Rightarrow> structure_wf st \<and> ProcessFrameDependencyStructure st = Some dts)"

definition parser_ok :: "'w DependencyDescriptorParser \<Rightarrow> bool" where
  "parser_ok r \<longleftrightarrow> checker_ok (frameChecker r) \<and> structureChangeExtFrameNum r \<le> structureExtFrameNum r \<and>
     targets_ok (ddp_structure r) (ddp_decodeTargets r)"

text \<open>What the selector relies on: the frame dependencies are there, a structure comes with its decode targets and
  is the key frame of its own frame, and updated decode targets come with their mask.\<close>

definition ext_dd_ok :: "ExtDependencyDescriptor \<Rightarrow> bool" where
  "ext_dd_ok e \<longleftrightarrow> (case Descriptor e of None \<Rightarrow> False
     | Some d \<Rightarrow> FrameDependencies d \<noteq> None \<and> (StructureUpdated e \<longleftrightarrow> AttachedStructure d \<noteq> None) \<and>
         (case AttachedStructure d of None \<Rightarrow> True
          | Some st \<Rightarrow> structure_wf st \<and> ProcessFrameDependencyStructure st = Some (DecodeTargets e) \<and>
              ExtKeyFrameNum e = ExtFrameNum e) \<and>
         (ActiveDecodeTargetsUpdated e \<longrightarrow> ActiveDecodeTargetsBitmask d \<noteq> None))"

definition numbers_bounded :: "('w \<Rightarrow> u16 \<Rightarrow> bool \<Rightarrow> 'w \<times> u64) \<Rightarrow> bool" where
  "numbers_bounded updateKnown \<longleftrightarrow> (\<forall>w n known. unat (snd (updateKnown w n known)) < 2 ^ 63)"

lemma new_checker_ok: "checker_ok (NewFrameIntegrityChecker integrityCheckFrame integrityCheckPkt)"
  unfolding integrityCheckFrame_def integrityCheckPkt_def by (rule checker_ok_new) simp_all

lemma parser_ok_new: "parser_ok (NewDependencyDescriptorParser w enable)"
  using new_checker_ok by (simp add: parser_ok_def targets_ok_def NewDependencyDescriptorParser_def)

lemma parser_ok_restart: "parser_ok (ddp_restart r)"
  using new_checker_ok by (simp add: parser_ok_def targets_ok_def ddp_restart_def)

text \<open>The part of the parser that a later packet can tell: the structure with the frames it starts at.\<close>

definition progress :: "'w DependencyDescriptorParser \<Rightarrow> 'w DependencyDescriptorParser \<Rightarrow> bool" where
  "progress r r' \<longleftrightarrow> ddp_restartGeneration r < ddp_restartGeneration r' \<or>
     (ddp_restartGeneration r = ddp_restartGeneration r' \<and> structureExtFrameNum r \<le> structureExtFrameNum r')"

lemma progress_refl [simp]: "progress r r"
  by (simp add: progress_def)

lemma progress_trans: "progress a b \<Longrightarrow> progress b c \<Longrightarrow> progress a c"
  by (auto simp: progress_def)

lemma detectRestart_ok:
  assumes "parser_ok r" "detectRestart now r = (r', b)"
  shows "parser_ok r'" "progress r r'"
proof -
  have upd: "parser_ok (r\<lparr>lastPacketAt := t\<rparr>) = parser_ok r" for r t by (simp add: parser_ok_def)
  show "parser_ok r'" "progress r r'"
    using assms parser_ok_restart upd
    by (auto simp: detectRestart_def Let_def progress_def ddp_restart_def split: if_splits)
qed

lemma attachStructure_ok:
  assumes r: "parser_ok r" and st: "structure_wf st"
  shows "(\<exists>err. attachStructure e d st r = Some (Inl err)) \<or>
    (\<exists>r'. attachStructure e d st r = Some (Inr r') \<and> parser_ok r' \<and> progress r r' \<and> structureExtFrameNum r' = e \<and>
       ddp_restartGeneration r' = ddp_restartGeneration r \<and> ProcessFrameDependencyStructure st = Some (ddp_decodeTargets r'))"
proof -
  obtain dts where "ProcessFrameDependencyStructure st = Some dts" using ProcessFrameDependencyStructure_total [OF st] by blast
  then show ?thesis
    using r st by (auto simp: attachStructure_def Let_def parser_ok_def targets_ok_def progress_def split: option.splits)
qed

lemma updateActiveMask_ok:
  assumes "updateActiveMask q m r = (r', b, calls)"
  shows "parser_ok r \<Longrightarrow> parser_ok r'" "structureExtFrameNum r' = structureExtFrameNum r"
    "ddp_restartGeneration r' = ddp_restartGeneration r" "ddp_decodeTargets r' = ddp_decodeTargets r" "b \<Longrightarrow> m \<noteq> None"
  using assms by (auto simp: updateActiveMask_def Let_def parser_ok_def split: option.splits if_splits)

lemma extDescriptor_ok:
  assumes e: "extDescriptor q n b d r = (r', e, calls)" and d: "parser_ok r" "FrameDependencies d \<noteq> None" "masked d"
  shows "parser_ok r'" "structureExtFrameNum r' = structureExtFrameNum r" "ddp_restartGeneration r' = ddp_restartGeneration r"
    "(\<And>st. AttachedStructure d = Some st \<Longrightarrow> structure_wf st \<and> structureExtFrameNum r = n \<and>
        ProcessFrameDependencyStructure st = Some (ddp_decodeTargets r)) \<Longrightarrow> ext_dd_ok e"
    "RestartGeneration e = ddp_restartGeneration r'" "ExtKeyFrameNum e = structureExtFrameNum r'"
proof -
  obtain u where u: "updateActiveMask q (ActiveDecodeTargetsBitmask d) r = (r', u, calls)"
    using e by (auto simp: extDescriptor_def Let_def split: prod.splits)
  note m = updateActiveMask_ok [OF u]
  show "parser_ok r'" "structureExtFrameNum r' = structureExtFrameNum r" "ddp_restartGeneration r' = ddp_restartGeneration r"
    using m d(1) by simp_all
  show "RestartGeneration e = ddp_restartGeneration r'" "ExtKeyFrameNum e = structureExtFrameNum r'"
    using e u by (auto simp: extDescriptor_def Let_def)
  assume "\<And>st. AttachedStructure d = Some st \<Longrightarrow> structure_wf st \<and> structureExtFrameNum r = n \<and>
        ProcessFrameDependencyStructure st = Some (ddp_decodeTargets r)"
  then show "ext_dd_ok e" using e u d m by (auto simp: extDescriptor_def Let_def ext_dd_ok_def masked_def split: option.splits)
qed

lemma Unmarshal_storage:
  assumes "parser_ok r"
  obtains err where "Unmarshal False (ddp_structure r) descriptorStorage buf = Inl err" "err \<noteq> GoPanic"
  | d n where "Unmarshal False (ddp_structure r) descriptorStorage buf = Inr (d, n)" "FrameDependencies d \<noteq> None" "masked d"
      "\<And>st. AttachedStructure d = Some st \<Longrightarrow> structure_wf st"
proof -
  have st: "structure_wf st" if "ddp_structure r = Some st" for st using assms that by (auto simp: parser_ok_def targets_ok_def)
  have stored: "parsed_ok descriptorStorage" "masked descriptorStorage"
    by (simp_all add: parsed_ok_def masked_def descriptorStorage_def)
  have "(\<exists>err. Unmarshal False (ddp_structure r) descriptorStorage buf = Inl err \<and> err \<noteq> GoPanic) \<or>
    (\<exists>d' n. Unmarshal False (ddp_structure r) descriptorStorage buf = Inr (d', n) \<and> parsed_ok d')"
    by (rule Unmarshal_returns [OF st stored(1)])
  then show thesis using that Unmarshal_fields [OF _ stored(2)] by (fastforce simp: parsed_ok_def)
qed

lemma ddp_Parse_ok:
  assumes r: "parser_ok r" and nb: "numbers_bounded updateKnown"
  shows "\<exists>r' res lyr calls. ddp_Parse update updateKnown now buf sn r = Some (r', res, lyr, calls) \<and> parser_ok r' \<and> progress r r' \<and>
    (\<forall>e. res = Inr e \<longrightarrow> ext_dd_ok e \<and> RestartGeneration e = ddp_restartGeneration r' \<and> ExtKeyFrameNum e = structureExtFrameNum r')"
proof (cases buf)
  case None
  then show ?thesis using r by (simp add: ddp_Parse_def progress_def parser_ok_def)
next
  case (Some bytes)
  show ?thesis
  proof (cases rule: Unmarshal_storage [OF r, of bytes])
    case (1 err)
    then show ?thesis using Some r by (simp add: ddp_Parse_def)
  next
    case (2 d n)
    obtain r1 restart where r1: "detectRestart now r = (r1, restart)" by fastforce
    obtain w extSeq where w: "update (seqWrapAround r1) sn = (w, extSeq)" by fastforce
    obtain w' extFN where w': "updateKnown (frameWrapAround r1) (FrameNumber d) restart = (w', extFN)" by fastforce
    have fn: "unat extFN < 2 ^ 63" using nb w' unfolding numbers_bounded_def by (metis snd_conv)
    let ?r = "r1\<lparr>seqWrapAround := w, frameWrapAround := w'\<rparr>"
    have ok: "parser_ok ?r" "progress r ?r" using detectRestart_ok [OF r r1] by (simp_all add: parser_ok_def progress_def)
    obtain fc b where fc: "fc_AddPacket extSeq extFN d (frameChecker ?r) = Some fc" "checker_ok fc" "FrameIntegrity fc extFN = Some b"
      using fc_AddPacket_ok [OF _ fn, of "frameChecker ?r" extSeq d] FrameIntegrity_returns ok(1) unfolding parser_ok_def by blast
    let ?rf = "?r\<lparr>frameChecker := fc\<rparr>"
    have okf: "parser_ok ?rf" "progress r ?rf" using ok fc(2) by (simp_all add: parser_ok_def progress_def)
    let ?l = "case FrameDependencies d of None \<Rightarrow> \<lparr>Spatial = 0, Temporal = 0\<rparr> | Some fd \<Rightarrow> \<lparr>Spatial = SpatialId fd, Temporal = TemporalId fd\<rparr>"
    have run: "ddp_Parse update updateKnown now buf sn r =
      (if extFN < structureChangeExtFrameNum ?r then Some (?r, Inl ErrFrameEarlierThanKeyFrame, ?l, [])
       else (case AttachedStructure d of None \<Rightarrow> Some (Inr ?rf) | Some st \<Rightarrow> attachStructure extFN d st ?rf) \<bind>
         (\<lambda>x. case x of Inl err \<Rightarrow> Some (?rf, Inl err, ?l, [])
            | Inr r \<Rightarrow> (case extDescriptor extSeq extFN b d r of (r, e, calls) \<Rightarrow> Some (r, Inr e, ?l, calls))))"
      using Some 2(1) r1 w w' fc(1,3) by (simp add: ddp_Parse_def Let_def)
    have fin: ?thesis if a: "\<not> extFN < structureChangeExtFrameNum ?r"
      "(case AttachedStructure d of None \<Rightarrow> Some (Inr ?rf) | Some st \<Rightarrow> attachStructure extFN d st ?rf) = Some (Inr r2)"
      "parser_ok r2" "progress r r2"
      "\<And>st. AttachedStructure d = Some st \<Longrightarrow> structureExtFrameNum r2 = extFN \<and> ProcessFrameDependencyStructure st = Some (ddp_decodeTargets r2)" for r2
    proof -
      obtain r3 e calls where r3: "extDescriptor extSeq extFN b d r2 = (r3, e, calls)" by (metis prod_cases3)
      note m = extDescriptor_ok [OF r3 a(3) 2(2,3)]
      have "ext_dd_ok e" by (rule m(4)) (use 2(4) a(5) in auto)
      moreover have "progress r r3" using a(4) m(2,3) by (simp add: progress_def)
      ultimately show ?thesis
        unfolding run a(2) if_not_P [OF a(1)] bind.simps sum.case r3 prod.case using m(1,5,6) by simp
    qed
    show ?thesis
    proof (cases "extFN < structureChangeExtFrameNum ?r")
      case True
      then show ?thesis unfolding run using ok by simp
    next
      case False
      show ?thesis
      proof (cases "AttachedStructure d")
        case None
        then show ?thesis using fin [OF False _ okf] by simp
      next
        case (Some st)
        from attachStructure_ok [OF okf(1) 2(4) [OF Some], of extFN d] show ?thesis
        proof (elim disjE exE conjE)
          fix err assume "attachStructure extFN d st ?rf = Some (Inl err)"
          then show ?thesis unfolding run using False Some okf by simp
        next
          fix r2 assume a: "attachStructure extFN d st ?rf = Some (Inr r2)" "parser_ok r2" "progress ?rf r2"
            "structureExtFrameNum r2 = extFN" "ProcessFrameDependencyStructure st = Some (ddp_decodeTargets r2)"
          show ?thesis by (rule fin [OF False _ a(2) progress_trans [OF okf(2) a(3)]]) (use Some a in auto)
        qed
      qed
    qed
  qed
qed
section \<open>Streams of packets\<close>

text \<open>Packets in the order they come: the time, the extension found and the sequence number. The results are those
  of the packets that were not dropped.\<close>

fun parseAll ::
  "('w \<Rightarrow> u16 \<Rightarrow> 'w \<times> u64) \<Rightarrow> ('w \<Rightarrow> u16 \<Rightarrow> bool \<Rightarrow> 'w \<times> u64) \<Rightarrow> (int \<times> u8 list option \<times> u16) list \<Rightarrow>
   'w DependencyDescriptorParser \<Rightarrow> ('w DependencyDescriptorParser \<times> ExtDependencyDescriptor list) option" where
  "parseAll update updateKnown [] r = Some (r, [])"
| "parseAll update updateKnown ((now, buf, sn) # ps) r =
     do {
       (r, res, _) \<leftarrow> ddp_Parse update updateKnown now buf sn r;
       (r, es) \<leftarrow> parseAll update updateKnown ps r;
       Some (r, (case res of Inl _ \<Rightarrow> es | Inr e \<Rightarrow> e # es))
     }"

definition not_before :: "ExtDependencyDescriptor \<Rightarrow> ExtDependencyDescriptor \<Rightarrow> bool" where
  "not_before a b \<longleftrightarrow> RestartGeneration a < RestartGeneration b \<or>
     (RestartGeneration a = RestartGeneration b \<and> ExtKeyFrameNum a \<le> ExtKeyFrameNum b)"

lemma parseAll_ok:
  assumes nb: "numbers_bounded updateKnown"
  shows "parser_ok r \<Longrightarrow> \<exists>r' es. parseAll update updateKnown ps r = Some (r', es) \<and> parser_ok r' \<and>
    (\<forall>e \<in> set es. ext_dd_ok e) \<and> sorted_wrt not_before es \<and>
    (\<forall>e \<in> set es. ddp_restartGeneration r < RestartGeneration e \<or>
       (ddp_restartGeneration r = RestartGeneration e \<and> structureExtFrameNum r \<le> ExtKeyFrameNum e))"
proof (induction ps arbitrary: r)
  case (Cons p ps)
  obtain now buf sn where p: "p = (now, buf, sn)" by (cases p)
  obtain r1 res lyr calls where r1: "ddp_Parse update updateKnown now buf sn r = Some (r1, res, lyr, calls)" "parser_ok r1" "progress r r1"
    "\<And>e. res = Inr e \<Longrightarrow> ext_dd_ok e \<and> RestartGeneration e = ddp_restartGeneration r1 \<and> ExtKeyFrameNum e = structureExtFrameNum r1"
    using ddp_Parse_ok [OF Cons.prems nb, of update now buf sn] by blast
  obtain r' es where es: "parseAll update updateKnown ps r1 = Some (r', es)" "parser_ok r'" "\<forall>e \<in> set es. ext_dd_ok e"
    "sorted_wrt not_before es" "\<forall>e \<in> set es. ddp_restartGeneration r1 < RestartGeneration e \<or>
       (ddp_restartGeneration r1 = RestartGeneration e \<and> structureExtFrameNum r1 \<le> ExtKeyFrameNum e)"
    using Cons.IH [OF r1(2)] by blast
  have later: "\<forall>e \<in> set es. ddp_restartGeneration r < RestartGeneration e \<or>
       (ddp_restartGeneration r = RestartGeneration e \<and> structureExtFrameNum r \<le> ExtKeyFrameNum e)"
    using es(5) r1(3) by (fastforce simp: progress_def)
  show ?case
  proof (cases res)
    case (Inl err)
    then show ?thesis using r1(1) es later p by simp
  next
    case (Inr e)
    have "sorted_wrt not_before (e # es)" using es(4,5) r1(4) [OF Inr] by (auto simp: not_before_def)
    then show ?thesis using Inr r1(1,3) r1(4) [OF Inr] es later p by (auto simp: progress_def)
  qed
qed simp

section \<open>Properties\<close>

text \<open>C26. The parser is safe on any stream. Whatever bytes the packets carry, whenever they come, and however often the
  stream restarts, a new parser never panics as long as extended frame numbers stay below \<open>2 ^ 63\<close>; and each
  descriptor it hands on has the fields the layer selector dereferences: frame dependencies, a well-formed
  structure with its own decode targets exactly when it announces an update, and a mask with every change of the
  active decode targets.\<close>

theorem Parse_stream_safe:
  assumes "numbers_bounded updateKnown"
  shows "\<exists>r es. parseAll update updateKnown ps (NewDependencyDescriptorParser w enable) = Some (r, es) \<and>
    parser_ok r \<and> (\<forall>e \<in> set es. ext_dd_ok e)"
  using parseAll_ok [OF assms parser_ok_new] by blast

text \<open>C27. Key frames never go back. Along the descriptors handed on, the restart generation never falls, and within a
  generation neither does the number of the key frame a frame depends on, also when key frames come late or
  out of order.\<close>

theorem Parse_key_frames_monotone:
  assumes "numbers_bounded updateKnown"
  shows "\<exists>r es. parseAll update updateKnown ps (NewDependencyDescriptorParser w enable) = Some (r, es) \<and>
    sorted_wrt (\<lambda>a b. RestartGeneration a < RestartGeneration b \<or>
      (RestartGeneration a = RestartGeneration b \<and> ExtKeyFrameNum a \<le> ExtKeyFrameNum b)) es"
  using parseAll_ok [OF assms parser_ok_new] unfolding not_before_def by blast

text \<open>A tracker for the witnesses: the number nearest to the highest one with the given low bits.\<close>

definition nearest :: "u64 \<Rightarrow> u16 \<Rightarrow> u64 \<times> u64" where
  "nearest w n = (let e = (w + scast (n - ucast w)) AND mask 62 in (max w e, e))"

lemma nearest_bounded: "numbers_bounded (\<lambda>w n known. nearest w n)"
proof -
  have "unat (x AND mask 62) < 2 ^ 63" for x :: u64
  proof -
    have "x AND mask 62 \<le> mask 62" by (rule word_and_le1)
    then show ?thesis by (simp add: word_le_nat_alt mask_eq_exp_minus_1)
  qed
  then show ?thesis by (simp add: numbers_bounded_def nearest_def Let_def)
qed

text \<open>The first packet of a key frame with the example structure, and a packet of the frame behind it.\<close>

definition keyFrameBytes :: "u8 list" where
  "keyFrameBytes = [189, 0, 7, 215, 129, 127, 24, 160, 136, 96, 79, 224, 44, 234, 88, 149, 128]"

definition deltaFrameBytes :: "u8 list" where
  "deltaFrameBytes = [252, 0, 8]"

lemma example_stream:
  "map_option (map (\<lambda>e. (ExtFrameNum e, ExtKeyFrameNum e, StructureUpdated e)) \<circ> snd)
     (parseAll nearest (\<lambda>w n known. nearest w n) [(0, Some keyFrameBytes, 100), (1, Some deltaFrameBytes, 101)]
       (NewDependencyDescriptorParser 0 True)) = Some [(7, 7, True), (8, 7, False)]"
  by code_simp

theorem Parse_stream_safe_witness:
  "\<exists>r a b. parseAll nearest (\<lambda>w n known. nearest w n) [(0, Some keyFrameBytes, 100), (1, Some deltaFrameBytes, 101)]
     (NewDependencyDescriptorParser 0 True) = Some (r, [a, b]) \<and> ext_dd_ok a \<and> ext_dd_ok b \<and> StructureUpdated a"
proof -
  obtain r es where es: "parseAll nearest (\<lambda>w n known. nearest w n) [(0, Some keyFrameBytes, 100), (1, Some deltaFrameBytes, 101)]
     (NewDependencyDescriptorParser 0 True) = Some (r, es)" "\<forall>e \<in> set es. ext_dd_ok e"
    using Parse_stream_safe [OF nearest_bounded] by blast
  with example_stream show ?thesis by auto
qed

theorem Parse_key_frames_monotone_witness:
  "\<exists>r a b. parseAll nearest (\<lambda>w n known. nearest w n) [(0, Some keyFrameBytes, 100), (1, Some deltaFrameBytes, 101)]
     (NewDependencyDescriptorParser 0 True) = Some (r, [a, b]) \<and> ExtKeyFrameNum a = 7 \<and>
     (RestartGeneration a < RestartGeneration b \<or> (RestartGeneration a = RestartGeneration b \<and> ExtKeyFrameNum a \<le> ExtKeyFrameNum b))"
proof -
  obtain r es where es: "parseAll nearest (\<lambda>w n known. nearest w n) [(0, Some keyFrameBytes, 100), (1, Some deltaFrameBytes, 101)]
     (NewDependencyDescriptorParser 0 True) = Some (r, es)"
    "sorted_wrt (\<lambda>a b. RestartGeneration a < RestartGeneration b \<or>
      (RestartGeneration a = RestartGeneration b \<and> ExtKeyFrameNum a \<le> ExtKeyFrameNum b)) es"
    using Parse_key_frames_monotone [OF nearest_bounded] by blast
  with example_stream show ?thesis by auto
qed

end
