(* ===== verification/DDSelector.thy ===== *)
theory DDSelector
  imports FrameChain LayerSelector DDParser DDWriter
begin

text \<open>
  The layer selector for streams with dependency descriptors: \<open>dependencydescriptor.go\<close> and
  \<open>videolayerselector.go\<close> of \<open>pkg/sfu/videolayerselector\<close>.

  The selector holds the decision cache, the store of the chains it ever made, the addresses of the current ones,
  and the decode targets. \<open>Select\<close> is cut at its early returns: \<open>Select\<close> up to the chains, \<open>selectTarget\<close> up to the
  references, \<open>forwardFrame\<close> behind them. The copy of the descriptor that is marshalled (\<open>ddClone\<close>) is local here: it
  is storage only. What a failed marshalling leaves in the result's buffer is not kept. Locks guard decode targets
  against readers in other goroutines and are left out, as is logging. A panic of the marshaller is recovered, as
  in the source; every other one is \<^term>\<open>None\<close>.

  Lemmas: fed by the parser, the selector never panics, its chains stay registered, a frame is selected only when a
  decode target within the target layer is intact, carries the frame, and no direct reference was dropped; and
  rolling back undoes a switch.
\<close>

section \<open>Model\<close>

definition decisionCacheMaxElements :: u64 where
  "decisionCacheMaxElements = 256"

definition decisionCacheNackEntries :: u64 where
  "decisionCacheNackEntries = 80"

record DDSelector =
  dds_base :: Base
  decisions :: SelectorDecisionCache
  previousActiveDecodeTargetsBitmask :: "u32 option"
  activeDecodeTargetsBitmask :: "u32 option"
  dds_structure :: "FrameDependencyStructure option"
  dds_extKeyFrameNum :: u64
  keyFrameValid :: bool
  dds_chains :: "nat list"
  dds_store :: chain_store
  dds_decodeTargets :: "DecodeTarget list"
  fnWrapper :: FrameNumberWrapper
  dds_restartGeneration :: int

text \<open>With a new base, or the base of another selector.\<close>

definition NewDependencyDescriptorFromOther :: "Base \<Rightarrow> DDSelector" where
  "NewDependencyDescriptorFromOther b =
     \<lparr>dds_base = b, decisions = NewSelectorDecisionCache 256 80, previousActiveDecodeTargetsBitmask = None,
      activeDecodeTargetsBitmask = None, dds_structure = None, dds_extKeyFrameNum = 0, keyFrameValid = False, dds_chains = [],
      dds_store = [], dds_decodeTargets = [], fnWrapper = \<lparr>fw_offset = 0, fw_last = 0, fw_inited = False\<rparr>,
      dds_restartGeneration = 0\<rparr>"

definition NewDependencyDescriptor :: DDSelector where
  "NewDependencyDescriptor = (NewDependencyDescriptorFromOther NewBase)\<lparr>decisions :=
     NewSelectorDecisionCache decisionCacheMaxElements decisionCacheNackEntries\<rparr>"

definition marshalDependencyDescriptorExtension ::
  "FrameDependencyStructure option \<Rightarrow> DependencyDescriptor \<Rightarrow> VideoLayerSelectorResult \<Rightarrow> dd_error + VideoLayerSelectorResult" where
  "marshalDependencyDescriptorExtension structure desc v =
     (case MarshalTo structure desc (DDBytes v) of
        Inr (bytes, n) \<Rightarrow> Inr (v\<lparr>DDBytes := bytes, DDBytesLen := n\<rparr>)
      | Inl err \<Rightarrow>
          if err \<noteq> ErrBufferTooSmall then Inl err
          else (case Marshal structure desc of
                  Inl err \<Rightarrow> Inl err
                | Inr bytes \<Rightarrow> Inr (v\<lparr>DDBytesSpill := bytes\<rparr>)))"

definition addDecision :: "selectorDecision \<Rightarrow> u64 \<Rightarrow> DDSelector \<Rightarrow> DDSelector option" where
  "addDecision sd n d =
     do {
       (cache, calls) \<leftarrow> addEntity (decisions d) n sd;
       Some (d\<lparr>decisions := cache, dds_store := deliver calls (dds_store d)\<rparr>)
     }"

definition invalidateKeyFrame :: "DDSelector \<Rightarrow> DDSelector" where
  "invalidateKeyFrame d = d\<lparr>keyFrameValid := False, dds_chains := [], dds_decodeTargets := []\<rparr>"

definition dds_restart :: "int \<Rightarrow> DDSelector \<Rightarrow> DDSelector" where
  "dds_restart generation d =
     (let d = d\<lparr>dds_restartGeneration := generation\<rparr>;
          d = invalidateKeyFrame d
      in d\<lparr>decisions := NewSelectorDecisionCache decisionCacheMaxElements decisionCacheNackEntries\<rparr>)"

fun newTargets ::
  "FrameDependencyStructure \<Rightarrow> nat list \<Rightarrow> DependencyDescriptorDecodeTarget list \<Rightarrow> DecodeTarget list option" where
  "newTargets structure addrs [] = Some []"
| "newTargets structure addrs (dt # dts) =
     do {
       chain \<leftarrow> (if NumChains structure > 0
                 then if 0 \<le> Target dt \<and> Target dt < int (length (DecodeTargetProtectedByChain structure))
                      then let idx = DecodeTargetProtectedByChain structure ! nat (Target dt)
                           in if idx \<ge> int (length addrs) then Some None
                              else if idx < 0 then None
                              else Some (Some (addrs ! nat idx))
                      else None
                 else Some None);
       rest \<leftarrow> newTargets structure addrs dts;
       Some (NewDecodeTarget dt chain # rest)
     }"

definition updateDependencyStructure ::
  "FrameDependencyStructure \<Rightarrow> DependencyDescriptorDecodeTarget list \<Rightarrow> u64 \<Rightarrow> DDSelector \<Rightarrow> DDSelector option" where
  "updateDependencyStructure structure dts extFrameNum d =
     (let d = d\<lparr>dds_structure := Some structure, dds_extKeyFrameNum := extFrameNum, keyFrameValid := True\<rparr>;
          numChains = nat (NumChains structure);
          store = dds_store d;
          d = d\<lparr>dds_chains := map (\<lambda>i. length store + i) [0..<numChains],
                dds_store := store @ map NewFrameChain [0..<numChains]\<rparr>
      in do {
           targets \<leftarrow> newTargets structure (dds_chains d) dts;
           Some (d\<lparr>dds_decodeTargets := targets\<rparr>)
         })"

fun targetsUpdateActive :: "u32 \<Rightarrow> DecodeTarget list \<Rightarrow> chain_store \<Rightarrow> DecodeTarget list \<times> chain_store" where
  "targetsUpdateActive bitmask [] store = ([], store)"
| "targetsUpdateActive bitmask (dt # dts) store =
     (let (dt, store) = dt_UpdateActive bitmask dt store;
          (dts, store) = targetsUpdateActive bitmask dts store
      in (dt # dts, store))"

definition updateActiveDecodeTargets :: "u32 \<Rightarrow> DDSelector \<Rightarrow> DDSelector" where
  "updateActiveDecodeTargets bitmask d =
     (let store = foldl (\<lambda>st a. updateChain a BeginUpdateActive st) (dds_store d) (dds_chains d);
          (targets, store) = targetsUpdateActive bitmask (dds_decodeTargets d) store;
          store = foldl (\<lambda>st a. updateChain a EndUpdateActive st) store (dds_chains d)
      in d\<lparr>dds_decodeTargets := targets, dds_store := store\<rparr>)"

text \<open>Every chain sees the frame, in order.\<close>

fun chainsOnFrame ::
  "u64 \<Rightarrow> FrameDependencyTemplate \<Rightarrow> nat list \<Rightarrow> chain_store \<Rightarrow> SelectorDecisionCache \<Rightarrow> (chain_store \<times> SelectorDecisionCache) option" where
  "chainsOnFrame n fd [] store cache = Some (store, cache)"
| "chainsOnFrame n fd (a # as) store cache =
     (if a < length store
      then do {
        (c, cache, _) \<leftarrow> fch_OnFrame a n fd (store ! a) cache;
        chainsOnFrame n fd as (store[a := c]) cache
      }
      else None)"

text \<open>The highest decode target within the target layer that is active and intact, with its indication; \<^term>\<open>Inl ()\<close> is the
  detection error.\<close>

fun findDecodeTarget ::
  "VideoLayer \<Rightarrow> chain_store \<Rightarrow> FrameDependencyTemplate \<Rightarrow> DecodeTarget list \<Rightarrow>
   unit + (DependencyDescriptorDecodeTarget \<times> int) option" where
  "findDecodeTarget target store fd [] = Inr None"
| "findDecodeTarget target store fd (dt # dts) =
     (if \<not> dt_active dt \<or> Spatial (Layer (dt_target dt)) > Spatial target \<or> Temporal (Layer (dt_target dt)) > Temporal target
      then findDecodeTarget target store fd dts
      else case dt_OnFrame store fd dt of
             Inl e \<Rightarrow> Inl e
           | Inr r \<Rightarrow> if TargetValid r then Inr (Some (dt_target dt, DTI r)) else findDecodeTarget target store fd dts)"

fun isDecodable :: "SelectorDecisionCache \<Rightarrow> u64 \<Rightarrow> int list \<Rightarrow> bool option" where
  "isDecodable cache n [] = Some True"
| "isDecodable cache n (fdiff # fdiffs) =
     (if fdiff = 0 then isDecodable cache n fdiffs
      else do {
        (sd, _) \<leftarrow> GetDecision cache (n - word_of_int fdiff);
        if sd = selectorDecisionDropped then Some False else isDecodable cache n fdiffs
      })"

definition dropFrame :: "u64 \<Rightarrow> VideoLayerSelectorResult \<Rightarrow> DDSelector \<Rightarrow> (DDSelector \<times> VideoLayerSelectorResult) option" where
  "dropFrame n result d = do { d \<leftarrow> addDecision selectorDecisionDropped n d; Some (d, result) }"

text \<open>Switching to the layer of the decode target chosen.\<close>

definition switchLayer ::
  "ExtDependencyDescriptor \<Rightarrow> VideoLayer \<Rightarrow> VideoLayerSelectorResult \<Rightarrow> DDSelector \<Rightarrow> DDSelector \<times> VideoLayerSelectorResult" where
  "switchLayer ddwdt lyr result d =
     (let b = dds_base d
      in if currentLayer b \<noteq> lyr
         then
           let result = result\<lparr>IsSwitching := True\<rparr>;
               result = (if \<not> IsValid (currentLayer b) then result\<lparr>IsResuming := True\<rparr> else result);
               b = b\<lparr>previousLayer := currentLayer b, currentLayer := lyr\<rparr>;
               d = d\<lparr>dds_base := b, previousActiveDecodeTargetsBitmask := activeDecodeTargetsBitmask d,
                     activeDecodeTargetsBitmask := Some (GetActiveDecodeTargetBitmask (currentLayer b) (DecodeTargets ddwdt))\<rparr>
           in (d, result\<lparr>IsRelevant := True\<rparr>)
         else (d, result))"

definition forwardFrame ::
  "ExtPacket \<Rightarrow> ExtDependencyDescriptor \<Rightarrow> DependencyDescriptor \<Rightarrow> FrameDependencyTemplate \<Rightarrow> VideoLayer \<Rightarrow>
   VideoLayerSelectorResult \<Rightarrow> DDSelector \<Rightarrow> (DDSelector \<times> VideoLayerSelectorResult) option" where
  "forwardFrame extPkt ddwdt desc fd lyr result d =
     (let (d, result) = switchLayer ddwdt lyr result d;
          (fw, fn) = fw_UpdateAndGet (ExtFrameNum ddwdt) (StructureUpdated ddwdt) (fnWrapper d);
          d = d\<lparr>fnWrapper := fw\<rparr>;
          out = desc\<lparr>FrameNumber := ucast fn\<rparr>;
          out = (if AttachedStructure desc = None \<and> activeDecodeTargetsBitmask d \<noteq> None
                 then out\<lparr>ActiveDecodeTargetsBitmask := activeDecodeTargetsBitmask d\<rparr> else out)
      in case marshalDependencyDescriptorExtension (dds_structure d) out result of
           Inl _ \<Rightarrow> dropFrame (ExtFrameNum ddwdt) result d
         | Inr result \<Rightarrow>
             do {
               d \<leftarrow> (if Integrity ddwdt then addDecision selectorDecisionForwarded (ExtFrameNum ddwdt) d else Some d);
               Some (d, result\<lparr>RTPMarker := (Marker extPkt \<or> (LastPacketInFrame desc \<and> Spatial (currentLayer (dds_base d)) = SpatialId fd)),
                               IsSelected := True\<rparr>)
             })"

definition selectTarget ::
  "ExtPacket \<Rightarrow> ExtDependencyDescriptor \<Rightarrow> DependencyDescriptor \<Rightarrow> FrameDependencyTemplate \<Rightarrow>
   VideoLayerSelectorResult \<Rightarrow> DDSelector \<Rightarrow> (DDSelector \<times> VideoLayerSelectorResult) option" where
  "selectTarget extPkt ddwdt desc fd result d =
     (case findDecodeTarget (targetLayer (dds_base d)) (dds_store d) fd (dds_decodeTargets d) of
        Inl _ \<Rightarrow> dropFrame (ExtFrameNum ddwdt) result d
      | Inr None \<Rightarrow> dropFrame (ExtFrameNum ddwdt) result d
      | Inr (Some (highest, dti)) \<Rightarrow>
          if Target highest < 0 \<or> dti = DecodeTargetNotPresent then dropFrame (ExtFrameNum ddwdt) result d
          else do {
            decodable \<leftarrow> isDecodable (decisions d) (ExtFrameNum ddwdt) (sl (FrameDiffs fd));
            if \<not> decodable then dropFrame (ExtFrameNum ddwdt) result d
            else forwardFrame extPkt ddwdt desc fd (Layer highest) result d
          })"

definition Select :: "ExtPacket \<Rightarrow> DDSelector \<Rightarrow> (DDSelector \<times> VideoLayerSelectorResult) option" where
  "Select extPkt d =
     (let result = (if IsValid (currentLayer (dds_base d)) then zeroResult\<lparr>IsRelevant := True\<rparr> else zeroResult) in
      case ep_DependencyDescriptor extPkt of
        None \<Rightarrow> Some (d, result)
      | Some ddwdt \<Rightarrow>
          do {
            let d = (if RestartGeneration ddwdt > dds_restartGeneration d then dds_restart (RestartGeneration ddwdt) d else d);
            desc \<leftarrow> Descriptor ddwdt;
            fd \<leftarrow> FrameDependencies desc;
            if \<not> keyFrameValid d \<and> AttachedStructure desc = None then Some (d, result)
            else do {
              (sd, err) \<leftarrow> GetDecision (decisions d) (ExtFrameNum ddwdt);
              if err \<or> sd = selectorDecisionDropped then Some (d, result)
              else do {
                d \<leftarrow> (if StructureUpdated ddwdt
                      then do { st \<leftarrow> AttachedStructure desc;
                                updateDependencyStructure st (DecodeTargets ddwdt) (ExtFrameNum ddwdt) d }
                      else Some d);
                if ExtKeyFrameNum ddwdt \<noteq> dds_extKeyFrameNum d
                then do { d \<leftarrow> addDecision selectorDecisionDropped (ExtFrameNum ddwdt) d; Some (invalidateKeyFrame d, result) }
                else do {
                  d \<leftarrow> (if ActiveDecodeTargetsUpdated ddwdt
                        then do { bitmask \<leftarrow> ActiveDecodeTargetsBitmask desc; Some (updateActiveDecodeTargets bitmask d) }
                        else Some d);
                  if length (ChainDiffs fd) \<noteq> length (dds_chains d) then dropFrame (ExtFrameNum ddwdt) result d
                  else do {
                    (store, cache) \<leftarrow> chainsOnFrame (ExtFrameNum ddwdt) fd (dds_chains d) (dds_store d) (decisions d);
                    selectTarget extPkt ddwdt desc fd result (d\<lparr>dds_store := store, decisions := cache\<rparr>)
                  }
                }
              }
            }
          })"

definition dds_Rollback :: "DDSelector \<Rightarrow> DDSelector" where
  "dds_Rollback d = d\<lparr>activeDecodeTargetsBitmask := previousActiveDecodeTargetsBitmask d, dds_base := base_Rollback (dds_base d)\<rparr>"

definition dds_CheckSync :: "DDSelector \<Rightarrow> bool \<times> int" where
  "dds_CheckSync d =
     (let lyr = requestSpatial (dds_base d)
      in if \<not> IsValid (currentLayer (dds_base d)) \<or> \<not> keyFrameValid d then (False, lyr)
         else (list_ex (\<lambda>dt. dt_active dt \<and> Spatial (Layer (dt_target dt)) = lyr \<and> dt_Valid (dds_store d) dt) (dds_decodeTargets d), lyr))"

section \<open>Invariant\<close>

text \<open>The cache is sound, the chains in use exist and are registered for what they await, and decode targets point to
  chains in use.\<close>

definition target_ok :: "nat set \<Rightarrow> DecodeTarget \<Rightarrow> bool" where
  "target_ok live dt \<longleftrightarrow> 0 \<le> Target (dt_target dt) \<and> (case dt_chain dt of None \<Rightarrow> True | Some a \<Rightarrow> a \<in> live)"

definition selector_ok :: "DDSelector \<Rightarrow> bool" where
  "selector_ok d \<longleftrightarrow> cache_ok (decisions d) \<and> chain_waits (set (dds_chains d)) (fns (decisions d)) (dds_store d) \<and>
     (\<forall>a \<in> set (dds_chains d). a < length (dds_store d)) \<and> (\<forall>dt \<in> set (dds_decodeTargets d). target_ok (set (dds_chains d)) dt) \<and>
     sorted_wrt descends (map dt_target (dds_decodeTargets d))"

lemmas selector_okD = selector_ok_def [THEN iffD1, THEN conjunct1]
  selector_ok_def [THEN iffD1, THEN conjunct2, THEN conjunct1]
  selector_ok_def [THEN iffD1, THEN conjunct2, THEN conjunct2, THEN conjunct1]
  selector_ok_def [THEN iffD1, THEN conjunct2, THEN conjunct2, THEN conjunct2, THEN conjunct1]
  selector_ok_def [THEN iffD1, THEN conjunct2, THEN conjunct2, THEN conjunct2, THEN conjunct2]

lemma cache_ok_new: "cache_ok (NewSelectorDecisionCache 256 80)"
  by (simp add: cache_ok_def sc_wf_def NewSelectorDecisionCache_def)

lemma chain_waits_none: "chain_waits {} reg store"
  by (simp add: chain_waits_def)

lemma selector_ok_new: "selector_ok (NewDependencyDescriptorFromOther b)"
  by (simp add: selector_ok_def NewDependencyDescriptorFromOther_def cache_ok_new chain_waits_none)

lemma invalidateKeyFrame_ok: "selector_ok d \<Longrightarrow> selector_ok (invalidateKeyFrame d)"
  by (simp add: selector_ok_def invalidateKeyFrame_def chain_waits_none)

lemma dds_restart_ok: "selector_ok (dds_restart g d)"
  using cache_ok_new by (simp add: selector_ok_def dds_restart_def invalidateKeyFrame_def Let_def chain_waits_none
      decisionCacheMaxElements_def decisionCacheNackEntries_def)

text \<open>A decision reaches the chains and changes nothing else.\<close>

lemma addDecision_ok:
  assumes "selector_ok d"
  shows "\<exists>cache cs. addEntity (decisions d) n sd = Some (cache, cs) \<and>
    addDecision sd n d = Some (d\<lparr>decisions := cache, dds_store := deliver cs (dds_store d)\<rparr>) \<and>
    selector_ok (d\<lparr>decisions := cache, dds_store := deliver cs (dds_store d)\<rparr>)"
proof -
  obtain cache cs where c: "addEntity (decisions d) n sd = Some (cache, cs)" "cache_ok cache" "settles (decisions d) cs cache"
    using addEntity_total [OF selector_okD(1) [OF assms]] by blast
  have "chain_waits (set (dds_chains d)) (fns cache) (deliver cs (dds_store d))"
    by (rule chain_waits_deliver [OF selector_okD(2) [OF assms] settles_registrations [OF c(3)]])
  then show ?thesis using assms c by (simp add: addDecision_def selector_ok_def)
qed

lemma newTargets_ok:
  assumes st: "structure_wf st" and len: "length addrs = nat (NumChains st)"
  shows "(\<And>dt. dt \<in> set dts \<Longrightarrow> 0 \<le> Target dt \<and> Target dt < NumDecodeTargets st) \<Longrightarrow>
    \<exists>ts. newTargets st addrs dts = Some ts \<and> (\<forall>t \<in> set ts. target_ok (set addrs) t) \<and> map dt_target ts = dts"
proof (induction dts)
  case (Cons dt dts)
  obtain ts where ts: "newTargets st addrs dts = Some ts" "\<forall>t \<in> set ts. target_ok (set addrs) t" "map dt_target ts = dts" using Cons by auto
  have dt: "0 \<le> Target dt" "Target dt < NumDecodeTargets st" using Cons.prems by auto
  have cm: "chain_map_ok st" using st by (simp add: structure_wf_def)
  show ?case
  proof (cases "NumChains st > 0")
    case False
    then show ?thesis using ts dt by (simp add: target_ok_def NewDecodeTarget_def)
  next
    case True
    let ?i = "DecodeTargetProtectedByChain st ! nat (Target dt)"
    have l: "length (DecodeTargetProtectedByChain st) = nat (NumDecodeTargets st)" using cm True by (simp add: chain_map_ok_def)
    then have "?i \<in> set (DecodeTargetProtectedByChain st)" using dt by (simp add: nat_less_iff)
    then have "0 \<le> ?i" "?i < NumChains st" using cm True by (auto simp: chain_map_ok_def)
    then have i: "0 \<le> ?i" "?i < int (length addrs)" "nat ?i < length addrs" using len by auto
    then show ?thesis using ts dt l True by (auto simp: target_ok_def NewDecodeTarget_def Let_def)
  qed
qed simp

lemma Process_targets:
  assumes "structure_wf st" "ProcessFrameDependencyStructure st = Some dts" "dt \<in> set dts"
  shows "0 \<le> Target dt \<and> Target dt < NumDecodeTargets st"
proof -
  have "mset (map Target dts) = mset (map int [0..<nat (NumDecodeTargets st)])"
    using ProcessFrameDependencyStructure_total [OF assms(1)] assms(2) by auto
  then have "set (map Target dts) = set (map int [0..<nat (NumDecodeTargets st)])" by (metis set_mset_mset)
  then have "Target dt \<in> int ` {0..<nat (NumDecodeTargets st)}" using assms(3) by auto
  then show ?thesis by auto
qed

lemma updateDependencyStructure_ok:
  assumes d: "selector_ok d" and st: "structure_wf st" "ProcessFrameDependencyStructure st = Some dts"
  shows "\<exists>d'. updateDependencyStructure st dts n d = Some d' \<and> selector_ok d' \<and> dds_base d' = dds_base d"
proof -
  let ?addrs = "map (\<lambda>i. length (dds_store d) + i) [0..<nat (NumChains st)]"
  obtain ts where ts: "newTargets st ?addrs dts = Some ts" "\<forall>t \<in> set ts. target_ok (set ?addrs) t" "map dt_target ts = dts"
    using newTargets_ok [OF st(1), of ?addrs dts] Process_targets [OF st] by auto
  have "chain_waits (set ?addrs) (fns (decisions d)) (dds_store d @ map NewFrameChain [0..<nat (NumChains st)])"
    by (auto simp: chain_waits_def nth_append NewFrameChain_def)
  moreover have "sorted_wrt descends dts" using ProcessFrameDependencyStructure_total [OF st(1)] st(2) by auto
  ultimately show ?thesis using d ts by (simp add: updateDependencyStructure_def Let_def selector_ok_def)
qed

lemma chain_waits_fold:
  assumes "\<And>c. \<not> broken (g c) \<Longrightarrow> \<not> broken c" "\<And>c. expectFrames (g c) = expectFrames c"
  shows "chain_waits live reg store \<Longrightarrow> chain_waits live reg (foldl (\<lambda>st a. updateChain a g st) store as)"
    and "length (foldl (\<lambda>st a. updateChain a g st) store as) = length store"
  using chain_waits_update [OF _ assms] by (induction as arbitrary: store) auto

lemma targetsUpdateActive_ok:
  "targetsUpdateActive m dts store = (dts', store') \<Longrightarrow> chain_waits live reg store \<Longrightarrow>
   chain_waits live reg store' \<and> length store' = length store \<and> map (\<lambda>dt. (dt_target dt, dt_chain dt)) dts' = map (\<lambda>dt. (dt_target dt, dt_chain dt)) dts"
proof (induction dts arbitrary: store dts' store')
  case (Cons dt dts)
  obtain dt1 store1 where s1: "dt_UpdateActive m dt store = (dt1, store1)" by fastforce
  obtain dts1 where s2: "targetsUpdateActive m dts store1 = (dts1, store')" "dts' = dt1 # dts1"
    using Cons.prems(1) s1 by (auto split: prod.splits)
  have "chain_waits live reg (updateChain a (UpdateActive b) store)" for a b
    by (rule chain_waits_update [OF Cons.prems(2)]) (simp_all add: UpdateActive_def)
  moreover obtain b where "dt1 = dt\<lparr>dt_active := b\<rparr>"
    "store1 = (case dt_chain dt of None \<Rightarrow> store | Some a \<Rightarrow> updateChain a (UpdateActive b) store)"
    using s1 unfolding dt_UpdateActive_def Let_def by (metis prod.inject)
  ultimately have w: "chain_waits live reg store1" "length store1 = length store" "dt_target dt1 = dt_target dt" "dt_chain dt1 = dt_chain dt"
    using Cons.prems(2) by (cases "dt_chain dt"; simp)+
  from Cons.IH [OF s2(1) w(1)] w s2(2) show ?case by simp
qed simp

lemma target_ok_same:
  assumes "map (\<lambda>dt. (dt_target dt, dt_chain dt)) dts' = map (\<lambda>dt. (dt_target dt, dt_chain dt)) dts" "\<forall>dt \<in> set dts. target_ok live dt"
  shows "\<forall>dt \<in> set dts'. target_ok live dt"
proof -
  have "(\<forall>dt \<in> set xs. target_ok live dt) \<longleftrightarrow>
      list_all (\<lambda>(t, c). 0 \<le> Target t \<and> (case c of None \<Rightarrow> True | Some a \<Rightarrow> a \<in> live)) (map (\<lambda>dt. (dt_target dt, dt_chain dt)) xs)" for xs
    by (simp add: target_ok_def list_all_iff)
  then show ?thesis using assms by simp
qed

lemma updateActiveDecodeTargets_ok:
  assumes d: "selector_ok d"
  shows "selector_ok (updateActiveDecodeTargets m d)" "dds_base (updateActiveDecodeTargets m d) = dds_base d"
proof -
  let ?s1 = "foldl (\<lambda>st a. updateChain a BeginUpdateActive st) (dds_store d) (dds_chains d)"
  obtain ts s2 where ts: "targetsUpdateActive m (dds_decodeTargets d) ?s1 = (ts, s2)" by fastforce
  let ?s3 = "foldl (\<lambda>st a. updateChain a EndUpdateActive st) s2 (dds_chains d)"
  have eq: "updateActiveDecodeTargets m d = d\<lparr>dds_decodeTargets := ts, dds_store := ?s3\<rparr>"
    by (simp add: updateActiveDecodeTargets_def ts)
  have b: "\<not> broken (BeginUpdateActive c) \<Longrightarrow> \<not> broken c" "expectFrames (BeginUpdateActive c) = expectFrames c"
    "\<not> broken (EndUpdateActive c) \<Longrightarrow> \<not> broken c" "expectFrames (EndUpdateActive c) = expectFrames c" for c
    by (auto simp: BeginUpdateActive_def EndUpdateActive_def Let_def split: if_splits)
  have w1: "chain_waits (set (dds_chains d)) (fns (decisions d)) ?s1" "length ?s1 = length (dds_store d)"
    using chain_waits_fold [of BeginUpdateActive, OF b(1,2)] selector_okD(2) [OF d] by blast+
  note w2 = targetsUpdateActive_ok [OF ts w1(1)]
  have w3: "chain_waits (set (dds_chains d)) (fns (decisions d)) ?s3" "length ?s3 = length s2"
    using chain_waits_fold [of EndUpdateActive, OF b(3,4)] w2 by blast+
  have "\<forall>dt \<in> set ts. target_ok (set (dds_chains d)) dt" by (rule target_ok_same [OF _ selector_okD(4) [OF d]]) (use w2 in blast)
  moreover have "map fst (map (\<lambda>dt. (dt_target dt, dt_chain dt)) ts) = map fst (map (\<lambda>dt. (dt_target dt, dt_chain dt)) (dds_decodeTargets d))"
    using w2 by simp
  then have "map dt_target ts = map dt_target (dds_decodeTargets d)" by (simp add: o_def)
  ultimately show "selector_ok (updateActiveDecodeTargets m d)" "dds_base (updateActiveDecodeTargets m d) = dds_base d"
    unfolding eq using d w1 w2 w3 by (simp_all add: selector_ok_def)
qed

lemma chainsOnFrame_ok:
  "cache_ok cache \<Longrightarrow> chain_waits live (fns cache) store \<Longrightarrow> set as \<subseteq> live \<Longrightarrow> \<forall>a \<in> set as. a < length store \<Longrightarrow>
   \<exists>store' cache'. chainsOnFrame n fd as store cache = Some (store', cache') \<and> cache_ok cache' \<and> chain_waits live (fns cache') store' \<and>
     length store' = length store \<and> same_ring cache cache'"
proof (induction as arbitrary: store cache)
  case Nil
  then show ?case using same_ring_refl by auto
next
  case (Cons a as)
  obtain c cache1 b where c: "fch_OnFrame a n fd (store ! a) cache = Some (c, cache1, b)" "cache_ok cache1" "same_ring cache cache1"
    "chain_waits live (fns cache1) (store[a := c])"
    using fch_OnFrame_ok [OF Cons.prems(1,2), of a n fd] Cons.prems(3,4) by auto
  obtain store' cache' where "chainsOnFrame n fd as (store[a := c]) cache1 = Some (store', cache')" "cache_ok cache'"
    "chain_waits live (fns cache') store'" "length store' = length store" "same_ring cache1 cache'"
    using Cons.IH [OF c(2,4)] Cons.prems(3,4) by auto
  then show ?case using c Cons.prems(4) same_ring_trans [OF c(3)] by auto
qed

section \<open>Selecting\<close>

lemma isDecodable_spec:
  assumes "sc_wf cache"
  shows "\<exists>b. isDecodable cache n fdiffs = Some b \<and>
    (b \<longleftrightarrow> (\<forall>fdiff \<in> set fdiffs. fdiff \<noteq> 0 \<longrightarrow> map_option fst (GetDecision cache (n - word_of_int fdiff)) \<noteq> Some selectorDecisionDropped))"
proof (induction fdiffs)
  case (Cons f fs)
  obtain sd err where "GetDecision cache (n - word_of_int f) = Some (sd, err)" using GetDecision_total [OF assms] by (metis prod.exhaust)
  then show ?case using Cons by auto
qed auto

abbreviation within :: "VideoLayer \<Rightarrow> VideoLayer \<Rightarrow> bool" where
  "within l target \<equiv> Spatial l \<le> Spatial target \<and> Temporal l \<le> Temporal target"

lemma findDecodeTarget_Some:
  "findDecodeTarget target store fd dts = Inr (Some (t, dti)) \<Longrightarrow>
   \<exists>pre dt post. dts = pre @ dt # post \<and> dt_target dt = t \<and> dt_active dt \<and> within (Layer t) target \<and> dt_Valid store dt \<and>
     Target t < int (length (sl (DecodeTargetIndications fd))) \<and> dti = sl (DecodeTargetIndications fd) ! nat (Target t) \<and>
     (\<forall>u \<in> set pre. \<not> (dt_active u \<and> within (Layer (dt_target u)) target \<and> dt_Valid store u))"
proof (induction dts)
  case (Cons dt dts)
  let ?el = "dt_active dt \<and> within (Layer (dt_target dt)) target"
  show ?case
  proof (cases "?el \<and> dt_Valid store dt")
    case True
    then have "dt_target dt = t \<and> Target t < int (length (sl (DecodeTargetIndications fd))) \<and>
        dti = sl (DecodeTargetIndications fd) ! nat (Target t)"
      using Cons.prems by (auto simp: dt_OnFrame_def split: if_splits)
    then show ?thesis using True by (intro exI [of _ "[]"] exI [of _ dt] exI [of _ dts]) auto
  next
    case False
    then have "findDecodeTarget target store fd dts = Inr (Some (t, dti))"
      using Cons.prems by (auto simp: dt_OnFrame_def split: if_splits)
    from Cons.IH [OF this] obtain pre dt' post where "dts = pre @ dt' # post" "dt_target dt' = t" "dt_active dt'" "within (Layer t) target"
      "dt_Valid store dt'" "Target t < int (length (sl (DecodeTargetIndications fd)))" "dti = sl (DecodeTargetIndications fd) ! nat (Target t)"
      "\<forall>u \<in> set pre. \<not> (dt_active u \<and> within (Layer (dt_target u)) target \<and> dt_Valid store u)" by blast
    then show ?thesis using False by (intro exI [of _ "dt # pre"] exI [of _ dt'] exI [of _ post]) auto
  qed
qed simp

lemma dropFrame_ok:
  assumes "selector_ok d"
  shows "\<exists>d'. dropFrame n r d = Some (d', r) \<and> selector_ok d' \<and> dds_base d' = dds_base d"
  using addDecision_ok [OF assms, of n selectorDecisionDropped] by (auto simp: dropFrame_def)

lemma switchLayer_ok:
  assumes "switchLayer e l r d = (d', r')"
  shows "selector_ok d \<Longrightarrow> selector_ok d'" "currentLayer (dds_base d') = l" "targetLayer (dds_base d') = targetLayer (dds_base d)"
    "dds_decodeTargets d' = dds_decodeTargets d" "IsSelected r' = IsSelected r" "DDBytes r' = DDBytes r"
    "decisions d' = decisions d" "dds_store d' = dds_store d"
  using assms by (auto simp: switchLayer_def Let_def selector_ok_def split: if_splits)

lemma marshal_selected:
  "marshalDependencyDescriptorExtension st desc r = Inr r' \<Longrightarrow> IsSelected r' = IsSelected r"
  by (auto simp: marshalDependencyDescriptorExtension_def split: sum.splits if_splits)

lemma forwardFrame_ok:
  assumes "selector_ok d" "\<not> IsSelected r"
  shows "\<exists>d' r'. forwardFrame p e desc fd l r d = Some (d', r') \<and> selector_ok d' \<and> dds_decodeTargets d' = dds_decodeTargets d \<and>
    targetLayer (dds_base d') = targetLayer (dds_base d) \<and> (IsSelected r' \<longrightarrow> currentLayer (dds_base d') = l)"
proof -
  obtain d1 r1 where s: "switchLayer e l r d = (d1, r1)" by fastforce
  note S = switchLayer_ok [OF s]
  obtain fw fn where w: "fw_UpdateAndGet (ExtFrameNum e) (StructureUpdated e) (fnWrapper d1) = (fw, fn)" by fastforce
  let ?d = "d1\<lparr>fnWrapper := fw\<rparr>"
  have ok: "selector_ok ?d" using S(1) [OF assms(1)] by (simp add: selector_ok_def)
  define out where "out = (if AttachedStructure desc = None \<and> activeDecodeTargetsBitmask ?d \<noteq> None
      then desc\<lparr>FrameNumber := ucast fn, ActiveDecodeTargetsBitmask := activeDecodeTargetsBitmask ?d\<rparr> else desc\<lparr>FrameNumber := ucast fn\<rparr>)"
  have run: "forwardFrame p e desc fd l r d =
    (case marshalDependencyDescriptorExtension (dds_structure ?d) out r1 of
       Inl _ \<Rightarrow> dropFrame (ExtFrameNum e) r1 ?d
     | Inr r2 \<Rightarrow> (if Integrity e then addDecision selectorDecisionForwarded (ExtFrameNum e) ?d else Some ?d) \<bind>
         (\<lambda>d. Some (d, r2\<lparr>RTPMarker := (Marker p \<or> (LastPacketInFrame desc \<and> Spatial (currentLayer (dds_base d)) = SpatialId fd)),
                IsSelected := True\<rparr>)))"
    unfolding forwardFrame_def Let_def s prod.case w out_def by simp
  show ?thesis
  proof (cases "marshalDependencyDescriptorExtension (dds_structure ?d) out r1")
    case (Inl err)
    obtain c cs where "addDecision selectorDecisionDropped (ExtFrameNum e) ?d = Some (?d\<lparr>decisions := c, dds_store := deliver cs (dds_store ?d)\<rparr>)"
      "selector_ok (?d\<lparr>decisions := c, dds_store := deliver cs (dds_store ?d)\<rparr>)" using addDecision_ok [OF ok] by blast
    then show ?thesis unfolding run Inl sum.case dropFrame_def using S assms(2) by simp
  next
    case (Inr r2)
    obtain c cs where "addDecision selectorDecisionForwarded (ExtFrameNum e) ?d = Some (?d\<lparr>decisions := c, dds_store := deliver cs (dds_store ?d)\<rparr>)"
      "selector_ok (?d\<lparr>decisions := c, dds_store := deliver cs (dds_store ?d)\<rparr>)" using addDecision_ok [OF ok] by blast
    then show ?thesis unfolding run Inr sum.case using S ok by (cases "Integrity e") simp_all
  qed
qed

text \<open>What holds of the selector \<open>d\<close> when a frame \<open>n\<close> is selected for the decode target \<open>dt\<close>.\<close>

definition chosen :: "u64 \<Rightarrow> FrameDependencyTemplate \<Rightarrow> DDSelector \<Rightarrow> DecodeTarget \<Rightarrow> bool" where
  "chosen n fd d dt \<longleftrightarrow> dt \<in> set (dds_decodeTargets d) \<and> dt_active dt \<and> within (Layer (dt_target dt)) (targetLayer (dds_base d)) \<and>
     dt_Valid (dds_store d) dt \<and>
     Target (dt_target dt) < int (length (sl (DecodeTargetIndications fd))) \<and>
     sl (DecodeTargetIndications fd) ! nat (Target (dt_target dt)) \<noteq> DecodeTargetNotPresent \<and>
     (\<forall>fdiff \<in> set (sl (FrameDiffs fd)). fdiff \<noteq> 0 \<longrightarrow>
        map_option fst (GetDecision (decisions d) (n - word_of_int fdiff)) \<noteq> Some selectorDecisionDropped) \<and>
     (\<forall>u \<in> set (dds_decodeTargets d). dt_active u \<and> within (Layer (dt_target u)) (targetLayer (dds_base d)) \<and> dt_Valid (dds_store d) u \<longrightarrow>
        \<not> GreaterThan (Layer (dt_target u)) (Layer (dt_target dt)))"

lemma selectTarget_ok:
  assumes d: "selector_ok d" "\<not> IsSelected r"
  shows "\<exists>d' r'. selectTarget p e desc fd r d = Some (d', r') \<and> selector_ok d' \<and>
    (IsSelected r' \<longrightarrow> (\<exists>dt. chosen (ExtFrameNum e) fd d dt \<and> currentLayer (dds_base d') = Layer (dt_target dt)))"
proof -
  have drop: ?thesis if "selectTarget p e desc fd r d = dropFrame (ExtFrameNum e) r d"
    using dropFrame_ok [OF d(1), of "ExtFrameNum e" r] that d(2) by auto
  show ?thesis
  proof (cases "findDecodeTarget (targetLayer (dds_base d)) (dds_store d) fd (dds_decodeTargets d)")
    case (Inl u)
    then show ?thesis by (intro drop) (simp add: selectTarget_def)
  next
    case (Inr found)
    show ?thesis
    proof (cases found)
      case None
      then show ?thesis using Inr by (intro drop) (simp add: selectTarget_def)
    next
      case (Some x)
      obtain t dti where x: "x = (t, dti)" by fastforce
      note f = Inr [unfolded Some x]
      obtain b where b: "isDecodable (decisions d) (ExtFrameNum e) (sl (FrameDiffs fd)) = Some b"
        "b \<longleftrightarrow> (\<forall>fdiff \<in> set (sl (FrameDiffs fd)). fdiff \<noteq> 0 \<longrightarrow>
          map_option fst (GetDecision (decisions d) (ExtFrameNum e - word_of_int fdiff)) \<noteq> Some selectorDecisionDropped)"
        using isDecodable_spec selector_okD(1) [OF d(1)] unfolding cache_ok_def by blast
      show ?thesis
      proof (cases "Target t < 0 \<or> dti = DecodeTargetNotPresent \<or> \<not> b")
        case True
        then show ?thesis using f b(1) by (intro drop) (auto simp: selectTarget_def)
      next
        case False
        obtain d' r' where fw: "forwardFrame p e desc fd (Layer t) r d = Some (d', r')" "selector_ok d'"
          "IsSelected r' \<longrightarrow> currentLayer (dds_base d') = Layer t" using forwardFrame_ok [OF d] by blast
        obtain pre dt post where dt: "dds_decodeTargets d = pre @ dt # post" "dt_target dt = t" "dt_active dt"
          "within (Layer t) (targetLayer (dds_base d))" "dt_Valid (dds_store d) dt"
          "Target t < int (length (sl (DecodeTargetIndications fd)))" "dti = sl (DecodeTargetIndications fd) ! nat (Target t)"
          "\<forall>u \<in> set pre. \<not> (dt_active u \<and> within (Layer (dt_target u)) (targetLayer (dds_base d)) \<and> dt_Valid (dds_store d) u)"
          using findDecodeTarget_Some [OF f] by blast
        have "\<not> GreaterThan (Layer (dt_target u)) (Layer t)" if "u \<in> set post" for u
          using selector_okD(5) [OF d(1)] that dt(1,2) by (simp add: sorted_wrt_append)
        moreover have "\<not> GreaterThan (Layer t) (Layer t)" by (simp add: GreaterThan_def)
        ultimately have "chosen (ExtFrameNum e) fd d dt" unfolding chosen_def using dt False b(2) by auto
        then show ?thesis using fw f b(1) False dt(2) by (auto simp: selectTarget_def)
      qed
    qed
  qed
qed

text \<open>\<open>Select\<close> either ends before a decode target is searched, with nothing selected, or searches one in a selector that
  differs from the given one in its chains, targets and decisions only.\<close>

definition packet_ok :: "ExtPacket \<Rightarrow> bool" where
  "packet_ok p \<longleftrightarrow> (case ep_DependencyDescriptor p of None \<Rightarrow> True | Some e \<Rightarrow> ext_dd_ok e)"

definition same_layers :: "DDSelector \<Rightarrow> DDSelector \<Rightarrow> bool" where
  "same_layers d d' \<longleftrightarrow> dds_base d' = dds_base d \<and> activeDecodeTargetsBitmask d' = activeDecodeTargetsBitmask d"

lemma same_layers_simps:
  "same_layers d d" "same_layers a b \<Longrightarrow> same_layers b c \<Longrightarrow> same_layers a c"
  "same_layers d (invalidateKeyFrame d)" "same_layers d (dds_restart g d)"
  "addDecision sd n d = Some d' \<Longrightarrow> same_layers d d'"
  "updateDependencyStructure st dts n d = Some d' \<Longrightarrow> same_layers d d'"
  "same_layers d (updateActiveDecodeTargets m d)"
  by (auto simp: same_layers_def invalidateKeyFrame_def dds_restart_def Let_def addDecision_def updateDependencyStructure_def
      updateActiveDecodeTargets_def bind_Some_iff split: prod.splits)

text \<open>The selector as the search for a decode target finds it: restarted, with the structure, the active decode targets and
  the chains brought up to the frame.\<close>

definition prepared ::
  "ExtDependencyDescriptor \<Rightarrow> DependencyDescriptor \<Rightarrow> FrameDependencyTemplate \<Rightarrow> DDSelector \<Rightarrow> DDSelector option" where
  "prepared e desc fd d =
     do {
       let d = (if RestartGeneration e > dds_restartGeneration d then dds_restart (RestartGeneration e) d else d);
       d \<leftarrow> (if StructureUpdated e
             then do { st \<leftarrow> AttachedStructure desc; updateDependencyStructure st (DecodeTargets e) (ExtFrameNum e) d } else Some d);
       d \<leftarrow> (if ActiveDecodeTargetsUpdated e
             then do { bitmask \<leftarrow> ActiveDecodeTargetsBitmask desc; Some (updateActiveDecodeTargets bitmask d) } else Some d);
       (store, cache) \<leftarrow> chainsOnFrame (ExtFrameNum e) fd (dds_chains d) (dds_store d) (decisions d);
       Some (d\<lparr>dds_store := store, decisions := cache\<rparr>)
     }"

definition searched :: "ExtPacket \<Rightarrow> DDSelector \<Rightarrow> DDSelector \<Rightarrow> VideoLayerSelectorResult \<Rightarrow> bool" where
  "searched p d d' r \<longleftrightarrow> (\<exists>e desc fd d1 r0. ep_DependencyDescriptor p = Some e \<and> Descriptor e = Some desc \<and> FrameDependencies desc = Some fd \<and>
     prepared e desc fd d = Some d1 \<and> selector_ok d1 \<and> same_layers d d1 \<and> \<not> IsSelected r0 \<and> \<not> IsSwitching r0 \<and> selectTarget p e desc fd r0 d1 = Some (d', r))"

definition select_outcome :: "ExtPacket \<Rightarrow> DDSelector \<Rightarrow> (DDSelector \<times> VideoLayerSelectorResult) option \<Rightarrow> bool" where
  "select_outcome p d x \<longleftrightarrow> (\<exists>d' r. x = Some (d', r) \<and> selector_ok d' \<and> ((\<not> IsSelected r \<and> \<not> IsSwitching r) \<or> searched p d d' r))"

lemma outcome_early: "selector_ok d' \<Longrightarrow> \<not> IsSelected r \<Longrightarrow> \<not> IsSwitching r \<Longrightarrow> select_outcome p d (Some (d', r))"
  by (simp add: select_outcome_def)

lemma outcome_drop: "selector_ok d' \<Longrightarrow> \<not> IsSelected r \<Longrightarrow> \<not> IsSwitching r \<Longrightarrow> select_outcome p d (dropFrame n r d')"
  using dropFrame_ok [of d' n r] by (auto simp: select_outcome_def)

lemma outcome_search:
  assumes "ep_DependencyDescriptor p = Some e" "Descriptor e = Some desc" "FrameDependencies desc = Some fd"
    and "selector_ok d1" "same_layers d d1" "\<not> IsSelected r" "\<not> IsSwitching r" "prepared e desc fd d = Some d1"
  shows "select_outcome p d (selectTarget p e desc fd r d1)"
proof -
  obtain d' r' where "selectTarget p e desc fd r d1 = Some (d', r')" "selector_ok d'" using selectTarget_ok [OF assms(4,6)] by blast
  then show ?thesis using assms unfolding select_outcome_def searched_def by blast
qed

lemma outcome_active:
  assumes e: "ep_DependencyDescriptor p = Some e" "Descriptor e = Some desc" "FrameDependencies desc = Some fd"
    and d: "selector_ok d1" "same_layers d d1" and r: "\<not> IsSelected r" "\<not> IsSwitching r"
    and mask: "ActiveDecodeTargetsUpdated e \<Longrightarrow> ActiveDecodeTargetsBitmask desc \<noteq> None"
    and prep: "prepared e desc fd d = do {
      d \<leftarrow> (if ActiveDecodeTargetsUpdated e
            then do { bitmask \<leftarrow> ActiveDecodeTargetsBitmask desc; Some (updateActiveDecodeTargets bitmask d1) } else Some d1);
      (store, cache) \<leftarrow> chainsOnFrame (ExtFrameNum e) fd (dds_chains d) (dds_store d) (decisions d);
      Some (d\<lparr>dds_store := store, decisions := cache\<rparr>)
    }"
  shows "select_outcome p d (do {
      d \<leftarrow> (if ActiveDecodeTargetsUpdated e
            then do { bitmask \<leftarrow> ActiveDecodeTargetsBitmask desc; Some (updateActiveDecodeTargets bitmask d1) } else Some d1);
      if length (ChainDiffs fd) \<noteq> length (dds_chains d) then dropFrame (ExtFrameNum e) r d
      else do {
        (store, cache) \<leftarrow> chainsOnFrame (ExtFrameNum e) fd (dds_chains d) (dds_store d) (decisions d);
        selectTarget p e desc fd r (d\<lparr>dds_store := store, decisions := cache\<rparr>)
      }
    })"
proof -
  obtain d2 where d2: "(if ActiveDecodeTargetsUpdated e
      then do { bitmask \<leftarrow> ActiveDecodeTargetsBitmask desc; Some (updateActiveDecodeTargets bitmask d1) } else Some d1) = Some d2"
    "selector_ok d2" "same_layers d d2"
  proof (cases "ActiveDecodeTargetsUpdated e")
    case True
    then obtain m where "ActiveDecodeTargetsBitmask desc = Some m" using mask by blast
    then show thesis
      using True that [of "updateActiveDecodeTargets m d1"] updateActiveDecodeTargets_ok(1) [OF d(1)] same_layers_simps(2) [OF d(2) same_layers_simps(7)]
      by simp
  qed (use that d in simp)
  obtain store cache where c: "chainsOnFrame (ExtFrameNum e) fd (dds_chains d2) (dds_store d2) (decisions d2) = Some (store, cache)"
    "cache_ok cache" "chain_waits (set (dds_chains d2)) (fns cache) store" "length store = length (dds_store d2)"
    using chainsOnFrame_ok [OF selector_okD(1,2) [OF d2(2)] subset_refl selector_okD(3) [OF d2(2)]] by blast
  have ok: "selector_ok (d2\<lparr>dds_store := store, decisions := cache\<rparr>)" using d2(2) c by (simp add: selector_ok_def)
  have "same_layers d (d2\<lparr>dds_store := store, decisions := cache\<rparr>)" using d2(3) by (simp add: same_layers_def)
  moreover have "prepared e desc fd d = Some (d2\<lparr>dds_store := store, decisions := cache\<rparr>)"
    unfolding prep d2(1) bind.simps c(1) by simp
  ultimately show ?thesis using outcome_search [OF e ok _ r] outcome_drop [OF d2(2) r, of p d "ExtFrameNum e"]
    unfolding d2(1) bind.simps c(1) prod.case by simp
qed

lemma Select_outcome:
  assumes d: "selector_ok d" and p: "packet_ok p"
  shows "select_outcome p d (Select p d)"
proof -
  let ?r = "if IsValid (currentLayer (dds_base d)) then zeroResult\<lparr>IsRelevant := True\<rparr> else zeroResult"
  have r: "\<not> IsSelected ?r" "\<not> IsSwitching ?r" by (simp_all add: zeroResult_def)
  show ?thesis
  proof (cases "ep_DependencyDescriptor p")
    case None
    then show ?thesis using outcome_early [OF d r] by (simp add: Select_def Let_def)
  next
    case (Some e)
    then have "ext_dd_ok e" using p by (simp add: packet_ok_def)
    obtain desc fd where e12: "Descriptor e = Some desc" "FrameDependencies desc = Some fd"
      using \<open>ext_dd_ok e\<close> unfolding ext_dd_ok_def by (auto split: option.splits)
    have e3: "StructureUpdated e \<longleftrightarrow> AttachedStructure desc \<noteq> None" and e4: "ActiveDecodeTargetsUpdated e \<Longrightarrow> ActiveDecodeTargetsBitmask desc \<noteq> None"
      and e5: "\<And>st. AttachedStructure desc = Some st \<Longrightarrow> structure_wf st \<and> ProcessFrameDependencyStructure st = Some (DecodeTargets e)"
      using \<open>ext_dd_ok e\<close> e12 unfolding ext_dd_ok_def by (auto split: option.splits)
    note e = e12 e3 e4 e5
    define d0 where "d0 = (if RestartGeneration e > dds_restartGeneration d then dds_restart (RestartGeneration e) d else d)"
    have d0: "selector_ok d0" "same_layers d d0" using d dds_restart_ok by (simp_all add: d0_def same_layers_simps)
    obtain sd err where g: "GetDecision (decisions d0) (ExtFrameNum e) = Some (sd, err)"
      using GetDecision_total selector_okD(1) [OF d0(1)] unfolding cache_ok_def by (metis prod.exhaust)
    obtain d1 where d1: "(if StructureUpdated e
        then do { st \<leftarrow> AttachedStructure desc; updateDependencyStructure st (DecodeTargets e) (ExtFrameNum e) d0 } else Some d0) = Some d1"
      "selector_ok d1" "same_layers d d1"
    proof (cases "AttachedStructure desc")
      case None
      then show thesis using that d0 e(3) by simp
    next
      case (Some st)
      obtain d1 where u: "updateDependencyStructure st (DecodeTargets e) (ExtFrameNum e) d0 = Some d1" "selector_ok d1"
        using updateDependencyStructure_ok [OF d0(1)] e(5) [OF Some] by blast
      show thesis by (rule that [of d1]) (use u Some e(3) same_layers_simps(2) [OF d0(2) same_layers_simps(6) [OF u(1)]] in simp_all)
    qed
    obtain c cs where a: "addDecision selectorDecisionDropped (ExtFrameNum e) d1 = Some (d1\<lparr>decisions := c, dds_store := deliver cs (dds_store d1)\<rparr>)"
      "selector_ok (d1\<lparr>decisions := c, dds_store := deliver cs (dds_store d1)\<rparr>)" using addDecision_ok [OF d1(2)] by blast
    have run: "Select p d =
      (if \<not> keyFrameValid d0 \<and> AttachedStructure desc = None then Some (d0, ?r)
       else if err \<or> sd = selectorDecisionDropped then Some (d0, ?r)
       else if ExtKeyFrameNum e \<noteq> dds_extKeyFrameNum d1
       then Some (invalidateKeyFrame (d1\<lparr>decisions := c, dds_store := deliver cs (dds_store d1)\<rparr>), ?r)
       else do {
         d \<leftarrow> (if ActiveDecodeTargetsUpdated e
               then do { bitmask \<leftarrow> ActiveDecodeTargetsBitmask desc; Some (updateActiveDecodeTargets bitmask d1) } else Some d1);
         if length (ChainDiffs fd) \<noteq> length (dds_chains d) then dropFrame (ExtFrameNum e) ?r d
         else do {
           (store, cache) \<leftarrow> chainsOnFrame (ExtFrameNum e) fd (dds_chains d) (dds_store d) (decisions d);
           selectTarget p e desc fd ?r (d\<lparr>dds_store := store, decisions := cache\<rparr>)
         }
       })"
      unfolding Select_def Let_def Some option.case d0_def [symmetric] e(1,2) bind.simps g prod.case d1(1) a(1) by simp
    have "prepared e desc fd d = do {
      d \<leftarrow> (if ActiveDecodeTargetsUpdated e
            then do { bitmask \<leftarrow> ActiveDecodeTargetsBitmask desc; Some (updateActiveDecodeTargets bitmask d1) } else Some d1);
      (store, cache) \<leftarrow> chainsOnFrame (ExtFrameNum e) fd (dds_chains d) (dds_store d) (decisions d);
      Some (d\<lparr>dds_store := store, decisions := cache\<rparr>)
    }" unfolding prepared_def Let_def d0_def [symmetric] d1(1) bind.simps ..
    note act = outcome_active [OF Some e(1,2) d1(2,3) r e(4) this]
    show ?thesis
      unfolding run using outcome_early [OF d0(1) r] outcome_early [OF invalidateKeyFrame_ok [OF a(2)] r] act by simp
  qed
qed

section \<open>Switching and rolling back\<close>

lemma marshal_switching:
  "marshalDependencyDescriptorExtension st desc r = Inr r' \<Longrightarrow> IsSwitching r' = IsSwitching r"
  by (auto simp: marshalDependencyDescriptorExtension_def split: sum.splits if_splits)

definition switched :: "DDSelector \<Rightarrow> DDSelector \<Rightarrow> VideoLayerSelectorResult \<Rightarrow> bool" where
  "switched d d' r \<longleftrightarrow> IsSwitching r \<and> previousLayer (dds_base d') = currentLayer (dds_base d) \<and>
     previousTargetLayer (dds_base d') = previousTargetLayer (dds_base d) \<and> currentLayer (dds_base d') \<noteq> currentLayer (dds_base d) \<and>
     previousActiveDecodeTargetsBitmask d' = activeDecodeTargetsBitmask d"

lemma addDecision_keeps:
  "addDecision sd n d = Some d' \<Longrightarrow> dds_base d' = dds_base d \<and>
    previousActiveDecodeTargetsBitmask d' = previousActiveDecodeTargetsBitmask d \<and> activeDecodeTargetsBitmask d' = activeDecodeTargetsBitmask d"
  by (auto simp: addDecision_def bind_Some_iff)

lemma switchLayer_switched:
  "switchLayer e l r d = (d', r') \<Longrightarrow> \<not> IsSwitching r \<Longrightarrow> IsSwitching r' \<Longrightarrow> switched d d' r'"
  by (auto simp: switchLayer_def switched_def Let_def split: if_splits)

lemma forwardFrame_switched:
  assumes "forwardFrame p e desc fd l r d = Some (d', r')" "\<not> IsSwitching r" "IsSwitching r'"
  shows "switched d d' r'"
proof -
  obtain d1 r1 where s: "switchLayer e l r d = (d1, r1)" by fastforce
  obtain fw fn where w: "fw_UpdateAndGet (ExtFrameNum e) (StructureUpdated e) (fnWrapper d1) = (fw, fn)" by fastforce
  let ?d = "d1\<lparr>fnWrapper := fw\<rparr>"
  have "dds_base d' = dds_base d1 \<and> previousActiveDecodeTargetsBitmask d' = previousActiveDecodeTargetsBitmask d1 \<and> IsSwitching r' = IsSwitching r1"
    using assms(1) unfolding forwardFrame_def Let_def s prod.case w dropFrame_def
    by (auto simp: bind_Some_iff dest!: addDecision_keeps marshal_switching split: sum.splits if_splits)
  with switchLayer_switched [OF s assms(2)] assms(3) show ?thesis by (simp add: switched_def)
qed

lemma selectTarget_switched:
  assumes "selectTarget p e desc fd r d = Some (d', r')" "\<not> IsSwitching r" "IsSwitching r'"
  shows "switched d d' r'"
  using assms unfolding selectTarget_def dropFrame_def
  by (auto simp: bind_Some_iff split: sum.splits option.splits prod.splits if_splits dest: forwardFrame_switched)

lemma Select_switched:
  assumes "selector_ok d" "packet_ok p" "Select p d = Some (d', r)" "IsSwitching r"
  shows "switched d d' r"
proof -
  have "searched p d d' r" using Select_outcome [OF assms(1,2)] assms(3,4) by (auto simp: select_outcome_def)
  then obtain e desc fd d1 r0 where "same_layers d d1" "\<not> IsSwitching r0" "selectTarget p e desc fd r0 d1 = Some (d', r)"
    unfolding searched_def by blast
  with selectTarget_switched [of p e desc fd r0 d1 d' r] assms(4) show ?thesis by (simp add: switched_def same_layers_def)
qed

section \<open>From the parser to the selector\<close>

text \<open>The part of \<open>processVideoPacket\<close> that parses the dependency descriptor of a new packet: a packet without the extension
  passes, and disables the parser of a codec that does not need it; a packet that does not parse is dropped. The
  video sizes and the frame rate calculator do not reach the selector.\<close>

definition processDependencyDescriptor ::
  "('w \<Rightarrow> u16 \<Rightarrow> 'w \<times> u64) \<Rightarrow> ('w \<Rightarrow> u16 \<Rightarrow> bool \<Rightarrow> 'w \<times> u64) \<Rightarrow> bool \<Rightarrow> int \<times> u8 list option \<times> u16 \<times> ExtPacket \<Rightarrow>
   'w DependencyDescriptorParser option \<Rightarrow> ('w DependencyDescriptorParser option \<times> ExtPacket option) option" where
  "processDependencyDescriptor update updateKnown isVPx arrival ddParser =
     (case arrival of (now, buf, sn, pkt) \<Rightarrow>
      let ep = pkt\<lparr>ep_DependencyDescriptor := None, ep_VideoLayer := InvalidLayer\<lparr>Temporal := 0\<rparr>\<rparr> in
      case ddParser of
        None \<Rightarrow> Some (None, Some ep)
      | Some r \<Rightarrow>
          do {
            (r, res, videoLayer, _) \<leftarrow> ddp_Parse update updateKnown now buf sn r;
            case res of
              Inl err \<Rightarrow> if err = ErrDDExtentionNotFound
                         then Some (if isVPx then None else Some r, Some ep)
                         else Some (Some r, None)
            | Inr ddVal \<Rightarrow> Some (Some r, Some (ep\<lparr>ep_DependencyDescriptor := Some ddVal, ep_VideoLayer := videoLayer\<rparr>))
          })"

text \<open>What happens to a selector: a packet arrives from a source, the layers of the base are set, or a switch is rolled
  back. A run lists the results of the packets that reached the selector.\<close>

datatype 'a sel_event = Arrive 'a | Rebase Base | Undo

fun forwardAll ::
  "('a \<Rightarrow> 's \<Rightarrow> ('s \<times> ExtPacket option) option) \<Rightarrow> 'a sel_event list \<Rightarrow> 's \<Rightarrow> DDSelector \<Rightarrow>
   ('s \<times> DDSelector \<times> VideoLayerSelectorResult list) option" where
  "forwardAll arrive [] s d = Some (s, d, [])"
| "forwardAll arrive (Arrive a # evs) s d =
     do {
       (s, p) \<leftarrow> arrive a s;
       case p of
         None \<Rightarrow> forwardAll arrive evs s d
       | Some p \<Rightarrow> do { (d, r) \<leftarrow> Select p d; (s, d, rs) \<leftarrow> forwardAll arrive evs s d; Some (s, d, r # rs) }
     }"
| "forwardAll arrive (Rebase b # evs) s d = forwardAll arrive evs s (d\<lparr>dds_base := b\<rparr>)"
| "forwardAll arrive (Undo # evs) s d = forwardAll arrive evs s (dds_Rollback d)"

lemma selector_ok_base: "selector_ok d \<Longrightarrow> selector_ok (d\<lparr>dds_base := b\<rparr>)" "selector_ok d \<Longrightarrow> selector_ok (dds_Rollback d)"
  by (simp_all add: selector_ok_def dds_Rollback_def)

text \<open>A source promises that it never panics and that its packets have what the selector dereferences.\<close>

locale descriptor_source =
  fixes arrive :: "'a \<Rightarrow> 's \<Rightarrow> ('s \<times> ExtPacket option) option" and inv :: "'s \<Rightarrow> bool"
  assumes arrive_ok: "inv s \<Longrightarrow> \<exists>s' p. arrive a s = Some (s', p) \<and> inv s' \<and> (\<forall>q. p = Some q \<longrightarrow> packet_ok q)"
begin

lemma forwardAll_ok:
  "inv s \<Longrightarrow> selector_ok d \<Longrightarrow> \<exists>s' d' rs. forwardAll arrive evs s d = Some (s', d', rs) \<and> inv s' \<and> selector_ok d'"
proof (induction evs arbitrary: s d)
  case (Cons ev evs)
  show ?case
  proof (cases ev)
    case (Arrive a)
    obtain s1 p where s1: "arrive a s = Some (s1, p)" "inv s1" "\<forall>q. p = Some q \<longrightarrow> packet_ok q" using arrive_ok [OF Cons.prems(1)] by blast
    show ?thesis
    proof (cases p)
      case None
      then show ?thesis using Arrive s1 Cons.IH [OF s1(2) Cons.prems(2)] by simp
    next
      case (Some q)
      then obtain d1 r where "Select q d = Some (d1, r)" "selector_ok d1"
        using Select_outcome [OF Cons.prems(2)] s1(3) unfolding select_outcome_def by blast
      with Cons.IH [OF s1(2), of d1] show ?thesis using Arrive s1(1) Some by auto
    qed
  qed (use Cons.IH [OF Cons.prems(1)] selector_ok_base [OF Cons.prems(2)] in simp_all)
qed simp

lemma forwardAll_keeps:
  "forwardAll arrive evs s d = Some (s', d', rs) \<Longrightarrow> inv s \<Longrightarrow> selector_ok d \<Longrightarrow> inv s' \<and> selector_ok d'"
  using forwardAll_ok [of s d evs] by auto

lemma next_packet:
  assumes "forwardAll arrive evs s d = Some (s', d', rs)" "inv s" "selector_ok d" "arrive a s' = Some (s'', Some q)"
  shows "selector_ok d'" "packet_ok q"
proof -
  have "inv s'" using forwardAll_keeps [OF assms(1-3)] ..
  from arrive_ok [OF this, of a] assms(4) show "packet_ok q" by auto
qed (use forwardAll_keeps [OF assms(1-3)] in blast)

end

definition source_ok :: "('w \<Rightarrow> u16 \<Rightarrow> bool \<Rightarrow> 'w \<times> u64) \<Rightarrow> 'w DependencyDescriptorParser option \<Rightarrow> bool" where
  "source_ok updateKnown s \<longleftrightarrow> numbers_bounded updateKnown \<and> (case s of None \<Rightarrow> True | Some r \<Rightarrow> parser_ok r)"

interpretation ddsrc: descriptor_source "processDependencyDescriptor update updateKnown vp" "source_ok updateKnown" for update updateKnown vp
proof
  fix s :: "'a DependencyDescriptorParser option" and a :: "int \<times> u8 list option \<times> u16 \<times> ExtPacket"
  assume s: "source_ok updateKnown s"
  obtain now buf sn pkt where a: "a = (now, buf, sn, pkt)" by (metis prod_cases4)
  show "\<exists>s' p. processDependencyDescriptor update updateKnown vp a s = Some (s', p) \<and> source_ok updateKnown s' \<and> (\<forall>q. p = Some q \<longrightarrow> packet_ok q)"
  proof (cases s)
    case None
    then show ?thesis using s a by (simp add: processDependencyDescriptor_def packet_ok_def)
  next
    case (Some r)
    then have "parser_ok r" "numbers_bounded updateKnown" using s by (simp_all add: source_ok_def)
    from ddp_Parse_ok [OF this, of update now buf sn]
    obtain r' res lyr calls where p: "ddp_Parse update updateKnown now buf sn r = Some (r', res, lyr, calls)" "parser_ok r'"
      "\<forall>e. res = Inr e \<longrightarrow> ext_dd_ok e" by blast
    show ?thesis
      using s p a Some by (cases res) (simp_all add: processDependencyDescriptor_def packet_ok_def source_ok_def)
  qed
qed

lemma source_ok_new: "numbers_bounded updateKnown \<Longrightarrow> source_ok updateKnown (Some (NewDependencyDescriptorParser w enable))"
  using parser_ok_new by (simp add: source_ok_def)

section \<open>Properties\<close>

lemmas forwarding_ok = ddsrc.forwardAll_ok [OF source_ok_new selector_ok_new]
lemmas forwarding_next = ddsrc.next_packet [OF _ source_ok_new selector_ok_new]

text \<open>C5. The forwarding path is safe from the bytes of the extension to the selection. Whatever packets arrive in whatever
  order, however the layers are set and switches rolled back in between, a selector fed by a new parser never
  panics, every chain in use stays registered for all frames it awaits, and decode targets refer to chains in use.\<close>

theorem forwarding_safe:
  assumes "numbers_bounded updateKnown"
  shows "\<exists>s d rs. forwardAll (processDependencyDescriptor update updateKnown isVPx) evs
      (Some (NewDependencyDescriptorParser w enable)) (NewDependencyDescriptorFromOther b) = Some (s, d, rs) \<and>
    chain_waits (set (dds_chains d)) (fns (decisions d)) (dds_store d) \<and>
    (\<forall>dt \<in> set (dds_decodeTargets d). \<forall>a. dt_chain dt = Some a \<longrightarrow> a \<in> set (dds_chains d) \<and> a < length (dds_store d))"
proof -
  obtain s d rs where run: "forwardAll (processDependencyDescriptor update updateKnown isVPx) evs
      (Some (NewDependencyDescriptorParser w enable)) (NewDependencyDescriptorFromOther b) = Some (s, d, rs)" "selector_ok d"
    using forwarding_ok [OF assms] by blast
  then show ?thesis by (fastforce simp: selector_ok_def target_ok_def)
qed

text \<open>C33. A frame is selected only if it can be decoded. After any run, when a packet is selected, then at that moment some
  decode target within the target layer is active, its chain is intact, the frame's indication for it is not
  \<open>DecodeTargetNotPresent\<close>, no frame it directly refers to was dropped, no higher decode target within the target layer
  is active and intact, and the selector's current layer becomes the layer of that decode target.\<close>

theorem Select_sound:
  assumes "numbers_bounded updateKnown"
    and "forwardAll (processDependencyDescriptor update updateKnown isVPx) evs
      (Some (NewDependencyDescriptorParser w enable)) (NewDependencyDescriptorFromOther b) = Some (s, d, rs)"
    and "processDependencyDescriptor update updateKnown isVPx a s = Some (s', Some p)"
  shows "\<exists>d' r. Select p d = Some (d', r) \<and>
    (IsSelected r \<longrightarrow>
      (\<exists>e desc fd d1 dt. ep_DependencyDescriptor p = Some e \<and> Descriptor e = Some desc \<and> FrameDependencies desc = Some fd \<and>
         prepared e desc fd d = Some d1 \<and> dds_base d1 = dds_base d \<and> chosen (ExtFrameNum e) fd d1 dt \<and>
         currentLayer (dds_base d') = Layer (dt_target dt)))"
proof -
  note ok = forwarding_next [OF assms(2,1,3)]
  obtain d' r where s: "Select p d = Some (d', r)" "\<not> IsSelected r \<or> searched p d d' r"
    using Select_outcome [OF ok] by (auto simp: select_outcome_def)
  show ?thesis
  proof (cases "IsSelected r")
    case True
    then obtain e desc fd d1 r0 where f: "ep_DependencyDescriptor p = Some e" "Descriptor e = Some desc" "FrameDependencies desc = Some fd"
      "prepared e desc fd d = Some d1" "selector_ok d1" "same_layers d d1" "\<not> IsSelected r0" "selectTarget p e desc fd r0 d1 = Some (d', r)"
      using s(2) unfolding searched_def by blast
    from selectTarget_ok [OF f(5,7), of p e desc fd] f(8) True
    obtain dt where "chosen (ExtFrameNum e) fd d1 dt" "currentLayer (dds_base d') = Layer (dt_target dt)" by auto
    then show ?thesis using s(1) f(1-4,6) unfolding same_layers_def by blast
  qed (use s(1) in simp)
qed

text \<open>C34. Rolling back undoes a switch. After any run, when the selection of a packet announces a switch, rolling back gives
  the selector its layer and its mask of active decode targets from before the packet.\<close>

theorem Rollback_undoes_switch:
  assumes "numbers_bounded updateKnown"
    and "forwardAll (processDependencyDescriptor update updateKnown isVPx) evs
      (Some (NewDependencyDescriptorParser w enable)) (NewDependencyDescriptorFromOther b) = Some (s, d, rs)"
    and "processDependencyDescriptor update updateKnown isVPx a s = Some (s', Some p)"
    and "Select p d = Some (d', r)" "IsSwitching r"
  shows "currentLayer (dds_base d') \<noteq> currentLayer (dds_base d) \<and>
    currentLayer (dds_base (dds_Rollback d')) = currentLayer (dds_base d) \<and>
    activeDecodeTargetsBitmask (dds_Rollback d') = activeDecodeTargetsBitmask d"
  using Select_switched [OF forwarding_next [OF assms(2,1,3)] assms(4,5)] by (simp add: switched_def dds_Rollback_def base_Rollback_def)

subsection \<open>Witnesses\<close>

text \<open>The first packet of a key frame with the example structure, for a new selector that aims higher.\<close>

definition keyBytes :: "u8 list" where
  "keyBytes = [252, 0, 7, 159, 129, 127, 24, 160, 136, 96, 79, 224, 44, 224, 0]"

definition newPkt :: ExtPacket where
  "newPkt = \<lparr>ep_VideoLayer = InvalidLayer, ExtSequenceNumber = 100, ExtTimestamp = 0, Payload = [1], Marker = False, ep_VP8 = None, ep_VP9 = None,
    IsKeyFrame = False, ep_DependencyDescriptor = None, IsOutOfOrder = False\<rparr>"

declare wordsFull.simps [code]

abbreviation exampleArrive :: "int \<times> u8 list option \<times> u16 \<times> ExtPacket \<Rightarrow> u64 DependencyDescriptorParser option \<Rightarrow>
  (u64 DependencyDescriptorParser option \<times> ExtPacket option) option" where
  "exampleArrive \<equiv> processDependencyDescriptor nearest (\<lambda>w n known. nearest w n) False"

abbreviation exampleSelector :: DDSelector where
  "exampleSelector \<equiv> NewDependencyDescriptorFromOther (SetTarget \<lparr>Spatial = 2, Temporal = 2\<rparr> NewBase)"

lemma example_selected:
  "map_option (\<lambda>(p, d, r). (IsSelected r, IsSwitching r, currentLayer (dds_base d)))
    (do { (s, p) \<leftarrow> exampleArrive (0, Some keyBytes, 100, newPkt) (Some (NewDependencyDescriptorParser 0 True));
          q \<leftarrow> p; (d, r) \<leftarrow> Select q exampleSelector; Some (q, d, r) }) =
   Some (True, True, \<lparr>Spatial = 0, Temporal = 1\<rparr>)"
  by code_simp

lemma example_step:
  obtains s p d r where "exampleArrive (0, Some keyBytes, 100, newPkt) (Some (NewDependencyDescriptorParser 0 True)) = Some (s, Some p)"
    "Select p exampleSelector = Some (d, r)" "IsSelected r" "IsSwitching r" "currentLayer (dds_base d) = \<lparr>Spatial = 0, Temporal = 1\<rparr>"
  using example_selected by (auto simp: bind_eq_Some_conv split: prod.splits)

theorem forwarding_safe_witness:
  "\<exists>s d r. forwardAll exampleArrive [Arrive (0, Some keyBytes, 100, newPkt)] (Some (NewDependencyDescriptorParser 0 True)) exampleSelector = Some (s, d, [r]) \<and>
     IsSelected r \<and> chain_waits (set (dds_chains d)) (fns (decisions d)) (dds_store d)"
proof -
  obtain s p d r where e: "exampleArrive (0, Some keyBytes, 100, newPkt) (Some (NewDependencyDescriptorParser 0 True)) = Some (s, Some p)"
    "Select p exampleSelector = Some (d, r)" "IsSelected r" by (rule example_step)
  then have "forwardAll exampleArrive [Arrive (0, Some keyBytes, 100, newPkt)] (Some (NewDependencyDescriptorParser 0 True)) exampleSelector = Some (s, d, [r])"
    by simp
  with forwarding_safe [OF nearest_bounded, where evs = "[Arrive (0, Some keyBytes, 100, newPkt)]" and w = 0 and enable = True and
      b = "SetTarget \<lparr>Spatial = 2, Temporal = 2\<rparr> NewBase" and update = nearest and isVPx = False] e(3)
  show ?thesis by auto
qed

theorem Select_sound_witness:
  "\<exists>s p d1 dt e desc fd. exampleArrive (0, Some keyBytes, 100, newPkt) (Some (NewDependencyDescriptorParser 0 True)) = Some (s, Some p) \<and>
     ep_DependencyDescriptor p = Some e \<and> Descriptor e = Some desc \<and> FrameDependencies desc = Some fd \<and>
     prepared e desc fd exampleSelector = Some d1 \<and> chosen (ExtFrameNum e) fd d1 dt \<and> Layer (dt_target dt) = \<lparr>Spatial = 0, Temporal = 1\<rparr>"
proof -
  obtain s p d r where e: "exampleArrive (0, Some keyBytes, 100, newPkt) (Some (NewDependencyDescriptorParser 0 True)) = Some (s, Some p)"
    "Select p exampleSelector = Some (d, r)" "IsSelected r" "currentLayer (dds_base d) = \<lparr>Spatial = 0, Temporal = 1\<rparr>" by (rule example_step)
  note S = Select_sound [OF nearest_bounded forwardAll.simps(1) e(1), where b = "SetTarget \<lparr>Spatial = 2, Temporal = 2\<rparr> NewBase"]
  have "\<exists>e desc fd d1 dt. ep_DependencyDescriptor p = Some e \<and> Descriptor e = Some desc \<and> FrameDependencies desc = Some fd \<and>
      prepared e desc fd exampleSelector = Some d1 \<and> dds_base d1 = dds_base exampleSelector \<and> chosen (ExtFrameNum e) fd d1 dt \<and>
      currentLayer (dds_base d) = Layer (dt_target dt)"
    using S unfolding e(2) by (elim exE conjE) (simp add: e(3))
  then obtain desc fd d1 dt x where "ep_DependencyDescriptor p = Some x" "Descriptor x = Some desc" "FrameDependencies desc = Some fd"
    "prepared x desc fd exampleSelector = Some d1" "chosen (ExtFrameNum x) fd d1 dt" "currentLayer (dds_base d) = Layer (dt_target dt)" by (elim exE conjE)
  with e(1,4) show ?thesis by metis
qed

theorem Rollback_undoes_switch_witness:
  "\<exists>s p d r. exampleArrive (0, Some keyBytes, 100, newPkt) (Some (NewDependencyDescriptorParser 0 True)) = Some (s, Some p) \<and>
     Select p exampleSelector = Some (d, r) \<and> currentLayer (dds_base d) = \<lparr>Spatial = 0, Temporal = 1\<rparr> \<and>
     currentLayer (dds_base (dds_Rollback d)) = InvalidLayer"
proof -
  obtain s p d r where e: "exampleArrive (0, Some keyBytes, 100, newPkt) (Some (NewDependencyDescriptorParser 0 True)) = Some (s, Some p)"
    "Select p exampleSelector = Some (d, r)" "IsSwitching r" "currentLayer (dds_base d) = \<lparr>Spatial = 0, Temporal = 1\<rparr>" by (rule example_step)
  have "currentLayer (dds_base exampleSelector) = InvalidLayer" by (simp add: NewDependencyDescriptorFromOther_def SetTarget_def NewBase_def)
  with Rollback_undoes_switch [OF nearest_bounded forwardAll.simps(1) e(1-3)] e show ?thesis by metis
qed

end
