(* ===== verification/Allocation.thy ===== *)
theory Allocation
  imports DDForwarder
begin

text \<open>
  Allocation of video layers to a subscriber: the part of \<open>pkg/sfu/forwarder.go\<close> that decides which layer is wanted.

  \<open>Forwarder\<close> has the fields that these operations read or write; the mungers and the clock references belong to the packet path.
  The selector is the datatype of the implementations of its interface. Bit rates are a table of \<open>3\<close> by \<open>4\<close> entries; reading
  outside of it is a panic, \<^term>\<open>None\<close>. \<open>int64\<close> arithmetic wraps around (\<open>i64\<close>). The distance to the desired layer is a quotient in
  floating point that is only reported: it is kept as numerator and denominator. The transition that weighs
  layers in floating point (\<open>ProvisionalAllocateGetBestWeightedTransition\<close>) is not modelled.

  Lemmas: no series of operations runs out of the table or into a nil pointer, every operation keeps the layers inside of it, and a
  stream without target has no current layer and requests none.
\<close>

section \<open>Selectors\<close>

datatype VideoLayerSelector = vlsNull Base | vlsSimulcast Base | vlsVP9 Base | vlsDD DDSelector

fun vls_base :: "VideoLayerSelector \<Rightarrow> Base" where
  "vls_base (vlsNull b) = b"
| "vls_base (vlsSimulcast b) = b"
| "vls_base (vlsVP9 b) = b"
| "vls_base (vlsDD d) = dds_base d"

fun onBase :: "(Base \<Rightarrow> Base) \<Rightarrow> VideoLayerSelector \<Rightarrow> VideoLayerSelector" where
  "onBase g (vlsNull b) = vlsNull (g b)"
| "onBase g (vlsSimulcast b) = vlsSimulcast (g b)"
| "onBase g (vlsVP9 b) = vlsVP9 (g b)"
| "onBase g (vlsDD d) = vlsDD (d\<lparr>dds_base := g (dds_base d)\<rparr>)"

fun IsOvershootOkay :: "VideoLayerSelector \<Rightarrow> bool" where
  "IsOvershootOkay (vlsSimulcast _) = True"
| "IsOvershootOkay _ = False"

fun vls_CheckSync :: "VideoLayerSelector \<Rightarrow> bool \<times> int" where
  "vls_CheckSync (vlsDD d) = dds_CheckSync d"
| "vls_CheckSync v = base_CheckSync (vls_base v)"

lemma vls_base_update [simp]: "vls_base (onBase g v) = g (vls_base v)" "IsOvershootOkay (onBase g v) = IsOvershootOkay v"
  by (cases v; simp)+

section \<open>Bit rates\<close>

type_synonym Bitrates = "int \<Rightarrow> int \<Rightarrow> int"

definition i64 :: "int \<Rightarrow> int" where
  "i64 x = signed_take_bit 63 x"

definition rate :: "Bitrates \<Rightarrow> VideoLayer \<Rightarrow> int option" where
  "rate brs l = (if 0 \<le> Spatial l \<and> Spatial l \<le> 2 \<and> 0 \<le> Temporal l \<and> Temporal l \<le> 3 then Some (brs (Spatial l) (Temporal l)) else None)"

text \<open>The layers a pair of nested loops visits, from low to high or from high to low, and the first one with a bit rate.\<close>

definition layersUp :: "int \<Rightarrow> int \<Rightarrow> int \<Rightarrow> int \<Rightarrow> VideoLayer list" where
  "layersUp minSpatial maxSpatial minTemporal maxTemporal =
     concat (map (\<lambda>s. map (\<lambda>t. \<lparr>Spatial = s, Temporal = t\<rparr>) [minTemporal..maxTemporal]) [minSpatial..maxSpatial])"

definition layersDown :: "VideoLayer \<Rightarrow> VideoLayer list" where
  "layersDown maxLyr =
     concat (map (\<lambda>s. map (\<lambda>t. \<lparr>Spatial = s, Temporal = t\<rparr>) (rev [0..Temporal maxLyr])) (rev [0..Spatial maxLyr]))"

fun firstLayer :: "Bitrates \<Rightarrow> VideoLayer list \<Rightarrow> (VideoLayer \<times> int) option option" where
  "firstLayer brs [] = Some None"
| "firstLayer brs (l # ls) = do { r \<leftarrow> rate brs l; if r \<noteq> 0 then Some (Some (l, r)) else firstLayer brs ls }"

definition getOptimalBandwidthNeeded :: "bool \<Rightarrow> bool \<Rightarrow> int \<Rightarrow> Bitrates \<Rightarrow> VideoLayer \<Rightarrow> int option" where
  "getOptimalBandwidthNeeded muted pubMuted maxPublishedLayer brs maxLyr =
     (if muted \<or> pubMuted \<or> maxPublishedLayer = InvalidLayerSpatial then Some 0
      else do { found \<leftarrow> firstLayer brs (layersDown maxLyr); Some (case found of None \<Rightarrow> 0 | Some (_, r) \<Rightarrow> r) })"

definition getBandwidthNeeded :: "Bitrates \<Rightarrow> VideoLayer \<Rightarrow> int \<Rightarrow> int option" where
  "getBandwidthNeeded brs lyr fallback =
     (if IsValid lyr then do { r \<leftarrow> rate brs lyr; Some (if r > 0 then r else fallback) } else Some fallback)"

text \<open>The distance, as numerator and denominator.\<close>

definition getDistanceToDesired ::
  "bool \<Rightarrow> bool \<Rightarrow> VideoLayer \<Rightarrow> int list \<Rightarrow> Bitrates \<Rightarrow> VideoLayer \<Rightarrow> VideoLayer \<Rightarrow> (int \<times> int) option" where
  "getDistanceToDesired muted pubMuted maxSeenLyr availableLayers brs targetLyr maxLyr =
     (if muted \<or> pubMuted \<or> \<not> IsValid maxSeenLyr \<or> \<not> IsValid maxLyr then Some (0, 1)
      else do {
        found \<leftarrow> firstLayer brs (layersDown \<lparr>Spatial = 2, Temporal = 3\<rparr>);
        let maxAvailableSpatial = (case found of None \<Rightarrow> InvalidLayerSpatial | Some (l, _) \<Rightarrow> Spatial l);
        let (maxAvailableSpatial, maxAvailableTemporal) =
              foldl (\<lambda>(s, t) lyr. if lyr > s then (lyr, Temporal maxSeenLyr) else (s, t)) (maxAvailableSpatial, InvalidLayerTemporal) availableLayers;
        let adjustedSpatial = min (Spatial maxSeenLyr) (min maxAvailableSpatial (Spatial maxLyr));
        maxAvailableTemporal \<leftarrow>
          (if adjustedSpatial \<noteq> InvalidLayerSpatial
           then do { found \<leftarrow> firstLayer brs (map (\<lambda>t. \<lparr>Spatial = adjustedSpatial, Temporal = t\<rparr>) (rev [0..3]));
                     Some (case found of None \<Rightarrow> maxAvailableTemporal | Some (l, _) \<Rightarrow> Temporal l) }
           else Some maxAvailableTemporal);
        let adjustedTemporal = min (Temporal maxSeenLyr) (min maxAvailableTemporal (Temporal maxLyr));
        let adjustedMaxLayer = \<lparr>Spatial = adjustedSpatial, Temporal = adjustedTemporal\<rparr>;
        let adjustedMaxLayer = (if \<not> IsValid adjustedMaxLayer then \<lparr>Spatial = 0, Temporal = 0\<rparr> else adjustedMaxLayer);
        let adjustedTargetLayer = (if \<not> IsValid targetLyr then \<lparr>Spatial = 0, Temporal = 0\<rparr> else targetLyr);
        let distance = (Spatial adjustedMaxLayer - Spatial adjustedTargetLayer) * (Temporal maxSeenLyr + 1) +
                       (Temporal adjustedMaxLayer - Temporal adjustedTargetLayer);
        let distance = (if \<not> IsValid targetLyr then distance + (Temporal maxSeenLyr + 1) else distance);
        Some (distance, Temporal maxSeenLyr + 1)
      })"

section \<open>State\<close>

datatype RTPCodecType = kindAudio | kindVideo | kindUnknown

datatype VideoPauseReason = VideoPauseReasonNone | VideoPauseReasonMuted | VideoPauseReasonPubMuted | VideoPauseReasonFeedDry |
  VideoPauseReasonBandwidth

record VideoAllocation =
  va_PauseReason :: VideoPauseReason
  IsDeficient :: bool
  BandwidthRequested :: int
  BandwidthDelta :: int
  BandwidthNeeded :: int
  va_Bitrates :: Bitrates
  TargetLayer :: VideoLayer
  RequestLayerSpatial :: int
  MaxLayer :: VideoLayer
  DistanceToDesired :: "int \<times> int"

definition zeroAllocation :: VideoAllocation where
  "zeroAllocation = \<lparr>va_PauseReason = VideoPauseReasonNone, IsDeficient = False, BandwidthRequested = 0, BandwidthDelta = 0, BandwidthNeeded = 0,
     va_Bitrates = (\<lambda>_ _. 0), TargetLayer = \<lparr>Spatial = 0, Temporal = 0\<rparr>, RequestLayerSpatial = 0,
     MaxLayer = \<lparr>Spatial = 0, Temporal = 0\<rparr>, DistanceToDesired = (0, 1)\<rparr>"

definition VideoAllocationDefault :: VideoAllocation where
  "VideoAllocationDefault = zeroAllocation\<lparr>va_PauseReason := VideoPauseReasonFeedDry, TargetLayer := InvalidLayer,
     RequestLayerSpatial := InvalidLayerSpatial, MaxLayer := InvalidLayer\<rparr>"

record VideoAllocationProvisional =
  vp_muted :: bool
  vp_pubMuted :: bool
  vp_maxSeenLayer :: VideoLayer
  vp_availableLayers :: "int list"
  vp_bitrates :: Bitrates
  vp_maxLayer :: VideoLayer
  vp_currentLayer :: VideoLayer
  allocatedLayer :: VideoLayer

record VideoTransition =
  From :: VideoLayer
  To :: VideoLayer
  vt_BandwidthDelta :: int

record Forwarder =
  isH264 :: bool
  f_kind :: RTPCodecType
  disableOpportunisticAllocation :: bool
  f_enableStartAtDesiredQuality :: bool
  f_muted :: bool
  f_pubMuted :: bool
  resumeBehind :: bool
  acquireDeadline :: int
  lastSSRC :: u32
  provisional :: "VideoAllocationProvisional option"
  lastAllocation :: VideoAllocation
  vls :: VideoLayerSelector
  ddForwarder :: "DDForwarder option"

definition NewForwarder :: "RTPCodecType \<Rightarrow> bool \<Rightarrow> bool \<Rightarrow> Forwarder" where
  "NewForwarder kind disableOpportunistic enableStart =
     \<lparr>isH264 = False, f_kind = kind, disableOpportunisticAllocation = disableOpportunistic, f_enableStartAtDesiredQuality = enableStart,
      f_muted = False, f_pubMuted = False, resumeBehind = False, acquireDeadline = 0, lastSSRC = 0, provisional = None,
      lastAllocation = VideoAllocationDefault,
      vls = onBase (\<lambda>b. b\<lparr>enableStartAtDesiredQuality := enableStart\<rparr>)
              (onBase (\<lambda>b. if kind = kindVideo then SetMaxTemporal 3 b else b) (vlsNull NewBase)),
      ddForwarder = None\<rparr>"

section \<open>Setters\<close>

abbreviation f_base :: "Forwarder \<Rightarrow> Base" where
  "f_base f \<equiv> vls_base (vls f)"

definition resyncLocked :: "Forwarder \<Rightarrow> Forwarder" where
  "resyncLocked f =
     (let f = f\<lparr>vls := onBase (\<lambda>b. b\<lparr>currentLayer := InvalidLayer\<rparr>) (vls f), lastSSRC := 0\<rparr>;
          f = (case ddForwarder f of None \<Rightarrow> f | Some d \<Rightarrow> f\<lparr>ddForwarder := Some (ddf_Resync d)\<rparr>)
      in if f_pubMuted f then f\<lparr>resumeBehind := True\<rparr> else f)"

definition setTargetLayer :: "VideoLayer \<Rightarrow> int \<Rightarrow> Forwarder \<Rightarrow> Forwarder" where
  "setTargetLayer lyr requestLayerSpatial f =
     (let f = f\<lparr>vls := onBase (SetTarget lyr) (vls f)\<rparr>
      in if IsValid lyr then f\<lparr>vls := onBase (\<lambda>b. b\<lparr>requestSpatial := requestLayerSpatial\<rparr>) (vls f)\<rparr>
         else f\<lparr>vls := onBase (\<lambda>b. b\<lparr>requestSpatial := InvalidLayerSpatial\<rparr>) (vls f)\<rparr>)"

definition updateAllocation :: "VideoAllocation \<Rightarrow> Forwarder \<Rightarrow> Forwarder \<times> VideoAllocation" where
  "updateAllocation alloc f =
     (let alloc = (if IsValid (TargetLayer alloc) \<and> isH264 f
                   then alloc\<lparr>TargetLayer := (TargetLayer alloc)\<lparr>Temporal := 0\<rparr>\<rparr> else alloc);
          f = f\<lparr>lastAllocation := alloc\<rparr>;
          f = setTargetLayer (TargetLayer (lastAllocation f)) (RequestLayerSpatial (lastAllocation f)) f;
          f = (if \<not> IsValid (targetLayer (f_base f)) then resyncLocked f else f)
      in (f, lastAllocation f))"

definition withinAcquireGraceLocked :: "int \<Rightarrow> Forwarder \<Rightarrow> bool" where
  "withinAcquireGraceLocked now f \<longleftrightarrow> acquireDeadline f \<noteq> 0 \<and> now < acquireDeadline f"

definition initialLayerAcquisitionGrace :: int where
  "initialLayerAcquisitionGrace = 1000000000"

definition SetMaxPublishedLayer :: "int \<Rightarrow> int \<Rightarrow> Forwarder \<Rightarrow> Forwarder \<times> bool" where
  "SetMaxPublishedLayer now maxPublishedLayer f =
     (if maxPublishedLayer \<le> Spatial (maxSeenLayer (f_base f)) then (f, False)
      else let f = f\<lparr>vls := onBase (SetMaxSeenSpatial maxPublishedLayer) (vls f)\<rparr>;
               f = (if f_enableStartAtDesiredQuality f \<and> \<not> IsValid (currentLayer (f_base f))
                    then f\<lparr>acquireDeadline := i64 (now + initialLayerAcquisitionGrace)\<rparr> else f)
           in (f, True))"

definition MaybeExpireAcquireGrace :: "int \<Rightarrow> Forwarder \<Rightarrow> Forwarder \<times> bool" where
  "MaybeExpireAcquireGrace now f =
     (if acquireDeadline f = 0 \<or> now < acquireDeadline f then (f, False)
      else let f = f\<lparr>acquireDeadline := 0, f_enableStartAtDesiredQuality := False,
                     vls := onBase (\<lambda>b. b\<lparr>enableStartAtDesiredQuality := False\<rparr>) (vls f)\<rparr>
           in (f, \<not> IsValid (currentLayer (f_base f))))"

definition NeedsPeriodicSyncCheck :: "Forwarder \<Rightarrow> bool" where
  "NeedsPeriodicSyncCheck f \<longleftrightarrow> acquireDeadline f \<noteq> 0 \<or> (case vls f of vlsDD _ \<Rightarrow> True | _ \<Rightarrow> False)"

definition SetMaxTemporalLayerSeen :: "int \<Rightarrow> Forwarder \<Rightarrow> Forwarder \<times> bool" where
  "SetMaxTemporalLayerSeen maxTemporalLayerSeen f =
     (if maxTemporalLayerSeen \<le> Temporal (maxSeenLayer (f_base f)) then (f, False)
      else (f\<lparr>vls := onBase (SetMaxSeenTemporal maxTemporalLayerSeen) (vls f)\<rparr>, True))"

definition Mute :: "bool \<Rightarrow> bool \<Rightarrow> Forwarder \<Rightarrow> Forwarder \<times> bool" where
  "Mute muted isSubscribeMutable f =
     (if f_muted f = muted then (f, False)
      else if muted \<and> \<not> isSubscribeMutable then (f, False)
      else let f = f\<lparr>f_muted := muted\<rparr> in (if muted then resyncLocked f else f, True))"

definition PubMute :: "bool \<Rightarrow> Forwarder \<Rightarrow> Forwarder \<times> bool" where
  "PubMute pubMuted f =
     (if f_pubMuted f = pubMuted then (f, False)
      else let f = f\<lparr>f_pubMuted := pubMuted\<rparr> in (if pubMuted then resyncLocked f else f, True))"

definition SetMaxSpatialLayer :: "int \<Rightarrow> Forwarder \<Rightarrow> (Forwarder \<times> bool \<times> VideoLayer) option" where
  "SetMaxSpatialLayer spatialLayer f =
     (if f_kind f = kindAudio then Some (f, False, InvalidLayer)
      else if spatialLayer = Spatial (maxLayer (f_base f)) then Some (f, False, maxLayer (f_base f))
      else
        let f = f\<lparr>vls := onBase (SetMaxSpatial spatialLayer) (vls f)\<rparr>;
            mx = maxLayer (f_base f)
        in
          if disableOpportunisticAllocation f then Some (f, True, mx)
          else if Spatial (targetLayer (f_base f)) \<noteq> InvalidLayerSpatial \<or> IsDeficient (lastAllocation f) \<or>
                  va_PauseReason (lastAllocation f) = VideoPauseReasonMuted \<or> va_PauseReason (lastAllocation f) = VideoPauseReasonPubMuted
          then Some (f, True, mx)
          else do {
            let alloc = (lastAllocation f)\<lparr>BandwidthRequested := 0, BandwidthDelta := 0, va_Bitrates := (\<lambda>_ _. 0), TargetLayer := mx,
                  RequestLayerSpatial := Spatial mx, MaxLayer := mx\<rparr>;
            distance \<leftarrow> getDistanceToDesired (f_muted f) (f_pubMuted f) (maxSeenLayer (f_base f)) [] (va_Bitrates alloc) (TargetLayer alloc) mx;
            let f = fst (updateAllocation (alloc\<lparr>DistanceToDesired := distance\<rparr>) f);
            Some (f, True, maxLayer (f_base f))
          })"

definition SetMaxTemporalLayer :: "int \<Rightarrow> Forwarder \<Rightarrow> Forwarder \<times> bool \<times> VideoLayer" where
  "SetMaxTemporalLayer temporalLayer f =
     (if f_kind f = kindAudio then (f, False, InvalidLayer)
      else if temporalLayer = Temporal (maxLayer (f_base f)) then (f, False, maxLayer (f_base f))
      else let f = f\<lparr>vls := onBase (SetMaxTemporal temporalLayer) (vls f)\<rparr> in (f, True, maxLayer (f_base f)))"

definition GetOptimalBandwidthNeeded :: "Bitrates \<Rightarrow> Forwarder \<Rightarrow> int option" where
  "GetOptimalBandwidthNeeded brs f = getOptimalBandwidthNeeded (f_muted f) (f_pubMuted f) (Spatial (maxSeenLayer (f_base f))) brs (maxLayer (f_base f))"

definition f_BandwidthRequested :: "Bitrates \<Rightarrow> Forwarder \<Rightarrow> int option" where
  "f_BandwidthRequested brs f = getBandwidthNeeded brs (targetLayer (f_base f)) (BandwidthRequested (lastAllocation f))"

section \<open>Optimal allocation\<close>

text \<open>The scan of the available layers: the one to request, the highest and the lowest.\<close>

definition scanAvailable :: "int \<Rightarrow> int list \<Rightarrow> int \<times> int \<times> int" where
  "scanAvailable limit availableLayers =
     foldl (\<lambda>(request, highest, lowest) al.
       (if al > request \<and> al \<le> limit then al else request,
        if al > highest then al else highest,
        if lowest = InvalidLayerSpatial \<or> al < lowest then al else lowest))
       (InvalidLayerSpatial, InvalidLayerSpatial, InvalidLayerSpatial) availableLayers"

definition getMaxTemporal :: "Forwarder \<Rightarrow> int" where
  "getMaxTemporal f =
     (let mx = Temporal (maxLayer (f_base f)); seen = Temporal (maxSeenLayer (f_base f))
      in if seen \<noteq> InvalidLayerTemporal \<and> seen < mx then seen else mx)"

text \<open>The target and the layer to request of a stream that is neither muted nor without layers.\<close>

definition opportunisticTarget :: "int \<Rightarrow> bool \<Rightarrow> Forwarder \<Rightarrow> VideoLayer \<times> bool" where
  "opportunisticTarget now allowOvershoot f =
     (let mx = Spatial (maxLayer (f_base f)); seen = Spatial (maxSeenLayer (f_base f));
          maxSpatial = (if allowOvershoot \<and> IsOvershootOkay (vls f) \<and> seen > mx then seen else mx);
          grace = (\<not> IsValid (currentLayer (f_base f)) \<and> seen < maxSpatial \<and> withinAcquireGraceLocked now f)
      in (\<lparr>Spatial = (if grace then maxSpatial else min seen maxSpatial), Temporal = getMaxTemporal f\<rparr>, grace))"

definition optimalTarget :: "int \<Rightarrow> int list \<Rightarrow> bool \<Rightarrow> bool \<Rightarrow> Forwarder \<Rightarrow> VideoLayer \<times> int" where
  "optimalTarget now availableLayers allowOvershoot hold f =
     (let b = f_base f;
          limit = min (Spatial (maxLayer b)) (Spatial (maxSeenLayer b));
          (request, highest, lowest) = scanAvailable limit availableLayers;
          request = (if request = InvalidLayerSpatial \<and> highest \<noteq> InvalidLayerSpatial \<and> allowOvershoot \<and> IsOvershootOkay (vls f)
                     then highest else request)
      in if IsValid (currentLayer b)
         then
           let lyr = (if (request = requestSpatial b \<and> Spatial (currentLayer b) = requestSpatial b) \<or> request = InvalidLayerSpatial
                      then \<lparr>Spatial = Spatial (currentLayer b), Temporal = getMaxTemporal f\<rparr>
                      else if hold then \<lparr>Spatial = lowest, Temporal = 0\<rparr>
                      else \<lparr>Spatial = request, Temporal = getMaxTemporal f\<rparr>)
           in (lyr, Spatial lyr)
         else if hold
         then let lyr = \<lparr>Spatial = (if lowest = InvalidLayerSpatial then 0 else lowest), Temporal = 0\<rparr> in (lyr, Spatial lyr)
         else
           let (lyr, grace) = opportunisticTarget now allowOvershoot f
           in (lyr, if grace then Spatial lyr else if request = InvalidLayerSpatial then limit else request))"

text \<open>The allocation, up to its bandwidth: paused when muted or without layers.\<close>

definition optimalAllocation :: "int \<Rightarrow> int list \<Rightarrow> Bitrates \<Rightarrow> bool \<Rightarrow> bool \<Rightarrow> int \<Rightarrow> Forwarder \<Rightarrow> VideoAllocation" where
  "optimalAllocation now availableLayers brs allowOvershoot hold optimal f =
     (let b = f_base f;
          alloc = zeroAllocation\<lparr>va_Bitrates := brs, TargetLayer := InvalidLayer, RequestLayerSpatial := requestSpatial b, MaxLayer := maxLayer b\<rparr>;
          alloc = (if optimal = 0 then alloc\<lparr>va_PauseReason := VideoPauseReasonFeedDry\<rparr> else alloc)\<lparr>BandwidthNeeded := optimal\<rparr>;
          alloc =
            (if \<not> IsValid (maxLayer b) \<or> Spatial (maxSeenLayer b) = InvalidLayerSpatial then alloc
             else if f_muted f then alloc\<lparr>va_PauseReason := VideoPauseReasonMuted\<rparr>
             else if f_pubMuted f then alloc\<lparr>va_PauseReason := VideoPauseReasonPubMuted\<rparr>
             else let (lyr, request) = optimalTarget now availableLayers allowOvershoot hold f
                  in alloc\<lparr>TargetLayer := lyr, RequestLayerSpatial := request\<rparr>)
      in if \<not> IsValid (TargetLayer alloc)
         then alloc\<lparr>TargetLayer := InvalidLayer, RequestLayerSpatial := InvalidLayerSpatial\<rparr> else alloc)"

definition AllocateOptimal :: "int \<Rightarrow> int list \<Rightarrow> Bitrates \<Rightarrow> bool \<Rightarrow> bool \<Rightarrow> Forwarder \<Rightarrow> (Forwarder \<times> VideoAllocation) option" where
  "AllocateOptimal now availableLayers brs allowOvershoot hold f =
     (if f_kind f = kindAudio then Some (f, lastAllocation f)
      else do {
        let b = f_base f;
        optimal \<leftarrow> getOptimalBandwidthNeeded (f_muted f) (f_pubMuted f) (Spatial (maxSeenLayer b)) brs (maxLayer b);
        let alloc = optimalAllocation now availableLayers brs allowOvershoot hold optimal f;
        requested \<leftarrow> (if IsValid (TargetLayer alloc)
                      then getOptimalBandwidthNeeded (f_muted f) (f_pubMuted f) (Spatial (maxSeenLayer b)) brs (TargetLayer alloc) else Some 0);
        needed \<leftarrow> getBandwidthNeeded brs (targetLayer b) (BandwidthRequested (lastAllocation f));
        distance \<leftarrow> getDistanceToDesired (f_muted f) (f_pubMuted f) (maxSeenLayer b) availableLayers brs (TargetLayer alloc) (maxLayer b);
        Some (updateAllocation (alloc\<lparr>BandwidthRequested := requested, BandwidthDelta := i64 (requested - needed), DistanceToDesired := distance\<rparr>) f)
      })"

section \<open>Provisional allocation\<close>

definition ProvisionalAllocatePrepare :: "int list \<Rightarrow> Bitrates \<Rightarrow> Forwarder \<Rightarrow> Forwarder" where
  "ProvisionalAllocatePrepare availableLayers bitrates f =
     f\<lparr>provisional := Some
        \<lparr>vp_muted = f_muted f, vp_pubMuted = f_pubMuted f, vp_maxSeenLayer = maxSeenLayer (f_base f), vp_availableLayers = availableLayers,
         vp_bitrates = bitrates, vp_maxLayer = maxLayer (f_base f), vp_currentLayer = currentLayer (f_base f), allocatedLayer = InvalidLayer\<rparr>\<rparr>"

abbreviation allocateTo :: "VideoLayer \<Rightarrow> VideoAllocationProvisional \<Rightarrow> Forwarder \<Rightarrow> Forwarder" where
  "allocateTo lyr p f \<equiv> f\<lparr>provisional := Some (p\<lparr>allocatedLayer := lyr\<rparr>)\<rparr>"

definition ProvisionalAllocateReset :: "Forwarder \<Rightarrow> Forwarder option" where
  "ProvisionalAllocateReset f = do { p \<leftarrow> provisional f; Some (allocateTo InvalidLayer p f) }"

definition ProvisionalAllocate :: "int \<Rightarrow> VideoLayer \<Rightarrow> bool \<Rightarrow> bool \<Rightarrow> Forwarder \<Rightarrow> (Forwarder \<times> bool \<times> int) option" where
  "ProvisionalAllocate availableChannelCapacity lyr allowPause allowOvershoot f =
     do {
       p \<leftarrow> provisional f;
       if vp_muted p \<or> vp_pubMuted p \<or> Spatial (vp_maxSeenLayer p) = InvalidLayerSpatial \<or> \<not> IsValid (vp_maxLayer p) \<or>
          ((\<not> allowOvershoot \<or> \<not> IsOvershootOkay (vls f)) \<and> GreaterThan lyr (vp_maxLayer p))
       then Some (f, False, 0)
       else do {
         requiredBitrate \<leftarrow> rate (vp_bitrates p) lyr;
         if requiredBitrate = 0 then Some (f, False, 0)
         else do {
           alreadyAllocatedBitrate \<leftarrow> (if IsValid (allocatedLayer p) then rate (vp_bitrates p) (allocatedLayer p) else Some 0);
           if \<not> GreaterThan lyr (vp_maxLayer p) \<and> requiredBitrate \<le> i64 (availableChannelCapacity + alreadyAllocatedBitrate)
           then Some (allocateTo lyr p f, True, i64 (requiredBitrate - alreadyAllocatedBitrate))
           else if \<not> allowPause \<and> (\<not> IsValid (allocatedLayer p) \<or> \<not> GreaterThan lyr (allocatedLayer p))
           then Some (allocateTo lyr p f, True, i64 (requiredBitrate - alreadyAllocatedBitrate))
           else Some (f, False, 0)
         }
       }
     }"

text \<open>The last part of the cooperative transition: the lowest layer for a stream that is not active, or the current one.\<close>

definition cooperativeFallback :: "bool \<Rightarrow> VideoAllocationProvisional \<Rightarrow> Forwarder \<Rightarrow> (Forwarder \<times> VideoTransition) option" where
  "cooperativeFallback allowOvershoot p f =
     do {
       let existing = targetLayer (f_base f);
       found \<leftarrow>
         (if \<not> IsValid existing
          then do {
            found \<leftarrow> firstLayer (vp_bitrates p) (layersUp 0 (Spatial (vp_maxLayer p)) 0 (Temporal (vp_maxLayer p)));
            if found = None \<and> IsValid (vp_maxLayer p) \<and> allowOvershoot \<and> IsOvershootOkay (vls f)
            then firstLayer (vp_bitrates p) (layersUp (Spatial (vp_maxLayer p) + 1) 2 0 3)
            else Some found
          }
          else Some None);
       (target, required) \<leftarrow>
         (case found of
            Some (l, r) \<Rightarrow> Some (l, r)
          | None \<Rightarrow> if IsValid (vp_currentLayer p) then do { r \<leftarrow> rate (vp_bitrates p) (vp_currentLayer p); Some (vp_currentLayer p, r) }
                    else Some (vp_currentLayer p, 0));
       needed \<leftarrow> getBandwidthNeeded (vp_bitrates p) existing (BandwidthRequested (lastAllocation f));
       Some (allocateTo target p f, \<lparr>From = existing, To = target, vt_BandwidthDelta = i64 (required - needed)\<rparr>)
     }"

definition ProvisionalAllocateGetCooperativeTransition :: "bool \<Rightarrow> Forwarder \<Rightarrow> (Forwarder \<times> VideoTransition) option" where
  "ProvisionalAllocateGetCooperativeTransition allowOvershoot f =
     do {
       p \<leftarrow> provisional f;
       let existing = targetLayer (f_base f);
       if vp_muted p \<or> vp_pubMuted p
       then do {
         needed \<leftarrow> getBandwidthNeeded (vp_bitrates p) existing (BandwidthRequested (lastAllocation f));
         Some (allocateTo InvalidLayer p f, \<lparr>From = existing, To = InvalidLayer, vt_BandwidthDelta = i64 (- needed)\<rparr>)
       }
       else if \<not> IsValid existing then cooperativeFallback allowOvershoot p f
       else do {
         maximal \<leftarrow> firstLayer (vp_bitrates p) (layersDown (vp_maxLayer p));
         case maximal of
           None \<Rightarrow> cooperativeFallback allowOvershoot p f
         | Some (maximalLayer, maximalBandwidthRequired) \<Rightarrow>
             if \<not> GreaterThan existing maximalLayer
             then do {
               r \<leftarrow> rate (vp_bitrates p) existing;
               if r \<noteq> 0
               then Some (allocateTo existing p f, \<lparr>From = existing, To = existing, vt_BandwidthDelta = 0\<rparr>)
               else cooperativeFallback allowOvershoot p f
             }
             else do {
               needed \<leftarrow> getBandwidthNeeded (vp_bitrates p) existing (BandwidthRequested (lastAllocation f));
               Some (allocateTo maximalLayer p f,
                     \<lparr>From = existing, To = maximalLayer, vt_BandwidthDelta = i64 (maximalBandwidthRequired - needed)\<rparr>)
             }
       }
     }"

definition ProvisionalAllocateCommit :: "Forwarder \<Rightarrow> (Forwarder \<times> VideoAllocation) option" where
  "ProvisionalAllocateCommit f =
     do {
       p \<leftarrow> provisional f;
       optimal \<leftarrow> getOptimalBandwidthNeeded (vp_muted p) (vp_pubMuted p) (Spatial (vp_maxSeenLayer p)) (vp_bitrates p) (vp_maxLayer p);
       needed \<leftarrow> getBandwidthNeeded (vp_bitrates p) (targetLayer (f_base f)) (BandwidthRequested (lastAllocation f));
       distance \<leftarrow> getDistanceToDesired (vp_muted p) (vp_pubMuted p) (vp_maxSeenLayer p) (vp_availableLayers p) (vp_bitrates p)
                     (allocatedLayer p) (vp_maxLayer p);
       let alloc = zeroAllocation\<lparr>BandwidthRequested := 0, BandwidthDelta := i64 (0 - needed), va_Bitrates := vp_bitrates p, BandwidthNeeded := optimal,
             TargetLayer := allocatedLayer p, RequestLayerSpatial := Spatial (allocatedLayer p), MaxLayer := vp_maxLayer p,
             DistanceToDesired := distance\<rparr>;
       if vp_muted p then Some (updateAllocation (alloc\<lparr>va_PauseReason := VideoPauseReasonMuted\<rparr>) f)
       else if vp_pubMuted p then Some (updateAllocation (alloc\<lparr>va_PauseReason := VideoPauseReasonPubMuted\<rparr>) f)
       else if optimal = 0
       then if IsValid (allocatedLayer p)
            then do {
              r \<leftarrow> rate (vp_bitrates p) (allocatedLayer p);
              Some (updateAllocation (alloc\<lparr>BandwidthRequested := r, BandwidthDelta := i64 (r - needed)\<rparr>) f)
            }
            else
              let alloc = alloc\<lparr>va_PauseReason := VideoPauseReasonFeedDry\<rparr>
              in if IsValid (vp_currentLayer p) \<and> Spatial (vp_currentLayer p) \<le> Spatial (vp_maxLayer p)
                 then Some (updateAllocation (alloc\<lparr>TargetLayer := vp_currentLayer p, RequestLayerSpatial := Spatial (vp_currentLayer p)\<rparr>)
                              (allocateTo (vp_currentLayer p) p f))
                 else Some (updateAllocation alloc f)
       else do {
         r \<leftarrow> (if IsValid (allocatedLayer p) then rate (vp_bitrates p) (allocatedLayer p) else Some 0);
         let alloc = alloc\<lparr>BandwidthRequested := r, BandwidthDelta := i64 (r - needed)\<rparr>;
         if GreaterThan (allocatedLayer p) (vp_maxLayer p) \<or> r \<ge> optimal
         then Some (updateAllocation (alloc\<lparr>IsDeficient := False\<rparr>) f)
         else
           let alloc = alloc\<lparr>IsDeficient := True\<rparr>;
               alloc = (if \<not> IsValid (allocatedLayer p) then alloc\<lparr>va_PauseReason := VideoPauseReasonBandwidth\<rparr> else alloc)
           in Some (updateAllocation alloc f)
       }
     }"

section \<open>The next higher layer\<close>

text \<open>The three loops over the layers above the target: in its spatial layer, above it, and beyond the maximum.\<close>

definition loopsAbove :: "bool \<Rightarrow> Forwarder \<Rightarrow> VideoLayer list list" where
  "loopsAbove allowOvershoot f =
     (let target = targetLayer (f_base f); mx = maxLayer (f_base f)
      in (if IsValid target then [layersUp (Spatial target) (Spatial target) (Temporal target + 1) (Temporal mx)] else []) @
         [layersUp (Spatial target + 1) (Spatial mx) 0 (Temporal mx)] @
         (if allowOvershoot \<and> IsOvershootOkay (vls f) \<and> IsValid mx then [layersUp (Spatial mx + 1) 2 0 3] else []))"

definition AllocateNextHigher ::
  "int \<Rightarrow> int list \<Rightarrow> Bitrates \<Rightarrow> bool \<Rightarrow> Forwarder \<Rightarrow> (Forwarder \<times> VideoAllocation \<times> bool) option" where
  "AllocateNextHigher availableChannelCapacity availableLayers brs allowOvershoot f =
     (if f_kind f = kindAudio then Some (f, lastAllocation f, False)
      else if \<not> IsDeficient (lastAllocation f) then Some (f, lastAllocation f, False)
      else do {
        let b = f_base f;
        optimal \<leftarrow> getOptimalBandwidthNeeded (f_muted f) (f_pubMuted f) (Spatial (maxSeenLayer b)) brs (maxLayer b);
        alreadyAllocated \<leftarrow> (if IsValid (targetLayer b) then rate brs (targetLayer b) else Some 0);
        found \<leftarrow> firstLayer brs (concat (loopsAbove allowOvershoot f));
        case found of
          None \<Rightarrow> Some (f, lastAllocation f, False)
        | Some (lyr, requested) \<Rightarrow>
            if (\<not> allowOvershoot \<or> \<not> IsOvershootOkay (vls f)) \<and> i64 (requested - alreadyAllocated) > availableChannelCapacity
            then Some (f, lastAllocation f, False)
            else do {
              distance \<leftarrow> getDistanceToDesired (f_muted f) (f_pubMuted f) (maxSeenLayer b) availableLayers brs lyr (maxLayer b);
              let alloc = zeroAllocation\<lparr>IsDeficient := True, BandwidthRequested := requested, BandwidthDelta := i64 (requested - alreadyAllocated),
                    BandwidthNeeded := optimal, va_Bitrates := brs, TargetLayer := lyr, RequestLayerSpatial := Spatial lyr, MaxLayer := maxLayer b,
                    DistanceToDesired := distance\<rparr>;
              let alloc = (if GreaterThan lyr (maxLayer b) \<or> requested \<ge> optimal then alloc\<lparr>IsDeficient := False\<rparr> else alloc);
              let (f, alloc) = updateAllocation alloc f;
              Some (f, alloc, True)
            }
      })"

fun nextHigher :: "Bitrates \<Rightarrow> int \<Rightarrow> VideoLayer list \<Rightarrow> (VideoLayer \<times> int) option option" where
  "nextHigher brs already [] = Some None"
| "nextHigher brs already (l # ls) =
     do { r \<leftarrow> rate brs l; if r = 0 \<or> r < already then nextHigher brs already ls else Some (Some (l, r)) }"

definition GetNextHigherTransition :: "Bitrates \<Rightarrow> bool \<Rightarrow> Forwarder \<Rightarrow> VideoTransition option option" where
  "GetNextHigherTransition brs allowOvershoot f =
     (let target = targetLayer (f_base f) in
      if f_kind f = kindAudio \<or> \<not> IsDeficient (lastAllocation f) \<or> (IsValid target \<and> target \<noteq> currentLayer (f_base f)) then Some None
      else do {
        alreadyAllocated \<leftarrow> (if IsValid target then rate brs target else Some 0);
        found \<leftarrow> nextHigher brs alreadyAllocated (concat (loopsAbove allowOvershoot f));
        Some (map_option (\<lambda>(l, r). \<lparr>From = target, To = l, vt_BandwidthDelta = i64 (r - alreadyAllocated)\<rparr>) found)
      })"

section \<open>Pausing\<close>

definition Pause :: "int list \<Rightarrow> Bitrates \<Rightarrow> Forwarder \<Rightarrow> (Forwarder \<times> VideoAllocation) option" where
  "Pause availableLayers brs f =
     do {
       let b = f_base f;
       optimal \<leftarrow> getOptimalBandwidthNeeded (f_muted f) (f_pubMuted f) (Spatial (maxSeenLayer b)) brs (maxLayer b);
       needed \<leftarrow> getBandwidthNeeded brs (targetLayer b) (BandwidthRequested (lastAllocation f));
       distance \<leftarrow> getDistanceToDesired (f_muted f) (f_pubMuted f) (maxSeenLayer b) availableLayers brs InvalidLayer (maxLayer b);
       let alloc = zeroAllocation\<lparr>BandwidthRequested := 0, BandwidthDelta := i64 (0 - needed), va_Bitrates := brs, BandwidthNeeded := optimal,
             TargetLayer := InvalidLayer, RequestLayerSpatial := InvalidLayerSpatial, MaxLayer := maxLayer b, DistanceToDesired := distance\<rparr>;
       let alloc = (if f_muted f then alloc\<lparr>va_PauseReason := VideoPauseReasonMuted\<rparr>
                    else if f_pubMuted f then alloc\<lparr>va_PauseReason := VideoPauseReasonPubMuted\<rparr>
                    else if optimal = 0 then alloc\<lparr>va_PauseReason := VideoPauseReasonFeedDry\<rparr>
                    else alloc\<lparr>IsDeficient := True, va_PauseReason := VideoPauseReasonBandwidth\<rparr>);
       Some (updateAllocation alloc f)
     }"

section \<open>Runs of operations\<close>

text \<open>\<open>Restart\<close>, on the fields of the state here.\<close>

definition Restart :: "Forwarder \<Rightarrow> Forwarder" where
  "Restart f = setTargetLayer InvalidLayer InvalidLayerSpatial (resyncLocked f)"

text \<open>The operations, with their arguments. \<open>opPackets\<close> stands for packets forwarded in between: as long as the target is
  valid they move the current layer, and with simulcast the target. \<open>opCodec\<close> is a change of codec: the new selector keeps the base.\<close>

datatype alloc_op = opMaxPublished int int | opExpireGrace int | opMaxTemporalSeen int | opMute bool bool | opPubMute bool |
  opMaxSpatial int | opMaxTemporal int | opOptimal int "int list" Bitrates bool bool | opPrepare "int list" Bitrates | opReset |
  opProvisional int VideoLayer bool bool | opCooperative bool | opCommit | opNextHigher int "int list" Bitrates bool |
  opPause "int list" Bitrates | opRestart | opResync | opCodec bool VideoLayerSelector | opPackets VideoLayer VideoLayer

definition codecSelector :: "VideoLayerSelector \<Rightarrow> VideoLayerSelector \<Rightarrow> VideoLayerSelector" where
  "codecSelector new old = onBase (\<lambda>_. vls_base old) new"

fun alloc_step :: "alloc_op \<Rightarrow> Forwarder \<Rightarrow> Forwarder option" where
  "alloc_step (opMaxPublished now l) f = Some (fst (SetMaxPublishedLayer now l f))"
| "alloc_step (opExpireGrace now) f = Some (fst (MaybeExpireAcquireGrace now f))"
| "alloc_step (opMaxTemporalSeen l) f = Some (fst (SetMaxTemporalLayerSeen l f))"
| "alloc_step (opMute m ok) f = Some (fst (Mute m ok f))"
| "alloc_step (opPubMute m) f = Some (fst (PubMute m f))"
| "alloc_step (opMaxSpatial l) f = map_option fst (SetMaxSpatialLayer l f)"
| "alloc_step (opMaxTemporal l) f = Some (fst (SetMaxTemporalLayer l f))"
| "alloc_step (opOptimal now ls brs overshoot hold) f = map_option fst (AllocateOptimal now ls brs overshoot hold f)"
| "alloc_step (opPrepare ls brs) f = Some (ProvisionalAllocatePrepare ls brs f)"
| "alloc_step opReset f = ProvisionalAllocateReset f"
| "alloc_step (opProvisional c l allowPause overshoot) f = map_option fst (ProvisionalAllocate c l allowPause overshoot f)"
| "alloc_step (opCooperative overshoot) f = map_option fst (ProvisionalAllocateGetCooperativeTransition overshoot f)"
| "alloc_step opCommit f = map_option fst (ProvisionalAllocateCommit f)"
| "alloc_step (opNextHigher c ls brs overshoot) f = map_option fst (AllocateNextHigher c ls brs overshoot f)"
| "alloc_step (opPause ls brs) f = map_option fst (Pause ls brs f)"
| "alloc_step opRestart f = Some (Restart f)"
| "alloc_step opResync f = Some (resyncLocked f)"
| "alloc_step (opCodec h264 new) f = Some (f\<lparr>isH264 := h264, vls := codecSelector new (vls f)\<rparr>)"
| "alloc_step (opPackets current target) f =
     Some (if IsValid (targetLayer (f_base f))
           then f\<lparr>vls := onBase (\<lambda>b. b\<lparr>currentLayer := current, targetLayer := target\<rparr>) (vls f)\<rparr> else f)"

fun alloc_run :: "alloc_op list \<Rightarrow> Forwarder \<Rightarrow> Forwarder option" where
  "alloc_run [] f = Some f"
| "alloc_run (op # ops) f = do { f \<leftarrow> alloc_step op f; alloc_run ops f }"

text \<open>Layers inside the table of bit rates, or invalid.\<close>

definition in_table :: "VideoLayer \<Rightarrow> bool" where
  "in_table l \<longleftrightarrow> -1 \<le> Spatial l \<and> Spatial l \<le> 2 \<and> -1 \<le> Temporal l \<and> Temporal l \<le> 3"

definition available_ok :: "int list \<Rightarrow> bool" where
  "available_ok ls \<longleftrightarrow> list_all (\<lambda>l. 0 \<le> l \<and> l \<le> 2) ls"

fun op_ok :: "alloc_op \<Rightarrow> bool" where
  "op_ok (opMaxPublished now l) = (-1 \<le> l \<and> l \<le> 2)"
| "op_ok (opMaxTemporalSeen l) = (-1 \<le> l \<and> l \<le> 3)"
| "op_ok (opMaxSpatial l) = (-1 \<le> l \<and> l \<le> 2)"
| "op_ok (opMaxTemporal l) = (-1 \<le> l \<and> l \<le> 3)"
| "op_ok (opOptimal now ls brs overshoot hold) = available_ok ls"
| "op_ok (opProvisional c l allowPause overshoot) = (IsValid l \<and> in_table l)"
| "op_ok (opPackets current target) = (in_table current \<and> in_table target \<and> IsValid target)"
| "op_ok _ = True"

definition provisional_ok :: "VideoAllocationProvisional \<Rightarrow> bool" where
  "provisional_ok p \<longleftrightarrow> in_table (vp_maxSeenLayer p) \<and> in_table (vp_maxLayer p) \<and> in_table (vp_currentLayer p) \<and> in_table (allocatedLayer p)"

definition base_ok :: "Base \<Rightarrow> bool" where
  "base_ok b \<longleftrightarrow> in_table (maxLayer b) \<and> in_table (maxSeenLayer b) \<and> in_table (targetLayer b) \<and> in_table (currentLayer b) \<and>
     (\<not> IsValid (targetLayer b) \<longrightarrow> currentLayer b = InvalidLayer \<and> requestSpatial b = InvalidLayerSpatial)"

definition alloc_ok :: "Forwarder \<Rightarrow> bool" where
  "alloc_ok f \<longleftrightarrow> base_ok (f_base f) \<and> (\<forall>p. provisional f = Some p \<longrightarrow> provisional_ok p)"

lemmas invalid_defs = InvalidLayer_def InvalidLayerSpatial_def InvalidLayerTemporal_def

lemma in_table_invalid [simp]: "in_table InvalidLayer" "\<not> IsValid InvalidLayer"
  by (auto simp: in_table_def invalid_defs IsValid_def)

lemma valid_in_table: "IsValid l \<and> in_table l \<longleftrightarrow> 0 \<le> Spatial l \<and> Spatial l \<le> 2 \<and> 0 \<le> Temporal l \<and> Temporal l \<le> 3"
  by (auto simp: IsValid_def in_table_def invalid_defs)

lemma rate_some: "IsValid l \<Longrightarrow> in_table l \<Longrightarrow> rate brs l = Some (brs (Spatial l) (Temporal l))"
  using valid_in_table [of l] by (simp add: rate_def)

lemma firstLayer_some:
  assumes "\<forall>l\<in>set ls. IsValid l \<and> in_table l"
  shows "\<exists>found. firstLayer brs ls = Some found \<and>
    (\<forall>l r. found = Some (l, r) \<longrightarrow> l \<in> set ls \<and> IsValid l \<and> in_table l \<and> rate brs l = Some r \<and> r \<noteq> 0)"
  using assms by (induction ls) (fastforce simp: rate_some)+

lemma layersDown_ok: "in_table l \<Longrightarrow> \<forall>x\<in>set (layersDown l). IsValid x \<and> in_table x"
  by (auto simp: layersDown_def valid_in_table) (auto simp: in_table_def)

lemma layersUp_ok:
  "0 \<le> a \<Longrightarrow> b \<le> 2 \<Longrightarrow> 0 \<le> c \<Longrightarrow> d \<le> 3 \<Longrightarrow> \<forall>x\<in>set (layersUp a b c d). IsValid x \<and> in_table x"
  by (auto simp: layersUp_def valid_in_table)

lemma optimal_some: "in_table l \<Longrightarrow> \<exists>r. getOptimalBandwidthNeeded m pm mp brs l = Some r"
  using firstLayer_some [OF layersDown_ok, of l brs] by (auto simp: getOptimalBandwidthNeeded_def)

lemma needed_some: "in_table l \<Longrightarrow> \<exists>r. getBandwidthNeeded brs l fallback = Some r"
  by (auto simp: getBandwidthNeeded_def rate_some)

lemma available_mono: "fst (foldl (\<lambda>(s, t) lyr. if lyr > s then (lyr, T) else (s, t)) (s, t) ls) \<ge> (s :: int)"
proof (induction ls arbitrary: s t)
  case (Cons a ls)
  show ?case using Cons [of a T] Cons [of s t] by auto
qed simp

lemma distance_some:
  assumes "in_table seen" "in_table mx"
  shows "\<exists>d. getDistanceToDesired m pm seen ls brs tgt mx = Some d"
proof -
  have "\<forall>l\<in>set (layersDown \<lparr>Spatial = 2, Temporal = 3\<rparr>). IsValid l \<and> in_table l" by (rule layersDown_ok) (simp add: in_table_def)
  from firstLayer_some [OF this, of brs] obtain found
    where found: "firstLayer brs (layersDown \<lparr>Spatial = 2, Temporal = 3\<rparr>) = Some found"
      "\<And>l r. found = Some (l, r) \<Longrightarrow> IsValid l \<and> in_table l" by blast
  define s0 where "s0 = (case found of None \<Rightarrow> InvalidLayerSpatial | Some (l, _) \<Rightarrow> Spatial l)"
  obtain s t where st: "foldl (\<lambda>(s, t) lyr. if lyr > s then (lyr, Temporal seen) else (s, t)) (s0, InvalidLayerTemporal) ls = (s, t)"
    by (rule prod.exhaust)
  have "-1 \<le> s0" using found(2) by (cases found) (auto simp: s0_def in_table_def InvalidLayerSpatial_def)
  then have s: "-1 \<le> s" using available_mono [of s0 "Temporal seen" InvalidLayerTemporal ls] by (simp add: st)
  define a where "a = min (Spatial seen) (min s (Spatial mx))"
  have a: "-1 \<le> a \<and> a \<le> 2" using s assms by (auto simp: a_def in_table_def)
  have "\<exists>fnd. firstLayer brs (map (\<lambda>t. \<lparr>Spatial = a, Temporal = t\<rparr>) (rev [0..3])) = Some fnd" if "a \<noteq> InvalidLayerSpatial"
    using a that firstLayer_some [of "map (\<lambda>t. \<lparr>Spatial = a, Temporal = t\<rparr>) (rev [0..3])" brs]
    by (auto simp: valid_in_table InvalidLayerSpatial_def simp del: upto_rec_numeral)
  then show ?thesis
    by (auto simp: getDistanceToDesired_def found(1) s0_def [symmetric] st a_def [symmetric] Let_def simp del: upto_rec_numeral)
qed

text \<open>Every allocation goes through \<open>updateAllocation\<close>, which is where a pause takes effect.\<close>

lemma resyncLocked_base:
  "f_base (resyncLocked f) = (f_base f)\<lparr>currentLayer := InvalidLayer\<rparr>" "provisional (resyncLocked f) = provisional f"
  by (auto simp: resyncLocked_def Let_def split: option.splits)

lemma resyncLocked_ok: "alloc_ok f \<Longrightarrow> alloc_ok (resyncLocked f)"
  by (auto simp: alloc_ok_def base_ok_def resyncLocked_base)

lemma updateAllocation_target:
  assumes "updateAllocation alloc f = (f', a)"
  shows "lastAllocation f' = a" "targetLayer (f_base f') = TargetLayer a" "provisional f' = provisional f"
    "a = (if IsValid (TargetLayer alloc) \<and> isH264 f then alloc\<lparr>TargetLayer := (TargetLayer alloc)\<lparr>Temporal := 0\<rparr>\<rparr> else alloc)"
  using assms by (auto simp: updateAllocation_def setTargetLayer_def SetTarget_def resyncLocked_def Let_def split: if_splits option.splits)

lemma in_table_update:
  "in_table l \<Longrightarrow> -1 \<le> x \<Longrightarrow> x \<le> 2 \<Longrightarrow> in_table (l\<lparr>Spatial := x\<rparr>)"
  "in_table l \<Longrightarrow> -1 \<le> x \<Longrightarrow> x \<le> 3 \<Longrightarrow> in_table (l\<lparr>Temporal := x\<rparr>)"
  by (simp_all add: in_table_def)

lemma updateAllocation_ok:
  assumes "alloc_ok f" "in_table (TargetLayer alloc)"
  shows "alloc_ok (fst (updateAllocation alloc f))"
  using assms
  by (auto simp: updateAllocation_def setTargetLayer_def SetTarget_def alloc_ok_def base_ok_def resyncLocked_base in_table_update Let_def)

lemma alloc_ok_base:
  "alloc_ok f \<Longrightarrow> base_ok (f_base f) \<Longrightarrow> base_ok (g (f_base f)) \<Longrightarrow> alloc_ok (f\<lparr>vls := onBase g (vls f)\<rparr>)"
  by (auto simp: alloc_ok_def)

lemma alloc_ok_D:
  assumes "alloc_ok f"
  shows "in_table (maxLayer (f_base f))" "in_table (maxSeenLayer (f_base f))" "in_table (targetLayer (f_base f))"
    "in_table (currentLayer (f_base f))" "base_ok (f_base f)" "provisional f = Some p \<Longrightarrow> provisional_ok p"
  using assms by (auto simp: alloc_ok_def base_ok_def)

lemma alloc_ok_fields [simp]:
  "alloc_ok (f\<lparr>acquireDeadline := x\<rparr>) = alloc_ok f" "alloc_ok (f\<lparr>f_enableStartAtDesiredQuality := y\<rparr>) = alloc_ok f"
  "alloc_ok (f\<lparr>f_muted := z\<rparr>) = alloc_ok f" "alloc_ok (f\<lparr>f_pubMuted := z\<rparr>) = alloc_ok f"
  by (simp_all add: alloc_ok_def)

lemma alloc_ok_allocateTo: "alloc_ok f \<Longrightarrow> provisional f = Some p \<Longrightarrow> in_table l \<Longrightarrow> alloc_ok (allocateTo l p f)"
  by (auto simp: alloc_ok_def provisional_ok_def)

lemma setters_ok:
  assumes "alloc_ok f"
  shows "-1 \<le> l \<Longrightarrow> l \<le> 2 \<Longrightarrow> alloc_ok (fst (SetMaxPublishedLayer now l f))"
    "alloc_ok (fst (MaybeExpireAcquireGrace now f))"
    "-1 \<le> l \<Longrightarrow> l \<le> 3 \<Longrightarrow> alloc_ok (fst (SetMaxTemporalLayerSeen l f))"
    "alloc_ok (fst (Mute m ok f))" "alloc_ok (fst (PubMute m f))"
    "-1 \<le> l \<Longrightarrow> l \<le> 3 \<Longrightarrow> alloc_ok (fst (SetMaxTemporalLayer l f))"
    "alloc_ok (Restart f)"
  using assms
  by (auto simp: SetMaxPublishedLayer_def MaybeExpireAcquireGrace_def SetMaxTemporalLayerSeen_def Mute_def PubMute_def
      SetMaxTemporalLayer_def SetMaxSeenSpatial_def SetMaxSeenTemporal_def SetMaxTemporal_def Let_def resyncLocked_ok
      Restart_def setTargetLayer_def SetTarget_def alloc_ok_def base_ok_def in_table_update resyncLocked_base)

lemma scanAvailable_ok:
  assumes "available_ok ls" "scanAvailable limit ls = (request, highest, lowest)"
  shows "-1 \<le> request \<and> request \<le> 2" "-1 \<le> highest \<and> highest \<le> 2" "-1 \<le> lowest \<and> lowest \<le> 2"
proof -
  have scan: "(-1 \<le> r' \<and> r' \<le> 2) \<and> (-1 \<le> h' \<and> h' \<le> 2) \<and> (-1 \<le> w' \<and> w' \<le> 2)"
    if "foldl (\<lambda>(request, highest, lowest) al.
       (if al > request \<and> al \<le> limit then al else request,
        if al > highest then al else highest,
        if lowest = InvalidLayerSpatial \<or> al < lowest then al else lowest)) (r, h, w) ls = (r', h', w')"
      "(-1 \<le> r \<and> r \<le> 2) \<and> (-1 \<le> h \<and> h \<le> 2) \<and> (-1 \<le> w \<and> w \<le> 2)" "available_ok ls" for ls r h w r' h' w'
    using that by (induction ls arbitrary: r h w) (auto simp: available_ok_def split: if_splits)
  from scan [OF assms(2) [unfolded scanAvailable_def] _ assms(1)]
  show "-1 \<le> request \<and> request \<le> 2" "-1 \<le> highest \<and> highest \<le> 2" "-1 \<le> lowest \<and> lowest \<le> 2"
    by (simp_all add: InvalidLayerSpatial_def)
qed

lemma optimalTarget_ok:
  assumes "alloc_ok f" "available_ok ls"
  shows "in_table (fst (optimalTarget now ls overshoot hold f))"
proof -
  note tab = alloc_ok_D [OF assms(1)]
  have mt: "-1 \<le> getMaxTemporal f \<and> getMaxTemporal f \<le> 3"
    using tab(1,2) by (auto simp: getMaxTemporal_def in_table_def Let_def InvalidLayerTemporal_def)
  have opp: "in_table (fst (opportunisticTarget now overshoot f))"
    using tab(1,2) mt by (auto simp: opportunisticTarget_def in_table_def Let_def)
  obtain request highest lowest
    where scan: "scanAvailable (min (Spatial (maxLayer (f_base f))) (Spatial (maxSeenLayer (f_base f)))) ls = (request, highest, lowest)"
    by (metis prod_cases3)
  note ok = scanAvailable_ok [OF assms(2) scan]
  show ?thesis
    using mt opp ok tab(4) unfolding optimalTarget_def scan Let_def
    by (auto simp: in_table_def split: prod.splits)
qed

text \<open>An operation that returns and keeps the invariant.\<close>

definition keeps :: "Forwarder \<Rightarrow> (Forwarder \<times> 'a) option \<Rightarrow> bool" where
  "keeps f x = (case x of None \<Rightarrow> False | Some (f', _) \<Rightarrow> alloc_ok f' \<and> (provisional f \<noteq> None \<longrightarrow> provisional f' \<noteq> None))"

lemma keeps_simps [simp]:
  "keeps f (Some r) \<longleftrightarrow> alloc_ok (fst r) \<and> (provisional f \<noteq> None \<longrightarrow> provisional (fst r) \<noteq> None)" "\<not> keeps f None"
  by (auto simp: keeps_def split: prod.splits)

lemma keeps_E: "keeps f x \<Longrightarrow> \<exists>f' a. x = Some (f', a) \<and> alloc_ok f' \<and> (provisional f \<noteq> None \<longrightarrow> provisional f' \<noteq> None)"
  by (auto simp: keeps_def split: option.splits)

lemma updateAllocation_provisional [simp]: "provisional (fst (updateAllocation alloc f)) = provisional f"
  using updateAllocation_target(3) [of alloc f] by (cases "updateAllocation alloc f") auto

lemma SetMaxSpatialLayer_ok:
  assumes "alloc_ok f" "-1 \<le> l" "l \<le> 2"
  shows "keeps f (SetMaxSpatialLayer l f)"
proof -
  define g where "g = f\<lparr>vls := onBase (SetMaxSpatial l) (vls f)\<rparr>"
  have gp: "provisional g = provisional f" by (simp add: g_def)
  have g: "alloc_ok g" using assms by (auto simp: g_def alloc_ok_def base_ok_def SetMaxSpatial_def in_table_update)
  note tab = alloc_ok_D [OF g]
  obtain d where d: "getDistanceToDesired (f_muted g) (f_pubMuted g) (maxSeenLayer (f_base g)) [] (\<lambda>_ _. 0)
      (maxLayer (f_base g)) (maxLayer (f_base g)) = Some d"
    using distance_some [OF tab(2,1)] by blast
  show ?thesis
    using assms(1) g d tab(1) unfolding SetMaxSpatialLayer_def g_def [symmetric]
    by (auto simp: Let_def updateAllocation_ok gp)
qed

lemma AllocateOptimal_ok:
  assumes "alloc_ok f" "available_ok ls"
  shows "keeps f (AllocateOptimal now ls brs overshoot hold f)"
proof -
  note tab = alloc_ok_D [OF assms(1)]
  obtain optimal where o: "getOptimalBandwidthNeeded (f_muted f) (f_pubMuted f) (Spatial (maxSeenLayer (f_base f))) brs (maxLayer (f_base f)) = Some optimal"
    using optimal_some [OF tab(1)] by blast
  obtain needed where n: "getBandwidthNeeded brs (targetLayer (f_base f)) (BandwidthRequested (lastAllocation f)) = Some needed"
    using needed_some [OF tab(3)] by blast
  define al where "al = optimalAllocation now ls brs overshoot hold optimal f"
  have al: "in_table (TargetLayer al)"
    using optimalTarget_ok [OF assms, of now overshoot hold] by (auto simp: al_def optimalAllocation_def Let_def split: prod.splits)
  show ?thesis
    using distance_some [OF tab(2,1), of "f_muted f" "f_pubMuted f" ls brs "TargetLayer al"] al assms(1)
      optimal_some [OF al, of "f_muted f" "f_pubMuted f" "Spatial (maxSeenLayer (f_base f))" brs]
    by (auto simp: AllocateOptimal_def o n al_def [symmetric] updateAllocation_ok)
qed

lemma ProvisionalAllocate_ok:
  assumes "alloc_ok f" "provisional f = Some p" "IsValid l" "in_table l"
  shows "keeps f (ProvisionalAllocate c l allowPause overshoot f)"
  using assms alloc_ok_D(6) [OF assms(1,2)] rate_some [of l "vp_bitrates p"] rate_some [of "allocatedLayer p" "vp_bitrates p"]
  by (auto simp: ProvisionalAllocate_def provisional_ok_def alloc_ok_allocateTo)

lemma cooperativeFallback_ok:
  assumes "alloc_ok f" "provisional f = Some p"
  shows "keeps f (cooperativeFallback overshoot p f)"
proof -
  have p: "provisional_ok p" by (rule alloc_ok_D(6) [OF assms])
  then have mx: "-1 \<le> Spatial (vp_maxLayer p) \<and> Spatial (vp_maxLayer p) \<le> 2 \<and> Temporal (vp_maxLayer p) \<le> 3"
    by (auto simp: provisional_ok_def in_table_def)
  have up1: "\<forall>x\<in>set (layersUp 0 (Spatial (vp_maxLayer p)) 0 (Temporal (vp_maxLayer p))). IsValid x \<and> in_table x"
    using mx by (intro layersUp_ok) auto
  have up2: "\<forall>x\<in>set (layersUp (Spatial (vp_maxLayer p) + 1) 2 0 3). IsValid x \<and> in_table x"
    using mx by (intro layersUp_ok) auto
  obtain needed where n: "getBandwidthNeeded (vp_bitrates p) (targetLayer (f_base f)) (BandwidthRequested (lastAllocation f)) = Some needed"
    using needed_some [OF alloc_ok_D(3) [OF assms(1)]] by blast
  have cur: "in_table (vp_currentLayer p)" using p by (simp add: provisional_ok_def)
  obtain found1 where f1: "firstLayer (vp_bitrates p) (layersUp 0 (Spatial (vp_maxLayer p)) 0 (Temporal (vp_maxLayer p))) = Some found1"
      "\<And>l r. found1 = Some (l, r) \<Longrightarrow> in_table l"
    using firstLayer_some [OF up1, of "vp_bitrates p"] by auto
  obtain found2 where f2: "firstLayer (vp_bitrates p) (layersUp (Spatial (vp_maxLayer p) + 1) 2 0 3) = Some found2"
      "\<And>l r. found2 = Some (l, r) \<Longrightarrow> in_table l"
    using firstLayer_some [OF up2, of "vp_bitrates p"] by auto
  show ?thesis
    using assms cur rate_some [OF _ cur, of "vp_bitrates p"] f1(2) f2(2)
    by (cases found1; cases found2) (auto simp: cooperativeFallback_def n Let_def f1(1) f2(1) alloc_ok_allocateTo)
qed

lemma CooperativeTransition_ok:
  assumes "alloc_ok f" "provisional f = Some p"
  shows "keeps f (ProvisionalAllocateGetCooperativeTransition overshoot f)"
proof -
  have p: "provisional_ok p" by (rule alloc_ok_D(6) [OF assms])
  obtain needed where n: "getBandwidthNeeded (vp_bitrates p) (targetLayer (f_base f)) (BandwidthRequested (lastAllocation f)) = Some needed"
    using needed_some [OF alloc_ok_D(3) [OF assms(1)]] by blast
  obtain found where found: "firstLayer (vp_bitrates p) (layersDown (vp_maxLayer p)) = Some found"
      "\<forall>l r. found = Some (l, r) \<longrightarrow> in_table l"
    using firstLayer_some [OF layersDown_ok, of "vp_maxLayer p" "vp_bitrates p"] p by (auto simp: provisional_ok_def)
  show ?thesis
    using assms found alloc_ok_D(3) [OF assms(1)] cooperativeFallback_ok [OF assms, of overshoot]
      rate_some [OF _ alloc_ok_D(3) [OF assms(1)], of "vp_bitrates p"]
    by (auto simp: ProvisionalAllocateGetCooperativeTransition_def n alloc_ok_allocateTo Let_def split: option.splits)
qed

lemma ProvisionalAllocateCommit_ok:
  assumes "alloc_ok f" "provisional f = Some p"
  shows "keeps f (ProvisionalAllocateCommit f)"
proof -
  have p: "in_table (vp_maxSeenLayer p)" "in_table (vp_maxLayer p)" "in_table (vp_currentLayer p)" "in_table (allocatedLayer p)"
    using alloc_ok_D(6) [OF assms] by (auto simp: provisional_ok_def)
  obtain needed where n: "getBandwidthNeeded (vp_bitrates p) (targetLayer (f_base f)) (BandwidthRequested (lastAllocation f)) = Some needed"
    using needed_some [OF alloc_ok_D(3) [OF assms(1)]] by blast
  obtain optimal where o: "getOptimalBandwidthNeeded (vp_muted p) (vp_pubMuted p) (Spatial (vp_maxSeenLayer p)) (vp_bitrates p) (vp_maxLayer p) = Some optimal"
    using optimal_some [OF p(2)] by blast
  obtain d where d: "getDistanceToDesired (vp_muted p) (vp_pubMuted p) (vp_maxSeenLayer p) (vp_availableLayers p) (vp_bitrates p)
                     (allocatedLayer p) (vp_maxLayer p) = Some d"
    using distance_some [OF p(1,2)] by blast
  show ?thesis
    using assms p rate_some [OF _ p(4), of "vp_bitrates p"]
    by (simp add: ProvisionalAllocateCommit_def n o d Let_def updateAllocation_ok alloc_ok_allocateTo)
qed

lemma loopsAbove_ok:
  assumes "alloc_ok f"
  shows "\<forall>x\<in>set (concat (loopsAbove overshoot f)). IsValid x \<and> in_table x"
proof -
  note tab = alloc_ok_D [OF assms]
  have "IsValid (targetLayer (f_base f)) \<Longrightarrow>
    \<forall>x\<in>set (layersUp (Spatial (targetLayer (f_base f))) (Spatial (targetLayer (f_base f))) (Temporal (targetLayer (f_base f)) + 1)
      (Temporal (maxLayer (f_base f)))). IsValid x \<and> in_table x"
    using tab(1,3) valid_in_table [of "targetLayer (f_base f)"] by (intro layersUp_ok) (auto simp: in_table_def)
  moreover have "\<forall>x\<in>set (layersUp (Spatial (targetLayer (f_base f)) + 1) (Spatial (maxLayer (f_base f))) 0
      (Temporal (maxLayer (f_base f)))). IsValid x \<and> in_table x"
    using tab(1,3) by (intro layersUp_ok) (auto simp: in_table_def)
  moreover have "\<forall>x\<in>set (layersUp (Spatial (maxLayer (f_base f)) + 1) 2 0 3). IsValid x \<and> in_table x"
    using tab(1) by (intro layersUp_ok) (auto simp: in_table_def)
  ultimately show ?thesis by (auto simp: loopsAbove_def Let_def)
qed

lemma AllocateNextHigher_ok:
  assumes "alloc_ok f"
  shows "keeps f (AllocateNextHigher c ls brs overshoot f)"
proof -
  note tab = alloc_ok_D [OF assms]
  obtain optimal where o: "getOptimalBandwidthNeeded (f_muted f) (f_pubMuted f) (Spatial (maxSeenLayer (f_base f))) brs (maxLayer (f_base f)) = Some optimal"
    using optimal_some [OF tab(1)] by blast
  obtain found where found: "firstLayer brs (concat (loopsAbove overshoot f)) = Some found" "\<And>l r. found = Some (l, r) \<Longrightarrow> in_table l"
    using firstLayer_some [OF loopsAbove_ok [OF assms], of brs overshoot] by auto
  show ?thesis
  proof (cases found)
    case None
    then show ?thesis
      using assms found(1) rate_some [OF _ tab(3), of brs] by (auto simp: AllocateNextHigher_def o Let_def)
  next
    case (Some lr)
    obtain l r where lr: "lr = (l, r)" by (cases lr)
    obtain d where d: "getDistanceToDesired (f_muted f) (f_pubMuted f) (maxSeenLayer (f_base f)) ls brs l (maxLayer (f_base f)) = Some d"
      using distance_some [OF tab(2,1)] by blast
    show ?thesis
      using assms found Some lr d rate_some [OF _ tab(3), of brs]
      by (auto simp: AllocateNextHigher_def o Let_def updateAllocation_ok prod.case_eq_if)
  qed
qed

lemma Pause_ok:
  assumes "alloc_ok f"
  shows "keeps f (Pause ls brs f)"
proof -
  note tab = alloc_ok_D [OF assms]
  obtain optimal where o: "getOptimalBandwidthNeeded (f_muted f) (f_pubMuted f) (Spatial (maxSeenLayer (f_base f))) brs (maxLayer (f_base f)) = Some optimal"
    using optimal_some [OF tab(1)] by blast
  obtain needed where n: "getBandwidthNeeded brs (targetLayer (f_base f)) (BandwidthRequested (lastAllocation f)) = Some needed"
    using needed_some [OF tab(3)] by blast
  obtain d where d: "getDistanceToDesired (f_muted f) (f_pubMuted f) (maxSeenLayer (f_base f)) ls brs InvalidLayer (maxLayer (f_base f)) = Some d"
    using distance_some [OF tab(2,1)] by blast
  show ?thesis using assms by (auto simp: Pause_def o n d Let_def updateAllocation_ok)
qed

lemma setters_provisional:
  "provisional (fst (SetMaxPublishedLayer now l f)) = provisional f" "provisional (fst (MaybeExpireAcquireGrace now f)) = provisional f"
  "provisional (fst (SetMaxTemporalLayerSeen l f)) = provisional f" "provisional (fst (Mute m ok f)) = provisional f"
  "provisional (fst (PubMute m f)) = provisional f" "provisional (fst (SetMaxTemporalLayer l f)) = provisional f"
  "provisional (Restart f) = provisional f"
  by (auto simp: SetMaxPublishedLayer_def MaybeExpireAcquireGrace_def SetMaxTemporalLayerSeen_def Mute_def PubMute_def
      SetMaxTemporalLayer_def Restart_def setTargetLayer_def resyncLocked_base Let_def)

lemma alloc_step_ok:
  assumes ok: "alloc_ok f" and p: "provisional f = Some p" and op: "op_ok op"
  shows "\<exists>f'. alloc_step op f = Some f' \<and> alloc_ok f' \<and> provisional f' \<noteq> None"
proof (cases op)
  case (opProvisional c l allowPause overshoot)
  then show ?thesis
    using op keeps_E [OF ProvisionalAllocate_ok [OF ok p, of l c allowPause overshoot]] by (auto simp: p)
next
  case (opPackets current target)
  then show ?thesis using op ok p by (auto simp: alloc_ok_def base_ok_def)
next
  case (opMaxSpatial l)
  then show ?thesis using op keeps_E [OF SetMaxSpatialLayer_ok [OF ok, of l]] by (auto simp: p)
next
  case (opOptimal now ls brs overshoot hold)
  then show ?thesis using op keeps_E [OF AllocateOptimal_ok [OF ok, of ls now brs overshoot hold]] by (auto simp: p)
next
  case (opCooperative overshoot)
  then show ?thesis using keeps_E [OF CooperativeTransition_ok [OF ok p, of overshoot]] by (auto simp: p)
next
  case opCommit
  then show ?thesis using keeps_E [OF ProvisionalAllocateCommit_ok [OF ok p]] by (auto simp: p)
next
  case (opNextHigher c ls brs overshoot)
  then show ?thesis using keeps_E [OF AllocateNextHigher_ok [OF ok, of c ls brs overshoot]] by (auto simp: p)
next
  case (opPause ls brs)
  then show ?thesis using keeps_E [OF Pause_ok [OF ok, of ls brs]] by (auto simp: p)
next
  case (opPrepare ls brs)
  then show ?thesis using alloc_ok_D [OF ok] by (simp add: ProvisionalAllocatePrepare_def alloc_ok_def provisional_ok_def)
next
  case opReset
  then show ?thesis using alloc_ok_allocateTo [OF ok p, of InvalidLayer] by (simp add: ProvisionalAllocateReset_def p)
next
  case (opCodec h264 new)
  then show ?thesis using ok p by (simp add: codecSelector_def alloc_ok_def)
next
  case opResync
  then show ?thesis using resyncLocked_ok [OF ok] p by (simp add: resyncLocked_base)
qed (use op p in \<open>simp_all add: setters_ok [OF ok] setters_provisional\<close>)

lemma alloc_run_ok:
  "alloc_ok f \<Longrightarrow> provisional f \<noteq> None \<Longrightarrow> list_all op_ok ops \<Longrightarrow> \<exists>f'. alloc_run ops f = Some f' \<and> alloc_ok f'"
proof (induction ops arbitrary: f)
  case (Cons op ops)
  then obtain p where "provisional f = Some p" by auto
  from alloc_step_ok [OF Cons.prems(1) this, of op] Cons.prems(3)
  obtain f1 where "alloc_step op f = Some f1" "alloc_ok f1" "provisional f1 \<noteq> None" by auto
  then show ?case using Cons.IH [of f1] Cons.prems(3) by simp
qed simp

lemma NewForwarder_ok: "alloc_ok (ProvisionalAllocatePrepare ls brs (NewForwarder kind disableOpportunistic enableStart))"
  by (simp add: NewForwarder_def ProvisionalAllocatePrepare_def alloc_ok_def base_ok_def provisional_ok_def NewBase_def SetMaxTemporal_def
      in_table_update InvalidLayerSpatial_def)

text \<open>C8. In any series of allocations, mutes, changes of layers or codec and packets in between that follows the preparation of
  a provisional allocation, with layers inside the table of bit rates, every operation returns (no index is out of range and no
  pointer is nil), the target stays inside the table, and as long as a stream has no target it has no current layer and
  requests none.\<close>

theorem allocation_runs:
  assumes "list_all op_ok ops"
  shows "\<exists>f. alloc_run (opPrepare ls brs # ops) (NewForwarder kind disableOpportunistic enableStart) = Some f \<and>
    in_table (targetLayer (f_base f)) \<and>
    (\<not> IsValid (targetLayer (f_base f)) \<longrightarrow> currentLayer (f_base f) = InvalidLayer \<and> requestSpatial (f_base f) = InvalidLayerSpatial)"
proof -
  let ?f = "ProvisionalAllocatePrepare ls brs (NewForwarder kind disableOpportunistic enableStart)"
  have "provisional ?f \<noteq> None" by (simp add: ProvisionalAllocatePrepare_def)
  then obtain f where "alloc_run ops ?f = Some f" "alloc_ok f" using alloc_run_ok [OF NewForwarder_ok _ assms] by blast
  then show ?thesis by (auto simp: alloc_ok_def base_ok_def)
qed

abbreviation exampleRates :: Bitrates where
  "exampleRates \<equiv> (\<lambda>s t. 100 * (s + 1) + 10 * t)"

theorem allocation_runs_witness:
  "\<exists>f. alloc_run [opPrepare [0, 1] exampleRates, opMaxPublished 5 1, opMaxSpatial 2, opOptimal 7 [0, 1] exampleRates False False,
      opPackets \<lparr>Spatial = 1, Temporal = 0\<rparr> \<lparr>Spatial = 1, Temporal = 3\<rparr>, opPause [0, 1] exampleRates]
      (NewForwarder kindVideo False False) = Some f \<and> in_table (targetLayer (f_base f)) \<and>
    (\<not> IsValid (targetLayer (f_base f)) \<longrightarrow> currentLayer (f_base f) = InvalidLayer \<and> requestSpatial (f_base f) = InvalidLayerSpatial)"
  by (rule allocation_runs) (simp add: available_ok_def in_table_def IsValid_def invalid_defs)

end
