(* ===== verification/AllocationBounds.thy ===== *)
theory AllocationBounds
  imports Allocation
begin

text \<open>
  What the allocations of \<open>pkg/sfu/forwarder.go\<close> promise: provisional allocations stay within the capacity they are offered;
  the next higher layer is the next one in the feed, and fits unless overshoot is allowed; a cooperative transition does not move up a stream whose target
  has a bit rate or is above the highest layer within the maximum that has one.
  Bit rates and capacities are below \<open>2 ^ 62\<close>, so that no sum or difference of two of them wraps around.
\<close>

section \<open>Within the capacity\<close>

definition rates_ok :: "Bitrates \<Rightarrow> bool" where
  "rates_ok brs \<longleftrightarrow> (\<forall>s\<in>set [0..2]. \<forall>t\<in>set [0..3]. 0 \<le> brs s t \<and> brs s t < 2 ^ 62)"

lemma i64_id: "- (2 ^ 63) \<le> x \<Longrightarrow> x < 2 ^ 63 \<Longrightarrow> i64 x = x"
  unfolding i64_def by (rule signed_take_bit_int_eq_self) simp_all

lemma i64_small: "-4611686018427387904 < x \<Longrightarrow> x < 4611686018427387904 \<Longrightarrow> -4611686018427387904 < y \<Longrightarrow> y < 4611686018427387904 \<Longrightarrow>
    i64 (x + y) = x + y \<and> i64 (x - y) = x - y"
  by (simp add: i64_id)

lemma rate_bounds: "rates_ok brs \<Longrightarrow> rate brs l = Some r \<Longrightarrow> 0 \<le> r \<and> r < 4611686018427387904"
  by (force simp: rates_ok_def rate_def simp del: upto_rec_numeral split: if_splits)

definition allocatedRate :: "VideoAllocationProvisional \<Rightarrow> int" where
  "allocatedRate p = (if IsValid (allocatedLayer p) then vp_bitrates p (Spatial (allocatedLayer p)) (Temporal (allocatedLayer p)) else 0)"

text \<open>The calls of a stream allocator that may pause: each is offered what the ones before have left.\<close>

fun provisionalRun :: "int \<Rightarrow> (VideoLayer \<times> bool) list \<Rightarrow> Forwarder \<Rightarrow> (int \<times> Forwarder) option" where
  "provisionalRun capacity [] f = Some (capacity, f)"
| "provisionalRun capacity ((lyr, allowOvershoot) # calls) f =
     do { (f, _, used) \<leftarrow> ProvisionalAllocate capacity lyr True allowOvershoot f; provisionalRun (i64 (capacity - used)) calls f }"

definition within :: "int \<Rightarrow> int \<Rightarrow> Forwarder \<Rightarrow> bool" where
  "within offered capacity f \<longleftrightarrow> alloc_ok f \<and> 0 \<le> capacity \<and> capacity < 4611686018427387904 \<and>
     (\<exists>p. provisional f = Some p \<and> rates_ok (vp_bitrates p) \<and> capacity + allocatedRate p = offered \<and>
       (vp_muted p \<or> vp_pubMuted p \<longrightarrow> \<not> IsValid (allocatedLayer p)))"

lemma allocatedRate_bounds:
  "rates_ok (vp_bitrates p) \<Longrightarrow> in_table (allocatedLayer p) \<Longrightarrow> 0 \<le> allocatedRate p \<and> allocatedRate p < 4611686018427387904"
  using rate_bounds [of "vp_bitrates p" "allocatedLayer p"] rate_some [of "allocatedLayer p" "vp_bitrates p"]
  by (auto simp: allocatedRate_def)

lemma ProvisionalAllocate_within:
  assumes "within offered capacity f" "IsValid l" "in_table l" "offered < 4611686018427387904"
    "ProvisionalAllocate capacity l True overshoot f = Some (f', ok, used)"
  shows "within offered (i64 (capacity - used)) f' \<and> vls f' = vls f \<and> lastAllocation f' = lastAllocation f"
proof -
  obtain p where p: "provisional f = Some p" "rates_ok (vp_bitrates p)" "capacity + allocatedRate p = offered"
    and cap: "alloc_ok f" "0 \<le> capacity" "capacity < 4611686018427387904"
    using assms(1) by (auto simp: within_def)
  have tab: "in_table (allocatedLayer p)" using alloc_ok_D(6) [OF cap(1) p(1)] by (simp add: provisional_ok_def)
  define req where "req = vp_bitrates p (Spatial l) (Temporal l)"
  have req: "rate (vp_bitrates p) l = Some req" using rate_some [OF assms(2,3)] by (simp add: req_def)
  have rb: "0 \<le> req" "req < 4611686018427387904" using rate_bounds [OF p(2) req] by auto
  have al: "(if IsValid (allocatedLayer p) then rate (vp_bitrates p) (allocatedLayer p) else Some 0) = Some (allocatedRate p)"
    using rate_some [OF _ tab] by (simp add: allocatedRate_def)
  note ab = allocatedRate_bounds [OF p(2) tab]
  have keep: "i64 (capacity - 0) = capacity" using i64_small [of capacity 0] cap by simp
  have used: "i64 (req - allocatedRate p) = req - allocatedRate p" "i64 (capacity + allocatedRate p) = offered"
    using i64_small [of req "allocatedRate p"] i64_small [of capacity "allocatedRate p"] rb ab cap p(3) by simp_all
  consider "f' = f" "used = 0" | "f' = allocateTo l p f" "used = req - allocatedRate p" "req \<le> offered" "\<not> vp_muted p" "\<not> vp_pubMuted p"
  proof -
    have "(f' = f \<and> used = 0) \<or> (f' = allocateTo l p f \<and> used = req - allocatedRate p \<and> req \<le> offered \<and>
        \<not> vp_muted p \<and> \<not> vp_pubMuted p)"
      using assms(5) unfolding ProvisionalAllocate_def p(1) bind.bind_lunit req al used by (simp split: if_splits)
    then show ?thesis using that by blast
  qed
  then show ?thesis
  proof cases
    case 1
    then show ?thesis using assms(1) keep by simp
  next
    case 2
    have "capacity - used = offered - req" using p(3) 2(2) by simp
    then have c: "i64 (capacity - used) = offered - req" using i64_small [of offered req] 2(3) rb assms(4) by simp
    have "allocatedRate (p\<lparr>allocatedLayer := l\<rparr>) = req" using assms(2) by (simp add: allocatedRate_def req_def)
    then show ?thesis
      using 2 c rb assms(4) p(2) alloc_ok_allocateTo [OF cap(1) p(1) assms(3)] by (simp add: within_def)
  qed
qed

lemma provisionalRun_within:
  assumes "within offered capacity f" "offered < 4611686018427387904" "list_all (\<lambda>(l, _). IsValid l \<and> in_table l) calls"
  shows "\<exists>left f'. provisionalRun capacity calls f = Some (left, f') \<and> within offered left f' \<and> vls f' = vls f \<and> lastAllocation f' = lastAllocation f"
  using assms
proof (induction capacity calls f rule: provisionalRun.induct)
  case (2 capacity lyr overshoot calls f)
  then obtain p where "alloc_ok f" "provisional f = Some p" "IsValid lyr" "in_table lyr" by (auto simp: within_def)
  from keeps_E [OF ProvisionalAllocate_ok [OF this, of capacity True overshoot]] obtain f1 ok used
    where f1: "ProvisionalAllocate capacity lyr True overshoot f = Some (f1, ok, used)" by auto
  have "within offered (i64 (capacity - used)) f1 \<and> vls f1 = vls f \<and> lastAllocation f1 = lastAllocation f"
    using ProvisionalAllocate_within [OF 2(2) \<open>IsValid lyr\<close> \<open>in_table lyr\<close> 2(3) f1] .
  with 2(1) [OF f1 refl refl] 2(3,4) f1 show ?case by auto
qed simp

lemma updateAllocation_facts:
  "updateAllocation alloc f = (f', a) \<Longrightarrow> BandwidthRequested a = BandwidthRequested alloc \<and> targetLayer (f_base f') = TargetLayer a"
  using updateAllocation_target(2,4) [of alloc f f' a] by auto

lemma Commit_requested:
  assumes "within offered left f"
  shows "\<exists>f' a. ProvisionalAllocateCommit f = Some (f', a) \<and> alloc_ok f' \<and> BandwidthRequested a = offered - left \<and>
    targetLayer (f_base f') = TargetLayer a"
proof -
  obtain p where p: "provisional f = Some p" "rates_ok (vp_bitrates p)" "left + allocatedRate p = offered"
      "vp_muted p \<or> vp_pubMuted p \<longrightarrow> \<not> IsValid (allocatedLayer p)" and ok: "alloc_ok f"
    using assms by (auto simp: within_def)
  have tab: "in_table (allocatedLayer p)" using alloc_ok_D(6) [OF ok p(1)] by (simp add: provisional_ok_def)
  obtain f' a where c: "ProvisionalAllocateCommit f = Some (f', a)" "alloc_ok f'"
    using keeps_E [OF ProvisionalAllocateCommit_ok [OF ok p(1)]] by blast
  have "BandwidthRequested a = allocatedRate p \<and> targetLayer (f_base f') = TargetLayer a"
    using c(1) p(4) rate_some [OF _ tab, of "vp_bitrates p"]
    by (simp add: ProvisionalAllocateCommit_def p(1) Let_def bind_eq_Some_conv allocatedRate_def split: if_splits)
      (auto dest!: updateAllocation_facts simp: zeroAllocation_def)
  then show ?thesis using c p(3) by auto
qed

text \<open>C9. Provisional allocations that may pause, each offered what the ones before have left, never take more than the capacity
  offered at the start, whatever layers are tried: what is committed requests exactly the difference between the capacity at the
  start and what is left, and what is left is not negative. The layer committed becomes the selector's target.\<close>

theorem provisional_within_capacity:
  assumes "alloc_ok f" "rates_ok brs" "0 \<le> capacity" "capacity < 2 ^ 62" "list_all (\<lambda>(l, _). IsValid l \<and> in_table l) calls"
  shows "\<exists>left f1 f2 a. provisionalRun capacity calls (ProvisionalAllocatePrepare ls brs f) = Some (left, f1) \<and>
    ProvisionalAllocateCommit f1 = Some (f2, a) \<and> 0 \<le> left \<and> BandwidthRequested a = capacity - left \<and>
    targetLayer (f_base f2) = TargetLayer a"
proof -
  let ?f = "ProvisionalAllocatePrepare ls brs f"
  have c: "capacity < 4611686018427387904" using assms(4) by simp
  have "alloc_ok ?f" using alloc_ok_D [OF assms(1)] by (simp add: ProvisionalAllocatePrepare_def alloc_ok_def provisional_ok_def)
  then have "within capacity capacity ?f"
    using assms(2,3) c by (simp add: within_def ProvisionalAllocatePrepare_def allocatedRate_def)
  from provisionalRun_within [OF this c assms(5)] obtain left f1
    where f1: "provisionalRun capacity calls ?f = Some (left, f1)" "within capacity left f1" by blast
  from f1(2) have "0 \<le> left" by (simp add: within_def)
  with f1 Commit_requested [OF f1(2)] show ?thesis by auto
qed

definition publishing :: Forwarder where
  "publishing = (NewForwarder kindVideo True False)\<lparr>vls :=
     vlsSimulcast (NewBase\<lparr>maxLayer := DefaultMaxLayer, maxSeenLayer := DefaultMaxLayer\<rparr>)\<rparr>"

lemma publishing_ok: "alloc_ok publishing"
  by (simp add: publishing_def alloc_ok_def base_ok_def NewBase_def DefaultMaxLayer_def in_table_def invalid_defs NewForwarder_def)

theorem provisional_within_capacity_witness:
  "\<exists>left f1 f2 a. provisionalRun 250 [(\<lparr>Spatial = 0, Temporal = 1\<rparr>, False), (\<lparr>Spatial = 1, Temporal = 2\<rparr>, False), (\<lparr>Spatial = 2, Temporal = 0\<rparr>, True)]
      (ProvisionalAllocatePrepare [0, 1, 2] exampleRates publishing) = Some (left, f1) \<and>
    ProvisionalAllocateCommit f1 = Some (f2, a) \<and> 0 \<le> left \<and> BandwidthRequested a = 250 - left \<and> targetLayer (f_base f2) = TargetLayer a"
  by (rule provisional_within_capacity [OF publishing_ok]) (simp_all add: rates_ok_def in_table_def IsValid_def invalid_defs)

section \<open>The next higher layer\<close>

text \<open>The layers above the target that may be allocated, and the next one: the lowest that is in the feed.\<close>

definition above :: "bool \<Rightarrow> Forwarder \<Rightarrow> VideoLayer \<Rightarrow> bool" where
  "above allowOvershoot f l \<longleftrightarrow> 0 \<le> Spatial l \<and> 0 \<le> Temporal l \<and> GreaterThan l (targetLayer (f_base f)) \<and>
     (Spatial l \<le> Spatial (maxLayer (f_base f)) \<and> Temporal l \<le> Temporal (maxLayer (f_base f)) \<or>
      allowOvershoot \<and> IsOvershootOkay (vls f) \<and> IsValid (maxLayer (f_base f)) \<and> Spatial l > Spatial (maxLayer (f_base f)) \<and>
      Spatial l \<le> 2 \<and> Temporal l \<le> 3)"

definition nextLayer :: "Bitrates \<Rightarrow> bool \<Rightarrow> Forwarder \<Rightarrow> VideoLayer \<Rightarrow> bool" where
  "nextLayer brs allowOvershoot f l \<longleftrightarrow> above allowOvershoot f l \<and> rate brs l \<noteq> Some 0 \<and>
     (\<forall>l'. above allowOvershoot f l' \<and> rate brs l' \<noteq> Some 0 \<longrightarrow> l' = l \<or> GreaterThan l' l)"

definition rateAt :: "Bitrates \<Rightarrow> VideoLayer \<Rightarrow> int" where
  "rateAt brs l = (if IsValid l then brs (Spatial l) (Temporal l) else 0)"

definition fits :: "int \<Rightarrow> Bitrates \<Rightarrow> bool \<Rightarrow> Forwarder \<Rightarrow> VideoLayer \<Rightarrow> bool" where
  "fits capacity brs allowOvershoot f l \<longleftrightarrow>
     (allowOvershoot \<and> IsOvershootOkay (vls f)) \<or> rateAt brs l - rateAt brs (targetLayer (f_base f)) \<le> capacity"

abbreviation ascending :: "VideoLayer list \<Rightarrow> bool" where
  "ascending \<equiv> sorted_wrt (\<lambda>a b. GreaterThan b a)"

lemma ascending_concat:
  "(\<forall>xs\<in>set xss. ascending xs) \<Longrightarrow> sorted_wrt (\<lambda>xs ys. \<forall>x\<in>set xs. \<forall>y\<in>set ys. GreaterThan y x) xss \<Longrightarrow> ascending (concat xss)"
  by (induction xss) (auto simp: sorted_wrt_append)

lemma ascending_layersUp: "ascending (layersUp a b c d)"
  unfolding layersUp_def
proof (rule ascending_concat)
  show "\<forall>xs\<in>set (map (\<lambda>s. map (\<lambda>t. \<lparr>Spatial = s, Temporal = t\<rparr>) [c..d]) [a..b]). ascending xs"
    by (auto simp: sorted_wrt_map GreaterThan_def)
  show "sorted_wrt (\<lambda>xs ys. \<forall>x\<in>set xs. \<forall>y\<in>set ys. GreaterThan y x) (map (\<lambda>s. map (\<lambda>t. \<lparr>Spatial = s, Temporal = t\<rparr>) [c..d]) [a..b])"
    by (auto simp: sorted_wrt_map GreaterThan_def intro: sorted_wrt_mono_rel [OF _ sorted_wrt_upto])
qed

lemma set_layersUp: "x \<in> set (layersUp a b c d) \<longleftrightarrow> a \<le> Spatial x \<and> Spatial x \<le> b \<and> c \<le> Temporal x \<and> Temporal x \<le> d"
  by (cases x) (auto simp: layersUp_def image_iff)

text \<open>A target whose spatial layer is within the maximum: the stream does not overshoot already.\<close>

definition normal :: "Forwarder \<Rightarrow> bool" where
  "normal f \<longleftrightarrow> Spatial (targetLayer (f_base f)) \<le> Spatial (maxLayer (f_base f)) \<and>
     (IsValid (targetLayer (f_base f)) \<or> targetLayer (f_base f) = InvalidLayer)"

lemma loopsAbove_spec:
  assumes "alloc_ok f" "normal f"
  shows "x \<in> set (concat (loopsAbove overshoot f)) \<longleftrightarrow> above overshoot f x" "ascending (concat (loopsAbove overshoot f))"
proof -
  note tab = alloc_ok_D [OF assms(1)]
  show "x \<in> set (concat (loopsAbove overshoot f)) \<longleftrightarrow> above overshoot f x"
  proof (cases "IsValid (targetLayer (f_base f))")
    case True
    then have "0 \<le> Spatial (targetLayer (f_base f))" "0 \<le> Temporal (targetLayer (f_base f))"
      using tab(3) valid_in_table by auto
    then show ?thesis
      using assms(2) True tab(1) by (auto simp: loopsAbove_def above_def set_layersUp GreaterThan_def normal_def Let_def in_table_def)
  next
    case False
    then have "targetLayer (f_base f) = InvalidLayer" using assms(2) by (simp add: normal_def)
    then show ?thesis
      using tab(1) by (auto simp: loopsAbove_def above_def set_layersUp GreaterThan_def invalid_defs Let_def in_table_def IsValid_def)
  qed
  show "ascending (concat (loopsAbove overshoot f))"
    using assms(2) by (intro ascending_concat) (auto simp: loopsAbove_def Let_def ascending_layersUp [unfolded GreaterThan_def] set_layersUp GreaterThan_def normal_def)
qed

lemma firstLayer_Some:
  "firstLayer brs ls = Some (Some (l, r)) \<Longrightarrow> \<exists>pre post. ls = pre @ l # post \<and> rate brs l = Some r \<and> r \<noteq> 0 \<and> (\<forall>x\<in>set pre. rate brs x = Some 0)"
proof (induction ls)
  case (Cons a ls)
  show ?case
  proof (cases "rate brs a = Some 0")
    case True
    then obtain pre post where "ls = pre @ l # post" "rate brs l = Some r" "r \<noteq> 0" "\<forall>x\<in>set pre. rate brs x = Some 0"
      using Cons by auto
    then have "a # ls = (a # pre) @ l # post \<and> rate brs l = Some r \<and> r \<noteq> 0 \<and> (\<forall>x\<in>set (a # pre). rate brs x = Some 0)" using True by simp
    then show ?thesis by blast
  next
    case False
    then have "a # ls = [] @ l # ls \<and> rate brs l = Some r \<and> r \<noteq> 0" using Cons.prems by (auto simp: bind_eq_Some_conv split: if_splits)
    then show ?thesis by fastforce
  qed
qed simp

lemma firstLayer_None: "firstLayer brs ls = Some None \<Longrightarrow> x \<in> set ls \<Longrightarrow> rate brs x = Some 0"
  by (induction ls) (auto simp: bind_eq_Some_conv split: if_splits)

lemma firstLayer_next:
  assumes "alloc_ok f" "normal f" "firstLayer brs (concat (loopsAbove overshoot f)) = Some found"
  shows "case found of None \<Rightarrow> \<forall>l. \<not> nextLayer brs overshoot f l
    | Some (l, r) \<Rightarrow> nextLayer brs overshoot f l \<and> rate brs l = Some r \<and> IsValid l \<and> in_table l"
proof (cases found)
  case None
  then have "rate brs l = Some 0" if "above overshoot f l" for l
    using firstLayer_None [of brs "concat (loopsAbove overshoot f)" l] assms(3) that loopsAbove_spec(1) [OF assms(1,2)] by blast
  then show ?thesis using None by (auto simp: nextLayer_def)
next
  case (Some lr)
  obtain l r where lr: "lr = (l, r)" by (cases lr)
  obtain pre post where split: "concat (loopsAbove overshoot f) = pre @ l # post" "rate brs l = Some r" "r \<noteq> 0" "\<forall>x\<in>set pre. rate brs x = Some 0"
    using firstLayer_Some [of brs "concat (loopsAbove overshoot f)" l r] assms(3) Some lr by auto
  have mem: "above overshoot f x \<longleftrightarrow> x \<in> set pre \<or> x = l \<or> x \<in> set post" for x
    using loopsAbove_spec(1) [OF assms(1,2), of x overshoot] by (auto simp: split(1))
  have asc: "GreaterThan x l" if "x \<in> set post" for x
    using loopsAbove_spec(2) [OF assms(1,2), of overshoot] that by (auto simp: split(1) sorted_wrt_append)
  have "l \<in> set (concat (loopsAbove overshoot f))" by (simp add: split(1))
  then have "IsValid l \<and> in_table l" using loopsAbove_ok [OF assms(1), of overshoot] by blast
  moreover have "nextLayer brs overshoot f l"
    using mem asc split(2,3,4) by (auto simp: nextLayer_def)
  ultimately show ?thesis using Some lr split(2) by simp
qed

lemma updateAllocation_results:
  "BandwidthRequested (snd (updateAllocation alloc f)) = BandwidthRequested alloc"
  "targetLayer (f_base (fst (updateAllocation alloc f))) = TargetLayer (snd (updateAllocation alloc f))"
  "\<not> isH264 f \<Longrightarrow> TargetLayer (snd (updateAllocation alloc f)) = TargetLayer alloc"
  using updateAllocation_facts [of alloc f] updateAllocation_target(4) [of alloc f] by (cases "updateAllocation alloc f"; simp)+

lemma nextLayer_unique: "nextLayer brs overshoot f l \<Longrightarrow> nextLayer brs overshoot f l' \<Longrightarrow> l = l'"
proof (rule ccontr)
  assume "nextLayer brs overshoot f l" "nextLayer brs overshoot f l'" "l \<noteq> l'"
  then have "GreaterThan l l'" "GreaterThan l' l" by (auto simp: nextLayer_def)
  then show False by (auto simp: GreaterThan_def)
qed

text \<open>The allocation of a deficient stream, by what the loops find.\<close>

lemma AllocateNextHigher_found:
  assumes "alloc_ok f" "rates_ok brs" "\<not> isH264 f" "f_kind f \<noteq> kindAudio" "IsDeficient (lastAllocation f)"
    "firstLayer brs (concat (loopsAbove overshoot f)) = Some found"
    "AllocateNextHigher capacity ls brs overshoot f = Some (f', a, boosted)"
    "\<And>l r. found = Some (l, r) \<Longrightarrow> rate brs l = Some r \<and> IsValid l \<and> in_table l"
  shows "case found of
      Some (l, r) \<Rightarrow> if fits capacity brs overshoot f l
        then boosted \<and> BandwidthRequested a = r \<and> TargetLayer a = l \<and> targetLayer (f_base f') = l
        else f' = f \<and> a = lastAllocation f \<and> \<not> boosted
    | None \<Rightarrow> f' = f \<and> a = lastAllocation f \<and> \<not> boosted"
proof -
  note tab = alloc_ok_D [OF assms(1)]
  let ?already = "rateAt brs (targetLayer (f_base f))"
  have al: "(if IsValid (targetLayer (f_base f)) then rate brs (targetLayer (f_base f)) else Some 0) = Some ?already"
    using rate_some [OF _ tab(3)] by (simp add: rateAt_def)
  have already: "0 \<le> ?already \<and> ?already < 4611686018427387904"
    using al rate_bounds [OF assms(2)] by (auto split: if_splits)
  obtain optimal where o: "getOptimalBandwidthNeeded (f_muted f) (f_pubMuted f) (Spatial (maxSeenLayer (f_base f))) brs (maxLayer (f_base f)) = Some optimal"
    using optimal_some [OF tab(1)] by blast
  note step = assms(7) [unfolded AllocateNextHigher_def Let_def o al assms(6) bind.bind_lunit]
  show ?thesis
  proof (cases found)
    case None
    then show ?thesis using step assms(4,5) by auto
  next
    case (Some lr)
    obtain l r where lr: "lr = (l, r)" by (cases lr)
    have l: "rate brs l = Some r" "rateAt brs l = r" using assms(8) Some lr rate_some by (auto simp: rateAt_def)
    have "i64 (r - ?already) = r - ?already" using i64_small [of r ?already] rate_bounds [OF assms(2) l(1)] already by simp
    then have fit: "fits capacity brs overshoot f l \<longleftrightarrow> \<not> ((\<not> overshoot \<or> \<not> IsOvershootOkay (vls f)) \<and> i64 (r - ?already) > capacity)"
      using l by (auto simp: fits_def)
    show ?thesis
      using step assms(3-5) Some lr by (auto simp: fit bind_eq_Some_conv prod.case_eq_if updateAllocation_results)
  qed
qed


definition deficient :: Forwarder where
  "deficient = publishing\<lparr>lastAllocation := VideoAllocationDefault\<lparr>IsDeficient := True\<rparr>,
     vls := onBase (\<lambda>b. b\<lparr>targetLayer := \<lparr>Spatial = 0, Temporal = 3\<rparr>, currentLayer := \<lparr>Spatial = 0, Temporal = 3\<rparr>\<rparr>) (vls publishing)\<rparr>"

lemma deficient_ok: "alloc_ok deficient" "normal deficient" "\<not> isH264 deficient"
  by (simp_all add: deficient_def publishing_def alloc_ok_def base_ok_def NewBase_def DefaultMaxLayer_def in_table_def invalid_defs
      NewForwarder_def normal_def IsValid_def)


lemma table_ranges: "[0..3] = [0, 1, 2, 3::int]" "[0..2] = [0, 1, 2::int]"
  by (simp_all add: upto.simps)

section \<open>Cooperative transitions\<close>

text \<open>C39. When the channel is congested, a cooperative transition of a stream that is not muted (nor its publisher) and has a
  target does not move it up, provided some layer within the maximum has a bit rate and the target has one or is above the highest such layer: a
  target at or below the highest such layer is kept, at no change of bandwidth, and one above it moves down to it. The new layer is
  the one allocated, and it has a bit rate.\<close>

theorem cooperative_no_upgrade:
  assumes "alloc_ok f" "provisional f = Some p" "\<not> vp_muted p" "\<not> vp_pubMuted p" "IsValid (targetLayer (f_base f))"
    "firstLayer (vp_bitrates p) (layersDown (vp_maxLayer p)) = Some (Some (maximal, r))"
    "rate (vp_bitrates p) (targetLayer (f_base f)) \<noteq> Some 0 \<or> GreaterThan (targetLayer (f_base f)) maximal"
  shows "\<exists>f' t p'. ProvisionalAllocateGetCooperativeTransition overshoot f = Some (f', t) \<and> provisional f' = Some p' \<and>
    From t = targetLayer (f_base f) \<and> To t = allocatedLayer p' \<and> \<not> GreaterThan (To t) (From t) \<and> \<not> GreaterThan (To t) maximal \<and>
    rate (vp_bitrates p) (To t) \<noteq> Some 0 \<and> (To t = From t \<longrightarrow> vt_BandwidthDelta t = 0)"
proof -
  note tab = alloc_ok_D(3) [OF assms(1)]
  obtain needed where n: "getBandwidthNeeded (vp_bitrates p) (targetLayer (f_base f)) (BandwidthRequested (lastAllocation f)) = Some needed"
    using needed_some [OF tab] by blast
  have mr: "rate (vp_bitrates p) maximal \<noteq> Some 0" using firstLayer_Some [OF assms(6)] by auto
  have irr: "\<not> GreaterThan l l" for l by (simp add: GreaterThan_def)
  show ?thesis
  proof (cases "GreaterThan (targetLayer (f_base f)) maximal")
    case True
    then have "\<not> GreaterThan maximal (targetLayer (f_base f))" "maximal \<noteq> targetLayer (f_base f)" by (auto simp: GreaterThan_def)
    then show ?thesis
      using True mr assms(2-6) by (simp add: ProvisionalAllocateGetCooperativeTransition_def Let_def n irr)
  next
    case False
    then obtain q where "rate (vp_bitrates p) (targetLayer (f_base f)) = Some q" "q \<noteq> 0"
      using assms(7) rate_some [OF assms(5) tab] by auto
    then show ?thesis
      using False assms(2-6) by (simp add: ProvisionalAllocateGetCooperativeTransition_def Let_def irr)
  qed
qed

theorem cooperative_no_upgrade_witness:
  "\<exists>f' t p'. ProvisionalAllocateGetCooperativeTransition False (ProvisionalAllocatePrepare [0] (\<lambda>s t. if s = 0 then 100 + t else 0) deficient) = Some (f', t) \<and>
    provisional f' = Some p' \<and> From t = \<lparr>Spatial = 0, Temporal = 3\<rparr> \<and> To t = allocatedLayer p' \<and> \<not> GreaterThan (To t) (From t) \<and>
    \<not> GreaterThan (To t) \<lparr>Spatial = 0, Temporal = 3\<rparr> \<and> rate (\<lambda>s t. if s = 0 then 100 + t else 0) (To t) \<noteq> Some 0 \<and> (To t = From t \<longrightarrow> vt_BandwidthDelta t = 0)"
proof -
  let ?brs = "\<lambda>s t. if s = 0 then 100 + t else 0 :: int"
  let ?f = "ProvisionalAllocatePrepare [0] ?brs deficient"
  obtain p where p: "provisional ?f = Some p" "\<not> vp_muted p" "\<not> vp_pubMuted p" "vp_bitrates p = ?brs" "vp_maxLayer p = DefaultMaxLayer"
    by (simp add: ProvisionalAllocatePrepare_def deficient_def publishing_def NewForwarder_def)
  have ok: "alloc_ok ?f" using alloc_ok_D [OF deficient_ok(1)] by (simp add: ProvisionalAllocatePrepare_def alloc_ok_def provisional_ok_def)
  have t: "targetLayer (f_base ?f) = \<lparr>Spatial = 0, Temporal = 3\<rparr>"
    by (simp add: ProvisionalAllocatePrepare_def deficient_def publishing_def)
  have m: "firstLayer (vp_bitrates p) (layersDown (vp_maxLayer p)) = Some (Some (\<lparr>Spatial = 0, Temporal = 3\<rparr>, 103))"
    by (simp add: p layersDown_def DefaultMaxLayer_def rate_def table_ranges)
  show ?thesis
    using cooperative_no_upgrade [OF ok p(1-3) _ m, of False] t by (simp add: p IsValid_def invalid_defs rate_def)
qed

text \<open>Without these conditions it can: the target's layer has stopped while the stream is still at a higher one, and
  the transition moves the target back up to the current layer, at a positive change of bandwidth.\<close>

definition switchingDown :: Forwarder where
  "switchingDown = ProvisionalAllocatePrepare [0, 2] (\<lambda>s t. if s = 1 then 0 else 100 * (s + 1)) (deficient\<lparr>lastAllocation := VideoAllocationDefault\<lparr>BandwidthRequested := 200\<rparr>, vls :=
     onBase (\<lambda>b. b\<lparr>targetLayer := \<lparr>Spatial = 1, Temporal = 3\<rparr>, currentLayer := \<lparr>Spatial = 2, Temporal = 3\<rparr>\<rparr>) (vls publishing)\<rparr>)"

lemma cooperative_upgrade:
  "map_option snd (ProvisionalAllocateGetCooperativeTransition False switchingDown) =
     Some \<lparr>From = \<lparr>Spatial = 1, Temporal = 3\<rparr>, To = \<lparr>Spatial = 2, Temporal = 3\<rparr>, vt_BandwidthDelta = 100\<rparr>"
  by (simp add: switchingDown_def deficient_def publishing_def NewBase_def ProvisionalAllocatePrepare_def
      ProvisionalAllocateGetCooperativeTransition_def cooperativeFallback_def IsValid_def invalid_defs layersDown_def rate_def DefaultMaxLayer_def
      GreaterThan_def getBandwidthNeeded_def VideoAllocationDefault_def zeroAllocation_def NewForwarder_def i64_id Let_def table_ranges)

end
