(* ===== verification/FlexFEC.thy ===== *)
theory FlexFEC
  imports Prelude
begin

text \<open>
  Recovery of lost packets with forward error correction: \<open>flexfec/decoder.go\<close> of \<open>pkg/sfu\<close>.

  RTP packets that are recovered are values of an external package: \<open>'p\<close>, with the functions that read and write them in a record.
  The store of media packets is an argument of every operation, as its owner changes it in between; the buffer it copies to is
  the list it returns. Received packets have the fields that are read here. The binary search is that of the standard library.

  Lemmas: the header parser and the recovery never panic; the masks select at most 109 ascending numbers; a packet recovered
  is, byte for byte, the one that is missing, also when it is recovered from packets recovered before; and recovery goes on until
  every repair packet that is left lacks at least two packets.
\<close>

section \<open>Headers\<close>

datatype 'e fec_error = errPacketTruncated nat | errRetransmissionBitSet | errInflexibleGeneratorMatrix | errMultipleSSRCProtection u8 |
  errLastOptionalMaskKBitSetToFalse | errMediaPacketNotFound | errInvalidRecoveredPacketSize nat | errMissingPackets nat | errExternal 'e

definition mediaPacketsBeforeGapCheck :: nat where
  "mediaPacketsBeforeGapCheck = 100"

definition maxFECPackets :: nat where
  "maxFECPackets = 100"

definition maxMediaPacketSize :: nat where
  "maxMediaPacketSize = 1500"

definition fecRetransmissionBit :: u8 where
  "fecRetransmissionBit = 0x80"

definition fecInflexibleBit :: u8 where
  "fecInflexibleBit = 0x40"

definition fecMaskKBit :: u8 where
  "fecMaskKBit = 0x80"

definition fecMask0Bits :: nat where "fecMask0Bits = 15"
definition fecMask1Bits :: nat where "fecMask1Bits = 31"
definition fecMask2Bits :: nat where "fecMask2Bits = 63"

definition fecMask0Value :: u16 where "fecMask0Value = 0x7FFF"
definition fecMask1Value :: u32 where "fecMask1Value = 0x7FFFFFFF"
definition fecMask2Value :: u64 where "fecMask2Value = 0x7FFFFFFFFFFFFFFF"

definition maxProtectedPackets :: nat where
  "maxProtectedPackets = fecMask0Bits + fecMask1Bits + fecMask2Bits"

text \<open>Reading a byte, or a number in network order; out of range is a panic.\<close>

definition byte :: "u8 list \<Rightarrow> nat \<Rightarrow> u8 option" where
  "byte data i = (if i < length data then Some (data ! i) else None)"

definition bigEndian :: "nat \<Rightarrow> u8 list \<Rightarrow> nat \<Rightarrow> 'a::len word option" where
  "bigEndian n data i =
     (if i + n \<le> length data then Some (foldl (\<lambda>w b. push_bit 8 w OR ucast b) 0 (take n (drop i data))) else None)"

record flexFEC =
  fx_protectedSSRC :: u32
  seqNumBase :: u16
  mask0 :: u16
  mask1 :: u32
  mask2 :: u64
  fx_payload :: "u8 list"

definition parseFlexFEC03Header :: "u8 list \<Rightarrow> ('e fec_error + flexFEC) option" where
  "parseFlexFEC03Header data =
     (if length data < 20 then Some (Inl (errPacketTruncated (length data)))
      else do {
        b0 \<leftarrow> byte data 0;
        ssrcCount \<leftarrow> byte data 8;
        if b0 AND fecRetransmissionBit \<noteq> 0 then Some (Inl errRetransmissionBitSet)
        else if b0 AND fecInflexibleBit \<noteq> 0 then Some (Inl errInflexibleGeneratorMatrix)
        else if ssrcCount \<noteq> 1 then Some (Inl (errMultipleSSRCProtection ssrcCount))
        else do {
          protectedSSRC \<leftarrow> bigEndian 4 data 12;
          base \<leftarrow> bigEndian 2 data 16;
          let rawPacketMask = drop 18 data;
          k0 \<leftarrow> byte rawPacketMask 0;
          part0 \<leftarrow> bigEndian 2 rawPacketMask 0;
          let fec = (\<lambda>m1 m2 pl. \<lparr>fx_protectedSSRC = protectedSSRC, seqNumBase = base, mask0 = part0 AND fecMask0Value,
                mask1 = m1, mask2 = m2, fx_payload = pl\<rparr>);
          if k0 AND fecMaskKBit \<noteq> 0 then Some (Inr (fec 0 0 (drop 2 rawPacketMask)))
          else if length data < 24 then Some (Inl (errPacketTruncated (length data)))
          else do {
            k1 \<leftarrow> byte rawPacketMask 2;
            part1 \<leftarrow> bigEndian 4 rawPacketMask 2;
            if k1 AND fecMaskKBit \<noteq> 0 then Some (Inr (fec (part1 AND fecMask1Value) 0 (drop 6 rawPacketMask)))
            else if length data < 32 then Some (Inl (errPacketTruncated (length data)))
            else do {
              k2 \<leftarrow> byte rawPacketMask 6;
              part2 \<leftarrow> bigEndian 8 rawPacketMask 6;
              if k2 AND fecMaskKBit \<noteq> 0
              then Some (Inr (fec (part1 AND fecMask1Value) (part2 AND fecMask2Value) (drop 14 rawPacketMask)))
              else Some (Inl errLastOptionalMaskKBitSetToFalse)
            }
          }
        }
      })"

definition appendMaskSequences :: "u16 list \<Rightarrow> u64 \<Rightarrow> nat \<Rightarrow> u16 \<Rightarrow> u16 list" where
  "appendMaskSequences dst bits bitCount base =
     dst @ map (\<lambda>i. base + word_of_nat i) (filter (\<lambda>i. drop_bit (bitCount - 1 - i) bits AND 1 = 1) [0..<bitCount])"

definition protectedSequences :: "flexFEC \<Rightarrow> u16 list" where
  "protectedSequences f =
     (let dst = appendMaskSequences [] (ucast (mask0 f)) fecMask0Bits (seqNumBase f);
          dst = (if mask1 f \<noteq> 0
                 then appendMaskSequences dst (ucast (mask1 f)) fecMask1Bits (seqNumBase f + word_of_nat fecMask0Bits) else dst)
      in if mask2 f \<noteq> 0
         then appendMaskSequences dst (mask2 f) fecMask2Bits (seqNumBase f + word_of_nat fecMask0Bits + word_of_nat fecMask1Bits)
         else dst)"

definition seqDiff :: "u16 \<Rightarrow> u16 \<Rightarrow> u16" where
  "seqDiff a b = min (a - b) (b - a)"

definition isNewerSeq :: "u16 \<Rightarrow> u16 \<Rightarrow> bool" where
  "isNewerSeq prevValue val =
     (if val - prevValue = 0x8000 then val > prevValue else val \<noteq> prevValue \<and> val - prevValue < 0x8000)"

section \<open>State\<close>

record rtpPacket =
  rp_SSRC :: u32
  rp_SequenceNumber :: u16
  rp_Payload :: "u8 list"

record ('p, 'e) rtp_env =
  rp_unmarshal :: "u8 list \<Rightarrow> 'e + 'p"
  rp_marshal :: "'p \<Rightarrow> 'e + u8 list"
  rp_sequence :: "'p \<Rightarrow> u16"

type_synonym 'e media_lookup = "(u16 \<Rightarrow> 'e + u8 list) option"

record fecPacketState =
  fs_packet :: rtpPacket
  fs_flexFEC :: flexFEC

record DecoderStats =
  FECPacketsReceived :: u64
  FECBytesReceived :: u64
  FECPacketsDiscarded :: u64
  PacketsRecovered :: u64

record Decoder =
  fecSSRC :: u32
  d_protectedSSRC :: u32
  newestMediaSeq :: u16
  mediaPacketsSeen :: nat
  hasNewestMediaSeq :: bool
  receivedFECPackets :: "fecPacketState list"
  d_stats :: DecoderStats

definition NewDecoder :: "u32 \<Rightarrow> u32 \<Rightarrow> Decoder" where
  "NewDecoder fec prot = \<lparr>fecSSRC = fec, d_protectedSSRC = prot, newestMediaSeq = 0, mediaPacketsSeen = 0, hasNewestMediaSeq = False,
     receivedFECPackets = [], d_stats = \<lparr>FECPacketsReceived = 0, FECBytesReceived = 0, FECPacketsDiscarded = 0, PacketsRecovered = 0\<rparr>\<rparr>"

abbreviation fs_seq :: "fecPacketState \<Rightarrow> u16" where
  "fs_seq s \<equiv> rp_SequenceNumber (fs_packet s)"

abbreviation discarded :: "Decoder \<Rightarrow> Decoder" where
  "discarded d \<equiv> d\<lparr>d_stats := (d_stats d)\<lparr>FECPacketsDiscarded := FECPacketsDiscarded (d_stats d) + 1\<rparr>\<rparr>"

section \<open>Media packets\<close>

definition getMediaPacket :: "('p, 'e) rtp_env \<Rightarrow> 'e media_lookup \<Rightarrow> u16 \<Rightarrow> 'p list \<Rightarrow> 'e fec_error + u8 list" where
  "getMediaPacket env lookup sequenceNumber recovered =
     (let external = (\<lambda>r. case r of Inl e \<Rightarrow> Inl (errExternal e) | Inr bs \<Rightarrow> Inr bs)
      in case find (\<lambda>p. rp_sequence env p = sequenceNumber) recovered of
           Some p \<Rightarrow> external (rp_marshal env p)
         | None \<Rightarrow> (case lookup of None \<Rightarrow> Inl errMediaPacketNotFound | Some look \<Rightarrow> external (look sequenceNumber)))"

text \<open>The loop stops behind the second packet that is missing.\<close>

fun countMissingLoop :: "('p, 'e) rtp_env \<Rightarrow> 'e media_lookup \<Rightarrow> 'p list \<Rightarrow> u16 list \<Rightarrow> nat \<Rightarrow> nat" where
  "countMissingLoop env lookup recovered [] missing = missing"
| "countMissingLoop env lookup recovered (q # qs) missing =
     (case getMediaPacket env lookup q recovered of
        Inr _ \<Rightarrow> countMissingLoop env lookup recovered qs missing
      | Inl _ \<Rightarrow> if missing + 1 > 1 then missing + 1 else countMissingLoop env lookup recovered qs (missing + 1))"

definition countMissingPackets :: "('p, 'e) rtp_env \<Rightarrow> 'e media_lookup \<Rightarrow> flexFEC \<Rightarrow> 'p list \<Rightarrow> nat" where
  "countMissingPackets env lookup fec recovered = countMissingLoop env lookup recovered (protectedSequences fec) 0"

definition observeMediaPacket :: "u16 \<Rightarrow> Decoder \<Rightarrow> Decoder" where
  "observeMediaPacket sequenceNumber d =
     (let d = (if hasNewestMediaSeq d \<and> mediaPacketsSeen d \<ge> mediaPacketsBeforeGapCheck \<and> isNewerSeq (newestMediaSeq d) sequenceNumber \<and>
                  seqDiff sequenceNumber (newestMediaSeq d) > word_of_nat mediaPacketsBeforeGapCheck
               then d\<lparr>receivedFECPackets := [], mediaPacketsSeen := 0, newestMediaSeq := sequenceNumber\<rparr> else d);
          d = (if \<not> hasNewestMediaSeq d \<or> isNewerSeq (newestMediaSeq d) sequenceNumber
               then d\<lparr>newestMediaSeq := sequenceNumber, hasNewestMediaSeq := True\<rparr> else d)
      in if mediaPacketsSeen d < mediaPacketsBeforeGapCheck then d\<lparr>mediaPacketsSeen := mediaPacketsSeen d + 1\<rparr> else d)"

section \<open>Repair packets\<close>

definition discardOldFECPackets :: "u16 \<Rightarrow> Decoder \<Rightarrow> Decoder" where
  "discardOldFECPackets sequenceNumber d =
     d\<lparr>receivedFECPackets := dropWhile (\<lambda>s. seqDiff sequenceNumber (fs_seq s) > 0x3fff) (receivedFECPackets d)\<rparr>"

function searchLoop :: "(nat \<Rightarrow> bool) \<Rightarrow> nat \<Rightarrow> nat \<Rightarrow> nat" where
  "searchLoop f i j =
     (if i < j then let h = (i + j) div 2 in if \<not> f h then searchLoop f (h + 1) j else searchLoop f i h else i)"
  by pat_completeness auto
termination by (relation "measure (\<lambda>(f, i, j). j - i)") auto

definition removeFECPacketAt :: "nat \<Rightarrow> fecPacketState list \<Rightarrow> fecPacketState list" where
  "removeFECPacketAt i fecs = take i fecs @ drop (i + 1) fecs"

text \<open>Where a new repair packet goes: behind the others, or before the first one that is newer.\<close>

definition placeFECPacket :: "fecPacketState \<Rightarrow> fecPacketState list \<Rightarrow> fecPacketState list" where
  "placeFECPacket state fecs =
     (if fecs \<noteq> [] \<and> \<not> isNewerSeq (fs_seq (last fecs)) (fs_seq state)
      then let insertAt = searchLoop (\<lambda>i. isNewerSeq (fs_seq state) (fs_seq (fecs ! i))) 0 (length fecs)
           in take insertAt fecs @ [state] @ drop insertAt fecs
      else fecs @ [state])"

definition insertFECPacket :: "('p, 'e) rtp_env \<Rightarrow> 'e media_lookup \<Rightarrow> rtpPacket \<Rightarrow> Decoder \<Rightarrow> Decoder option" where
  "insertFECPacket env lookup fecPkt d =
     (if list_ex (\<lambda>s. fs_seq s = rp_SequenceNumber fecPkt) (receivedFECPackets d) then Some (discarded d)
      else do {
        parsed \<leftarrow> (parseFlexFEC03Header (rp_Payload fecPkt) :: ('e fec_error + flexFEC) option);
        case parsed of
          Inl _ \<Rightarrow> Some (discarded d)
        | Inr fec \<Rightarrow>
            if fx_protectedSSRC fec \<noteq> d_protectedSSRC d then Some (discarded d)
            else if mask0 fec = 0 \<and> mask1 fec = 0 \<and> mask2 fec = 0 then Some (discarded d)
            else if countMissingPackets env lookup fec [] = 0 then Some d
            else
              let fecs = placeFECPacket \<lparr>fs_packet = fecPkt, fs_flexFEC = fec\<rparr> (receivedFECPackets d);
                  fecs = (if length fecs > maxFECPackets then removeFECPacketAt 0 fecs else fecs)
              in Some (d\<lparr>receivedFECPackets := fecs\<rparr>)
      })"

section \<open>Recovery\<close>

definition xorHeader :: "u8 list \<Rightarrow> u8 list \<Rightarrow> u8 list" where
  "xorHeader packet h =
     (let packetLength = (word_of_nat (length packet - 12) :: u16);
          h = h[0 := h ! 0 XOR packet ! 0];
          h = h[1 := h ! 1 XOR packet ! 1];
          h = h[2 := h ! 2 XOR ucast (drop_bit 8 packetLength)];
          h = h[3 := h ! 3 XOR ucast packetLength]
      in foldl (\<lambda>h i. h[i := h ! i XOR packet ! i]) h [4..<8])"

fun headerLoop ::
  "('p, 'e) rtp_env \<Rightarrow> 'e media_lookup \<Rightarrow> 'p list \<Rightarrow> u16 list \<Rightarrow> u8 list \<Rightarrow> nat \<Rightarrow> u16 \<Rightarrow> 'e fec_error + u8 list \<times> nat \<times> u16" where
  "headerLoop env lookup recovered [] h missing sequenceNumber = Inr (h, missing, sequenceNumber)"
| "headerLoop env lookup recovered (q # qs) h missing sequenceNumber =
     (case getMediaPacket env lookup q recovered of
        Inl _ \<Rightarrow> headerLoop env lookup recovered qs h (missing + 1) q
      | Inr packet \<Rightarrow>
          if length packet < 12 then Inl (errInvalidRecoveredPacketSize (length packet))
          else headerLoop env lookup recovered qs (xorHeader packet h) missing sequenceNumber)"

definition xorPayload :: "nat \<Rightarrow> u8 list \<Rightarrow> u8 list \<Rightarrow> u8 list" where
  "xorPayload payloadLength packet raw =
     foldl (\<lambda>r i. r[12 + i := r ! (12 + i) XOR packet ! (12 + i)]) raw [0..<min payloadLength (length packet - 12)]"

fun payloadLoop :: "('p, 'e) rtp_env \<Rightarrow> 'e media_lookup \<Rightarrow> 'p list \<Rightarrow> nat \<Rightarrow> u16 list \<Rightarrow> u8 list \<Rightarrow> 'e fec_error + u8 list" where
  "payloadLoop env lookup recovered payloadLength [] raw = Inr raw"
| "payloadLoop env lookup recovered payloadLength (q # qs) raw =
     (case getMediaPacket env lookup q recovered of
        Inl _ \<Rightarrow> payloadLoop env lookup recovered payloadLength qs raw
      | Inr packet \<Rightarrow>
          if length packet < 12 then Inl (errInvalidRecoveredPacketSize (length packet))
          else payloadLoop env lookup recovered payloadLength qs (xorPayload payloadLength packet raw))"

text \<open>The header with version, sequence number and source filled in, and the length of the payload.\<close>

definition finishHeader :: "u32 \<Rightarrow> u16 \<Rightarrow> u8 list \<Rightarrow> u8 list" where
  "finishHeader protectedSSRC sequenceNumber h =
     (let h = h[0 := (h ! 0 OR 0x80) AND 0xbf];
          h = h[2 := ucast (drop_bit 8 sequenceNumber), 3 := ucast sequenceNumber]
      in h[8 := ucast (drop_bit 24 protectedSSRC), 9 := ucast (drop_bit 16 protectedSSRC), 10 := ucast (drop_bit 8 protectedSSRC),
           11 := ucast protectedSSRC])"

definition recoverPacket ::
  "('p, 'e) rtp_env \<Rightarrow> 'e media_lookup \<Rightarrow> u32 \<Rightarrow> fecPacketState \<Rightarrow> 'p list \<Rightarrow> ('e fec_error + 'p) option" where
  "recoverPacket env lookup protectedSSRC fec recovered =
     (if length (rp_Payload (fs_packet fec)) < 10 then None
      else
        let qs = protectedSequences (fs_flexFEC fec)
        in case headerLoop env lookup recovered qs (take 10 (rp_Payload (fs_packet fec)) @ [0, 0]) 0 0 of
             Inl e \<Rightarrow> Some (Inl e)
           | Inr (h, missing, sequenceNumber) \<Rightarrow>
               if missing \<noteq> 1 then Some (Inl (errMissingPackets missing))
               else do {
                 pl \<leftarrow> (bigEndian 2 h 2 :: u16 option);
                 let payloadLength = unat pl;
                 if payloadLength > length (fx_payload (fs_flexFEC fec)) \<or> payloadLength + 12 > maxMediaPacketSize
                 then Some (Inl (errInvalidRecoveredPacketSize (payloadLength + 12)))
                 else
                   case payloadLoop env lookup recovered payloadLength qs
                          (finishHeader protectedSSRC sequenceNumber h @ take payloadLength (fx_payload (fs_flexFEC fec))) of
                     Inl e \<Rightarrow> Some (Inl e)
                   | Inr raw \<Rightarrow> (case rp_unmarshal env raw of Inl e \<Rightarrow> Some (Inl (errExternal e)) | Inr p \<Rightarrow> Some (Inr p))
               })"

text \<open>One pass over the repair packets: the packets left, those recovered so far, the number discarded and the number recovered.\<close>

function passLoop ::
  "('p, 'e) rtp_env \<Rightarrow> 'e media_lookup \<Rightarrow> u32 \<Rightarrow> nat \<Rightarrow> fecPacketState list \<Rightarrow> 'p list \<Rightarrow> u64 \<Rightarrow> nat \<Rightarrow>
   (fecPacketState list \<times> 'p list \<times> u64 \<times> nat) option" where
  "passLoop env lookup ssrc i fecs recovered drops n =
     (if i < length fecs
      then
        let missing = countMissingPackets env lookup (fs_flexFEC (fecs ! i)) recovered
        in if missing = 0 then passLoop env lookup ssrc i (removeFECPacketAt i fecs) recovered drops n
           else if missing \<noteq> 1 then passLoop env lookup ssrc (i + 1) fecs recovered drops n
           else case recoverPacket env lookup ssrc (fecs ! i) recovered of
                  None \<Rightarrow> None
                | Some (Inl _) \<Rightarrow> passLoop env lookup ssrc i (removeFECPacketAt i fecs) recovered (drops + 1) n
                | Some (Inr p) \<Rightarrow> passLoop env lookup ssrc i (removeFECPacketAt i fecs) (recovered @ [p]) drops (n + 1)
      else Some (fecs, recovered, drops, n))"
  by pat_completeness auto
termination by (relation "measure (\<lambda>(env, lookup, ssrc, i, fecs, recovered, drops, n). length fecs - i)") (auto simp: removeFECPacketAt_def)

declare searchLoop.simps [simp del] passLoop.simps [simp del]

text \<open>A pass that recovers packets leaves fewer repair packets.\<close>

lemma removeFECPacketAt_length: "i < length fecs \<Longrightarrow> length (removeFECPacketAt i fecs) = length fecs - 1"
  by (simp add: removeFECPacketAt_def)

lemma passLoop_shrinks:
  "passLoop env lookup ssrc i fecs recovered drops n = Some (fecs', recovered', drops', n') \<Longrightarrow> length fecs' + n' \<le> length fecs + n"
proof (induction env lookup ssrc i fecs recovered drops n rule: passLoop.induct)
  case (1 env lookup ssrc i fecs recovered drops n)
  note step = passLoop.simps [of env lookup ssrc i fecs recovered drops n]
  let ?m = "countMissingPackets env lookup (fs_flexFEC (fecs ! i)) recovered"
  show ?case
  proof (cases "i < length fecs \<and> ?m = 1")
    case True
    then show ?thesis
      using 1(3) [OF _ refl _ _ _ refl] 1(4) [OF _ refl _ _ _ refl] 1(5) removeFECPacketAt_length [of i fecs]
      by (auto simp: step Let_def split: option.splits sum.splits)
  next
    case False
    then show ?thesis
      using 1(1,2) [OF _ refl] 1(5) removeFECPacketAt_length [of i fecs] by (auto simp: step Let_def split: if_splits)
  qed
qed

function recoveryLoop ::
  "('p, 'e) rtp_env \<Rightarrow> 'e media_lookup \<Rightarrow> u32 \<Rightarrow> fecPacketState list \<Rightarrow> 'p list \<Rightarrow> u64 \<Rightarrow> (fecPacketState list \<times> 'p list \<times> u64) option" where
  "recoveryLoop env lookup ssrc fecs recovered drops =
     (case passLoop env lookup ssrc 0 fecs recovered drops 0 of
        None \<Rightarrow> None
      | Some (fecs', recovered', drops', n) \<Rightarrow>
          if n = 0 then Some (fecs', recovered', drops') else recoveryLoop env lookup ssrc fecs' recovered' drops')"
  by pat_completeness auto
termination
  by (relation "measure (\<lambda>(env, lookup, ssrc, fecs, recovered, drops). length fecs)") (auto dest!: passLoop_shrinks)

declare recoveryLoop.simps [simp del]

definition attemptRecovery :: "('p, 'e) rtp_env \<Rightarrow> 'e media_lookup \<Rightarrow> Decoder \<Rightarrow> (Decoder \<times> 'p list) option" where
  "attemptRecovery env lookup d =
     do {
       (fecs, recovered, drops) \<leftarrow> recoveryLoop env lookup (d_protectedSSRC d) (receivedFECPackets d) [] 0;
       Some (d\<lparr>receivedFECPackets := fecs,
               d_stats := (d_stats d)\<lparr>FECPacketsDiscarded := FECPacketsDiscarded (d_stats d) + drops\<rparr>\<rparr>, recovered)
     }"

definition DecodeFEC :: "('p, 'e) rtp_env \<Rightarrow> 'e media_lookup \<Rightarrow> rtpPacket \<Rightarrow> Decoder \<Rightarrow> (Decoder \<times> 'p list) option" where
  "DecodeFEC env lookup receivedPacket d =
     (let recovery = (\<lambda>d. do {
            (d, recovered) \<leftarrow> attemptRecovery env lookup d;
            Some (d\<lparr>d_stats := (d_stats d)\<lparr>PacketsRecovered := PacketsRecovered (d_stats d) + word_of_nat (length recovered)\<rparr>\<rparr>, recovered)
          })
      in if rp_SSRC receivedPacket = fecSSRC d
         then do {
           let st = d_stats d;
           let d = d\<lparr>d_stats := st\<lparr>FECPacketsReceived := FECPacketsReceived st + 1,
                     FECBytesReceived := FECBytesReceived st + word_of_nat (length (rp_Payload receivedPacket))\<rparr>\<rparr>;
           let d = discardOldFECPackets (rp_SequenceNumber receivedPacket) d;
           d \<leftarrow> insertFECPacket env lookup receivedPacket d;
           recovery d
         }
         else if rp_SSRC receivedPacket = d_protectedSSRC d
         then recovery (observeMediaPacket (rp_SequenceNumber receivedPacket) d)
         else Some (d, []))"

section \<open>The header parser\<close>

text \<open>A header that is accepted leaves a payload that ends the packet, and masks without their marker bits.\<close>

lemma parse_total: "\<exists>r. parseFlexFEC03Header data = Some (r :: 'e fec_error + flexFEC)"
  by (auto simp: parseFlexFEC03Header_def byte_def bigEndian_def Let_def not_less)

lemma parse_accepted:
  assumes "parseFlexFEC03Header data = Some (Inr fec :: 'e fec_error + flexFEC)"
  shows "20 \<le> length data" "data ! 0 AND 0xC0 = 0" "\<exists>k\<in>{20, 24, 32}. fx_payload fec = drop k data"
proof -
  show "20 \<le> length data" using assms by (auto simp: parseFlexFEC03Header_def split: if_splits)
  have "data ! 0 AND 0x80 = 0 \<and> data ! 0 AND 0x40 = 0"
    using assms by (auto simp: parseFlexFEC03Header_def byte_def fecRetransmissionBit_def fecInflexibleBit_def split: if_splits)
  then have "(data ! 0 AND 0x80) OR (data ! 0 AND 0x40) = 0" by simp
  then show "data ! 0 AND 0xC0 = 0" by (simp flip: bit.conj_disj_distrib)
  show "\<exists>k\<in>{20, 24, 32}. fx_payload fec = drop k data"
    using assms by (auto simp: parseFlexFEC03Header_def Let_def bind_eq_Some_conv split: if_splits)
qed

section \<open>The sequence numbers that are protected\<close>

definition offsets :: "u64 \<Rightarrow> nat \<Rightarrow> nat \<Rightarrow> nat list" where
  "offsets bits bitCount start = map (\<lambda>i. start + i) (filter (\<lambda>i. drop_bit (bitCount - 1 - i) bits AND 1 = 1) [0..<bitCount])"

lemma appendMaskSequences_offsets:
  "appendMaskSequences dst bits bitCount (base + word_of_nat start) = dst @ map (\<lambda>i. base + word_of_nat i) (offsets bits bitCount start)"
  by (simp add: appendMaskSequences_def offsets_def add.assoc)

lemma offsets_sorted: "sorted_wrt (<) (offsets bits n start)" "\<forall>i\<in>set (offsets bits n start). start \<le> i \<and> i < start + n"
  by (auto simp: offsets_def sorted_wrt_map intro!: sorted_wrt_filter)

definition protectedOffsets :: "flexFEC \<Rightarrow> nat list" where
  "protectedOffsets f = offsets (ucast (mask0 f)) 15 0 @ (if mask1 f \<noteq> 0 then offsets (ucast (mask1 f)) 31 15 else []) @
     (if mask2 f \<noteq> 0 then offsets (mask2 f) 63 46 else [])"

lemma protectedSequences_offsets: "protectedSequences f = map (\<lambda>i. seqNumBase f + word_of_nat i) (protectedOffsets f)"
  using appendMaskSequences_offsets [of "[]" "ucast (mask0 f)" 15 "seqNumBase f" 0]
    appendMaskSequences_offsets [of _ "ucast (mask1 f)" 31 "seqNumBase f" 15]
    appendMaskSequences_offsets [of _ "mask2 f" 63 "seqNumBase f" 46]
  by (auto simp: protectedSequences_def protectedOffsets_def fecMask0Bits_def fecMask1Bits_def fecMask2Bits_def Let_def add.assoc)

lemma protectedOffsets_sorted: "sorted_wrt (<) (protectedOffsets f)" "\<forall>i\<in>set (protectedOffsets f). i < 109"
proof -
  note o = offsets_sorted(1) offsets_sorted(2) [of "ucast (mask0 f)" 15 0] offsets_sorted(2) [of "ucast (mask1 f)" 31 15]
    offsets_sorted(2) [of "mask2 f" 63 46]
  show "sorted_wrt (<) (protectedOffsets f)" using o by (fastforce simp: protectedOffsets_def sorted_wrt_append)
  show "\<forall>i\<in>set (protectedOffsets f). i < 109" using o(2-4) by (fastforce simp: protectedOffsets_def)
qed

lemma sorted_bounded_length: "sorted_wrt (<) is \<Longrightarrow> \<forall>i\<in>set is. i < (n :: nat) \<Longrightarrow> length is \<le> n"
proof -
  assume "sorted_wrt (<) is" "\<forall>i\<in>set is. i < n"
  then have "distinct is" "set is \<subseteq> {..<n}" by (auto simp: strict_sorted_iff)
  then show ?thesis using card_mono [of "{..<n}" "set is"] by (simp add: distinct_card)
qed

lemma protectedSequences_distinct: "distinct (protectedSequences f)"
proof -
  have "inj_on (\<lambda>i. seqNumBase f + word_of_nat i) (set (protectedOffsets f))"
  proof (rule inj_onI)
    fix i j assume "i \<in> set (protectedOffsets f)" "j \<in> set (protectedOffsets f)" and e: "seqNumBase f + word_of_nat i = seqNumBase f + word_of_nat j"
    then have "i < 109" "j < 109" using protectedOffsets_sorted(2) by auto
    moreover have "unat (word_of_nat i :: u16) = unat (word_of_nat j :: u16)" using e by simp
    ultimately show "i = j" by (simp add: unat_of_nat)
  qed
  moreover have "distinct (protectedOffsets f)" using protectedOffsets_sorted(1) by (simp add: strict_sorted_iff)
  ultimately show ?thesis by (simp add: protectedSequences_offsets distinct_map)
qed

section \<open>Parity\<close>

definition xorOver :: "(u16 \<Rightarrow> u8) \<Rightarrow> u16 list \<Rightarrow> u8" where
  "xorOver g qs = foldr (\<lambda>q a. g q XOR a) qs 0"

lemma xorOver_simps [simp]: "xorOver g [] = 0" "xorOver g (q # qs) = g q XOR xorOver g qs"
  by (simp_all add: xorOver_def)

lemma xor_cancel: "x XOR (x XOR y) = (y :: 'a::len word)" "(x XOR y) XOR y = x"
  by (simp_all flip: xor.assoc) (simp add: xor.assoc)

text \<open>Without one of the numbers, the sum of all others gives its part.\<close>

lemma xorOver_others:
  "distinct qs \<Longrightarrow> s \<in> set qs \<Longrightarrow> xorOver g qs XOR xorOver g (filter (\<lambda>q. q \<noteq> s) qs) = g s"
proof (induction qs)
  case (Cons q qs)
  show ?case
  proof (cases "q = s")
    case True
    then have "filter (\<lambda>q. q \<noteq> s) qs = qs" using Cons.prems by (auto simp: filter_id_conv)
    then show ?thesis using True by (simp add: xor.assoc)
  next
    case False
    then have "xorOver g qs XOR xorOver g (filter (\<lambda>q. q \<noteq> s) qs) = g s" using Cons by auto
    moreover have "(g q XOR a) XOR (g q XOR b) = a XOR b" for a b by (simp add: xor.assoc xor.left_commute)
    ultimately show ?thesis using False by simp
  qed
qed simp

text \<open>The bytes of a media packet that the header of a repair packet covers, and the bytes of its payload.\<close>

definition headerByte :: "u8 list \<Rightarrow> nat \<Rightarrow> u8" where
  "headerByte packet i =
     (if i = 2 then ucast (drop_bit 8 (word_of_nat (length packet - 12) :: u16))
      else if i = 3 then ucast (word_of_nat (length packet - 12) :: u16) else packet ! i)"

definition payloadByte :: "u8 list \<Rightarrow> nat \<Rightarrow> u8" where
  "payloadByte packet i = (if 12 + i < length packet then packet ! (12 + i) else 0)"

text \<open>A repair packet that fits the packets it protects, and packets of the stream that is protected.\<close>

definition protects :: "(u16 \<Rightarrow> u8 list) \<Rightarrow> fecPacketState \<Rightarrow> bool" where
  "protects raw s \<longleftrightarrow>
     (let qs = protectedSequences (fs_flexFEC s); h = rp_Payload (fs_packet s); pl = fx_payload (fs_flexFEC s)
      in 10 \<le> length h \<and> h ! 0 AND 0x3f = xorOver (\<lambda>q. raw q ! 0) qs AND 0x3f \<and>
         (\<forall>i\<in>{1..<8}. h ! i = xorOver (\<lambda>q. headerByte (raw q) i) qs) \<and>
         (\<forall>q\<in>set qs. length (raw q) - 12 \<le> length pl) \<and>
         (\<forall>i < length pl. pl ! i = xorOver (\<lambda>q. payloadByte (raw q) i) qs))"

definition mediaPacket :: "u32 \<Rightarrow> u16 \<Rightarrow> u8 list \<Rightarrow> bool" where
  "mediaPacket ssrc q packet \<longleftrightarrow>
     12 \<le> length packet \<and> length packet \<le> maxMediaPacketSize \<and> packet ! 0 AND 0xC0 = 0x80 \<and>
     packet ! 2 = ucast (drop_bit 8 q) \<and> packet ! 3 = ucast q \<and>
     packet ! 8 = ucast (drop_bit 24 ssrc) \<and> packet ! 9 = ucast (drop_bit 16 ssrc) \<and> packet ! 10 = ucast (drop_bit 8 ssrc) \<and> packet ! 11 = ucast ssrc"

lemma xorHeader_nth:
  assumes "length h = 12"
  shows "length (xorHeader packet h) = 12" "i < 12 \<Longrightarrow> xorHeader packet h ! i = (if i < 8 then h ! i XOR headerByte packet i else h ! i)"
proof -
  have r: "[4..<8] = [4, 5, 6, 7 :: nat]" by (simp add: upt_rec)
  show "length (xorHeader packet h) = 12" using assms by (simp add: xorHeader_def Let_def r)
  show "xorHeader packet h ! i = (if i < 8 then h ! i XOR headerByte packet i else h ! i)" if "i < 12"
  proof -
    have "i = 0 \<or> i = 1 \<or> i = 2 \<or> i = 3 \<or> i = 4 \<or> i = 5 \<or> i = 6 \<or> i = 7 \<or> 8 \<le> i" by linarith
    then show ?thesis using assms that by (elim disjE) (simp_all add: xorHeader_def Let_def r headerByte_def)
  qed
qed

text \<open>All packets of a list but one are there.\<close>

definition allBut :: "(u16 \<Rightarrow> 'e fec_error + u8 list) \<Rightarrow> (u16 \<Rightarrow> u8 list) \<Rightarrow> u16 \<Rightarrow> u16 list \<Rightarrow> bool" where
  "allBut get raw s qs \<longleftrightarrow> (\<forall>q\<in>set qs. if q = s then \<exists>e. get q = Inl e else get q = Inr (raw q) \<and> 12 \<le> length (raw q))"

lemma headerLoop_result:
  assumes "allBut (\<lambda>q. getMediaPacket env lookup q recovered) raw s qs" "distinct qs" "length h = 12"
  shows "\<exists>h'. headerLoop env lookup recovered qs h missing sq =
      Inr (h', if s \<in> set qs then missing + 1 else missing, if s \<in> set qs then s else sq) \<and> length h' = 12 \<and>
    (\<forall>i<8. h' ! i = h ! i XOR xorOver (\<lambda>q. headerByte (raw q) i) (filter (\<lambda>q. q \<noteq> s) qs))"
  using assms
proof (induction qs arbitrary: h missing sq)
  case (Cons q qs)
  show ?case
  proof (cases "q = s")
    case True
    then obtain e where "getMediaPacket env lookup q recovered = Inl e" using Cons.prems(1) by (auto simp: allBut_def)
    then show ?thesis using Cons.IH [of h "missing + 1" q] Cons.prems True by (auto simp: allBut_def)
  next
    case False
    then have g: "getMediaPacket env lookup q recovered = Inr (raw q)" "12 \<le> length (raw q)" using Cons.prems(1) by (auto simp: allBut_def)
    from Cons.IH [of "xorHeader (raw q) h" missing sq] Cons.prems obtain h' where
      h': "headerLoop env lookup recovered qs (xorHeader (raw q) h) missing sq =
          Inr (h', if s \<in> set qs then missing + 1 else missing, if s \<in> set qs then s else sq)" "length h' = 12"
      "\<forall>i<8. h' ! i = xorHeader (raw q) h ! i XOR xorOver (\<lambda>q. headerByte (raw q) i) (filter (\<lambda>q. q \<noteq> s) qs)"
      by (auto simp: allBut_def xorHeader_nth)
    then show ?thesis using False g Cons.prems(3) by (auto simp: xorHeader_nth xor.assoc)
  qed
qed simp

lemma foldl_xor_nth:
  assumes "12 + n \<le> length raw"
  shows "length (foldl (\<lambda>r i. r[12 + i := r ! (12 + i) XOR g i]) raw [0..<n]) = length raw"
    "k < length raw \<Longrightarrow> foldl (\<lambda>r i. r[12 + i := r ! (12 + i) XOR g i]) raw [0..<n] ! k =
      (if 12 \<le> k \<and> k < 12 + n then raw ! k XOR g (k - 12) else raw ! k)"
  using assms by (induction n) (auto simp: nth_list_update)

lemma xorPayload_nth:
  assumes "length raw = 12 + pl"
  shows "length (xorPayload pl packet raw) = 12 + pl"
    "k < 12 + pl \<Longrightarrow> xorPayload pl packet raw ! k = (if 12 \<le> k then raw ! k XOR payloadByte packet (k - 12) else raw ! k)"
  using foldl_xor_nth [where n = "min pl (length packet - 12)" and raw = raw and g = "\<lambda>i. packet ! (12 + i)"] assms
  by (auto simp: xorPayload_def payloadByte_def)

lemma payloadLoop_result:
  assumes "allBut (\<lambda>q. getMediaPacket env lookup q recovered) raw s qs" "length r = 12 + pl"
  shows "\<exists>r'. payloadLoop env lookup recovered pl qs r = Inr r' \<and> length r' = 12 + pl \<and>
    (\<forall>k<12. r' ! k = r ! k) \<and>
    (\<forall>i<pl. r' ! (12 + i) = r ! (12 + i) XOR xorOver (\<lambda>q. payloadByte (raw q) i) (filter (\<lambda>q. q \<noteq> s) qs))"
  using assms
proof (induction qs arbitrary: r)
  case (Cons q qs)
  show ?case
  proof (cases "q = s")
    case True
    then obtain e where "getMediaPacket env lookup q recovered = Inl e" using Cons.prems(1) by (auto simp: allBut_def)
    then show ?thesis using Cons.IH [of r] Cons.prems True by (auto simp: allBut_def)
  next
    case False
    then have g: "getMediaPacket env lookup q recovered = Inr (raw q)" "12 \<le> length (raw q)" using Cons.prems(1) by (auto simp: allBut_def)
    from Cons.IH [of "xorPayload pl (raw q) r"] Cons.prems obtain r' where
      r': "payloadLoop env lookup recovered pl qs (xorPayload pl (raw q) r) = Inr r'" "length r' = 12 + pl"
      "\<forall>k<12. r' ! k = xorPayload pl (raw q) r ! k"
      "\<forall>i<pl. r' ! (12 + i) = xorPayload pl (raw q) r ! (12 + i) XOR xorOver (\<lambda>q. payloadByte (raw q) i) (filter (\<lambda>q. q \<noteq> s) qs)"
      by (auto simp: allBut_def xorPayload_nth)
    then show ?thesis using False g Cons.prems(2) by (auto simp: xorPayload_nth xor.assoc)
  qed
qed simp

lemma join_bytes: "push_bit 8 (ucast (ucast (drop_bit 8 w) :: u8)) OR ucast (ucast w :: u8) = (w :: u16)"
  by (rule bit_word_eqI) (auto simp: bit_simps)

lemma bigEndian_u16:
  assumes "i + 2 \<le> length h" "h ! i = ucast (drop_bit 8 w)" "h ! Suc i = ucast w"
  shows "bigEndian 2 h i = Some (w :: u16)"
proof -
  have "take 2 (drop i h) = [h ! i, h ! Suc i]"
    using assms(1) by (simp add: take_Suc_conv_app_nth numeral_2_eq_2)
  then show ?thesis using assms join_bytes [of w] by (simp add: bigEndian_def)
qed

lemma version_byte:
  assumes "x AND 0x3f = y AND 0x3f" "y AND 0xC0 = 0x80"
  shows "(x OR 0x80) AND 0xbf = (y :: u8)"
proof -
  have "(x OR w) AND (m OR w) = (x AND m) OR w" for w m :: u8 by (simp flip: bit.disj_conj_distrib2)
  from this [of "0x80" "0x3f"] have "(x OR 0x80) AND 0xbf = (x AND 0x3f) OR 0x80" by simp
  also have "\<dots> = (y AND 0x3f) OR (y AND 0xC0)" using assms by simp
  also have "\<dots> = y AND (0x3f OR 0xC0)" by (rule bit.conj_disj_distrib [symmetric])
  also have "(0x3f OR 0xC0 :: u8) = - 1" by simp
  finally show ?thesis by (simp only: word_and_max)
qed

lemma finishHeader_nth:
  assumes "length h = 12"
  shows "length (finishHeader ssrc q h) = 12" "finishHeader ssrc q h ! 0 = (h ! 0 OR 0x80) AND 0xbf" "finishHeader ssrc q h ! 1 = h ! 1"
    "finishHeader ssrc q h ! 2 = ucast (drop_bit 8 q)" "finishHeader ssrc q h ! 3 = ucast q" "4 \<le> i \<Longrightarrow> i < 8 \<Longrightarrow> finishHeader ssrc q h ! i = h ! i"
    "finishHeader ssrc q h ! 8 = ucast (drop_bit 24 ssrc)" "finishHeader ssrc q h ! 9 = ucast (drop_bit 16 ssrc)"
    "finishHeader ssrc q h ! 10 = ucast (drop_bit 8 ssrc)" "finishHeader ssrc q h ! 11 = ucast ssrc"
  using assms by (simp_all add: finishHeader_def Let_def)

text \<open>The packet that is missing is rebuilt byte for byte.\<close>

lemma recoverPacket_exact:
  assumes p: "protects raw st" and m: "mediaPacket ssrc s (raw s)" and s: "s \<in> set (protectedSequences (fs_flexFEC st))"
    and all: "allBut (\<lambda>q. getMediaPacket env lookup q recovered) raw s (protectedSequences (fs_flexFEC st))"
  shows "recoverPacket env lookup ssrc st recovered =
    Some (case rp_unmarshal env (raw s) of Inl e \<Rightarrow> Inl (errExternal e) | Inr pkt \<Rightarrow> Inr pkt)"
proof -
  let ?qs = "protectedSequences (fs_flexFEC st)" and ?h = "rp_Payload (fs_packet st)" and ?pl = "fx_payload (fs_flexFEC st)"
  let ?others = "filter (\<lambda>q. q \<noteq> s) ?qs"
  have h: "10 \<le> length ?h" "?h ! 0 AND 0x3f = xorOver (\<lambda>q. raw q ! 0) ?qs AND 0x3f"
      "\<And>i. 1 \<le> i \<Longrightarrow> i < 8 \<Longrightarrow> ?h ! i = xorOver (\<lambda>q. headerByte (raw q) i) ?qs"
      "length (raw s) - 12 \<le> length ?pl" "\<And>i. i < length ?pl \<Longrightarrow> ?pl ! i = xorOver (\<lambda>q. payloadByte (raw q) i) ?qs"
    using p s by (auto simp: protects_def Let_def)
  have mp: "12 \<le> length (raw s)" "length (raw s) \<le> 1500" using m by (auto simp: mediaPacket_def maxMediaPacketSize_def)
  note others = xorOver_others [OF protectedSequences_distinct s]
  have l12: "length (take 10 ?h @ [0, 0]) = 12" using h(1) by simp
  from headerLoop_result [OF all protectedSequences_distinct l12, of 0 0] s obtain h' where
    h': "headerLoop env lookup recovered ?qs (take 10 ?h @ [0, 0]) 0 0 = Inr (h', 1, s)" "length h' = 12"
      "\<And>i. i < 8 \<Longrightarrow> h' ! i = ?h ! i XOR xorOver (\<lambda>q. headerByte (raw q) i) ?others"
    using h(1) by (auto simp: nth_append)
  have byte: "h' ! i = headerByte (raw s) i" if "1 \<le> i" "i < 8" for i
    using h'(3) [OF that(2)] h(3) [OF that] others [of "\<lambda>q. headerByte (raw q) i"] by simp
  have "h' ! 0 AND 0x3f = (?h ! 0 AND 0x3f) XOR (xorOver (\<lambda>q. raw q ! 0) ?others AND 0x3f)"
    using h'(3) [of 0] by (simp add: headerByte_def bit.conj_xor_distrib2)
  also have "\<dots> = (xorOver (\<lambda>q. raw q ! 0) ?qs XOR xorOver (\<lambda>q. raw q ! 0) ?others) AND 0x3f"
    by (simp add: h(2) bit.conj_xor_distrib2)
  finally have b0: "h' ! 0 AND 0x3f = raw s ! 0 AND 0x3f" using others [of "\<lambda>q. raw q ! 0"] by simp
  define n where "n = length (raw s) - 12"
  have n: "n \<le> length ?pl" "n + 12 \<le> 1500" "length (raw s) = 12 + n" using h(4) mp by (auto simp: n_def)
  have len: "bigEndian 2 h' 2 = Some (word_of_nat n :: u16)"
    using bigEndian_u16 [of 2 h' "word_of_nat n"] byte [of 2] byte [of 3] h'(2) by (simp add: headerByte_def n_def)
  have un: "unat (word_of_nat n :: u16) = n" using n(2) by (simp add: unat_of_nat)
  let ?r = "finishHeader ssrc s h' @ take n ?pl"
  note fin = finishHeader_nth [OF h'(2)]
  have "length ?r = 12 + n" using n(1) by (simp add: fin(1))
  from payloadLoop_result [OF all this] obtain r' where
    r': "payloadLoop env lookup recovered n ?qs ?r = Inr r'" "length r' = 12 + n" "\<And>k. k < 12 \<Longrightarrow> r' ! k = finishHeader ssrc s h' ! k"
      "\<And>i. i < n \<Longrightarrow> r' ! (12 + i) = ?pl ! i XOR xorOver (\<lambda>q. payloadByte (raw q) i) ?others"
    by (auto simp: nth_append fin(1))
  have "r' = raw s"
  proof (rule nth_equalityI)
    show "length r' = length (raw s)" using r'(2) n(3) by simp
    fix k assume "k < length r'"
    then have "k < 12 + n" using r'(2) by simp
    moreover have "k = 0 \<or> k = 1 \<or> k = 2 \<or> k = 3 \<or> (4 \<le> k \<and> k < 8) \<or> k = 8 \<or> k = 9 \<or> k = 10 \<or> k = 11 \<or> k = 12 + (k - 12)"
      by presburger
    ultimately consider "k = 0" | "k = 1" | "k = 2" | "k = 3" | "4 \<le> k" "k < 8" | "k = 8" | "k = 9" | "k = 10" | "k = 11" | i where "k = 12 + i" "i < n"
      by (metis nat_add_left_cancel_less)
    then show "r' ! k = raw s ! k"
    proof cases
      case 10
      then show ?thesis
        using r'(4) [of i] h(5) [of i] n others [of "\<lambda>q. payloadByte (raw q) i"] by (simp add: payloadByte_def)
    qed (use m fin r'(3) byte version_byte [OF b0] in \<open>auto simp: mediaPacket_def headerByte_def\<close>)
  qed
  then show ?thesis
    using h(1) h'(1) len n(1,2) r'(1) by (simp add: recoverPacket_def Let_def un maxMediaPacketSize_def split: sum.splits)
qed

section \<open>Any stream: the decoder returns, with nothing left to recover\<close>

definition lacksTwo :: "('p, 'e) rtp_env \<Rightarrow> 'e media_lookup \<Rightarrow> 'p list \<Rightarrow> fecPacketState \<Rightarrow> bool" where
  "lacksTwo env lookup recovered s \<longleftrightarrow> countMissingPackets env lookup (fs_flexFEC s) recovered \<ge> 2"

definition retained :: "fecPacketState list \<Rightarrow> bool" where
  "retained fecs \<longleftrightarrow> list_all (\<lambda>s. 20 \<le> length (rp_Payload (fs_packet s))) fecs"

lemma retained_remove: "retained fecs \<Longrightarrow> retained (removeFECPacketAt i fecs)"
  by (auto simp: retained_def removeFECPacketAt_def list_all_iff dest: in_set_takeD in_set_dropD)

lemma headerLoop_length:
  "headerLoop env lookup recovered qs h missing sq = Inr (h', r) \<Longrightarrow> length h = 12 \<Longrightarrow> length h' = 12"
  by (induction env lookup recovered qs h missing sq rule: headerLoop.induct) (auto simp: xorHeader_nth split: sum.splits if_splits)

lemma recoverPacket_total:
  assumes "10 \<le> length (rp_Payload (fs_packet s))"
  shows "\<exists>r. recoverPacket env lookup ssrc s recovered = Some r"
proof (cases "headerLoop env lookup recovered (protectedSequences (fs_flexFEC s)) (take 10 (rp_Payload (fs_packet s)) @ [0, 0]) 0 0")
  case (Inr r)
  obtain h m sq where r: "r = (h, m, sq)" by (cases r)
  have "length h = 12" using headerLoop_length [OF Inr [unfolded r]] assms by simp
  then obtain w :: u16 where "bigEndian 2 h 2 = Some w" by (auto simp: bigEndian_def)
  then show ?thesis using Inr r assms by (auto simp: recoverPacket_def Let_def split: sum.splits)
qed (use assms in \<open>simp add: recoverPacket_def Let_def\<close>)

text \<open>A pass returns the packets before its start, and behind them those it has looked at; if it recovers none, each of those lacks
  two packets.\<close>

lemma passLoop_total:
  "retained fecs \<Longrightarrow> i \<le> length fecs \<Longrightarrow> \<exists>rest new drops'. passLoop env lookup ssrc i fecs recovered drops n =
      Some (take i fecs @ rest, recovered @ new, drops', n + length new) \<and> set rest \<subseteq> set fecs \<and>
      length rest \<le> length fecs - i \<and> (new = [] \<longrightarrow> (\<forall>s\<in>set rest. lacksTwo env lookup recovered s))"
proof (induction env lookup ssrc i fecs recovered drops n rule: passLoop.induct)
  case (1 env lookup ssrc i fecs recovered drops n)
  note step = passLoop.simps [of env lookup ssrc i fecs recovered drops n]
  let ?m = "countMissingPackets env lookup (fs_flexFEC (fecs ! i)) recovered"
  have rem: "take i (removeFECPacketAt i fecs) = take i fecs" "set (removeFECPacketAt i fecs) \<subseteq> set fecs"
      "i < length fecs \<Longrightarrow> i \<le> length (removeFECPacketAt i fecs)" "i < length fecs \<Longrightarrow> length (removeFECPacketAt i fecs) - i \<le> length fecs - i"
    by (auto simp: removeFECPacketAt_def dest: in_set_takeD in_set_dropD)
  note rr = retained_remove [OF 1(5), of i]
  show ?case
  proof (cases "i < length fecs")
    case False
    then show ?thesis by (intro exI [of _ "[]"] exI [of _ drops]) (simp add: step)
  next
    case True
    consider "?m = 0" | "?m = 1" | "?m \<noteq> 0" "?m \<noteq> 1" by blast
    then show ?thesis
    proof cases
      case 1
      then show ?thesis
        using "1.IH"(1) [OF True refl 1 rr rem(3) [OF True]] True rem rem(4) [OF True] by (fastforce simp: step)
    next
      case 2
      have "10 \<le> length (rp_Payload (fs_packet (fecs ! i)))" using "1.prems"(1) True by (fastforce simp: retained_def list_all_length)
      from recoverPacket_total [OF this] obtain r where r: "recoverPacket env lookup ssrc (fecs ! i) recovered = Some r" by blast
      show ?thesis
      proof (cases r)
        case (Inl e)
        have "?m \<noteq> 0" "\<not> ?m \<noteq> 1" using 2 by simp_all
        from "1.IH"(3) [OF True refl this r Inl rr rem(3) [OF True]] show ?thesis
          using True rem rem(4) [OF True] 2 r Inl by (fastforce simp: step)
      next
        case (Inr p)
        have "?m \<noteq> 0" "\<not> ?m \<noteq> 1" using 2 by simp_all
        from "1.IH"(4) [OF True refl this r Inr rr rem(3) [OF True]] obtain rest new drops' where
          "passLoop env lookup ssrc i (removeFECPacketAt i fecs) (recovered @ [p]) drops (n + 1) =
             Some (take i fecs @ rest, recovered @ p # new, drops', n + length (p # new))" "set rest \<subseteq> set fecs" "length rest \<le> length fecs - i"
          using rem rem(4) [OF True] by fastforce
        then show ?thesis using True 2 r Inr by (intro exI [of _ rest] exI [of _ "p # new"] exI [of _ drops']) (simp add: step)
      qed
    next
      case 3
      have "i + 1 \<le> length fecs" using True by simp
      from "1.IH"(2) [OF True refl 3 "1.prems"(1) this] obtain rest new drops' where
        "passLoop env lookup ssrc (i + 1) fecs recovered drops n = Some (take i fecs @ fecs ! i # rest, recovered @ new, drops', n + length new)"
        "set rest \<subseteq> set fecs" "length rest \<le> length fecs - (i + 1)" "new = [] \<longrightarrow> (\<forall>s\<in>set rest. lacksTwo env lookup recovered s)"
        using True by (auto simp: take_Suc_conv_app_nth)
      then show ?thesis
        using True 3 by (intro exI [of _ "fecs ! i # rest"] exI [of _ new] exI [of _ drops']) (auto simp: step lacksTwo_def)
    qed
  qed
qed

lemma recoveryLoop_total:
  "retained fecs \<Longrightarrow> \<exists>fecs' new drops'. recoveryLoop env lookup ssrc fecs recovered drops = Some (fecs', recovered @ new, drops') \<and>
     set fecs' \<subseteq> set fecs \<and> length fecs' \<le> length fecs \<and> (\<forall>s\<in>set fecs'. lacksTwo env lookup (recovered @ new) s)"
proof (induction env lookup ssrc fecs recovered drops rule: recoveryLoop.induct)
  case (1 env lookup ssrc fecs recovered drops)
  note step = recoveryLoop.simps [of env lookup ssrc fecs recovered drops]
  from passLoop_total [OF 1(2), of 0 env lookup ssrc recovered drops 0] obtain rest new drops' where
    p: "passLoop env lookup ssrc 0 fecs recovered drops 0 = Some (rest, recovered @ new, drops', length new)" "set rest \<subseteq> set fecs"
      "length rest \<le> length fecs" "new = [] \<longrightarrow> (\<forall>s\<in>set rest. lacksTwo env lookup recovered s)" by auto
  show ?case
  proof (cases "new = []")
    case True
    then show ?thesis using p by (auto simp: step)
  next
    case False
    have "retained rest" using 1(2) p(2) by (auto simp: retained_def list_all_iff)
    with 1(1) [OF p(1) refl refl refl] False p show ?thesis by (fastforce simp: step)
  qed
qed

lemma placeFECPacket_set: "set (placeFECPacket s fecs) = insert s (set fecs)" "length (placeFECPacket s fecs) = length fecs + 1"
proof -
  have "set (take k fecs @ [s] @ drop k fecs) = insert s (set fecs)" for k
    using set_append [of "take k fecs" "drop k fecs"] by auto
  then show "set (placeFECPacket s fecs) = insert s (set fecs)" by (auto simp: placeFECPacket_def Let_def)
  show "length (placeFECPacket s fecs) = length fecs + 1" by (auto simp: placeFECPacket_def Let_def min_def)
qed

text \<open>The repair packet that is inserted, if it is accepted.\<close>

definition accepted :: "('p, 'e) rtp_env \<Rightarrow> Decoder \<Rightarrow> rtpPacket \<Rightarrow> fecPacketState \<Rightarrow> bool" where
  "accepted env d pkt s \<longleftrightarrow> fs_packet s = pkt \<and>
     parseFlexFEC03Header (rp_Payload pkt) = Some (Inr (fs_flexFEC s) :: 'e fec_error + flexFEC) \<and> fx_protectedSSRC (fs_flexFEC s) = d_protectedSSRC d"
  for env :: "('p, 'e) rtp_env"

definition decoder_ok :: "Decoder \<Rightarrow> bool" where
  "decoder_ok d \<longleftrightarrow> retained (receivedFECPackets d) \<and> length (receivedFECPackets d) \<le> maxFECPackets"

lemma insertFECPacket_total:
  fixes env :: "('p, 'e) rtp_env"
  assumes "decoder_ok d"
  shows "\<exists>d'. insertFECPacket env lookup pkt d = Some d' \<and> decoder_ok d' \<and> fecSSRC d' = fecSSRC d \<and> d_protectedSSRC d' = d_protectedSSRC d \<and>
    set (receivedFECPackets d') \<subseteq> set (receivedFECPackets d) \<union> {s. accepted env d pkt s}"
proof -
  obtain r where r: "parseFlexFEC03Header (rp_Payload pkt) = Some (r :: 'e fec_error + flexFEC)" using parse_total by blast
  show ?thesis
  proof (cases r)
    case (Inl e)
    then show ?thesis using assms r by (auto simp: insertFECPacket_def decoder_ok_def)
  next
    case (Inr fec)
    let ?s = "\<lparr>fs_packet = pkt, fs_flexFEC = fec\<rparr>" and ?fecs = "placeFECPacket \<lparr>fs_packet = pkt, fs_flexFEC = fec\<rparr> (receivedFECPackets d)"
    have len: "20 \<le> length (rp_Payload pkt)" using parse_accepted(1) r Inr by blast
    have ret: "retained ?fecs" using assms len by (auto simp: retained_def list_all_iff placeFECPacket_set decoder_ok_def)
    have rem: "set (removeFECPacketAt 0 ?fecs) \<subseteq> set ?fecs" by (auto simp: removeFECPacketAt_def dest: in_set_dropD)
    let ?l = "if length ?fecs > maxFECPackets then removeFECPacketAt 0 ?fecs else ?fecs"
    have new: "retained ?l" "length ?l \<le> maxFECPackets" "set ?l \<subseteq> insert ?s (set (receivedFECPackets d))"
      using assms ret retained_remove [OF ret, of 0] rem placeFECPacket_set [of ?s "receivedFECPackets d"]
      by (auto simp: decoder_ok_def removeFECPacketAt_length)
    have acc: "fx_protectedSSRC fec = d_protectedSSRC d \<Longrightarrow> accepted env d pkt ?s" using r Inr by (simp add: accepted_def)
    show ?thesis
      using assms new acc r Inr unfolding insertFECPacket_def Let_def by (auto simp: decoder_ok_def)
  qed
qed

lemma observeMediaPacket_ok:
  "decoder_ok d \<Longrightarrow> decoder_ok (observeMediaPacket q d) \<and> fecSSRC (observeMediaPacket q d) = fecSSRC d \<and>
    d_protectedSSRC (observeMediaPacket q d) = d_protectedSSRC d \<and> set (receivedFECPackets (observeMediaPacket q d)) \<subseteq> set (receivedFECPackets d)"
  by (auto simp: observeMediaPacket_def decoder_ok_def retained_def Let_def)

lemma discardOldFECPackets_ok:
  "decoder_ok d \<Longrightarrow> decoder_ok (discardOldFECPackets q d) \<and> fecSSRC (discardOldFECPackets q d) = fecSSRC d \<and>
    d_protectedSSRC (discardOldFECPackets q d) = d_protectedSSRC d \<and> set (receivedFECPackets (discardOldFECPackets q d)) \<subseteq> set (receivedFECPackets d)"
  using length_dropWhile_le [of "\<lambda>s. seqDiff q (fs_seq s) > 0x3fff" "receivedFECPackets d"]
  by (auto simp: discardOldFECPackets_def decoder_ok_def retained_def list_all_iff dest: set_dropWhileD)

text \<open>A call, up to recovery.\<close>

definition taken :: "('p, 'e) rtp_env \<Rightarrow> 'e media_lookup \<Rightarrow> rtpPacket \<Rightarrow> Decoder \<Rightarrow> Decoder option" where
  "taken env lookup pkt d =
     (if rp_SSRC pkt = fecSSRC d
      then insertFECPacket env lookup pkt (discardOldFECPackets (rp_SequenceNumber pkt) (d\<lparr>d_stats := (d_stats d)\<lparr>
             FECPacketsReceived := FECPacketsReceived (d_stats d) + 1,
             FECBytesReceived := FECBytesReceived (d_stats d) + word_of_nat (length (rp_Payload pkt))\<rparr>\<rparr>))
      else Some (observeMediaPacket (rp_SequenceNumber pkt) d))"

lemma taken_total:
  assumes "decoder_ok d"
  shows "\<exists>d'. taken env lookup pkt d = Some d' \<and> decoder_ok d' \<and> fecSSRC d' = fecSSRC d \<and> d_protectedSSRC d' = d_protectedSSRC d \<and>
    set (receivedFECPackets d') \<subseteq> set (receivedFECPackets d) \<union> {s. rp_SSRC pkt = fecSSRC d \<and> accepted env d pkt s}"
proof (cases "rp_SSRC pkt = fecSSRC d")
  case True
  let ?d = "d\<lparr>d_stats := (d_stats d)\<lparr>FECPacketsReceived := FECPacketsReceived (d_stats d) + 1,
      FECBytesReceived := FECBytesReceived (d_stats d) + word_of_nat (length (rp_Payload pkt))\<rparr>\<rparr>"
  let ?d1 = "discardOldFECPackets (rp_SequenceNumber pkt) ?d"
  have "decoder_ok ?d" using assms by (simp add: decoder_ok_def)
  note d1 = discardOldFECPackets_ok [OF this, of "rp_SequenceNumber pkt"]
  have acc: "accepted env ?d1 pkt s \<longleftrightarrow> accepted env d pkt s" for s using d1 by (simp add: accepted_def)
  from insertFECPacket_total [OF conjunct1 [OF d1], of env lookup pkt] d1 show ?thesis
    using True by (fastforce simp: taken_def acc)
next
  case False
  then show ?thesis using observeMediaPacket_ok [OF assms, of "rp_SequenceNumber pkt"] by (auto simp: taken_def)
qed

definition recovery :: "('p, 'e) rtp_env \<Rightarrow> 'e media_lookup \<Rightarrow> Decoder \<Rightarrow> (Decoder \<times> 'p list) option" where
  "recovery env lookup d = do { (d, recovered) \<leftarrow> attemptRecovery env lookup d;
     Some (d\<lparr>d_stats := (d_stats d)\<lparr>PacketsRecovered := PacketsRecovered (d_stats d) + word_of_nat (length recovered)\<rparr>\<rparr>, recovered) }"

lemma DecodeFEC_steps:
  "DecodeFEC env lookup pkt d =
     (if rp_SSRC pkt = fecSSRC d \<or> rp_SSRC pkt = d_protectedSSRC d
      then do { d \<leftarrow> taken env lookup pkt d; recovery env lookup d } else Some (d, []))"
  by (simp add: DecodeFEC_def taken_def recovery_def Let_def)

fun decodeRun :: "('p, 'e) rtp_env \<Rightarrow> ('e media_lookup \<times> rtpPacket) list \<Rightarrow> Decoder \<Rightarrow> (Decoder \<times> 'p list list) option" where
  "decodeRun env [] d = Some (d, [])"
| "decodeRun env ((lookup, pkt) # inputs) d =
     do { (d, ps) \<leftarrow> DecodeFEC env lookup pkt d; (d, pss) \<leftarrow> decodeRun env inputs d; Some (d, ps # pss) }"

lemma recovery_total:
  assumes "decoder_ok d"
  shows "\<exists>d' ps. recovery env lookup d = Some (d', ps) \<and> decoder_ok d' \<and> fecSSRC d' = fecSSRC d \<and> d_protectedSSRC d' = d_protectedSSRC d \<and>
    set (receivedFECPackets d') \<subseteq> set (receivedFECPackets d) \<and> (\<forall>s\<in>set (receivedFECPackets d'). lacksTwo env lookup ps s)"
proof -
  from assms recoveryLoop_total [of "receivedFECPackets d" env lookup "d_protectedSSRC d" "[]" 0] show ?thesis
    by (fastforce simp: recovery_def attemptRecovery_def decoder_ok_def retained_def list_all_iff)
qed

lemma DecodeFEC_total:
  assumes "decoder_ok d"
  shows "\<exists>d' ps. DecodeFEC env lookup pkt d = Some (d', ps) \<and> decoder_ok d' \<and> fecSSRC d' = fecSSRC d \<and> d_protectedSSRC d' = d_protectedSSRC d \<and>
    set (receivedFECPackets d') \<subseteq> set (receivedFECPackets d) \<union> {s. rp_SSRC pkt = fecSSRC d \<and> accepted env d pkt s} \<and>
    (rp_SSRC pkt = fecSSRC d \<or> rp_SSRC pkt = d_protectedSSRC d \<longrightarrow> (\<forall>s\<in>set (receivedFECPackets d'). lacksTwo env lookup ps s))"
proof -
  obtain d1 where d1: "taken env lookup pkt d = Some d1" "decoder_ok d1" "fecSSRC d1 = fecSSRC d" "d_protectedSSRC d1 = d_protectedSSRC d"
      "set (receivedFECPackets d1) \<subseteq> set (receivedFECPackets d) \<union> {s. rp_SSRC pkt = fecSSRC d \<and> accepted env d pkt s}"
    using taken_total [OF assms] by blast
  from recovery_total [OF d1(2), of env lookup] d1 assms show ?thesis by (fastforce simp: DecodeFEC_steps)
qed

lemma decodeRun_total:
  assumes "decoder_ok d"
  shows "\<exists>d' pss. decodeRun env inputs d = Some (d', pss) \<and> decoder_ok d' \<and> fecSSRC d' = fecSSRC d \<and> d_protectedSSRC d' = d_protectedSSRC d"
  using assms
proof (induction inputs arbitrary: d)
  case (Cons i inputs)
  obtain lookup pkt where i: "i = (lookup, pkt)" by (cases i)
  obtain d1 ps where "DecodeFEC env lookup pkt d = Some (d1, ps)" "decoder_ok d1" "fecSSRC d1 = fecSSRC d" "d_protectedSSRC d1 = d_protectedSSRC d"
    using DecodeFEC_total [OF Cons.prems] by blast
  with Cons.IH [of d1] i show ?case by auto
qed simp

lemma decodeRun_append:
  "decodeRun env (xs @ ys) d = do { (d, pss) \<leftarrow> decodeRun env xs d; (d, qss) \<leftarrow> decodeRun env ys d; Some (d, pss @ qss) }"
proof (induction xs arbitrary: d)
  case Nil
  show ?case by (cases "decodeRun env ys d") auto
next
  case (Cons i xs)
  obtain lookup pkt where "i = (lookup, pkt)" by (cases i)
  then show ?case
    using Cons by (cases "DecodeFEC env lookup pkt d") (auto simp: split_beta split: Option.bind_split)
qed

lemma NewDecoder_ok: "decoder_ok (NewDecoder fec prot)"
  by (simp add: decoder_ok_def NewDecoder_def retained_def)

text \<open>C7. Whatever packets arrive, and whatever the store of media packets answers, every call of the decoder returns: no index is
  out of range and recovery ends. At most 100 repair packets are kept, and recovery is complete: behind every packet of the
  two streams, each repair packet that is still kept lacks at least two of the packets it protects, counting those recovered.\<close>

theorem decoder_recovers_all:
  "\<exists>d pss ps. decodeRun env (inputs @ [(lookup, pkt)]) (NewDecoder fec prot) = Some (d, pss @ [ps]) \<and>
    length (receivedFECPackets d) \<le> maxFECPackets \<and>
    (rp_SSRC pkt = fec \<or> rp_SSRC pkt = prot \<longrightarrow>
      (\<forall>s\<in>set (receivedFECPackets d). countMissingPackets env lookup (fs_flexFEC s) ps \<ge> 2))"
proof -
  obtain d1 pss where d1: "decodeRun env inputs (NewDecoder fec prot) = Some (d1, pss)" "decoder_ok d1" "fecSSRC d1 = fec" "d_protectedSSRC d1 = prot"
    using decodeRun_total [OF NewDecoder_ok [of fec prot], of env inputs] by (auto simp: NewDecoder_def)
  from DecodeFEC_total [OF d1(2), of env lookup pkt] d1 show ?thesis
    by (fastforce simp: decodeRun_append decoder_ok_def lacksTwo_def)
qed

section \<open>An honest stream: what is recovered is what was lost\<close>

text \<open>The packets of the protected stream, one for each sequence number, which the RTP library reads and writes back.\<close>

definition stream :: "('p, 'e) rtp_env \<Rightarrow> u32 \<Rightarrow> (u16 \<Rightarrow> u8 list) \<Rightarrow> bool" where
  "stream env ssrc raw \<longleftrightarrow> (\<forall>q. mediaPacket ssrc q (raw q) \<and>
     (\<exists>p. rp_unmarshal env (raw q) = Inr p \<and> rp_marshal env p = Inr (raw q) \<and> rp_sequence env p = q))"

definition honest_store :: "(u16 \<Rightarrow> u8 list) \<Rightarrow> 'e media_lookup \<Rightarrow> bool" where
  "honest_store raw lookup \<longleftrightarrow> (case lookup of None \<Rightarrow> True | Some look \<Rightarrow> \<forall>q bs. look q = Inr bs \<longrightarrow> bs = raw q)"

definition genuine :: "('p, 'e) rtp_env \<Rightarrow> (u16 \<Rightarrow> u8 list) \<Rightarrow> u32 \<Rightarrow> u32 \<Rightarrow> rtpPacket \<Rightarrow> bool" where
  "genuine env raw fec prot pkt \<longleftrightarrow>
     (\<forall>fx. rp_SSRC pkt = fec \<and> parseFlexFEC03Header (rp_Payload pkt) = Some (Inr fx :: 'e fec_error + flexFEC) \<and> fx_protectedSSRC fx = prot \<longrightarrow>
       protects raw \<lparr>fs_packet = pkt, fs_flexFEC = fx\<rparr>)"
  for env :: "('p, 'e) rtp_env"

definition recoveredFrom :: "('p, 'e) rtp_env \<Rightarrow> (u16 \<Rightarrow> u8 list) \<Rightarrow> 'p list \<Rightarrow> bool" where
  "recoveredFrom env raw ps \<longleftrightarrow> distinct (map (rp_sequence env) ps) \<and>
     (\<forall>p\<in>set ps. rp_unmarshal env (raw (rp_sequence env p)) = Inr p \<and> rp_marshal env p = Inr (raw (rp_sequence env p)))"

lemma getMediaPacket_honest:
  assumes "honest_store raw lookup" "recoveredFrom env raw ps" "getMediaPacket env lookup q ps = Inr bs"
  shows "bs = raw q"
proof (cases "find (\<lambda>p. rp_sequence env p = q) ps")
  case None
  then show ?thesis using assms(1,3) by (auto simp: getMediaPacket_def honest_store_def split: option.splits sum.splits)
next
  case (Some p)
  then have "p \<in> set ps" "rp_sequence env p = q" by (auto simp: find_Some_iff)
  then show ?thesis using assms(2,3) Some by (auto simp: getMediaPacket_def recoveredFrom_def)
qed

text \<open>A packet that is missing is not among those recovered, and not in the store.\<close>

lemma getMediaPacket_missing:
  assumes "recoveredFrom env raw ps" "getMediaPacket env lookup q ps = Inl e"
  shows "q \<notin> rp_sequence env ` set ps" "\<forall>look bs. lookup = Some look \<longrightarrow> look q \<noteq> Inr bs"
proof -
  have n: "find (\<lambda>p. rp_sequence env p = q) ps = None"
  proof (rule ccontr)
    assume "find (\<lambda>p. rp_sequence env p = q) ps \<noteq> None"
    then obtain p where p: "find (\<lambda>p. rp_sequence env p = q) ps = Some p" by auto
    then have "p \<in> set ps" by (auto simp: find_Some_iff)
    then show False using assms p by (auto simp: getMediaPacket_def recoveredFrom_def)
  qed
  then show "q \<notin> rp_sequence env ` set ps" by (auto simp: find_None_iff)
  show "\<forall>look bs. lookup = Some look \<longrightarrow> look q \<noteq> Inr bs" using n assms(2) by (auto simp: getMediaPacket_def)
qed

lemma countMissing_one:
  "countMissingLoop env lookup ps qs m = Suc 0 \<Longrightarrow> distinct qs \<Longrightarrow>
    (if m = 0 then \<exists>s\<in>set qs. \<forall>q\<in>set qs. (\<exists>e. getMediaPacket env lookup q ps = Inl e) \<longleftrightarrow> q = s
     else \<forall>q\<in>set qs. \<exists>bs. getMediaPacket env lookup q ps = Inr bs)"
proof (induction qs arbitrary: m)
  case (Cons q qs)
  show ?case
  proof (cases "getMediaPacket env lookup q ps")
    case (Inl e)
    then have "m = 0 \<and> countMissingLoop env lookup ps qs (Suc 0) = Suc 0" using Cons.prems(1) by (auto split: if_splits)
    then show ?thesis using Cons.IH [of "Suc 0"] Cons.prems(2) Inl by (auto intro!: bexI [of _ q])
  next
    case (Inr bs)
    then show ?thesis using Cons.IH [of m] Cons.prems by (fastforce split: if_splits)
  qed
qed (auto split: if_splits)

text \<open>With one packet missing it is recovered.\<close>

lemma recover_missing:
  assumes st: "stream env ssrc raw" and h: "honest_store raw lookup" and r: "recoveredFrom env raw ps" and p: "protects raw s"
    and one: "countMissingPackets env lookup (fs_flexFEC s) ps = 1"
  shows "\<exists>p. recoverPacket env lookup ssrc s ps = Some (Inr p) \<and> recoveredFrom env raw (ps @ [p]) \<and>
    (\<forall>look bs. lookup = Some look \<longrightarrow> look (rp_sequence env p) \<noteq> Inr bs)"
proof -
  let ?qs = "protectedSequences (fs_flexFEC s)"
  have "countMissingLoop env lookup ps ?qs 0 = Suc 0" using one by (simp add: countMissingPackets_def)
  from countMissing_one [OF this protectedSequences_distinct]
  obtain q where q: "q \<in> set ?qs" "\<forall>q'\<in>set ?qs. (\<exists>e. getMediaPacket env lookup q' ps = Inl e) \<longleftrightarrow> q' = q" by auto
  have len: "12 \<le> length (raw q')" for q' using st by (simp add: stream_def mediaPacket_def)
  have "allBut (\<lambda>q. getMediaPacket env lookup q ps) raw q ?qs"
    unfolding allBut_def
  proof
    fix q' assume "q' \<in> set ?qs"
    then show "if q' = q then \<exists>e. getMediaPacket env lookup q' ps = Inl e
        else getMediaPacket env lookup q' ps = Inr (raw q') \<and> 12 \<le> length (raw q')"
      using q(2) len getMediaPacket_honest [OF h r, of q'] by (cases "getMediaPacket env lookup q' ps") auto
  qed
  note exact = recoverPacket_exact [OF p _ q(1) this, of ssrc]
  obtain pk where pk: "mediaPacket ssrc q (raw q)" "rp_unmarshal env (raw q) = Inr pk" "rp_marshal env pk = Inr (raw q)" "rp_sequence env pk = q"
    using st unfolding stream_def by blast
  then have rec: "recoverPacket env lookup ssrc s ps = Some (Inr pk)" using exact by simp
  obtain e where "getMediaPacket env lookup q ps = Inl e" using q by blast
  from getMediaPacket_missing [OF r this] have m: "q \<notin> rp_sequence env ` set ps" "\<forall>look bs. lookup = Some look \<longrightarrow> look q \<noteq> Inr bs" .
  then have "recoveredFrom env raw (ps @ [pk])" using r pk by (auto simp: recoveredFrom_def)
  then show ?thesis using rec pk(4) m(2) by blast
qed

definition lostOnes :: "('p, 'e) rtp_env \<Rightarrow> 'e media_lookup \<Rightarrow> 'p list \<Rightarrow> bool" where
  "lostOnes env lookup new \<longleftrightarrow> (\<forall>p\<in>set new. \<forall>look bs. lookup = Some look \<longrightarrow> look (rp_sequence env p) \<noteq> Inr bs)"

text \<open>What a pass, and recovery, add: packets of the stream that are not in the store; and of honest repair packets none is
  discarded.\<close>

definition adds :: "('p, 'e) rtp_env \<Rightarrow> 'e media_lookup \<Rightarrow> (u16 \<Rightarrow> u8 list) \<Rightarrow> 'p list \<Rightarrow> 'p list \<Rightarrow> bool" where
  "adds env lookup raw ps ps' \<longleftrightarrow> (\<exists>new. ps' = ps @ new \<and> lostOnes env lookup new) \<and> recoveredFrom env raw ps'"

lemma adds_refl: "recoveredFrom env raw ps \<Longrightarrow> adds env lookup raw ps ps"
  by (simp add: adds_def lostOnes_def)

lemma adds_step: "lostOnes env lookup [p] \<Longrightarrow> adds env lookup raw (ps @ [p]) ps' \<Longrightarrow> adds env lookup raw ps ps'"
  by (auto simp: adds_def lostOnes_def)

lemma adds_trans: "adds env lookup raw ps ps' \<Longrightarrow> adds env lookup raw ps' ps'' \<Longrightarrow> adds env lookup raw ps ps''"
  by (auto simp: adds_def lostOnes_def)

lemma passLoop_honest:
  "passLoop env lookup ssrc i fecs recovered drops n = Some (fecs', recovered', drops', n') \<Longrightarrow>
    stream env ssrc raw \<Longrightarrow> honest_store raw lookup \<Longrightarrow> recoveredFrom env raw recovered \<Longrightarrow> \<forall>s\<in>set fecs. protects raw s \<Longrightarrow>
    adds env lookup raw recovered recovered' \<and> drops' = drops"
proof (induction env lookup ssrc i fecs recovered drops n rule: passLoop.induct)
  case (1 env lookup ssrc i fecs recovered drops n)
  note step = passLoop.simps [of env lookup ssrc i fecs recovered drops n]
  let ?m = "countMissingPackets env lookup (fs_flexFEC (fecs ! i)) recovered"
  note hyps = 1(6-8)
  have rem: "\<forall>s\<in>set (removeFECPacketAt i fecs). protects raw s"
    using 1(9) by (auto simp: removeFECPacketAt_def dest: in_set_takeD in_set_dropD)
  show ?case
  proof (cases "i < length fecs")
    case False
    then show ?thesis using 1(5) hyps(3) adds_refl by (auto simp: step)
  next
    case True
    consider "?m = 0" | "?m = 1" | "?m \<noteq> 0" "?m \<noteq> 1" by blast
    then show ?thesis
    proof cases
      case 1
      then show ?thesis using "1.IH"(1) [OF True refl 1 _ hyps rem] "1.prems"(1) True by (simp add: step)
    next
      case 2
      have m: "?m \<noteq> 0" "\<not> ?m \<noteq> 1" using 2 by simp_all
      have "protects raw (fecs ! i)" using "1.prems"(5) True by simp
      from recover_missing [OF hyps this 2] obtain p where
        p: "recoverPacket env lookup ssrc (fecs ! i) recovered = Some (Inr p)" "recoveredFrom env raw (recovered @ [p])" "lostOnes env lookup [p]"
        by (auto simp: lostOnes_def)
      have "passLoop env lookup ssrc i (removeFECPacketAt i fecs) (recovered @ [p]) drops (n + 1) = Some (fecs', recovered', drops', n')"
        using "1.prems"(1) True 2 p(1) by (simp add: step)
      from "1.IH"(4) [OF True refl m p(1) refl this hyps(1,2) p(2) rem] show ?thesis using adds_step [OF p(3)] by blast
    next
      case 3
      then show ?thesis using "1.IH"(2) [OF True refl 3 _ hyps "1.prems"(5)] "1.prems"(1) True by (simp add: step)
    qed
  qed
qed

lemma recoveryLoop_honest:
  "recoveryLoop env lookup ssrc fecs recovered drops = Some (fecs', recovered', drops') \<Longrightarrow> retained fecs \<Longrightarrow>
    stream env ssrc raw \<Longrightarrow> honest_store raw lookup \<Longrightarrow> recoveredFrom env raw recovered \<Longrightarrow> \<forall>s\<in>set fecs. protects raw s \<Longrightarrow>
    adds env lookup raw recovered recovered' \<and> drops' = drops"
proof (induction env lookup ssrc fecs recovered drops rule: recoveryLoop.induct)
  case (1 env lookup ssrc fecs recovered drops)
  note step = recoveryLoop.simps [of env lookup ssrc fecs recovered drops]
  from passLoop_total [OF 1(3), of 0 env lookup ssrc recovered drops 0] obtain rest new d where
    p: "passLoop env lookup ssrc 0 fecs recovered drops 0 = Some (rest, recovered @ new, d, length new)" "set rest \<subseteq> set fecs" by auto
  note pass = passLoop_honest [OF p(1) 1(4-7)]
  show ?case
  proof (cases "new = []")
    case True
    then show ?thesis using 1(2) p pass by (auto simp: step)
  next
    case False
    then have n: "length new \<noteq> 0" by simp
    have rec: "recoveryLoop env lookup ssrc rest (recovered @ new) d = Some (fecs', recovered', drops')"
      using 1(2) p(1) n by (simp add: step)
    have "retained rest" "recoveredFrom env raw (recovered @ new)" "\<forall>s\<in>set rest. protects raw s"
      using 1(3,7) p(2) pass by (auto simp: retained_def list_all_iff adds_def)
    from 1(1) [OF p(1) refl refl refl n rec this(1) 1(4,5) this(2,3)] show ?thesis using pass adds_trans by blast
  qed
qed

lemma DecodeFEC_honest:
  assumes d: "decoder_ok d" "\<forall>s\<in>set (receivedFECPackets d). protects raw s" and st: "stream env (d_protectedSSRC d) raw"
    and h: "honest_store raw lookup" and g: "genuine env raw (fecSSRC d) (d_protectedSSRC d) pkt" and run: "DecodeFEC env lookup pkt d = Some (d', ps)"
  shows "recoveredFrom env raw ps \<and> lostOnes env lookup ps \<and> decoder_ok d' \<and> fecSSRC d' = fecSSRC d \<and> d_protectedSSRC d' = d_protectedSSRC d \<and>
    (\<forall>s\<in>set (receivedFECPackets d'). protects raw s)"
proof -
  have acc: "protects raw s" if "rp_SSRC pkt = fecSSRC d" "accepted env d pkt s" for s
    using g that by (cases s) (auto simp: genuine_def accepted_def)
  obtain d1 where d1: "taken env lookup pkt d = Some d1" "decoder_ok d1" "d_protectedSSRC d1 = d_protectedSSRC d"
      "\<forall>s\<in>set (receivedFECPackets d1). protects raw s"
    using taken_total [OF d(1), of env lookup pkt] acc d(2) by fastforce
  have "recoveredFrom env raw ps \<and> lostOnes env lookup ps"
  proof (cases "rp_SSRC pkt = fecSSRC d \<or> rp_SSRC pkt = d_protectedSSRC d")
    case True
    then obtain fecs drops where "recoveryLoop env lookup (d_protectedSSRC d) (receivedFECPackets d1) [] 0 = Some (fecs, ps, drops)"
      using run d1(1,3) by (auto simp: DecodeFEC_steps recovery_def attemptRecovery_def bind_eq_Some_conv)
    from recoveryLoop_honest [OF this _ st h _ d1(4)] d1(2) show ?thesis by (auto simp: decoder_ok_def adds_def recoveredFrom_def)
  next
    case False
    then show ?thesis using run by (auto simp: DecodeFEC_steps recoveredFrom_def lostOnes_def)
  qed
  moreover from DecodeFEC_total [OF d(1), of env lookup pkt] run acc d(2) have
    "decoder_ok d' \<and> fecSSRC d' = fecSSRC d \<and> d_protectedSSRC d' = d_protectedSSRC d \<and> (\<forall>s\<in>set (receivedFECPackets d'). protects raw s)" by fastforce
  ultimately show ?thesis by blast
qed

text \<open>C6. In a stream whose repair packets are the parity of the packets they protect, and with a store that never answers
  with other bytes than those sent, everything the decoder returns is, byte for byte, a packet of the stream: one that the store
  did not have, and each at most once per call, also when it is rebuilt from packets that were rebuilt before.\<close>

theorem decoder_exact:
  assumes "stream env prot raw" "\<forall>i < length inputs. honest_store raw (fst (inputs ! i)) \<and> genuine env raw fec prot (snd (inputs ! i))"
  shows "\<exists>d pss. decodeRun env inputs (NewDecoder fec prot) = Some (d, pss) \<and> length pss = length inputs \<and>
    (\<forall>i < length inputs. distinct (map (rp_sequence env) (pss ! i)) \<and>
      (\<forall>p\<in>set (pss ! i). rp_unmarshal env (raw (rp_sequence env p)) = Inr p \<and>
        (\<forall>look bs. fst (inputs ! i) = Some look \<longrightarrow> look (rp_sequence env p) \<noteq> Inr bs)))"
proof -
  have run: "\<exists>d' pss. decodeRun env inputs d = Some (d', pss) \<and> length pss = length inputs \<and>
      (\<forall>i < length inputs. recoveredFrom env raw (pss ! i) \<and> lostOnes env (fst (inputs ! i)) (pss ! i))"
    if "decoder_ok d" "\<forall>s\<in>set (receivedFECPackets d). protects raw s" "fecSSRC d = fec" "d_protectedSSRC d = prot"
      "\<forall>i < length inputs. honest_store raw (fst (inputs ! i)) \<and> genuine env raw fec prot (snd (inputs ! i))" for d inputs
    using that
  proof (induction inputs arbitrary: d)
    case (Cons x inputs)
    obtain lookup pkt where x: "x = (lookup, pkt)" by (cases x)
    have hx: "honest_store raw lookup" "genuine env raw fec prot pkt" using Cons.prems(5) x by fastforce+
    have rest: "\<forall>i < length inputs. honest_store raw (fst (inputs ! i)) \<and> genuine env raw fec prot (snd (inputs ! i))"
      using Cons.prems(5) by fastforce
    obtain d1 ps where d1: "DecodeFEC env lookup pkt d = Some (d1, ps)" using DecodeFEC_total [OF Cons.prems(1)] by blast
    note one = DecodeFEC_honest [OF Cons.prems(1,2) _ hx(1) _ d1, unfolded Cons.prems(3,4), OF assms(1) hx(2)]
    from Cons.IH [of d1, OF _ _ _ _ rest] one obtain d2 pss where
      d2: "decodeRun env inputs d1 = Some (d2, pss)" "length pss = length inputs"
        "\<forall>i < length inputs. recoveredFrom env raw (pss ! i) \<and> lostOnes env (fst (inputs ! i)) (pss ! i)" by blast
    then show ?case using d1 one x by (intro exI [of _ d2] exI [of _ "ps # pss"]) (auto simp: nth_Cons split: nat.splits)
  qed simp
  from run [OF NewDecoder_ok _ _ _ assms(2)] show ?thesis by (fastforce simp: NewDecoder_def recoveredFrom_def lostOnes_def)
qed

text \<open>A stream of packets with one byte of payload, and a repair packet for the numbers 5 and 6.\<close>

definition exampleRaw :: "u16 \<Rightarrow> u8 list" where
  "exampleRaw q = [0x80, 0, ucast (drop_bit 8 q), ucast q, 0, 0, 0, 0, 0, 0, 0, 7, ucast q]"

definition exampleEnv :: "(u8 list, unit) rtp_env" where
  "exampleEnv = \<lparr>rp_unmarshal = Inr, rp_marshal = Inr, rp_sequence = (\<lambda>p. push_bit 8 (ucast (p ! 2)) OR ucast (p ! 3))\<rparr>"

definition exampleRepair :: rtpPacket where
  "exampleRepair = \<lparr>rp_SSRC = 9, rp_SequenceNumber = 1,
     rp_Payload = [0, 0, 0, 0, 0, 0, 0, 0, 1, 0, 0, 0, 0, 0, 0, 7, 0, 5, 0xE0, 0, 3]\<rparr>"

definition exampleStore :: "unit media_lookup" where
  "exampleStore = Some (\<lambda>q. if q = 6 then Inl () else Inr (exampleRaw q))"

lemma fec_example_stream: "stream exampleEnv 7 exampleRaw"
  by (auto simp: stream_def mediaPacket_def exampleRaw_def exampleEnv_def maxMediaPacketSize_def join_bytes)

lemma fec_example_repair:
  "parseFlexFEC03Header (rp_Payload exampleRepair) = Some (Inr \<lparr>fx_protectedSSRC = 7, seqNumBase = 5, mask0 = 0x6000, mask1 = 0, mask2 = 0, fx_payload = [3]\<rparr>)"
  by (simp add: parseFlexFEC03Header_def exampleRepair_def byte_def bigEndian_def fecRetransmissionBit_def fecInflexibleBit_def fecMaskKBit_def
      fecMask0Value_def Let_def)

lemma fec_example_sequences: "protectedSequences \<lparr>fx_protectedSSRC = 7, seqNumBase = 5, mask0 = 0x6000, mask1 = 0, mask2 = 0, fx_payload = [3]\<rparr> = [5, 6]"
  by code_simp

lemma fec_example_genuine: "genuine exampleEnv exampleRaw 9 7 exampleRepair"
proof -
  have s: "{Suc 0..<8} = {1, 2, 3, 4, 5, 6, 7}" by auto
  show ?thesis
    by (simp add: genuine_def fec_example_repair protects_def fec_example_sequences s exampleRaw_def headerByte_def payloadByte_def Let_def)
      (simp add: exampleRepair_def)
qed

lemma fec_example_recovers: "map_option snd (DecodeFEC exampleEnv exampleStore exampleRepair (NewDecoder 9 7)) = Some [exampleRaw 6]"
  by code_simp

theorem decoder_exact_witness:
  "\<exists>d pss. decodeRun exampleEnv [(exampleStore, exampleRepair), (exampleStore, exampleRepair)] (NewDecoder 9 7) = Some (d, pss) \<and>
    length pss = length [(exampleStore, exampleRepair), (exampleStore, exampleRepair)] \<and>
    (\<forall>i < length [(exampleStore, exampleRepair), (exampleStore, exampleRepair)]. distinct (map (rp_sequence exampleEnv) (pss ! i)) \<and>
      (\<forall>p\<in>set (pss ! i). rp_unmarshal exampleEnv (exampleRaw (rp_sequence exampleEnv p)) = Inr p \<and>
        (\<forall>look bs. fst ([(exampleStore, exampleRepair), (exampleStore, exampleRepair)] ! i) = Some look \<longrightarrow> look (rp_sequence exampleEnv p) \<noteq> Inr bs)))"
proof (rule decoder_exact [OF fec_example_stream])
  have "honest_store exampleRaw exampleStore" by (auto simp: honest_store_def exampleStore_def split: if_splits)
  then show "\<forall>i < length [(exampleStore, exampleRepair), (exampleStore, exampleRepair)].
      honest_store exampleRaw (fst ([(exampleStore, exampleRepair), (exampleStore, exampleRepair)] ! i)) \<and>
      genuine exampleEnv exampleRaw 9 7 (snd ([(exampleStore, exampleRepair), (exampleStore, exampleRepair)] ! i))"
    using fec_example_genuine by (auto simp: less_Suc_eq)
qed

theorem decoder_recovers_all_witness:
  "\<exists>d pss ps. decodeRun exampleEnv ([(exampleStore, exampleRepair)] @ [(exampleStore, exampleRepair\<lparr>rp_SSRC := 7\<rparr>)]) (NewDecoder 9 7) =
      Some (d, pss @ [ps]) \<and>
    length (receivedFECPackets d) \<le> maxFECPackets \<and>
    (\<forall>s\<in>set (receivedFECPackets d). countMissingPackets exampleEnv exampleStore (fs_flexFEC s) ps \<ge> 2)"
  using decoder_recovers_all [of exampleEnv "[(exampleStore, exampleRepair)]" exampleStore "exampleRepair\<lparr>rp_SSRC := 7\<rparr>" 9 7] by simp

section \<open>Masks\<close>

lemma one_bit: "drop_bit n w AND 1 = 1 \<longleftrightarrow> bit w n" for w :: u64
  by (simp add: and_one_eq bit_iff_odd_drop_bit odd_iff_mod_2_eq_one)

lemma set_offsets: "i \<in> set (offsets bits n start) \<longleftrightarrow> start \<le> i \<and> i < start + n \<and> bit bits (n - 1 - (i - start))"
  by (auto simp: offsets_def one_bit image_iff intro: exI [of _ "i - start"])

text \<open>C40. The sequence numbers that a repair packet protects are those whose bit is set in its masks of 15, 31 and 63 bits, read from the
  most significant one, behind the base number; they are different, and no more than the 109 that the decoder has room for.\<close>

theorem protectedSequences_masks:
  "distinct (protectedSequences f) \<and> length (protectedSequences f) \<le> maxProtectedPackets \<and>
   (q \<in> set (protectedSequences f) \<longleftrightarrow>
     (let i = unat (q - seqNumBase f)
      in if i < 15 then bit (mask0 f) (14 - i) else if i < 46 then bit (mask1 f) (45 - i) else i < 109 \<and> bit (mask2 f) (108 - i)))"
proof -
  let ?i = "unat (q - seqNumBase f)"
  have "q = seqNumBase f + word_of_nat i \<longleftrightarrow> i = ?i" if "i < 109" for i
  proof
    assume "q = seqNumBase f + word_of_nat i"
    then have "q - seqNumBase f = word_of_nat i" by simp
    then show "i = ?i" using that by (simp add: unat_of_nat)
  qed simp
  then have "q \<in> set (protectedSequences f) \<longleftrightarrow> ?i \<in> set (protectedOffsets f)"
    using protectedOffsets_sorted(2) [of f] by (auto simp: protectedSequences_offsets image_iff)
  also have "\<dots> \<longleftrightarrow> (if ?i < 15 then bit (mask0 f) (14 - ?i) else if ?i < 46 then bit (mask1 f) (45 - ?i) else ?i < 109 \<and> bit (mask2 f) (108 - ?i))"
    by (auto simp: protectedOffsets_def set_offsets bit_simps)
  finally show ?thesis
    using protectedSequences_distinct sorted_bounded_length [OF protectedOffsets_sorted]
    by (simp add: Let_def protectedSequences_offsets maxProtectedPackets_def fecMask0Bits_def fecMask1Bits_def fecMask2Bits_def)
qed

text \<open>Repair packets that come ever later stay, each within a quarter of the range of the first one kept, until they span more than
  half of it and the last one counts as the newest.\<close>

lemma late_repair_packets_span:
  "map_option (\<lambda>(d, _). map fs_seq (receivedFECPackets d))
     (decodeRun exampleEnv (map (\<lambda>q. (None, exampleRepair\<lparr>rp_SequenceNumber := q\<rparr>)) [0xC000, 0x8001, 0x4002, 0x0003]) (NewDecoder 9 7)) =
   Some [0x4002, 0x8001, 0xC000, 0x0003]"
  by code_simp

end
