(* ===== verification/Spec2Isabelle.thy ===== *)
theory Spec2Isabelle
  imports RTPMunger Sequencer DDRoundtrip CodecMunger AllocationBounds FlexFEC
begin

text \<open>
  Verification of the media forwarding core of LiveKit, the selective forwarding unit in \<open>src/pkg/sfu\<close>.

  \<^bold>\<open>The program.\<close> A publisher's RTP packets enter a receive buffer (\<open>buffer/buffer_base.go\<close>), which parses the dependency
  descriptor extension and hands each packet, as an \<open>ExtPacket\<close>, to the forwarder of every subscriber. The forwarder asks a video
  layer selector which packets to send, renumbers what it sends with the RTP munger and a codec munger, and remembers sent
  packets in the sequencer, which serves NACKs. The theories follow that path.

  \<^bold>\<open>Theories and sources\<close> (paths below \<open>src/pkg/sfu\<close>).
  \<^item> \<open>Prelude\<close>: word types, distances on the ring of word values, extension of a truncated counter.
  \<^item> \<open>Layers\<close>, \<open>ExtPacket\<close>: \<open>buffer/videolayer.go\<close>, and the fields of \<open>ExtPacket\<close> and \<open>ExtDependencyDescriptor\<close>.
  \<^item> \<open>OffsetMap\<close>: the interface of a map from sequence numbers to offsets, as a locale; \<open>RangeMap\<close>: \<open>utils/rangemap.go\<close>, its
    provider. \<open>RTPMunger\<close>: \<open>rtpmunger.go\<close>, and \<open>Sequencer\<close>: \<open>sequencer.go\<close>, its clients.
  \<^item> \<open>BitStream\<close>, \<open>DDReader\<close>, \<open>DDWriter\<close>, \<open>DDRoundtrip\<close>: \<open>rtpextension/dependencydescriptor\<close>, the bit streams, the parser, the
    writer, and the round trip between them.
  \<^item> \<open>FrameIntegrity\<close>, \<open>DecodeTargets\<close>, \<open>DDParser\<close>: \<open>buffer/frameintegrity.go\<close> and \<open>buffer/dependencydescriptorparser.go\<close>.
  \<^item> \<open>DecisionCache\<close>, \<open>FrameChain\<close>: \<open>selectordecisioncache.go\<close>, \<open>framechain.go\<close>, \<open>decodetarget.go\<close> and \<open>framenumberwrapper.go\<close> of
    \<open>videolayerselector\<close>.
  \<^item> \<open>LayerSelector\<close>: \<open>base.go\<close>, \<open>simulcast.go\<close>, \<open>vp9.go\<close>, \<open>null.go\<close> of \<open>videolayerselector\<close>, and \<open>temporallayerselector\<close>.
    \<open>DDSelector\<close>: \<open>dependencydescriptor.go\<close> there, with the step of \<open>processVideoPacket\<close> that feeds it.
  \<^item> \<open>CodecMunger\<close>: \<open>codecmunger\<close>, with the VP8 picture ids and the temporal filter. \<open>DDForwarder\<close>: \<open>ddforwarder.go\<close> of
    \<open>videolayerselector\<close>, the descriptors of a simulcast stream.
  \<^item> \<open>Allocation\<close>: the part of \<open>forwarder.go\<close> that allocates layers to a subscriber, with the state it needs, and runs of its
    operations. \<open>AllocationBounds\<close>: what the allocations promise the stream allocator.
  \<^item> \<open>FlexFEC\<close>: \<open>flexfec/decoder.go\<close>, the recovery of packets that are lost between publisher and receive buffer.

  \<^bold>\<open>How code is modelled.\<close> A struct is a record, and a method is a function on it with the name it has in the source, prefixed by a
  short form of its receiver where names clash. Integers of a fixed width are words; \<open>int32\<close> in \<open>CodecMunger\<close> is \<^typ>\<open>int\<close> with
  the wrap-around written out. A Go error is the left side of a sum. A run time panic (index out of range, nil dereference) is
  \<^term>\<open>None\<close>, or \<open>GoPanic\<close> in the readers of a descriptor, where the code recovers from it. Slices that alias are told apart where
  it matters. A loop that might not end is a \<open>partial_function\<close>; that it returns is proved. Callbacks that a component
  registers with another are addresses into an explicit store, and the calls are delivered in order. Logging and locks are left out:
  every operation runs under the lock of its component.

  \<^bold>\<open>What is shown.\<close>
  \<^item> Range map: the backward scan answers as the declarative reading of the ranges; excluding keys shifts later ones,
    refuses the excluded keys, and keeps every earlier answer but those of the oldest range, when the map is full and a new range is opened.
  \<^item> RTP munger: over any series of packets, drops, padding and switches each number sent is ahead of the one before by less than half of
    the number space, and all together by no more than the source advances, so that they increase as plain numbers while that does not wrap;
    they have no gap when the source has none; late packets, duplicates, padding off a frame boundary, and a migrated state behave as meant.
  \<^item> Sequencer: every packet in the ring is found again under its 16 bit number with its data; a NACK returns
    it while it is at most \<open>2 ^ 15\<close> numbers behind the highest, not handed out too often, and not asked for again too soon; retransmissions are bounded.
  \<^item> Dependency descriptors: reading refines a view of the buffer as a list of bits; no bytes make the parser panic; what is
    marshalled is parsed back, from exactly the bytes announced. The search for a template chooses one of another layer when that is cheaper than all
    of the frame's layer (finding).
  \<^item> Frame integrity and decision cache: bitmaps and rings refine the set of packets received and the map of decisions, for frames that jump no
    further than the ring less the NACK window; over any stream a frame in the window is whole exactly when its packets have come, however often its slot was
    reused. A larger jump marks frames missing that are still inside the NACK window (finding).
  \<^item> Parser to selector: no stream makes the composition panic; key frames never go back; a chain breaks when an awaited frame is
    dropped; a frame is selected only when a decode target within the target layer is intact and carries it and no direct reference
    was dropped; rolling back undoes a switch. The frame numbers of the wrapper are never seen as going back at a frame
    with a structure.
  \<^item> Simulcast locks onto a target that is not above the maximum with the first key frame of that layer, until target or maximum change; the window of the temporal selector refines the
    set of frames forwarded. The VP9 selector does not select the key frame it resumes on (finding).
  \<^item> Codec mungers: the pictures that go out are numbered without gaps across switches and filtered layers; every call returns
    while there are fewer than \<open>65535\<close> packets; about \<open>131000\<close> adversarial packets make it loop for ever (finding); the temporal
    filter decides once per frame. A packet that enters a forwarded simulcast stream and is sent moves its frame numbers ahead by at most \<open>2 ^ 14\<close>; one
    that enters it and is not sent can be followed by a larger jump (finding).
  \<^item> Allocation: no series of operations panics, and a stream without target has no current and no requested layer; provisional
    allocations stay within the capacity offered; the next higher layer (of a stream that does not overshoot, other than H264) is the lowest one
    above the target with a bit rate, taken exactly when it fits or overshoot is allowed; a cooperative transition does not move up a stream that is not muted and
    whose target has a bit rate or is above the highest layer within the maximum that has one, when there is one; it can move up a stream whose target's layer has stopped (finding).
  \<^item> Error correction: the numbers protected are those of the masks; every call returns, and stops only when each repair packet kept
    lacks two packets; what is recovered is byte for byte what was lost, also through chains of recoveries. Late repair packets can
    make the list span more than half of the sequence space (finding).

  \<^bold>\<open>Interfaces.\<close> \<open>OffsetMap\<close> has the contract of the offset map, discharged by the range map and used by munger and sequencer;
  \<open>DDSelector\<close> has the contract of a source of parsed packets, discharged by the dependency descriptor parser.

  \<^bold>\<open>Parameters.\<close> The extension of 16 bit counters in \<open>DDParser\<close> (an external package) is a pair of functions, of which the theorems
  assume that extended numbers stay below \<open>2 ^ 63\<close>. The ordered maps and the VP8 payload descriptor in \<open>CodecMunger\<close> are the fields of a
  record; the laws assumed of the maps are \<open>ordered_map\<close>. In \<open>FlexFEC\<close> the reader and writer of RTP packets and the store of media
  packets are parameters; \<open>stream\<close> and \<open>honest_store\<close> say what is assumed of them. The clock is an argument wherever it is read. Witnesses instantiate
  each parameter with a concrete function.

  \<^bold>\<open>Bounds.\<close> \<open>65535\<close> packets in the VP8 munger keep the sum of wraps, at most \<open>2 ^ 15\<close> per packet, below the last \<open>int32\<close>; the theorem on
  the endless loop shows that some bound is needed. Bit rates and capacities
  below \<open>2 ^ 62\<close> keep their sums and differences inside \<open>int64\<close>. Frame numbers below \<open>2 ^ 63\<close> keep \<open>frame + 64\<close> from wrapping.

  \<^bold>\<open>Not modelled.\<close> The packet path of the forwarder with its alignment of timestamps to the wall clock, its change of
  codec, and the transition that weighs layers by a quotient in \<open>float32\<close>; the down track, buffer and
  receivers, which are goroutines, pools and callbacks around this core; statistics, bandwidth estimation, audio levels and
  quality scores, which are floating point over time; rooms, participants, transports, services, routing, telemetry and
  configuration, which are I/O and third-party state; and generated test doubles.
\<close>

end
